(* ===== verification/Prelude.thy ===== *)
theory Prelude
  imports Main "HOL-Library.Word"
begin

text \<open>
  Shared vocabulary of the development: the C integer conversions of the sources
  (\<open>WORD\<close>, \<open>UWORD\<close>, \<open>LONG\<close>, \<open>ULONG\<close> of include/portab.h) on mathematical integers, the
  GEMDOS error numbers of include/gemerror.h, and singly linked lists in a store: a
  predicate relating a head pointer to the list of its nodes, the search loop that
  nearly every list walk of the BDOS is an instance of, and lemmas on insertion into and
  removal from such lists.
\<close>

unbundle bit_operations_syntax

named_theorems c_ints \<open>range facts about the C integer conversions\<close>
named_theorems chain_rules \<open>facts about linked lists in a store\<close>

section \<open>C integers\<close>

text \<open>Conversion to a signed or unsigned type of 8, 16 or 32 bits: reduction modulo the
  width, read back in two's complement for the signed ones.\<close>

definition s8 :: "int \<Rightarrow> int" where "s8 x = (x + 2 ^ 7) mod 2 ^ 8 - 2 ^ 7"
definition u8 :: "int \<Rightarrow> int" where "u8 x = x mod 2 ^ 8"
definition s16 :: "int \<Rightarrow> int" where "s16 x = (x + 2 ^ 15) mod 2 ^ 16 - 2 ^ 15"
definition u16 :: "int \<Rightarrow> int" where "u16 x = x mod 2 ^ 16"
definition s32 :: "int \<Rightarrow> int" where "s32 x = (x + 2 ^ 31) mod 2 ^ 32 - 2 ^ 31"
definition u32 :: "int \<Rightarrow> int" where "u32 x = x mod 2 ^ 32"

lemma s8_id [c_ints]: "- 128 \<le> x \<Longrightarrow> x < 128 \<Longrightarrow> s8 x = x"
  by (simp add: s8_def)

lemma s16_id [c_ints, simp]: "- 32768 \<le> x \<Longrightarrow> x < 32768 \<Longrightarrow> s16 x = x"
  by (simp add: s16_def)

lemma u16_id [c_ints, simp]: "0 \<le> x \<Longrightarrow> x < 65536 \<Longrightarrow> u16 x = x"
  by (simp add: u16_def)

lemma s32_id [c_ints, simp]: "- 2147483648 \<le> x \<Longrightarrow> x < 2147483648 \<Longrightarrow> s32 x = x"
  by (simp add: s32_def)

lemma u32_id [c_ints, simp]: "0 \<le> x \<Longrightarrow> x < 4294967296 \<Longrightarrow> u32 x = x"
  by (simp add: u32_def)

lemma s32_range [c_ints]: "- 2147483648 \<le> s32 x \<and> s32 x < 2147483648"
  unfolding s32_def by (simp; smt (verit) pos_mod_bound pos_mod_sign)

lemma s16_range [c_ints]: "- 32768 \<le> s16 x \<and> s16 x < 32768"
  unfolding s16_def by (simp; smt (verit) pos_mod_bound pos_mod_sign)

lemma u16_range [c_ints]: "0 \<le> u16 x \<and> u16 x < 65536"
  unfolding u16_def by simp

text \<open>Masking off the low bits of an integer rounds it down to a multiple of a power of two.\<close>

lemma and_not_mask_int: "(x :: int) AND NOT (2 ^ n - 1) = x - x mod 2 ^ n"
proof -
  have "x AND NOT (mask n) = push_bit n (drop_bit n x)"
    by (rule bit_eqI) (auto simp: bit_simps)
  also have "\<dots> = x - x mod 2 ^ n"
    by (simp add: push_bit_eq_mult drop_bit_eq_div minus_mod_eq_div_mult)
  finally show ?thesis by (simp add: mask_eq_exp_minus_1)
qed

text \<open>Mixed-radix numbers: packing fields into one number and taking them out again.\<close>

lemma mixed_radix_split: "(n :: nat) = n mod a + a * (n div a mod b) + a * b * (n div (a * b))"
proof -
  have "n = n mod a + a * (n div a)" by simp
  also have "n div a = n div a mod b + b * (n div (a * b))" by (simp add: div_mult2_eq)
  finally show ?thesis by (simp add: algebra_simps)
qed

lemma mixed_radix_join:
  assumes "(d :: nat) < a" and "m < b"
  shows "(d + a * m + a * b * y) mod a = d" "(d + a * m + a * b * y) div a mod b = m"
    "(d + a * m + a * b * y) div (a * b) = y"
proof -
  have e: "d + a * m + a * b * y = d + a * (m + b * y)" by (simp add: algebra_simps)
  show "(d + a * m + a * b * y) mod a = d" unfolding e using assms by simp
  have q: "(d + a * (m + b * y)) div a = m + b * y" using assms by simp
  then show "(d + a * m + a * b * y) div a mod b = m" unfolding e using assms by simp
  show "(d + a * m + a * b * y) div (a * b) = y" unfolding e div_mult2_eq q using assms by simp
qed

section \<open>GEMDOS error numbers\<close>

text \<open>include/gemerror.h.\<close>

definition E_OK :: int where "E_OK = 0"
definition ERR :: int where "ERR = - 1"
definition E_CHNG :: int where "E_CHNG = - 14"
definition EINVFN :: int where "EINVFN = - 32"
definition EFILNF :: int where "EFILNF = - 33"
definition EPTHNF :: int where "EPTHNF = - 34"
definition ENHNDL :: int where "ENHNDL = - 35"
definition EACCDN :: int where "EACCDN = - 36"
definition EIHNDL :: int where "EIHNDL = - 37"
definition ENSMEM :: int where "ENSMEM = - 39"
definition EIMBA :: int where "EIMBA = - 40"
definition EDRIVE :: int where "EDRIVE = - 46"
definition ERANGE :: int where "ERANGE = - 64"
definition EINTRN :: int where "EINTRN = - 65"
definition EGSBF :: int where "EGSBF = - 67"

lemmas error_defs = E_OK_def ERR_def E_CHNG_def EINVFN_def EFILNF_def EPTHNF_def ENHNDL_def
  EACCDN_def EIHNDL_def ENSMEM_def EIMBA_def EDRIVE_def ERANGE_def EINTRN_def EGSBF_def

section \<open>Linked lists in a store\<close>

text \<open>
  A pointer is a natural number, the null pointer is 0, and a link field is a function
  from nodes to pointers. \<open>seg nx p xs q\<close>: starting at \<open>p\<close> and following \<open>nx\<close>, the nodes
  met before \<open>q\<close> are exactly \<open>xs\<close>.
\<close>

fun seg :: "(nat \<Rightarrow> nat) \<Rightarrow> nat \<Rightarrow> nat list \<Rightarrow> nat \<Rightarrow> bool" where
  "seg nx p [] q \<longleftrightarrow> p = q"
| "seg nx p (x # xs) q \<longleftrightarrow> x = p \<and> x \<noteq> 0 \<and> seg nx (nx x) xs q"

abbreviation chain :: "(nat \<Rightarrow> nat) \<Rightarrow> nat \<Rightarrow> nat list \<Rightarrow> bool" where
  "chain nx p xs \<equiv> seg nx p xs 0"

text \<open>The first node of a list, or the null pointer.\<close>

definition hd0 :: "nat list \<Rightarrow> nat" where
  "hd0 xs = (case xs of [] \<Rightarrow> 0 | x # _ \<Rightarrow> x)"

definition last0 :: "nat list \<Rightarrow> nat" where
  "last0 xs = (if xs = [] then 0 else last xs)"

lemma hd0_simps [simp]: "hd0 [] = 0" "hd0 (x # xs) = x"
  by (simp_all add: hd0_def)

lemma last0_simps [simp]: "last0 [] = 0" "last0 (xs @ [x]) = x"
  by (simp_all add: last0_def)

lemma seg_append [chain_rules]:
  "seg nx p (xs @ ys) r \<longleftrightarrow> (\<exists>q. seg nx p xs q \<and> seg nx q ys r)"
  by (induction xs arbitrary: p) auto

lemma seg_frame [chain_rules]:
  "a \<notin> set xs \<Longrightarrow> seg (nx(a := v)) p xs q = seg nx p xs q"
  by (induction xs arbitrary: p) auto

lemma seg_cong:
  "(\<And>x. x \<in> set xs \<Longrightarrow> nx x = ny x) \<Longrightarrow> seg nx p xs q = seg ny p xs q"
  by (induction xs arbitrary: p) auto

lemma seg_nonzero: "seg nx p xs q \<Longrightarrow> 0 \<notin> set xs"
  by (induction xs arbitrary: p) auto

lemma chain_hd0: "chain nx p xs \<Longrightarrow> p = hd0 xs"
  by (cases xs) auto

lemma chain_from_hd0: "chain nx p xs \<Longrightarrow> chain nx (hd0 xs) xs"
  by (cases xs) auto

lemma chain_unique: "chain nx p xs \<Longrightarrow> chain nx p ys \<Longrightarrow> xs = ys"
proof (induction xs arbitrary: p ys)
  case Nil
  then show ?case by (cases ys) auto
next
  case (Cons x xs)
  then show ?case by (cases ys) auto
qed

lemma chain_distinct: "chain nx p xs \<Longrightarrow> distinct xs"
proof (induction xs arbitrary: p)
  case (Cons x xs)
  have "x \<notin> set xs"
  proof
    assume "x \<in> set xs"
    then obtain as bs where xs: "xs = as @ x # bs" by (metis split_list)
    with Cons.prems have "chain nx x (x # bs)" "chain nx x (x # as @ x # bs)"
      by (auto simp: seg_append)
    then have "x # bs = x # as @ x # bs" by (rule chain_unique)
    then show False by simp
  qed
  with Cons show ?case by auto
qed simp

lemma chain_next: "chain nx p (xs @ x # ys) \<Longrightarrow> nx x = hd0 ys"
  by (auto simp: seg_append dest: chain_hd0)

text \<open>
  The store idiom of the BDOS sources: \<open>q\<close> is the predecessor of the place to change, and
  a null \<open>q\<close> stands for the list head itself (\<open>if (q) q->link = v; else head = v;\<close>).
\<close>

definition relink :: "nat \<Rightarrow> nat \<Rightarrow> nat \<times> (nat \<Rightarrow> nat) \<Rightarrow> nat \<times> (nat \<Rightarrow> nat)" where
  "relink q v = (\<lambda>(h, nx). if q = 0 then (v, nx) else (h, nx(q := v)))"

lemma relink_snip:
  assumes "chain nx h (xs @ x # ys)" and "relink (last0 xs) (nx x) (h, nx) = (h', nx')"
  shows "chain nx' h' (xs @ ys)"
proof (cases xs rule: rev_cases)
  case Nil
  with assms show ?thesis by (auto simp: relink_def)
next
  case (snoc zs z)
  from assms(1) have "distinct (xs @ x # ys)" "0 \<notin> set (xs @ x # ys)"
    by (rule chain_distinct, rule seg_nonzero)
  with assms snoc show ?thesis
    by (auto simp: relink_def seg_append seg_frame)
qed

lemma relink_insert:
  assumes c: "chain nx h (xs @ ys)" and a: "a \<noteq> 0" "a \<notin> set xs" "a \<notin> set ys"
    and r: "relink (last0 xs) a (h, nx(a := hd0 ys)) = (h', nx')"
  shows "chain nx' h' (xs @ a # ys)"
proof (cases xs rule: rev_cases)
  case Nil
  moreover from Nil c have "h = hd0 ys" by (simp add: chain_hd0)
  ultimately show ?thesis using c a r by (auto simp: relink_def seg_frame)
next
  case (snoc zs z)
  from c have "distinct (xs @ ys)" "0 \<notin> set (xs @ ys)"
    by (rule chain_distinct, rule seg_nonzero)
  with c a r snoc show ?thesis
    by (auto simp: relink_def seg_append seg_frame intro: chain_from_hd0)
qed

lemma relink_replace:
  assumes c: "chain nx h (xs @ x # ys)" and a: "a \<noteq> 0" "a \<notin> set (xs @ x # ys)"
    and r: "relink (last0 xs) a (h, nx(a := nx x)) = (h', nx')"
  shows "chain nx' h' (xs @ a # ys)"
proof (cases xs rule: rev_cases)
  case Nil
  with assms show ?thesis by (auto simp: relink_def seg_frame)
next
  case (snoc zs z)
  from c have "distinct (xs @ x # ys)" "0 \<notin> set (xs @ x # ys)"
    by (rule chain_distinct, rule seg_nonzero)
  with assms snoc show ?thesis by (auto simp: relink_def seg_append seg_frame)
qed

subsection \<open>The search loop\<close>

text \<open>
  \<open>for (p = head, q = NULL; p; q = p, p = p->link) if (P p) break;\<close> The result is the pair
  of \<open>q\<close> and \<open>p\<close> when the loop is left; on a circular list without a hit it does not return.
\<close>

partial_function (option) find_link ::
  "(nat \<Rightarrow> nat) \<Rightarrow> (nat \<Rightarrow> bool) \<Rightarrow> nat \<Rightarrow> nat \<Rightarrow> (nat \<times> nat) option" where
  "find_link nx P q p =
     (if p = 0 then Some (q, 0)
      else if P p then Some (q, p)
      else find_link nx P p (nx p))"

lemma find_link_miss:
  assumes "seg nx p xs r" and "\<forall>x \<in> set xs. \<not> P x"
  shows "find_link nx P q p = find_link nx P (if xs = [] then q else last xs) r"
  using assms
proof (induction xs arbitrary: p q)
  case (Cons x xs)
  then have "find_link nx P q p = find_link nx P x (nx x)"
    by (subst find_link.simps) auto
  moreover from Cons.prems
  have "find_link nx P x (nx x) = find_link nx P (if xs = [] then x else last xs) r"
    by (intro Cons.IH) auto
  ultimately show ?case by simp
qed simp

lemma find_link_hit:
  assumes "chain nx p (xs @ x # ys)" and "\<forall>y \<in> set xs. \<not> P y" and "P x"
  shows "find_link nx P 0 p = Some (last0 xs, x)"
proof -
  from assms(1) have s: "seg nx p xs x" and "x \<noteq> 0" by (auto simp: seg_append)
  have "find_link nx P 0 p = find_link nx P (last0 xs) x"
    using find_link_miss [OF s assms(2), of 0] by (simp add: last0_def)
  also have "\<dots> = Some (last0 xs, x)"
    using \<open>x \<noteq> 0\<close> assms(3) by (simp add: find_link.simps)
  finally show ?thesis .
qed

lemma find_link_none:
  assumes "chain nx p xs" and "\<forall>y \<in> set xs. \<not> P y"
  shows "find_link nx P 0 p = Some (last0 xs, 0)"
  using find_link_miss [OF assms, of 0] by (simp add: last0_def find_link.simps)

text \<open>On a proper list the search always returns: it splits the list at the first hit.\<close>

lemma find_link_total:
  assumes "chain nx p xs"
  obtains (hit) as x bs where "xs = as @ x # bs" "\<forall>y \<in> set as. \<not> P y" "P x"
      "find_link nx P 0 p = Some (last0 as, x)"
    | (miss) "\<forall>y \<in> set xs. \<not> P y" "find_link nx P 0 p = Some (last0 xs, 0)"
proof (cases "\<exists>x \<in> set xs. P x")
  case True
  then obtain as x bs where "xs = as @ x # bs" "P x" "\<forall>y \<in> set as. \<not> P y"
    by (metis split_list_first_prop)
  with assms hit show thesis by (auto intro: find_link_hit)
next
  case False
  with assms miss show thesis by (auto intro: find_link_none)
qed

subsection \<open>Walking a whole list\<close>

text \<open>\<open>for (p = head; p; p = p->link)\<close> without an early exit: the nodes met, in order.\<close>

partial_function (option) nodes :: "(nat \<Rightarrow> nat) \<Rightarrow> nat \<Rightarrow> nat list option" where
  "nodes nx p =
     (if p = 0 then Some []
      else Option.bind (nodes nx (nx p)) (\<lambda>xs. Some (p # xs)))"

lemma nodes_chain: "chain nx p xs \<Longrightarrow> nodes nx p = Some xs"
proof (induction xs arbitrary: p)
  case Nil
  then show ?case by (simp add: nodes.simps)
next
  case (Cons x xs)
  then show ?case by (subst nodes.simps) auto
qed

end
