(* ===== verification/Clock.thy ===== *)
theory Clock
  imports Prelude
begin

text \<open>
  bios/clock.c: the real-time clock chips. A GEMDOS date/time is a 32-bit value, the date
  word on top of the time word; each chip keeps it in registers of its own. Modelled: the
  conversions to and from the register images of the ICD, MonSTer (DS1307), Mega ST,
  TT/Falcon NVRAM, IKBD and UltraSatan clocks, and the dispatch of \<open>settime\<close> and
  \<open>gettime\<close>. A chip is its register file; the bus transfers that copy a register image to
  and from the hardware, and the ticking of the hardware, are not modelled. The widths are
  those of the m68k build (16-bit \<open>int\<close>).
\<close>

type_synonym UBYTE = "8 word"
type_synonym UWORD = "16 word"
type_synonym ULONG = "32 word"

section \<open>Splitting and joining words\<close>

text \<open>include/portab.h: \<open>MAKE_ULONG\<close>, \<open>HIWORD\<close>, \<open>LOWORD\<close>.\<close>

definition MAKE_ULONG :: "UWORD \<Rightarrow> UWORD \<Rightarrow> ULONG" where
  "MAKE_ULONG hi lo = push_bit 16 (ucast hi) OR ucast lo"

definition LOWORD :: "ULONG \<Rightarrow> UWORD" where "LOWORD x = ucast x"
definition HIWORD :: "ULONG \<Rightarrow> UWORD" where "HIWORD x = ucast (drop_bit 16 x)"

lemma HIWORD_MAKE [simp]: "HIWORD (MAKE_ULONG h l) = h"
  unfolding HIWORD_def MAKE_ULONG_def
  by (rule bit_word_eqI) (auto simp: bit_simps dest: bit_imp_le_length)

lemma LOWORD_MAKE [simp]: "LOWORD (MAKE_ULONG h l) = l"
  unfolding LOWORD_def MAKE_ULONG_def by (rule bit_word_eqI) (auto simp: bit_simps)

lemma MAKE_HIWORD_LOWORD [simp]: "MAKE_ULONG (HIWORD x) (LOWORD x) = x"
  unfolding HIWORD_def LOWORD_def MAKE_ULONG_def
  by (rule bit_word_eqI) (auto simp: bit_simps)

section \<open>Field extraction and BCD\<close>

record ymd =
  year :: UWORD
  month :: UWORD
  day :: UWORD

record hms =
  hour :: UWORD
  minute :: UWORD
  second :: UWORD

definition extract_date :: "UWORD \<Rightarrow> ymd" where
  "extract_date date =
     \<lparr>year = drop_bit 9 date, month = drop_bit 5 date AND 0x0f, day = date AND 0x1f\<rparr>"

definition extract_time :: "UWORD \<Rightarrow> hms" where
  "extract_time time =
     \<lparr>hour = drop_bit 11 time, minute = drop_bit 5 time AND 0x3f,
      second = push_bit 1 time AND 0x3f\<rparr>"

definition int2bcd :: "UWORD \<Rightarrow> UBYTE" where
  "int2bcd a = ucast (a mod 10 + push_bit 4 (a div 10))"

definition bcd2int :: "UBYTE \<Rightarrow> UWORD" where
  "bcd2int a = (ucast a AND 0xf) + drop_bit 4 (ucast a) * 10"

section \<open>ICD and Mega ST clocks: one decimal digit per register\<close>

record myclkreg =
  sec_l :: UBYTE
  sec_h :: UBYTE
  min_l :: UBYTE
  min_h :: UBYTE
  hour_l :: UBYTE
  hour_h :: UBYTE
  daywk :: UBYTE
  day_l :: UBYTE
  day_h :: UBYTE
  mon_l :: UBYTE
  mon_h :: UBYTE
  year_l :: UBYTE
  year_h :: UBYTE

definition ICDRTC_24 :: UWORD where "ICDRTC_24 = 0x08"

definition icdsettime :: "myclkreg \<Rightarrow> UWORD \<Rightarrow> myclkreg" where
  "icdsettime clkregs time =
     (let tm = extract_time time in
      clkregs\<lparr>sec_l := ucast (second tm mod 10), sec_h := ucast (second tm div 10),
              min_l := ucast (minute tm mod 10), min_h := ucast (minute tm div 10),
              hour_l := ucast (hour tm mod 10),
              hour_h := ucast ((hour tm div 10) OR ICDRTC_24)\<rparr>)"

definition icdgettime :: "myclkreg \<Rightarrow> UWORD" where
  "icdgettime clkregs =
     drop_bit 1 (ucast (sec_l clkregs) + 10 * ucast (sec_h clkregs))
     OR push_bit 5 (ucast (min_l clkregs) + 10 * ucast (min_h clkregs))
     OR push_bit 11 (ucast (hour_l clkregs) + 10 * (ucast (hour_h clkregs) AND 0x03))"

definition icdsetdate :: "myclkreg \<Rightarrow> UWORD \<Rightarrow> myclkreg" where
  "icdsetdate clkregs date =
     (let dt = extract_date date; yr = year dt + 80 in
      clkregs\<lparr>day_l := ucast (day dt mod 10), day_h := ucast (day dt div 10),
              mon_l := ucast (month dt mod 10), mon_h := ucast (month dt div 10),
              year_l := ucast (yr mod 10), year_h := ucast (yr div 10)\<rparr>)"

definition icdgetdate :: "myclkreg \<Rightarrow> UWORD" where
  "icdgetdate clkregs =
     (ucast (day_l clkregs) + 10 * (ucast (day_h clkregs) AND 0x03))
     OR push_bit 5 (ucast (mon_l clkregs) + 10 * ucast (mon_h clkregs))
     OR push_bit 9 (ucast (year_l clkregs) + 10 * ucast (year_h clkregs) - 80)"

text \<open>The read loop of \<open>icdgetregs\<close> keeps four bits of each register
  (\<open>*reg++ = DMA->data & 0x0f\<close>).\<close>

definition icd_nibbles :: "myclkreg \<Rightarrow> myclkreg" where
  "icd_nibbles r =
     \<lparr>sec_l = sec_l r AND 0x0f, sec_h = sec_h r AND 0x0f, min_l = min_l r AND 0x0f,
      min_h = min_h r AND 0x0f, hour_l = hour_l r AND 0x0f, hour_h = hour_h r AND 0x0f,
      daywk = daywk r AND 0x0f, day_l = day_l r AND 0x0f, day_h = day_h r AND 0x0f,
      mon_l = mon_l r AND 0x0f, mon_h = mon_h r AND 0x0f, year_l = year_l r AND 0x0f,
      year_h = year_h r AND 0x0f\<rparr>"

definition icdgetdt :: "myclkreg \<Rightarrow> ULONG" where
  "icdgetdt chip =
     (let clkregs = icd_nibbles chip in MAKE_ULONG (icdgetdate clkregs) (icdgettime clkregs))"

definition icdsetdt :: "myclkreg \<Rightarrow> ULONG \<Rightarrow> myclkreg" where
  "icdsetdt chip dt = icdsettime (icdsetdate chip (HIWORD dt)) (LOWORD dt)"

definition mdosettime :: "myclkreg \<Rightarrow> UWORD \<Rightarrow> myclkreg" where
  "mdosettime clkregs time =
     (let tm = extract_time time in
      clkregs\<lparr>sec_l := ucast (second tm mod 10), sec_h := ucast (second tm div 10),
              min_l := ucast (minute tm mod 10), min_h := ucast (minute tm div 10),
              hour_l := ucast (hour tm mod 10), hour_h := ucast (hour tm div 10)\<rparr>)"

definition mdogettime :: "myclkreg \<Rightarrow> UWORD" where
  "mdogettime clkregs =
     drop_bit 1 ((ucast (sec_l clkregs) AND 0xf) + 10 * (ucast (sec_h clkregs) AND 0xf))
     OR push_bit 5 ((ucast (min_l clkregs) AND 0xf) + 10 * (ucast (min_h clkregs) AND 0xf))
     OR push_bit 11 ((ucast (hour_l clkregs) AND 0xf) + 10 * (ucast (hour_h clkregs) AND 0xf))"

definition mdosetdate :: "myclkreg \<Rightarrow> UWORD \<Rightarrow> myclkreg" where
  "mdosetdate clkregs date =
     (let dt = extract_date date in
      clkregs\<lparr>day_l := ucast (day dt mod 10), day_h := ucast (day dt div 10),
              mon_l := ucast (month dt mod 10), mon_h := ucast (month dt div 10),
              year_l := ucast (year dt mod 10), year_h := ucast (year dt div 10)\<rparr>)"

definition mdogetdate :: "myclkreg \<Rightarrow> UWORD" where
  "mdogetdate clkregs =
     ((ucast (day_l clkregs) AND 0xf) + 10 * (ucast (day_h clkregs) AND 0xf))
     OR push_bit 5 ((ucast (mon_l clkregs) AND 0xf) + 10 * (ucast (mon_h clkregs) AND 0xf))
     OR push_bit 9 ((ucast (year_l clkregs) AND 0xf) + 10 * (ucast (year_h clkregs) AND 0xf))"

definition mgetdt :: "myclkreg \<Rightarrow> ULONG" where
  "mgetdt chip = MAKE_ULONG (mdogetdate chip) (mdogettime chip)"

definition msetdt :: "myclkreg \<Rightarrow> ULONG \<Rightarrow> myclkreg" where
  "msetdt chip dt = mdosettime (mdosetdate chip (HIWORD dt)) (LOWORD dt)"

section \<open>MonSTer clock: a DS1307 with BCD registers\<close>

definition monstergetdt :: "(nat \<Rightarrow> UBYTE) \<Rightarrow> ULONG" where
  "monstergetdt ds1307 =
     ucast (bcd2int ((ds1307 0 AND 0x7f) div 2))
     OR push_bit 5 (ucast (bcd2int (ds1307 1)))
     OR push_bit 11 (ucast (bcd2int (ds1307 2 AND 0x3f)))
     OR push_bit 16 (ucast (bcd2int (ds1307 4)))
     OR push_bit 21 (ucast (bcd2int (ds1307 5)))
     OR push_bit 25 (ucast (bcd2int (ds1307 6) + 20))"

definition monstersetdt :: "(nat \<Rightarrow> UBYTE) \<Rightarrow> ULONG \<Rightarrow> (nat \<Rightarrow> UBYTE)" where
  "monstersetdt ds1307 time =
     (let tm = extract_time (LOWORD time); dt = extract_date (HIWORD time);
          yr = (year dt + 1980) mod 100 in
      ds1307(0 := int2bcd (second tm), 1 := int2bcd (minute tm), 2 := int2bcd (hour tm),
             4 := int2bcd (day dt), 5 := int2bcd (month dt), 6 := int2bcd yr))"

section \<open>NVRAM clock of the TT and Falcon: binary registers and a year offset\<close>

record clkreg =
  years :: UBYTE
  months :: UBYTE
  days :: UBYTE
  hours :: UBYTE
  minutes :: UBYTE
  seconds :: UBYTE

text \<open>\<open>vrt\<close> is the chip's valid-RAM-and-time bit: without it \<open>nvram_getregs\<close> fails.\<close>

definition ngetdt :: "UWORD \<Rightarrow> bool \<Rightarrow> clkreg \<Rightarrow> ULONG" where
  "ngetdt year_offset vrt clk =
     (if \<not> vrt then 0
      else
        let date = push_bit 9 ((ucast (years clk) + year_offset) AND 0x7f)
                   OR push_bit 5 (ucast (months clk) AND 0xf) OR (ucast (days clk) AND 0x1f);
            time = push_bit 11 (ucast (hours clk)) OR push_bit 5 (ucast (minutes clk))
                   OR drop_bit 1 (ucast (seconds clk))
        in MAKE_ULONG date time)"

definition nsetdt :: "UWORD \<Rightarrow> clkreg \<Rightarrow> ULONG \<Rightarrow> clkreg" where
  "nsetdt year_offset clk dt =
     (let date = extract_date (HIWORD dt); time = extract_time (LOWORD dt) in
      \<lparr>years = ucast (year date - year_offset), months = ucast (month date),
       days = ucast (day date), hours = ucast (hour time), minutes = ucast (minute time),
       seconds = ucast (second time)\<rparr>)"

section \<open>IKBD clock: BCD registers and a two-digit year\<close>

record ikbdregs =
  ik_year :: UBYTE
  ik_month :: UBYTE
  ik_day :: UBYTE
  ik_hour :: UBYTE
  ik_min :: UBYTE
  ik_sec :: UBYTE

definition idogetdate :: "ikbdregs \<Rightarrow> UWORD" where
  "idogetdate iclkbuf =
     (let y = bcd2int (ik_year iclkbuf); yr = (if y < 80 then y + 2000 else y + 1900) in
      push_bit 9 (yr - 1980) OR push_bit 5 (bcd2int (ik_month iclkbuf))
      OR bcd2int (ik_day iclkbuf))"

definition idogettime :: "ikbdregs \<Rightarrow> UWORD" where
  "idogettime iclkbuf =
     drop_bit 1 (bcd2int (ik_sec iclkbuf)) OR push_bit 5 (bcd2int (ik_min iclkbuf))
     OR push_bit 11 (bcd2int (ik_hour iclkbuf))"

definition idosettime :: "ikbdregs \<Rightarrow> UWORD \<Rightarrow> ikbdregs" where
  "idosettime iclkbuf time =
     (let tm = extract_time time in
      iclkbuf\<lparr>ik_sec := int2bcd (second tm), ik_min := int2bcd (minute tm),
              ik_hour := int2bcd (hour tm)\<rparr>)"

definition idosetdate :: "ikbdregs \<Rightarrow> UWORD \<Rightarrow> ikbdregs" where
  "idosetdate iclkbuf date =
     (let dt = extract_date date; yr = (year dt + 1980) mod 100 in
      iclkbuf\<lparr>ik_year := int2bcd yr, ik_month := int2bcd (month dt),
              ik_day := int2bcd (day dt)\<rparr>)"

definition igetdt :: "ikbdregs \<Rightarrow> ULONG" where
  "igetdt iclkbuf = MAKE_ULONG (idogetdate iclkbuf) (idogettime iclkbuf)"

definition isetdt :: "ikbdregs \<Rightarrow> ULONG \<Rightarrow> ikbdregs" where
  "isetdt iclkbuf dt = idosettime (idosetdate iclkbuf (HIWORD dt)) (LOWORD dt)"

section \<open>UltraSatan clock: a nine-byte message\<close>

text \<open>The message buffer \<open>dskbufp\<close>; \<open>ret\<close> is the status of the device command.\<close>

definition ultrasatan_getdt :: "int \<Rightarrow> (nat \<Rightarrow> UBYTE) \<Rightarrow> ULONG" where
  "ultrasatan_getdt ret dskbufp =
     (if ret \<noteq> 0 \<or> \<not> (dskbufp 0 = 82 \<and> dskbufp 1 = 84 \<and> dskbufp 2 = 67) then 0
      else
        let yr = ucast (dskbufp 3);
            date = push_bit 9 (yr + 20) OR push_bit 5 (ucast (dskbufp 4) AND 0xf)
                   OR (ucast (dskbufp 5) AND 0x1f);
            time = push_bit 11 (ucast (dskbufp 6)) OR push_bit 5 (ucast (dskbufp 7))
                   OR drop_bit 1 (ucast (dskbufp 8))
        in MAKE_ULONG date time)"

definition ultrasatan_setdt :: "(nat \<Rightarrow> UBYTE) \<Rightarrow> ULONG \<Rightarrow> (nat \<Rightarrow> UBYTE)" where
  "ultrasatan_setdt dskbufp dt =
     (let date = extract_date (HIWORD dt); time = extract_time (LOWORD dt) in
      dskbufp(0 := 82, 1 := 84, 2 := 67, 3 := ucast (year date - 20),
              4 := ucast (month date), 5 := ucast (day date), 6 := ucast (hour time),
              7 := ucast (minute time), 8 := ucast (second time)))"

section \<open>Dispatch\<close>

record clockst =
  current_time :: UWORD
  current_date :: UWORD
  has_nvram :: bool
  has_megartc :: bool
  has_monster_rtc :: bool
  has_icdrtc :: bool
  has_ultrasatan_clock :: bool
  nvram_rtc_year_offset :: UWORD
  nvram_vrt :: bool
  nvram_chip :: clkreg
  mega_chip :: myclkreg
  monster_chip :: "nat \<Rightarrow> UBYTE"
  icd_chip :: myclkreg
  ultra_chip :: "nat \<Rightarrow> UBYTE"
  ultra_ret :: int
  iclkbuf :: ikbdregs

definition settime :: "ULONG \<Rightarrow> 'a clockst_scheme \<Rightarrow> 'a clockst_scheme" where
  "settime time s =
     (let s = s\<lparr>current_time := LOWORD time, current_date := HIWORD time\<rparr> in
      if has_nvram s
      then s\<lparr>nvram_chip := nsetdt (nvram_rtc_year_offset s) (nvram_chip s) time\<rparr>
      else if has_megartc s then s\<lparr>mega_chip := msetdt (mega_chip s) time\<rparr>
      else if has_monster_rtc s then s\<lparr>monster_chip := monstersetdt (monster_chip s) time\<rparr>
      else if has_icdrtc s then s\<lparr>icd_chip := icdsetdt (icd_chip s) time\<rparr>
      else if has_ultrasatan_clock s
      then s\<lparr>ultra_chip := ultrasatan_setdt (ultra_chip s) time\<rparr>
      else s\<lparr>iclkbuf := isetdt (iclkbuf s) time\<rparr>)"

definition gettime :: "'a clockst_scheme \<Rightarrow> ULONG" where
  "gettime s =
     (if has_nvram s then ngetdt (nvram_rtc_year_offset s) (nvram_vrt s) (nvram_chip s)
      else if has_megartc s then mgetdt (mega_chip s)
      else if has_monster_rtc s then monstergetdt (monster_chip s)
      else if has_icdrtc s then icdgetdt (icd_chip s)
      else if has_ultrasatan_clock s then ultrasatan_getdt (ultra_ret s) (ultra_chip s)
      else igetdt (iclkbuf s))"

section \<open>Round trips\<close>

text \<open>A property of the words below a bound is checked on the finitely many of them.\<close>

lemma word_below_cases:
  fixes w :: "'a :: len word"
  assumes "w < word_of_nat n" "list_all P (map word_of_nat [0..<n])"
  shows "P w"
proof -
  have "unat w < n"
    using assms(1)
    by (metis le_less_trans linorder_not_less word_less_nat_alt unat_of_nat mod_less_eq_dividend)
  then have "w \<in> set (map word_of_nat [0..<n])" by (auto simp: image_iff intro!: bexI [of _ "unat w"])
  with assms(2) show ?thesis by (auto simp: list_all_iff)
qed

text \<open>The masks and shifts of the field accesses as \<open>take_bit\<close> and \<open>drop_bit\<close>.\<close>

lemma and_masks:
  fixes w :: "'a :: len word"
  shows "w AND 0x03 = take_bit 2 w" "w AND 0x0f = take_bit 4 w" "w AND 0x1f = take_bit 5 w" "w AND 0x3f = take_bit 6 w"
    "w AND 0x7f = take_bit 7 w"
  by (simp_all add: take_bit_eq_mask mask_eq_exp_minus_1)

lemma take_bit_bound:
  "take_bit 4 (w :: 16 word) < 16" "take_bit 5 (w :: 16 word) < 32"
  "take_bit 6 (w :: 16 word) < 64" "take_bit 7 (w :: 16 word) < 128"
  unfolding and_masks [symmetric]
  by (rule le_less_trans [OF word_and_le1]; simp)+

lemma drop_bit_bound: "drop_bit 9 (w :: 16 word) < 128" "drop_bit 11 (w :: 16 word) < 32"
proof -
  have u: "unat w < 65536" using unsigned_less [of w, where ?'a = nat] by simp
  show "drop_bit 9 w < 128" "drop_bit 11 w < 32"
    unfolding word_less_nat_alt unat_drop_bit_eq using u
    by (simp_all add: drop_bit_eq_div less_mult_imp_div_less)
qed

text \<open>Two decimal digits in byte registers give the number back.\<close>

lemma digits_join:
  fixes w :: UWORD
  assumes "w < 128"
  shows "ucast (ucast (w mod 10) :: UBYTE) + 10 * ucast (ucast (w div 10) :: UBYTE) = w"
    and "take_bit 4 (ucast (ucast (w mod 10) :: UBYTE))
         + 10 * take_bit 4 (ucast (ucast (w div 10) :: UBYTE)) = w"
    and "ucast (take_bit 4 (ucast (w mod 10) :: UBYTE))
         + 10 * ucast (take_bit 4 (ucast (w div 10) :: UBYTE)) = w"
  using assms by - (rule word_below_cases [of w 128]; (simp; fail | code_simp))+

lemma digits_join_small:
  fixes w :: UWORD
  assumes "w < 32"
  shows "ucast (take_bit 4 (ucast (w mod 10) :: UBYTE))
         + 10 * take_bit 2 (ucast (take_bit 4 (ucast (w div 10) :: UBYTE))) = w"
    and "ucast (take_bit 4 (ucast (w mod 10) :: UBYTE))
         + 10 * take_bit 2 (ucast (take_bit 4 (ucast (w div 10 OR 0x08) :: UBYTE))) = w"
  using assms by - (rule word_below_cases [of w 32]; (simp; fail | code_simp))+

lemma digits_join_year:
  fixes w :: UWORD
  assumes "w < 160"
  shows "ucast (take_bit 4 (ucast (w mod 10) :: UBYTE))
         + 10 * ucast (take_bit 4 (ucast (w div 10) :: UBYTE)) = w"
  using assms by - (rule word_below_cases [of w 160]; (simp; fail | code_simp))

lemma bcd_join:
  fixes w :: UWORD
  assumes "w < 100"
  shows "bcd2int (int2bcd w) = w"
  using assms by - (rule word_below_cases [of w 100]; (simp; fail | code_simp))

text \<open>The fields of a date or time word, shifted back into place, give the word.\<close>

lemma second_half: "drop_bit 1 (take_bit 6 (push_bit 1 t)) = take_bit 5 (t :: UWORD)"
  by (rule bit_word_eqI)
     (auto simp: bit_drop_bit_eq bit_take_bit_iff bit_push_bit_iff simp del: push_bit_numeral
       simp flip: One_nat_def)

lemma time_join:
  "take_bit 5 t OR push_bit 5 (take_bit 6 (drop_bit 5 t)) OR push_bit 11 (drop_bit 11 t)
   = (t :: UWORD)"
proof (rule bit_word_eqI)
  fix n
  assume "n < LENGTH(16)"
  then show "bit (take_bit 5 t OR push_bit 5 (take_bit 6 (drop_bit 5 t))
      OR push_bit 11 (drop_bit 11 t)) n = bit t n"
    by (cases "11 \<le> n"; cases "5 \<le> n")
       (auto simp: bit_push_bit_iff bit_drop_bit_eq bit_take_bit_iff bit_or_iff)
qed

lemma date_join:
  "take_bit 5 d OR push_bit 5 (take_bit 4 (drop_bit 5 d)) OR push_bit 9 (drop_bit 9 d)
   = (d :: UWORD)"
proof (rule bit_word_eqI)
  fix n
  assume "n < LENGTH(16)"
  then show "bit (take_bit 5 d OR push_bit 5 (take_bit 4 (drop_bit 5 d))
      OR push_bit 9 (drop_bit 9 d)) n = bit d n"
    by (cases "9 \<le> n"; cases "5 \<le> n")
       (auto simp: bit_push_bit_iff bit_drop_bit_eq bit_take_bit_iff bit_or_iff)
qed

lemma second_half': "drop_bit (Suc 0) (take_bit 6 (t * 2)) = take_bit 5 (t :: UWORD)"
  using second_half [of t] by simp

lemmas clock_fields = extract_time_def extract_date_def and_masks second_half'

lemmas field_bounds = take_bit_bound drop_bit_bound
  take_bit_bound [THEN less_trans] drop_bit_bound [THEN less_trans]

text \<open>The contract of a clock chip: what was set is read back, for the values it can hold.\<close>

locale rtc_chip =
  fixes setdt :: "'r \<Rightarrow> ULONG \<Rightarrow> 'r"
    and getdt :: "'r \<Rightarrow> ULONG"
    and holds :: "ULONG \<Rightarrow> bool"
  assumes get_set: "holds dt \<Longrightarrow> getdt (setdt r dt) = dt"
begin

lemma last_set_wins: "holds b \<Longrightarrow> getdt (setdt (setdt r a) b) = b"
  by (rule get_set)

lemma set_injective: "holds a \<Longrightarrow> holds b \<Longrightarrow> setdt r a = setdt r b \<Longrightarrow> a = b"
  by (metis get_set)

end

lemma mega_time: "mdogettime (mdosettime r t) = t"
  unfolding mdogettime_def mdosettime_def Let_def
  by (simp add: clock_fields digits_join field_bounds time_join)

lemma mega_date: "mdogetdate (mdosetdate r d) = d"
  unfolding mdogetdate_def mdosetdate_def Let_def
  by (simp add: clock_fields digits_join field_bounds date_join)

lemma mega_frames [simp]:
  "mdogetdate (mdosettime r t) = mdogetdate r" "mdogettime (mdosetdate r t) = mdogettime r"
  by (simp_all add: mdogetdate_def mdosettime_def mdogettime_def mdosetdate_def Let_def)

interpretation mega: rtc_chip msetdt mgetdt "\<lambda>_. True"
  by unfold_locales (simp add: mgetdt_def msetdt_def mega_time mega_date)

text \<open>A 16-bit value through a byte register keeps its low eight bits.\<close>

lemma byte_trip: "ucast (ucast (w :: UWORD) :: UBYTE) = take_bit 8 w"
  by (rule bit_word_eqI) (auto simp: bit_simps)

lemma byte_trip_fields:
  "take_bit 8 (take_bit n (w :: UWORD)) = take_bit (min 8 n) w"
  "take_bit 8 (drop_bit 11 (w :: UWORD)) = drop_bit 11 w"
  by (simp, rule bit_word_eqI, auto simp: bit_simps dest: bit_imp_le_length)

lemma take_bit_7_8_add: "take_bit 7 (take_bit 8 a + b) = take_bit 7 (a + b :: UWORD)"
proof (rule word_uint_eqI)
  have "(uint a mod 256 + uint b) mod 128 = (uint a mod 256 mod 128 + uint b) mod 128"
    by (simp only: mod_add_left_eq)
  also have "\<dots> = (uint a + uint b) mod 128"
    by (simp add: mod_mod_cancel mod_add_left_eq)
  finally show "uint (take_bit 7 (take_bit 8 a + b)) = uint (take_bit 7 (a + b))"
    unfolding unsigned_take_bit_eq uint_word_ariths
    by (simp add: unsigned_take_bit_eq take_bit_eq_mod [where 'a = int] mod_mod_cancel)
qed

lemma year_offset_trip:
  "take_bit 7 (take_bit 8 (drop_bit 9 (w :: UWORD) - off) + off) = drop_bit 9 w"
proof -
  have "take_bit 7 (take_bit 8 (drop_bit 9 w - off) + off) = take_bit 7 (drop_bit 9 w)"
    by (simp only: take_bit_7_8_add diff_add_cancel)
  also have "\<dots> = drop_bit 9 w"
    by (rule bit_word_eqI) (auto simp: bit_simps dest: bit_imp_le_length)
  finally show ?thesis .
qed

text \<open>The same joins with the high fields first.\<close>

lemma joins_rev:
  "push_bit 11 (drop_bit 11 t) OR push_bit 5 (take_bit 6 (drop_bit 5 t)) OR take_bit 5 t
   = (t :: UWORD)"
  "push_bit 9 (drop_bit 9 d) OR push_bit 5 (take_bit 4 (drop_bit 5 d)) OR take_bit 5 d
   = (d :: UWORD)"
  using time_join [of t] date_join [of d] by (simp_all add: ac_simps)

lemma nvram_roundtrip: "ngetdt off True (nsetdt off r dt) = dt"
  unfolding ngetdt_def nsetdt_def Let_def
  by (simp add: clock_fields byte_trip byte_trip_fields year_offset_trip joins_rev)

lemma nvram_chip_trip: "rtc_chip (nsetdt off) (ngetdt off True) (\<lambda>_. True)"
  by unfold_locales (simp add: nvram_roundtrip)

interpretation nvram: rtc_chip "nsetdt off" "ngetdt off True" "\<lambda>_. True" for off
  by (rule nvram_chip_trip)

lemma icd_time: "icdgettime (icd_nibbles (icdsettime r t)) = t"
  unfolding icdgettime_def icdsettime_def icd_nibbles_def Let_def ICDRTC_24_def
  by (simp add: clock_fields digits_join digits_join_small field_bounds time_join)

text \<open>The ICD chip has one nibble for the tens of years since 1900: it holds 1980 to 2059.\<close>

lemma icd_date:
  assumes "drop_bit 9 d < 80"
  shows "icdgetdate (icd_nibbles (icdsetdate r d)) = d"
proof -
  have y: "drop_bit 9 d + 80 < 160"
    using assms by (simp add: word_less_nat_alt unat_word_ariths)
  show ?thesis
    unfolding icdgetdate_def icdsetdate_def icd_nibbles_def Let_def
    using digits_join_year [OF y]
    by (simp add: clock_fields digits_join digits_join_small field_bounds date_join)
qed

lemma icd_frames [simp]:
  "icdgetdate (icd_nibbles (icdsettime r t)) = icdgetdate (icd_nibbles r)"
  "icdgettime (icd_nibbles (icdsetdate r t)) = icdgettime (icd_nibbles r)"
  by (simp_all add: icdgetdate_def icdsettime_def icdgettime_def icdsetdate_def icd_nibbles_def
      Let_def)

interpretation icd: rtc_chip icdsetdt icdgetdt "\<lambda>dt. drop_bit 9 (HIWORD dt) < 80"
  by unfold_locales (simp add: icdgetdt_def icdsetdt_def icd_time icd_date Let_def)

lemma ikbd_time: "idogettime (idosettime r t) = t"
  unfolding idogettime_def idosettime_def Let_def
  by (simp add: clock_fields bcd_join field_bounds time_join)

lemma ikbd_year:
  fixes y :: UWORD
  assumes "y < 100"
  shows "if (y + 1980) mod 100 < 80 then 20 + (y + 1980) mod 100 = y
         else (y + 1980) mod 100 - 80 = y"
  using assms by - (rule word_below_cases [of y 100]; (simp; fail | code_simp))

lemma ikbd_date:
  assumes "drop_bit 9 d < 100"
  shows "idogetdate (idosetdate r d) = d"
proof -
  have m: "(drop_bit 9 d + 1980) mod 100 < 100"
    by (simp add: word_less_nat_alt unat_word_ariths unat_mod)
  show ?thesis
    unfolding idogetdate_def idosetdate_def Let_def
    using ikbd_year [OF assms] m
    by (auto simp: clock_fields bcd_join field_bounds joins_rev split: if_splits)
qed

lemma ikbd_frames [simp]:
  "idogetdate (idosettime r t) = idogetdate r" "idogettime (idosetdate r t) = idogettime r"
  by (simp_all add: idogetdate_def idosettime_def idogettime_def idosetdate_def Let_def)

interpretation ikbd: rtc_chip isetdt igetdt "\<lambda>dt. drop_bit 9 (HIWORD dt) < 100"
  by unfold_locales (simp add: igetdt_def isetdt_def ikbd_time ikbd_date)

lemma ultrasatan_year: "push_bit 9 (take_bit 8 (drop_bit 9 d - 20) + 20) = push_bit 9 (drop_bit 9 (d :: UWORD))"
proof -
  have "push_bit 9 (take_bit 8 (drop_bit 9 d - 20) + 20 :: UWORD)
      = push_bit 9 (take_bit 7 (take_bit 8 (drop_bit 9 d - 20) + 20))"
    by (rule bit_word_eqI) (auto simp: bit_push_bit_iff bit_take_bit_iff)
  then show ?thesis by (simp only: year_offset_trip)
qed

lemma ultrasatan_roundtrip: "ultrasatan_getdt 0 (ultrasatan_setdt b dt) = dt"
  unfolding ultrasatan_getdt_def ultrasatan_setdt_def Let_def
  by (simp add: clock_fields byte_trip byte_trip_fields ultrasatan_year joins_rev)

interpretation ultrasatan: rtc_chip ultrasatan_setdt "ultrasatan_getdt 0" "\<lambda>_. True"
  by unfold_locales (rule ultrasatan_roundtrip)

text \<open>The date/times that the clock fitted to the machine can hold.\<close>

definition clock_holds :: "'a clockst_scheme \<Rightarrow> ULONG \<Rightarrow> bool" where
  "clock_holds s dt =
     (if has_nvram s then nvram_vrt s
      else if has_megartc s then True
      else if has_monster_rtc s then False
      else if has_icdrtc s then drop_bit 9 (HIWORD dt) < 80
      else if has_ultrasatan_clock s then ultra_ret s = 0
      else drop_bit 9 (HIWORD dt) < 100)"

text \<open>
  C40. Setting the clock and reading it back gives the same GEMDOS date and time: for every
  value on the NVRAM, Mega ST and UltraSatan clocks, up to the year 2059 on the ICD clock
  and up to 2079 on the IKBD clock; \<open>settime\<close> also updates the GEMDOS copies. The MonSTer
  clock is excluded.
\<close>

theorem settime_gettime:
  assumes "clock_holds s dt"
  shows "gettime (settime dt s) = dt \<and> current_date (settime dt s) = HIWORD dt
    \<and> current_time (settime dt s) = LOWORD dt"
  using assms mega.get_set icd.get_set ikbd.get_set ultrasatan.get_set nvram.get_set
  by (auto simp: clock_holds_def gettime_def settime_def Let_def)

definition sample_clock :: clockst where
  "sample_clock = \<lparr>current_time = 0, current_date = 0, has_nvram = False, has_megartc = False,
     has_monster_rtc = False, has_icdrtc = True, has_ultrasatan_clock = False,
     nvram_rtc_year_offset = - 12, nvram_vrt = True,
     nvram_chip = \<lparr>years = 0, months = 0, days = 0, hours = 0, minutes = 0, seconds = 0\<rparr>,
     mega_chip = \<lparr>sec_l = 0, sec_h = 0, min_l = 0, min_h = 0, hour_l = 0, hour_h = 0, daywk = 0,
       day_l = 0, day_h = 0, mon_l = 0, mon_h = 0, year_l = 0, year_h = 0\<rparr>,
     monster_chip = (\<lambda>_. 0),
     icd_chip = \<lparr>sec_l = 0, sec_h = 0, min_l = 0, min_h = 0, hour_l = 0, hour_h = 0, daywk = 0,
       day_l = 0, day_h = 0, mon_l = 0, mon_h = 0, year_l = 0, year_h = 0\<rparr>,
     ultra_chip = (\<lambda>_. 0), ultra_ret = 0,
     iclkbuf = \<lparr>ik_year = 0, ik_month = 0, ik_day = 0, ik_hour = 0, ik_min = 0, ik_sec = 0\<rparr>\<rparr>"

theorem settime_gettime_witness: "gettime (settime 0x5A9F6E3C sample_clock) = 0x5A9F6E3C"
proof -
  have "clock_holds sample_clock 0x5A9F6E3C"
    by (simp add: clock_holds_def sample_clock_def HIWORD_def)
  from settime_gettime [OF this] show ?thesis by simp
qed

lemma monster_low_bits:
  "take_bit 5 (monstergetdt c) = take_bit 5 (ucast (bcd2int ((c 0 AND 0x7f) div 2)))"
  unfolding monstergetdt_def
  by (rule bit_word_eqI) (auto simp: bit_take_bit_iff bit_or_iff bit_push_bit_iff)

lemma monster_half:
  fixes w :: UWORD
  assumes "w < 32"
  shows "w < 30 \<and> w div 5 mod 2 = 1 \<longrightarrow>
    take_bit 5 (ucast (bcd2int ((int2bcd (take_bit 6 (push_bit 1 w)) AND 0x7f) div 2)))
    \<noteq> (ucast w :: ULONG)"
  using assms by - (rule word_below_cases [of w 32]; (simp; fail | code_simp))

text \<open>
  The MonSTer clock does not read back what was set: \<open>monstergetdt\<close> halves the seconds
  register before it is converted from BCD, so whenever the tens digit of the seconds is odd
  the value read differs from the value set.
\<close>

theorem monster_seconds_misread:
  assumes "take_bit 5 (LOWORD dt) < 30" and "take_bit 5 (LOWORD dt) div 5 mod 2 = 1"
  shows "monstergetdt (monstersetdt chip dt) \<noteq> dt"
proof
  let ?w = "take_bit 5 (LOWORD dt)"
  assume eq: "monstergetdt (monstersetdt chip dt) = dt"
  have s: "take_bit 6 (push_bit 1 (LOWORD dt)) = take_bit 6 (push_bit 1 ?w)"
    by (rule bit_word_eqI) (auto simp: bit_take_bit_iff bit_push_bit_iff simp flip: One_nat_def
        simp del: push_bit_numeral)
  have "take_bit 5 dt = take_bit 5 (ucast (bcd2int ((monstersetdt chip dt 0 AND 0x7f) div 2)))"
    using monster_low_bits [of "monstersetdt chip dt"] eq by simp
  also have "monstersetdt chip dt 0 = int2bcd (take_bit 6 (push_bit 1 ?w))"
    by (simp add: monstersetdt_def extract_time_def and_masks s [simplified] Let_def)
  finally have "take_bit 5 dt \<noteq> ucast ?w"
    using monster_half [OF take_bit_bound(2)] assms by simp
  moreover have "take_bit 5 dt = ucast ?w"
    unfolding LOWORD_def by (rule bit_word_eqI) (auto simp: bit_simps)
  ultimately show False by simp
qed

theorem monster_seconds_misread_witness:
  "monstergetdt (monstersetdt (\<lambda>_. 0) (MAKE_ULONG 0x2821 0x600F)) \<noteq> MAKE_ULONG 0x2821 0x600F"
  by (rule monster_seconds_misread; simp; code_simp)

lemma ikbd_year_late:
  fixes y :: UWORD
  assumes "y < 120" "\<not> y < 100"
  shows "\<not> (y + 1980) mod 100 < 80 \<and> (y + 1980) mod 100 - 80 = y - 100 \<and> y - 100 < 128"
  using assms by - (rule word_below_cases [of y 120, where P = "\<lambda>y. \<not> y < 100 \<longrightarrow>
    \<not> (y + 1980) mod 100 < 80 \<and> (y + 1980) mod 100 - 80 = y - 100 \<and> y - 100 < 128", rule_format];
    (simp; fail | code_simp))

lemma year_field:
  fixes y :: UWORD
  assumes "y < 128"
  shows "drop_bit 9 (push_bit 9 y OR push_bit 5 (take_bit 4 m) OR take_bit 5 d) = y"
proof -
  have "take_bit 7 y = y"
    using assms by - (rule word_below_cases [of y 128]; (simp; fail | code_simp))
  then have "bit y n \<longrightarrow> n < 7" for n by (metis bit_take_bit_iff)
  then show ?thesis
    by (intro bit_word_eqI)
       (auto simp: bit_drop_bit_eq bit_or_iff bit_push_bit_iff bit_take_bit_iff)
qed

text \<open>
  The IKBD clock keeps two digits of the year and \<open>idogetdate\<close> guesses the century: a date
  in 2080 to 2099, which the BDOS accepts, is read back one hundred years earlier.
\<close>

theorem ikbd_century_lost:
  assumes "drop_bit 9 (HIWORD dt) < 120" and "\<not> drop_bit 9 (HIWORD dt) < 100"
  shows "drop_bit 9 (HIWORD (igetdt (isetdt r dt))) = drop_bit 9 (HIWORD dt) - 100"
proof -
  let ?y = "drop_bit 9 (HIWORD dt)"
  have m: "(?y + 1980) mod 100 < 100"
    by (simp add: word_less_nat_alt unat_word_ariths unat_mod)
  have late: "\<not> (?y + 1980) mod 100 < 80" and e: "(?y + 1980) mod 100 - 80 = ?y - 100"
    and b: "?y - 100 < 128"
    using ikbd_year_late [OF assms] by blast+
  have "idogetdate (idosetdate r (HIWORD dt)) = push_bit 9 ((?y + 1980) mod 100 - 80)
      OR push_bit 5 (take_bit 4 (drop_bit 5 (HIWORD dt))) OR take_bit 5 (HIWORD dt)"
    using late m
    by (simp add: idogetdate_def idosetdate_def Let_def clock_fields bcd_join field_bounds)
  then show ?thesis
    by (simp only: e year_field [OF b] igetdt_def isetdt_def HIWORD_MAKE ikbd_frames)
qed

theorem ikbd_century_lost_witness:
  "drop_bit 9 (HIWORD (igetdt (isetdt (iclkbuf sample_clock) 0xC8210000))) = 0"
proof -
  have "drop_bit 9 (HIWORD 0xC8210000) < 120" "\<not> drop_bit 9 (HIWORD 0xC8210000) < 100"
    by (simp_all add: HIWORD_def)
  from ikbd_century_lost [OF this] show ?thesis by (simp add: HIWORD_def)
qed

end
