(* ===== verification/DosTime.thy ===== *)
theory DosTime
  imports Clock
begin

text \<open>
  bdos/time.c: the GEMDOS date and time calls and the timer tick \<open>tikfrk\<close> that advances the
  GEMDOS clock, and the fields printed by util/date.c. The state extends that of
  \<open>Clock\<close> (which owns \<open>current_time\<close> and \<open>current_date\<close>, written by \<open>settime\<close>) with the
  millisecond counter. The abstract clock is a calendar record and a count of two-second
  units since 1980; the tick is shown to implement it.
\<close>

record dostime = clockst +
  msec :: int

definition SEC_BM :: UWORD where "SEC_BM = 0x001F"
definition MIN_BM :: UWORD where "MIN_BM = 0x07E0"
definition HRS_BM :: UWORD where "HRS_BM = 0xF800"
definition DAY_BM :: UWORD where "DAY_BM = 0x001F"
definition MTH_BM :: UWORD where "MTH_BM = 0x01E0"
definition YRS_BM :: UWORD where "YRS_BM = 0xFE00"

definition IS_A_LEAP_YEAR :: "UWORD \<Rightarrow> bool" where
  "IS_A_LEAP_YEAR a \<longleftrightarrow> a AND 0x0600 = 0"

definition nday_norm :: "nat list" where
  "nday_norm = [0, 31, 28, 31, 30, 31, 30, 31, 31, 30, 31, 30, 31]"

definition nday_leap :: "nat list" where
  "nday_leap = [0, 31, 29, 31, 30, 31, 30, 31, 31, 30, 31, 30, 31]"

definition xgetdate :: "dostime \<Rightarrow> int" where
  "xgetdate s = uint (current_date s)"

definition xsetdate :: "UWORD \<Rightarrow> dostime \<Rightarrow> int \<times> dostime" where
  "xsetdate d s =
     (let nday = (if IS_A_LEAP_YEAR d then nday_leap else nday_norm);
          curmo = drop_bit 5 (d AND MTH_BM);
          dy = d AND DAY_BM
      in if drop_bit 9 d > 119 \<or> curmo > 12 \<or> unat dy > nday ! unat curmo
         then (ERR, s)
         else (E_OK, settime (MAKE_ULONG d (current_time s)) s))"

definition xgettime :: "dostime \<Rightarrow> int" where
  "xgettime s = uint (current_time s)"

definition xsettime :: "UWORD \<Rightarrow> dostime \<Rightarrow> int \<times> dostime" where
  "xsettime t s =
     (if t AND SEC_BM \<ge> 30 \<or> t AND MIN_BM \<ge> push_bit 5 60 \<or> t AND HRS_BM \<ge> push_bit 11 24
      then (ERR, s)
      else (E_OK, settime (MAKE_ULONG (current_date s) t) s))"

definition time_init :: "dostime \<Rightarrow> dostime" where
  "time_init s =
     (let dt = gettime s in s\<lparr>current_date := HIWORD dt, current_time := LOWORD dt\<rparr>)"

text \<open>
  The tick. The early returns of the C function are the \<open>else\<close> branches; the read
  \<open>nday[curmo]\<close> is out of the array when the month field is 13, 14 or 15, and the result is
  then \<open>None\<close>.
\<close>

definition tikfrk :: "int \<Rightarrow> dostime \<Rightarrow> dostime option" where
  "tikfrk n s =
     (let ms = s16 (msec s + n); s = s\<lparr>msec := ms\<rparr> in
      if ms < 2000 then Some s
      else
      let t = current_time s + 1; s = s\<lparr>msec := s16 (ms - 2000), current_time := t\<rparr> in
      if t AND SEC_BM \<noteq> 30 then Some s
      else
      let t = (t AND NOT SEC_BM) + push_bit 5 1; s = s\<lparr>current_time := t\<rparr> in
      if t AND MIN_BM \<noteq> push_bit 5 60 then Some s
      else
      let t = (t AND NOT MIN_BM) + push_bit 11 1; s = s\<lparr>current_time := t\<rparr> in
      if t AND HRS_BM \<noteq> push_bit 11 24 then Some s
      else
      let d = current_date s;
          nday = (if IS_A_LEAP_YEAR d then nday_leap else nday_norm);
          curmo = unat (drop_bit 5 (d AND MTH_BM));
          s = s\<lparr>current_time := 0\<rparr>;
          newday = unat (d AND DAY_BM) + 1
      in if curmo \<ge> length nday then None
      else if newday \<le> nday ! curmo then Some (s\<lparr>current_date := d + 1\<rparr>)
      else
      let d = (d AND NOT DAY_BM) + (push_bit 5 1 + 1); s = s\<lparr>current_date := d\<rparr> in
      if d AND MTH_BM \<le> push_bit 5 12 then Some s
      else
      Some (s\<lparr>current_date := (d AND YRS_BM) + (push_bit 9 1 + push_bit 5 1 + 1)\<rparr>))"

text \<open>util/date.c: the fields \<open>main\<close> prints, from the value of \<open>Gettime\<close>.\<close>

record date_fields =
  df_year :: nat
  df_month :: nat
  df_day :: nat
  df_hour :: nat
  df_min :: nat
  df_sec :: nat

definition date_main :: "ULONG \<Rightarrow> date_fields" where
  "date_main time =
     \<lparr>df_year = 1980 + unat (drop_bit 25 time AND 0x7F), df_month = unat (drop_bit 21 time AND 0xF),
      df_day = unat (drop_bit 16 time AND 0xF), df_hour = unat (drop_bit 11 time AND 0x1F),
      df_min = unat (drop_bit 5 time AND 0x3F), df_sec = unat (push_bit 1 time AND 0x3F)\<rparr>"

section \<open>The calendar the clock stands for\<close>

record cal =
  c_y :: nat
  c_mo :: nat
  c_d :: nat
  c_h :: nat
  c_mi :: nat
  c_s2 :: nat

definition cal_of :: "'a clockst_scheme \<Rightarrow> cal" where
  "cal_of s = (let t = unat (current_time s); d = unat (current_date s) in
     \<lparr>c_y = d div 512, c_mo = d div 32 mod 16, c_d = d mod 32,
      c_h = t div 2048, c_mi = t div 32 mod 64, c_s2 = t mod 32\<rparr>)"

definition month_days :: "nat \<Rightarrow> nat \<Rightarrow> nat" where
  "month_days y m = (if y mod 4 = 0 then nday_leap else nday_norm) ! m"

definition valid_cal :: "cal \<Rightarrow> bool" where
  "valid_cal c \<longleftrightarrow> c_y c < 128 \<and> 1 \<le> c_mo c \<and> c_mo c \<le> 12
     \<and> 1 \<le> c_d c \<and> c_d c \<le> month_days (c_y c) (c_mo c)
     \<and> c_h c < 24 \<and> c_mi c < 60 \<and> c_s2 c < 30"

text \<open>Two seconds later. The 7-bit year wraps after 2107.\<close>

definition cal_next :: "cal \<Rightarrow> cal" where
  "cal_next c =
     (if c_s2 c \<noteq> 29 then c\<lparr>c_s2 := c_s2 c + 1\<rparr>
      else if c_mi c \<noteq> 59 then c\<lparr>c_s2 := 0, c_mi := c_mi c + 1\<rparr>
      else if c_h c \<noteq> 23 then c\<lparr>c_s2 := 0, c_mi := 0, c_h := c_h c + 1\<rparr>
      else let c = c\<lparr>c_s2 := 0, c_mi := 0, c_h := 0\<rparr> in
        if c_d c < month_days (c_y c) (c_mo c) then c\<lparr>c_d := c_d c + 1\<rparr>
        else if c_mo c \<noteq> 12 then c\<lparr>c_d := 1, c_mo := c_mo c + 1\<rparr>
        else c\<lparr>c_d := 1, c_mo := 1, c_y := (c_y c + 1) mod 128\<rparr>)"

text \<open>Two-second units since 1 January 1980, with a leap year every fourth year.\<close>

definition days_before_month :: "nat \<Rightarrow> nat \<Rightarrow> nat" where
  "days_before_month y m = sum_list (map (month_days y) [1..<m])"

definition elapsed :: "cal \<Rightarrow> nat" where
  "elapsed c =
     ((365 * c_y c + (c_y c + 3) div 4 + days_before_month (c_y c) (c_mo c) + (c_d c - 1)) * 24
       + c_h c) * 1800 + c_mi c * 30 + c_s2 c"

section \<open>Masks as arithmetic\<close>

lemma field_mask_words:
  "SEC_BM = mask 5" "DAY_BM = mask 5" "MIN_BM = push_bit 5 (mask 6)" "HRS_BM = push_bit 11 (mask 5)"
  "MTH_BM = push_bit 5 (mask 4)" "YRS_BM = push_bit 9 (mask 7)"
  by (simp_all add: SEC_BM_def DAY_BM_def MIN_BM_def HRS_BM_def MTH_BM_def YRS_BM_def mask_eq_exp_minus_1)

lemma unat_and_mask: "unat (w AND mask n) = unat w mod 2 ^ n"
  by (simp flip: take_bit_eq_mask add: unsigned_take_bit_eq take_bit_eq_mod [where 'a = nat])

lemma nat_and_push_mask:
  "(x :: nat) AND push_bit k (mask n) = (x div 2 ^ k mod 2 ^ n) * 2 ^ k"
proof -
  have "x AND push_bit k (mask n) = push_bit k (take_bit n (drop_bit k x))"
    by (rule bit_eqI) (auto simp: bit_simps)
  then show ?thesis by (simp add: push_bit_eq_mult take_bit_eq_mod drop_bit_eq_div)
qed

lemma unat_mask_word: "unat (mask n :: UWORD) = mask (min 16 n)"
  by (rule bit_eqI) (auto simp: bit_simps)

lemma unat_and_push_mask:
  assumes "k + n \<le> 16"
  shows "unat ((w :: UWORD) AND push_bit k (mask n)) = (unat w div 2 ^ k mod 2 ^ n) * 2 ^ k"
proof -
  have "take_bit 16 (push_bit k (mask (min 16 n))) = push_bit k (mask n :: nat)"
    using assms by (intro bit_eqI) (auto simp: bit_simps)
  then have "unat (push_bit k (mask n) :: UWORD) = push_bit k (mask n)"
    by (simp add: unsigned_push_bit_eq unsigned_minus_1_eq_mask unat_mask_word)
  then show ?thesis by (simp only: unsigned_and_eq nat_and_push_mask)
qed

lemma and_not_plus: "(w AND m) + (w AND NOT m) = (w :: 'a :: len word)"
proof -
  have "(w AND m) + (w AND NOT m) = (w AND m) OR (w AND NOT m)"
    by (rule disjunctive_add) (auto simp: bit_simps)
  also have "\<dots> = w" by (rule bit_word_eqI) (auto simp: bit_simps)
  finally show ?thesis .
qed

lemma unat_and_not: "unat (w AND NOT m) = unat w - unat (w AND m :: 'a :: len word)"
proof -
  have "w AND NOT m = w - (w AND m)"
    using and_not_plus [of w m] by (metis add_diff_cancel_left')
  then show ?thesis by (simp add: unat_sub word_and_le2)
qed

text \<open>The fields of \<open>tikfrk\<close>'s tests and resets.\<close>

lemma unat_fields:
  "unat (w AND SEC_BM) = unat w mod 32" "unat (w AND DAY_BM) = unat w mod 32"
  "unat (w AND MIN_BM) = unat w div 32 mod 64 * 32"
  "unat (w AND HRS_BM) = unat w div 2048 mod 32 * 2048"
  "unat (w AND MTH_BM) = unat w div 32 mod 16 * 32"
  "unat (w AND YRS_BM) = unat w div 512 mod 128 * 512"
  by (simp_all add: field_mask_words unat_and_mask unat_and_push_mask)

lemma unat_resets:
  "unat (w AND NOT SEC_BM) = unat w - unat w mod 32"
  "unat (w AND NOT DAY_BM) = unat w - unat w mod 32"
  "unat (w AND NOT MIN_BM) = unat w - unat w div 32 mod 64 * 32"
  by (simp_all add: unat_and_not unat_fields)

lemma month_field: "unat (drop_bit 5 (w AND MTH_BM)) = unat w div 32 mod 16"
  by (simp only: unat_drop_bit_eq unat_fields)
     (simp add: drop_bit_eq_div)

lemma leap_field: "IS_A_LEAP_YEAR w \<longleftrightarrow> unat w div 512 mod 4 = 0"
proof -
  have "(0x0600 :: UWORD) = push_bit 9 (mask 2)" by (simp add: mask_eq_exp_minus_1)
  then have "unat (w AND 0x0600) = unat w div 512 mod 4 * 512"
    by (simp only: unat_and_push_mask) simp
  then show ?thesis
    by (simp add: IS_A_LEAP_YEAR_def word_unat_eq_iff)
qed

lemma unat16: "unat (w :: UWORD) < 65536"
  using unsigned_less [of w, where ?'a = nat] by simp

section \<open>The tick implements the calendar\<close>

lemmas date_split = mixed_radix_split [of _ 32 16, simplified]
lemmas time_split = mixed_radix_split [of _ 32 64, simplified]
lemmas fields_join = mixed_radix_join [of _ 32 _ 16, simplified] mixed_radix_join [of _ 32 _ 64, simplified]

text \<open>One lemma per rollover, on the packed words.\<close>

lemma tick_seconds:
  assumes "unat t = x + 32 * mi + 2048 * h" "x < 30" "mi < 60" "h < 24"
  shows "unat (t + 1 :: UWORD) = (x + 1) + 32 * mi + 2048 * h"
    and "(t + 1) AND SEC_BM = 30 \<longleftrightarrow> x = 29"
proof -
  show u: "unat (t + 1) = (x + 1) + 32 * mi + 2048 * h"
    using assms by (simp add: unat_word_ariths)
  show "(t + 1) AND SEC_BM = 30 \<longleftrightarrow> x = 29"
    using assms u fields_join(4) [of "x + 1" mi h] by (simp add: word_unat_eq_iff unat_fields)
qed

lemma tick_minutes:
  assumes "unat t = 30 + 32 * mi + 2048 * h" "mi < 60" "h < 24"
  shows "unat ((t AND NOT SEC_BM) + push_bit 5 1 :: UWORD) = 32 * (mi + 1) + 2048 * h"
    and "((t AND NOT SEC_BM) + push_bit 5 1) AND MIN_BM = push_bit 5 60 \<longleftrightarrow> mi = 59"
proof -
  have r: "unat (t AND NOT SEC_BM) = 32 * mi + 2048 * h"
    using assms fields_join(4) [of 30 mi h] by (simp add: unat_resets)
  show u: "unat ((t AND NOT SEC_BM) + push_bit 5 1) = 32 * (mi + 1) + 2048 * h"
    using assms r by (simp add: unat_word_ariths)
  show "((t AND NOT SEC_BM) + push_bit 5 1) AND MIN_BM = push_bit 5 60 \<longleftrightarrow> mi = 59"
    unfolding word_unat_eq_iff unat_fields u
    using assms fields_join(5) [of 0 "mi + 1" h] by simp
qed

lemma tick_hours:
  assumes "unat t = 32 * 60 + 2048 * h" "h < 24"
  shows "unat ((t AND NOT MIN_BM) + push_bit 11 1 :: UWORD) = 2048 * (h + 1)"
    and "((t AND NOT MIN_BM) + push_bit 11 1) AND HRS_BM = push_bit 11 24 \<longleftrightarrow> h = 23"
proof -
  have r: "unat (t AND NOT MIN_BM) = 2048 * h"
    using assms fields_join(5) [of 0 60 h] by (simp add: unat_resets)
  show u: "unat ((t AND NOT MIN_BM) + push_bit 11 1) = 2048 * (h + 1)"
    using assms r by (simp add: unat_word_ariths)
  show "((t AND NOT MIN_BM) + push_bit 11 1) AND HRS_BM = push_bit 11 24 \<longleftrightarrow> h = 23"
    unfolding word_unat_eq_iff unat_fields u using assms by simp
qed

lemma tick_days:
  assumes "unat d = dy + 32 * mo + 512 * y" "dy < 31" "mo \<le> 12" "y < 128"
  shows "unat (d + 1 :: UWORD) = (dy + 1) + 32 * mo + 512 * y"
  using assms by (simp add: unat_word_ariths)

lemma tick_months:
  assumes "unat d = dy + 32 * mo + 512 * y" "dy < 32" "mo \<le> 12" "y < 128"
  shows "unat ((d AND NOT DAY_BM) + (push_bit 5 1 + 1) :: UWORD) = 1 + 32 * (mo + 1) + 512 * y"
    and "((d AND NOT DAY_BM) + (push_bit 5 1 + 1)) AND MTH_BM \<le> push_bit 5 12 \<longleftrightarrow> mo \<noteq> 12"
proof -
  have r: "unat (d AND NOT DAY_BM) = 32 * mo + 512 * y"
    using assms fields_join(1) [of dy mo y] by (simp add: unat_resets)
  show u: "unat ((d AND NOT DAY_BM) + (push_bit 5 1 + 1)) = 1 + 32 * (mo + 1) + 512 * y"
    using assms r by (simp add: unat_word_ariths)
  show "((d AND NOT DAY_BM) + (push_bit 5 1 + 1)) AND MTH_BM \<le> push_bit 5 12 \<longleftrightarrow> mo \<noteq> 12"
    unfolding word_le_nat_alt unat_fields u
    using assms fields_join(2) [of 1 "mo + 1" y] by (simp; linarith)
qed

lemma tick_years:
  assumes "unat d = 1 + 32 * 13 + 512 * y" "y < 128"
  shows "unat ((d AND YRS_BM) + (push_bit 9 1 + push_bit 5 1 + 1) :: UWORD)
    = 1 + 32 * 1 + 512 * ((y + 1) mod 128)"
proof -
  have r: "unat (d AND YRS_BM) = 512 * y" using assms by (simp add: unat_fields)
  show ?thesis
  proof (cases "y = 127")
    case True
    with r show ?thesis by (simp add: unat_word_ariths)
  next
    case False
    with r assms show ?thesis by (simp add: unat_word_ariths)
  qed
qed

text \<open>The stages of the tick composed, on the fields of a valid calendar.\<close>

lemma cal_of_fields:
  assumes "unat (current_time s) = x + 32 * mi + 2048 * h" "x < 32" "mi < 64"
    "unat (current_date s) = dy + 32 * mo + 512 * y" "dy < 32" "mo < 16"
  shows "cal_of s = \<lparr>c_y = y, c_mo = mo, c_d = dy, c_h = h, c_mi = mi, c_s2 = x\<rparr>"
  using mixed_radix_join [OF assms(5,6), of y] mixed_radix_join [OF assms(2,3), of h] assms(1,4)
  by (simp add: cal_of_def Let_def)

lemma fields_of_cal:
  "unat (current_time s) = c_s2 (cal_of s) + 32 * c_mi (cal_of s) + 2048 * c_h (cal_of s)"
  "unat (current_date s) = c_d (cal_of s) + 32 * c_mo (cal_of s) + 512 * c_y (cal_of s)"
  "c_mi (cal_of s) < 64" "c_s2 (cal_of s) < 32" "c_mo (cal_of s) < 16" "c_d (cal_of s) < 32"
  using date_split [of "unat (current_date s)"] time_split [of "unat (current_time s)"]
  by (simp_all add: cal_of_def Let_def)

lemma nat_upto_12: "(m :: nat) \<le> 12 \<Longrightarrow> m \<in> {0, 1, 2, 3, 4, 5, 6, 7, 8, 9, 10, 11, 12}"
  by (simp only: insert_iff empty_iff) presburger

lemma month_days_le: "m \<le> 12 \<Longrightarrow> month_days y m \<le> 31"
  using nat_upto_12 [of m] by (auto simp: month_days_def nday_leap_def nday_norm_def)

lemma month_days_ge: "m \<le> 12 \<Longrightarrow> 1 \<le> m \<Longrightarrow> 28 \<le> month_days y m"
  using nat_upto_12 [of m] by (auto simp: month_days_def nday_leap_def nday_norm_def)

text \<open>
  The whole tick on a state whose clock holds the given fields: one lemma for the part
  before midnight, one for the change of day.
\<close>

lemma tikfrk_time:
  fixes s :: dostime
  assumes t: "unat (current_time s) = x + 32 * mi + 2048 * h" and b: "x < 30" "mi < 60" "h < 24"
    and d: "unat (current_date s) = dy + 32 * mo + 512 * y" "dy < 32" "mo \<le> 12"
    and ms: "msec s + n < 32768" "2000 \<le> msec s + n"
    and nm: "\<not> (x = 29 \<and> mi = 59 \<and> h = 23)"
  shows "\<exists>s'. tikfrk n s = Some s' \<and> cal_of s' = cal_next \<lparr>c_y = y, c_mo = mo, c_d = dy, c_h = h, c_mi = mi, c_s2 = x\<rparr>
     \<and> msec s' = msec s + n - 2000"
proof -
  let ?t = "current_time s"
  have ms': "s16 (msec s + n) = msec s + n" "s16 (msec s + n - 2000) = msec s + n - 2000"
    using ms by simp_all
  note tick = tikfrk_def Let_def ms' cal_next_def not_less [THEN iffD2, OF ms(2)]
  note t1 = tick_seconds [OF t b]
  consider (sec) "x \<noteq> 29" | (min) "x = 29" "mi \<noteq> 59" | (hour) "x = 29" "mi = 59" "h \<noteq> 23"
    using nm by blast
  then show ?thesis
  proof cases
    case sec
    have "cal_of s' = \<lparr>c_y = y, c_mo = mo, c_d = dy, c_h = h, c_mi = mi, c_s2 = x + 1\<rparr>"
      if "current_time s' = ?t + 1" "current_date s' = current_date s" for s' :: dostime
      using that t1 b d by (intro cal_of_fields) simp_all
    with sec t1(2) show ?thesis by (simp add: tick)
  next
    case min
    note t2 = tick_minutes [OF t1(1) [unfolded min(1), simplified] b(2,3)]
    have "cal_of s' = \<lparr>c_y = y, c_mo = mo, c_d = dy, c_h = h, c_mi = mi + 1, c_s2 = 0\<rparr>"
      if "current_time s' = (?t + 1 AND NOT SEC_BM) + push_bit 5 1" "current_date s' = current_date s"
      for s' :: dostime
      using that t2 b d min by (intro cal_of_fields) simp_all
    with min t1(2) t2(2) show ?thesis by (simp add: tick)
  next
    case hour
    note t2 = tick_minutes [OF t1(1) [unfolded hour(1), simplified] b(2,3)]
    have "unat ((?t + 1 AND NOT SEC_BM) + push_bit 5 1) = 32 * 60 + 2048 * h"
      using t2(1) hour by simp
    note t3 = tick_hours [OF this b(3)]
    have "cal_of s' = \<lparr>c_y = y, c_mo = mo, c_d = dy, c_h = h + 1, c_mi = 0, c_s2 = 0\<rparr>"
      if "current_time s' = ((?t + 1 AND NOT SEC_BM) + push_bit 5 1 AND NOT MIN_BM) + push_bit 11 1"
        "current_date s' = current_date s" for s' :: dostime
      using that t3 b d hour by (intro cal_of_fields) simp_all
    with hour t1(2) t2(2) t3(2) show ?thesis by (simp add: tick)
  qed
qed

lemma tikfrk_midnight:
  fixes s :: dostime
  assumes t: "unat (current_time s) = 29 + 32 * 59 + 2048 * 23"
    and d: "unat (current_date s) = dy + 32 * mo + 512 * y" "1 \<le> dy" "dy \<le> month_days y mo"
      "mo \<le> 12" "y < 128"
    and ms: "msec s + n < 32768" "2000 \<le> msec s + n"
  shows "\<exists>s'. tikfrk n s = Some s' \<and> cal_of s' = cal_next \<lparr>c_y = y, c_mo = mo, c_d = dy, c_h = 23, c_mi = 59, c_s2 = 29\<rparr>
     \<and> msec s' = msec s + n - 2000"
proof -
  let ?d = "current_date s"
  have ms': "s16 (msec s + n) = msec s + n" "s16 (msec s + n - 2000) = msec s + n - 2000"
    using ms by simp_all
  let ?t = "current_time s"
  have t1: "unat (?t + 1) = 30 + 32 * 59 + 2048 * 23" "(?t + 1) AND SEC_BM = 30"
    using tick_seconds [OF t] by simp_all
  have t2: "unat ((?t + 1 AND NOT SEC_BM) + push_bit 5 1) = 32 * 60 + 2048 * 23"
    "((?t + 1 AND NOT SEC_BM) + push_bit 5 1) AND MIN_BM = push_bit 5 60"
    using tick_minutes [OF t1(1)] by simp_all
  have t3: "((?t + 1 AND NOT SEC_BM) + push_bit 5 1 AND NOT MIN_BM) + push_bit 11 1 AND HRS_BM = push_bit 11 24"
    using tick_hours [OF t2(1)] by simp
  have dy: "dy < 32" using d(3) month_days_le [OF d(4), of y] by simp
  have mf: "unat (drop_bit 5 (?d AND MTH_BM)) = mo" "unat (?d AND DAY_BM) = dy"
    "(if IS_A_LEAP_YEAR ?d then nday_leap else nday_norm) ! mo = month_days y mo"
    "mo < length (if IS_A_LEAP_YEAR ?d then nday_leap else nday_norm)"
    using d dy mixed_radix_join [of dy 32 mo 16 y]
    by (simp_all add: month_field unat_fields leap_field month_days_def nday_leap_def nday_norm_def
        del: drop_bit_and)
  note tick = tikfrk_def Let_def ms' cal_next_def not_less [THEN iffD2, OF ms(2)]
    mf not_le [THEN iffD2, OF mf(4)]
  consider (day) "dy < month_days y mo" | (month) "dy = month_days y mo" "mo \<noteq> 12"
    | (year) "dy = month_days y mo" "mo = 12" using d(3) by linarith
  then show ?thesis
  proof cases
    case day
    then have "unat (?d + 1) = (dy + 1) + 32 * mo + 512 * y"
      using tick_days [OF d(1)] d month_days_le [OF d(4), of y] by simp
    then have "cal_of s' = \<lparr>c_y = y, c_mo = mo, c_d = dy + 1, c_h = 0, c_mi = 0, c_s2 = 0\<rparr>"
      if "current_time s' = 0" "current_date s' = ?d + 1" for s' :: dostime
      using that d day month_days_le [OF d(4), of y] by (intro cal_of_fields) simp_all
    with day t1(2) t2(2) t3 show ?thesis by (simp add: tick del: drop_bit_and)
  next
    case month
    note m = tick_months [OF d(1) dy d(4,5)]
    have "cal_of s' = \<lparr>c_y = y, c_mo = mo + 1, c_d = 1, c_h = 0, c_mi = 0, c_s2 = 0\<rparr>"
      if "current_time s' = 0" "current_date s' = (?d AND NOT DAY_BM) + (push_bit 5 1 + 1)" for s' :: dostime
      using that d month m(1) by (intro cal_of_fields) simp_all
    with month m(2) t1(2) t2(2) t3 show ?thesis by (simp add: tick del: drop_bit_and)
  next
    case year
    note m = tick_months [OF d(1) dy d(4,5)]
    have "unat ((?d AND NOT DAY_BM) + (push_bit 5 1 + 1)) = 1 + 32 * 13 + 512 * y"
      using m(1) year by simp
    note z = tick_years [OF this d(5)]
    have "cal_of s' = \<lparr>c_y = (y + 1) mod 128, c_mo = 1, c_d = 1, c_h = 0, c_mi = 0, c_s2 = 0\<rparr>"
      if "current_time s' = 0"
        "current_date s' = ((?d AND NOT DAY_BM) + (push_bit 5 1 + 1) AND YRS_BM) + (push_bit 9 1 + push_bit 5 1 + 1)"
      for s' :: dostime
      using that z by (intro cal_of_fields) simp_all
    with year m(2) t1(2) t2(2) t3 show ?thesis by (simp add: tick [unfolded year(2)] del: drop_bit_and)
  qed
qed

lemma cal_next_valid:
  assumes "valid_cal c"
  shows "valid_cal (cal_next c)"
  using assms month_days_ge [of "c_mo c + 1" "c_y c"] month_days_ge [of 1 "(c_y c + 1) mod 128"]
  by (auto simp: valid_cal_def cal_next_def Let_def)

text \<open>
  C22. The timer tick implements the calendar: on a valid date and time, with a millisecond
  count that fits the WORD counter, \<open>tikfrk\<close> reads inside its day table, and either only
  counts milliseconds (below two seconds) or advances the packed GEMDOS time and date by
  exactly one two-second unit of the calendar, carrying through minutes, hours, days, months
  and years, and takes 2000 ms off the counter. The new date and time are valid again.
\<close>

theorem tikfrk_refines_calendar:
  assumes "valid_cal (cal_of s)" and "- 32768 \<le> msec s + n" "msec s + n < 32768"
  shows "\<exists>s'. tikfrk n s = Some s' \<and> valid_cal (cal_of s')
     \<and> cal_of s' = (if msec s + n < 2000 then cal_of s else cal_next (cal_of s))
     \<and> msec s' = (if msec s + n < 2000 then msec s + n else msec s + n - 2000)"
proof (cases "msec s + n < 2000")
  case True
  moreover have "cal_of (s\<lparr>msec := m\<rparr>) = cal_of s" for m by (simp add: cal_of_def)
  ultimately show ?thesis using assms by (simp add: tikfrk_def Let_def)
next
  case False
  obtain y mo dy h mi x where c: "cal_of s = \<lparr>c_y = y, c_mo = mo, c_d = dy, c_h = h, c_mi = mi, c_s2 = x\<rparr>"
    by (metis cal.surjective old.unit.exhaust)
  have b: "x < 30" "mi < 60" "h < 24" "y < 128" "mo \<le> 12" "1 \<le> dy" "dy \<le> month_days y mo"
    using assms(1) c by (simp_all add: valid_cal_def)
  have f: "unat (current_time s) = x + 32 * mi + 2048 * h"
    "unat (current_date s) = dy + 32 * mo + 512 * y" "dy < 32"
    using fields_of_cal [of s] c by simp_all
  have "\<exists>s'. tikfrk n s = Some s' \<and> cal_of s' = cal_next (cal_of s) \<and> msec s' = msec s + n - 2000"
  proof (cases "x = 29 \<and> mi = 59 \<and> h = 23")
    case True
    then show ?thesis
      using tikfrk_midnight [of s dy mo y n] f b assms False c by simp
  next
    case False
    then show ?thesis
      using tikfrk_time [of s x mi h dy mo y n] f b assms \<open>\<not> msec s + n < 2000\<close> c by simp
  qed
  with assms(1) False show ?thesis by (auto intro: cal_next_valid)
qed

definition sample_time :: dostime where
  "sample_time = clockst.extend
     (sample_clock\<lparr>current_time := word_of_nat (29 + 32 * 59 + 2048 * 23),
                   current_date := word_of_nat (29 + 32 * 2 + 512 * 44)\<rparr>) \<lparr>msec = 1990\<rparr>"

lemma sample_time_fields:
  "cal_of sample_time = \<lparr>c_y = 44, c_mo = 2, c_d = 29, c_h = 23, c_mi = 59, c_s2 = 29\<rparr>"
  "msec sample_time = 1990"
  by (simp_all add: cal_of_def sample_time_def clockst.defs)

theorem tikfrk_refines_calendar_witness:
  "\<exists>s'. tikfrk 20 sample_time = Some s' \<and> msec s' = 10
     \<and> cal_of s' = \<lparr>c_y = 44, c_mo = 3, c_d = 1, c_h = 0, c_mi = 0, c_s2 = 0\<rparr>"
  using tikfrk_refines_calendar [of sample_time 20]
  by (auto simp: sample_time_fields valid_cal_def month_days_def nday_leap_def cal_next_def)

lemma days_before_next:
  "1 \<le> m \<Longrightarrow> days_before_month y (m + 1) = days_before_month y m + month_days y m"
  by (simp add: days_before_month_def)

lemma days_before_first: "days_before_month y 1 = 0"
  by (simp add: days_before_month_def)

lemma days_of_year:
  "days_before_month y 12 + month_days y 12 = (if y mod 4 = 0 then 366 else 365)"
  by (simp add: days_before_month_def month_days_def nday_leap_def nday_norm_def upt_rec)

lemma leap_count: "(y + 1 + 3) div 4 = (y + 3) div 4 + (if y mod 4 = 0 then 1 else 0 :: nat)"
  by (simp; presburger)

text \<open>
  The calendar counts real time: one step of the calendar is one two-second unit
  later, counted from 1 January 1980 with a leap year every four years, for every valid
  date and time except the last two seconds of 2107, where the seven-bit year wraps.
\<close>

theorem cal_next_elapsed:
  assumes v: "valid_cal c"
    and w: "cal_next c \<noteq> \<lparr>c_y = 0, c_mo = 1, c_d = 1, c_h = 0, c_mi = 0, c_s2 = 0\<rparr>"
  shows "elapsed (cal_next c) = elapsed c + 1"
proof -
  obtain y mo d h mi x where c: "c = \<lparr>c_y = y, c_mo = mo, c_d = d, c_h = h, c_mi = mi, c_s2 = x\<rparr>"
    by (metis cal.surjective old.unit.exhaust)
  have b: "y < 128" "1 \<le> mo" "mo \<le> 12" "1 \<le> d" "d \<le> month_days y mo" "h < 24" "mi < 60" "x < 30"
    using v by (simp_all add: c valid_cal_def)
  consider (time) "x \<noteq> 29 \<or> mi \<noteq> 59 \<or> h \<noteq> 23"
    | (day) "x = 29" "mi = 59" "h = 23" "d < month_days y mo"
    | (month) "x = 29" "mi = 59" "h = 23" "d = month_days y mo" "mo \<noteq> 12"
    | (year) "x = 29" "mi = 59" "h = 23" "d = month_days y mo" "mo = 12"
    using b by linarith
  then show ?thesis
  proof cases
    case month
    then show ?thesis using b(2,4) days_before_next [OF b(2), of y]
      by (simp add: c cal_next_def elapsed_def)
  next
    case year
    with w b(1) have "y < 127" by (cases "y = 127") (auto simp: c cal_next_def)
    with year b(4) show ?thesis
      using days_before_first [of "y + 1"] days_of_year [of y] leap_count [of y]
      by (simp add: c cal_next_def elapsed_def split: if_splits)
  qed (use b in \<open>auto simp: c cal_next_def elapsed_def algebra_simps\<close>)
qed

theorem cal_next_elapsed_witness:
  "elapsed (cal_next (cal_of sample_time)) = elapsed (cal_of sample_time) + 1"
  using cal_next_elapsed [of "cal_of sample_time"]
  by (simp add: sample_time_fields valid_cal_def month_days_def nday_leap_def cal_next_def)

lemma settime_fields [simp]:
  "current_time (settime dt s) = LOWORD dt" "current_date (settime dt s) = HIWORD dt"
  by (simp_all add: settime_def Let_def)

lemma settime_msec [simp]: "msec (settime dt s) = msec s"
  by (simp add: settime_def Let_def)

text \<open>The tests of the two setters, on the fields of the packed words.\<close>

lemma xsetdate_test:
  "(drop_bit 9 d > 119 \<or> drop_bit 5 (d AND MTH_BM) > 12
     \<or> unat (d AND DAY_BM) > (if IS_A_LEAP_YEAR d then nday_leap else nday_norm) ! unat (drop_bit 5 (d AND MTH_BM)))
   \<longleftrightarrow> \<not> (unat d div 512 \<le> 119 \<and> unat d div 32 mod 16 \<le> 12
     \<and> unat d mod 32 \<le> month_days (unat d div 512) (unat d div 32 mod 16))"
proof -
  have "unat (drop_bit 9 d) = unat d div 512" by (simp add: unat_drop_bit_eq drop_bit_eq_div [where 'a = nat])
  then show ?thesis
    by (auto simp: word_less_nat_alt month_field unat_fields leap_field month_days_def simp del: drop_bit_and)
qed

lemma xsettime_test:
  "(t AND SEC_BM \<ge> 30 \<or> t AND MIN_BM \<ge> push_bit 5 60 \<or> t AND HRS_BM \<ge> push_bit 11 24)
   \<longleftrightarrow> \<not> (unat t mod 32 < 30 \<and> unat t div 32 mod 64 < 60 \<and> unat t div 2048 < 24)"
proof -
  have "unat t div 2048 mod 32 = unat t div 2048" using unat16 [of t] by (simp add: less_mult_imp_div_less)
  then show ?thesis by (auto simp: word_le_nat_alt unat_fields)
qed

text \<open>
  \<open>xsetdate\<close> and \<open>xsettime\<close> change the clock exactly when the fields pass the tests,
  and then a following \<open>xgetdate\<close>/\<open>xgettime\<close> reads the value set, with the other half of the
  clock and the millisecond counter kept; otherwise they return \<open>ERR\<close> and change nothing. For
  the time the test is validity; for the date it is weaker, for month 0 with day 0, and day 0
  of every month, are accepted.
\<close>

theorem set_date_time_spec:
  "(case xsetdate d s of (r, s') \<Rightarrow>
      if unat d div 512 \<le> 119 \<and> unat d div 32 mod 16 \<le> 12
        \<and> unat d mod 32 \<le> month_days (unat d div 512) (unat d div 32 mod 16)
      then r = E_OK \<and> xgetdate s' = uint d \<and> xgettime s' = xgettime s \<and> msec s' = msec s
      else r = ERR \<and> s' = s)
   \<and> (case xsettime t s of (r, s') \<Rightarrow>
      if unat t mod 32 < 30 \<and> unat t div 32 mod 64 < 60 \<and> unat t div 2048 < 24
      then r = E_OK \<and> xgettime s' = uint t \<and> xgetdate s' = xgetdate s \<and> msec s' = msec s
      else r = ERR \<and> s' = s)"
  unfolding xsetdate_def xsettime_def Let_def xsetdate_test xsettime_test xgetdate_def xgettime_def
  by simp

lemma unat_MAKE_ULONG: "unat (MAKE_ULONG hi lo) = unat hi * 65536 + unat lo"
proof -
  have "push_bit 16 (ucast hi) OR ucast lo = push_bit 16 (ucast hi) + (ucast lo :: ULONG)"
    by (rule disjunctive_add [symmetric]) (auto simp: bit_simps dest: bit_imp_le_length)
  moreover have c: "unat (ucast w :: ULONG) = unat (w :: UWORD)" for w
    using unat16 [of w] by (simp add: unsigned_ucast_eq take_bit_nat_eq_self)
  moreover have "unat (push_bit 16 (ucast hi) :: ULONG) = unat hi * 65536"
    using unat16 [of hi] by (simp add: push_bit_eq_mult unat_word_ariths c)
  ultimately show ?thesis unfolding MAKE_ULONG_def
    using unat16 [of hi] unat16 [of lo] by (simp add: unat_word_ariths)
qed

lemma unat_field: "unat (drop_bit k w AND mask n) = unat w div 2 ^ k mod 2 ^ n"
  by (simp only: unat_and_mask unat_drop_bit_eq) (simp add: drop_bit_eq_div [where 'a = nat])

text \<open>
  The date command prints the year, month, hour, minute and second the clock word
  holds, but of the day only its low four bits: the mask is \<open>0xF\<close> where the day field has
  five bits, so every day from the 16th on is printed as the day minus 16.
\<close>

theorem date_main_day_truncated:
  "date_main (MAKE_ULONG (current_date s) (current_time s)) =
     (let c = cal_of s in
      \<lparr>df_year = 1980 + c_y c, df_month = c_mo c, df_day = c_d c mod 16,
       df_hour = c_h c, df_min = c_mi c, df_sec = 2 * c_s2 c\<rparr>)"
proof -
  let ?d = "unat (current_date s)" and ?t = "unat (current_time s)"
  have m: "(0x7F :: ULONG) = mask 7" "(0xF :: ULONG) = mask 4" "(0x1F :: ULONG) = mask 5" "(0x3F :: ULONG) = mask 6"
    by (simp_all add: mask_eq_exp_minus_1)
  have hi: "(?d * 65536 + ?t) div (65536 * k) = ?d div k" for k
    using unat16 [of "current_time s"] by (simp add: div_mult2_eq)
  have lo: "(?d * 65536 + ?t) div k mod n = ?t div k mod n" if "65536 = k * n * j" "0 < k" for k n j
  proof -
    have "(?d * (k * n * j) + ?t) div k = n * (?d * j) + ?t div k"
      using that(2) div_mult_self3 [of k "?d * n * j" ?t] by (simp add: algebra_simps)
    then show ?thesis unfolding that(1) by simp
  qed
  have h: "?d div 512 < 128" "?t div 2048 < 32"
    using unat16 [of "current_date s"] unat16 [of "current_time s"] by (simp_all add: less_mult_imp_div_less)
  have "unat (push_bit 1 (MAKE_ULONG (current_date s) (current_time s)) AND 0x3F)
    = 2 * (?t mod 32)"
  proof -
    have "(?d * 65536 + ?t) * 2 mod 4294967296 mod 64 = 2 * ((?d * 65536 + ?t) mod 32)"
      by (simp add: mod_mod_cancel mult_mod_right mult.commute)
    also have "\<dots> = 2 * (?t mod 32)" using lo [of 1 32 2048] by simp
    finally show ?thesis unfolding m unat_and_mask
      by (simp add: push_bit_eq_mult unat_word_ariths unat_MAKE_ULONG)
  qed
  then show ?thesis
    unfolding date_main_def m unat_field unat_and_mask unat_MAKE_ULONG
    using hi [of 512] hi [of 32] hi [of 1] lo [of 2048 32 1] lo [of 32 64 32] h
    by (simp add: cal_of_def Let_def unat_drop_bit_eq drop_bit_eq_div [where 'a = nat] unat_MAKE_ULONG
        mod_mod_cancel div_less [OF unat16])
qed

end
