(* ===== verification/OsMem.thy ===== *)
theory OsMem
  imports Prelude
begin

text \<open>
  bdos/osmem.c: the internal memory pool of the BDOS. Blocks of a control word and a
  128-byte payload are carved from the static array \<open>osmem\<close> and recycled through the list
  anchored at \<open>root[4]\<close>; an \<open>MDBLOCK\<close> is a payload split into three memory descriptors. The
  store is typed: the control word of a block, the pointer at its start (the list link of a
  free block and \<open>mdb_next\<close> of an \<open>MDBLOCK\<close>, which share the bytes), the index word behind a
  memory descriptor and the four fields of a descriptor are separate maps, keyed by the byte
  address of the block or descriptor. Widths are those of the m68k build.
\<close>

record osm =
  osmem :: nat
  osmptr :: int
  osmlen :: int
  root4 :: nat
  mdbroot :: nat
  ctl :: "nat \<Rightarrow> int"
  blk_link :: "nat \<Rightarrow> nat"
  md_index :: "nat \<Rightarrow> int"
  m_link :: "nat \<Rightarrow> nat"
  m_start :: "nat \<Rightarrow> int"
  m_length :: "nat \<Rightarrow> int"
  m_own :: "nat \<Rightarrow> nat"
  dbgfreblk :: int
  dbggtosm :: int
  dbggtblk :: int

text \<open>Sizes, in bytes except for the two word counts.\<close>

definition OSM_PAYLOAD_BYTES :: nat where "OSM_PAYLOAD_BYTES = 128"
definition BLOCK_PAD_BYTES :: nat where "BLOCK_PAD_BYTES = 2"
definition LEN_OSM_BLOCK :: nat where "LEN_OSM_BLOCK = BLOCK_PAD_BYTES + OSM_PAYLOAD_BYTES"
definition NUM_OSM_BLOCKS :: nat where "NUM_OSM_BLOCKS = 118"
definition LENOSM :: int where "LENOSM = int (LEN_OSM_BLOCK * NUM_OSM_BLOCKS div 2)"
definition OSM_PAYLOAD :: int where "OSM_PAYLOAD = int (OSM_PAYLOAD_BYTES div 2)"
definition BLOCK_PAD :: int where "BLOCK_PAD = int (BLOCK_PAD_BYTES div 2)"
definition MDS_PER_BLOCK :: nat where "MDS_PER_BLOCK = 3"

text \<open>\<open>&mdb->entry[i]\<close>: the entries follow the four-byte \<open>mdb_next\<close>, eighteen bytes each.\<close>

definition mdb_entry :: "nat \<Rightarrow> nat \<Rightarrow> nat" where
  "mdb_entry mdb i = mdb + 4 + 18 * i"

definition MEMTYPE_MDBLOCK :: int where "MEMTYPE_MDBLOCK = 0"
definition MEMTYPE_DMD :: int where "MEMTYPE_DMD = 1"
definition MEMTYPE_DND :: int where "MEMTYPE_DND = 2"
definition MEMTYPE_OFD :: int where "MEMTYPE_OFD = 3"

lemmas osm_sizes = OSM_PAYLOAD_BYTES_def BLOCK_PAD_BYTES_def LEN_OSM_BLOCK_def NUM_OSM_BLOCKS_def
  LENOSM_def OSM_PAYLOAD_def BLOCK_PAD_def MDS_PER_BLOCK_def
  MEMTYPE_MDBLOCK_def MEMTYPE_DMD_def MEMTYPE_DND_def MEMTYPE_OFD_def

definition getosm :: "int \<Rightarrow> 'a osm_scheme \<Rightarrow> nat \<times> 'a osm_scheme" where
  "getosm n s =
     (if n > osmlen s then (0, s\<lparr>dbggtosm := s32 (dbggtosm s + 1)\<rparr>)
      else (osmem s + 2 * nat (osmptr s),
            s\<lparr>osmptr := s16 (osmptr s + n), osmlen := s16 (osmlen s - n)\<rparr>))"

text \<open>\<open>*q++ = 0\<close> over the payload words: every field stored in the payload becomes zero.\<close>

definition zero_block :: "nat \<Rightarrow> 'a osm_scheme \<Rightarrow> 'a osm_scheme" where
  "zero_block m s =
     (let inside = (\<lambda>a n. m \<le> a \<and> a + n \<le> m + OSM_PAYLOAD_BYTES) in
      s\<lparr>blk_link := (\<lambda>a. if inside a 4 then 0 else blk_link s a),
        md_index := (\<lambda>a. if inside (a + 16) 2 then 0 else md_index s a),
        m_link := (\<lambda>a. if inside a 4 then 0 else m_link s a),
        m_start := (\<lambda>a. if inside (a + 4) 4 then 0 else m_start s a),
        m_length := (\<lambda>a. if inside (a + 8) 4 then 0 else m_length s a),
        m_own := (\<lambda>a. if inside (a + 12) 4 then 0 else m_own s a)\<rparr>)"

text \<open>
  The loop of \<open>xmgetblk\<close>, up to the \<open>break\<close>. \<open>free_dnds\<close> is \<open>free_available_dnds\<close>, which the
  file system provides; \<open>None\<close> is the halted system.
\<close>

function xmgetblk_loop ::
  "('a osm_scheme \<Rightarrow> int \<times> 'a osm_scheme) \<Rightarrow> int \<Rightarrow> nat \<Rightarrow> 'a osm_scheme \<Rightarrow> (nat \<times> 'a osm_scheme) option" where
  "xmgetblk_loop free_dnds memtype j s =
     (if root4 s \<noteq> 0 then Some (root4 s, s\<lparr>root4 := blk_link s (root4 s)\<rparr>)
      else
      case getosm (OSM_PAYLOAD + BLOCK_PAD) s of (m, s) \<Rightarrow>
        if m \<noteq> 0 then Some (m + BLOCK_PAD_BYTES, s\<lparr>ctl := (ctl s)(m + BLOCK_PAD_BYTES := 4)\<rparr>)
        else if memtype = MEMTYPE_MDBLOCK then Some (0, s)
        else if j \<ge> 2 then None
        else case free_dnds s of (n, s) \<Rightarrow>
          if n = 0 then None else xmgetblk_loop free_dnds memtype (j + 1) s)"
  by pat_completeness auto

termination
  by (relation "measure (\<lambda>(f, t, j, s). 2 - j)") auto

declare xmgetblk_loop.simps [simp del]

definition xmgetblk ::
  "('a osm_scheme \<Rightarrow> int \<times> 'a osm_scheme) \<Rightarrow> int \<Rightarrow> 'a osm_scheme \<Rightarrow> (nat \<times> 'a osm_scheme) option" where
  "xmgetblk free_dnds memtype s =
     (if memtype < MEMTYPE_MDBLOCK \<or> memtype > MEMTYPE_OFD
      then Some (0, s\<lparr>dbggtblk := s32 (dbggtblk s + 1)\<rparr>)
      else case xmgetblk_loop free_dnds memtype 0 s of
        None \<Rightarrow> None
      | Some (m, s) \<Rightarrow> Some (m, if m \<noteq> 0 then zero_block m s else s))"

definition xmfreblk :: "nat \<Rightarrow> 'a osm_scheme \<Rightarrow> 'a osm_scheme" where
  "xmfreblk m s =
     (if ctl s m \<noteq> 4 then s\<lparr>dbgfreblk := s32 (dbgfreblk s + 1)\<rparr>
      else s\<lparr>blk_link := (blk_link s)(m := root4 s), root4 := m\<rparr>)"

text \<open>\<open>None\<close>: the search for the previous block does not return (a circular chain).\<close>

definition unlink_mdblock :: "nat \<Rightarrow> 'a osm_scheme \<Rightarrow> (int \<times> 'a osm_scheme) option" where
  "unlink_mdblock mdb s =
     (let nxt = blk_link s mdb; s = s\<lparr>blk_link := (blk_link s)(mdb := 0)\<rparr> in
      if mdb = mdbroot s then Some (0, s\<lparr>mdbroot := nxt\<rparr>)
      else case find_link (blk_link s) (\<lambda>prev. blk_link s prev = mdb) 0 (mdbroot s) of
        None \<Rightarrow> None
      | Some (_, prev) \<Rightarrow>
          if prev = 0 then Some (- 1, s)
          else Some (0, s\<lparr>blk_link := (blk_link s)(prev := nxt)\<rparr>))"

text \<open>The allocation loop of \<open>xmgetmd\<close> over the three entries: \<open>(md, avail, index words)\<close>.\<close>

fun alloc_entry :: "nat \<Rightarrow> nat \<Rightarrow> nat \<times> nat \<times> (nat \<Rightarrow> int) \<Rightarrow> nat \<times> nat \<times> (nat \<Rightarrow> int)" where
  "alloc_entry mdb i (md, avail, ix) =
     (if ix (mdb_entry mdb i) < 0
      then if md = 0 then (mdb_entry mdb i, avail, ix(mdb_entry mdb i := int i))
           else (md, avail + 1, ix)
      else (md, avail, ix))"

text \<open>The second half of \<open>xmgetmd\<close>: take an entry, and unlink the block when it is full.\<close>

definition xmgetmd_take :: "nat \<Rightarrow> 'a osm_scheme \<Rightarrow> (nat \<times> 'a osm_scheme) option" where
  "xmgetmd_take mdb s =
     (case fold (alloc_entry mdb) [0..<MDS_PER_BLOCK] (0, 0, md_index s) of (md, avail, ix) \<Rightarrow>
        let s = s\<lparr>md_index := ix\<rparr> in
        if md = 0 then Some (0, s)
        else if avail = 0
        then map_option (\<lambda>(_, s). (md, s)) (unlink_mdblock mdb s)
        else Some (md, s))"

text \<open>\<open>MGET(MDBLOCK)\<close> never calls \<open>free_available_dnds\<close>, so any function stands for it.\<close>

definition xmgetmd :: "'a osm_scheme \<Rightarrow> (nat \<times> 'a osm_scheme) option" where
  "xmgetmd s =
     (if mdbroot s \<noteq> 0 then xmgetmd_take (mdbroot s) s
      else case xmgetblk (\<lambda>s. (0, s)) MEMTYPE_MDBLOCK s of
        None \<Rightarrow> None
      | Some (mdb, s) \<Rightarrow>
          if mdb = 0 then Some (0, s)
          else xmgetmd_take mdb (s\<lparr>blk_link := (blk_link s)(mdb := 0),
                 md_index := fold (\<lambda>i ix. ix(mdb_entry mdb i := - 1)) [0..<MDS_PER_BLOCK] (md_index s),
                 mdbroot := mdb\<rparr>))"

definition xmfremd :: "nat \<Rightarrow> 'a osm_scheme \<Rightarrow> 'a osm_scheme option" where
  "xmfremd md s =
     (let i = md_index s md in
      if i < 0 \<or> i \<ge> int MDS_PER_BLOCK then Some s
      else
      let mdb = md - 18 * nat i - 4;
          ix = (md_index s)(mdb_entry mdb (nat i) := - 1);
          s = s\<lparr>md_index := ix\<rparr>;
          avail = length (filter (\<lambda>i. ix (mdb_entry mdb i) < 0) [0..<MDS_PER_BLOCK])
      in if avail = 3
         then map_option (\<lambda>(r, s). if r = 0 then xmfreblk mdb s else s) (unlink_mdblock mdb s)
         else if avail = 1 then Some (s\<lparr>blk_link := (blk_link s)(mdb := mdbroot s), mdbroot := mdb\<rparr>)
         else Some s)"

definition osmem_init :: "'a osm_scheme \<Rightarrow> 'a osm_scheme" where
  "osmem_init s = s\<lparr>osmlen := LENOSM, mdbroot := 0, dbgfreblk := 0, dbggtosm := 0, dbggtblk := 0\<rparr>"

section \<open>The invariant of the pool\<close>

text \<open>
  \<open>blocks s\<close>: the payload addresses carved so far. \<open>osm_ok s F M D\<close>: \<open>F\<close> is the list of free
  blocks, \<open>M\<close> the chain of partly used \<open>MDBLOCK\<close>s, \<open>D\<close> the full ones; every other block
  belongs to a client.
\<close>

definition blocks :: "'a osm_scheme \<Rightarrow> nat set" where
  "blocks s = (\<lambda>k. osmem s + 2 + 130 * k) ` {..<nat (osmptr s) div 65}"

definition entry_used :: "'a osm_scheme \<Rightarrow> nat \<Rightarrow> nat \<Rightarrow> bool" where
  "entry_used s b i \<longleftrightarrow> md_index s (mdb_entry b i) = int i"

definition mdbs_ok :: "'a osm_scheme \<Rightarrow> nat set \<Rightarrow> nat set \<Rightarrow> bool" where
  "mdbs_ok s M D \<longleftrightarrow>
     (\<forall>b \<in> M \<union> D. \<forall>i < 3. entry_used s b i \<or> md_index s (mdb_entry b i) = - 1)
     \<and> (\<forall>b \<in> M. (\<exists>i < 3. entry_used s b i) \<and> (\<exists>i < 3. \<not> entry_used s b i))
     \<and> (\<forall>b \<in> D. \<forall>i < 3. entry_used s b i)"

definition pool_ok :: "'a osm_scheme \<Rightarrow> nat list \<Rightarrow> nat list \<Rightarrow> nat set \<Rightarrow> bool" where
  "pool_ok s F M D \<longleftrightarrow>
     0 < osmem s \<and> (\<exists>n. osmptr s = 65 * int n) \<and> osmptr s + osmlen s = LENOSM \<and> 0 \<le> osmlen s
     \<and> (\<forall>b \<in> blocks s. ctl s b = 4)
     \<and> chain (blk_link s) (root4 s) F \<and> chain (blk_link s) (mdbroot s) M
     \<and> set F \<inter> set M = {} \<and> D \<inter> (set F \<union> set M) = {} \<and> set F \<union> set M \<union> D \<subseteq> blocks s"

definition osm_ok :: "'a osm_scheme \<Rightarrow> nat list \<Rightarrow> nat list \<Rightarrow> nat set \<Rightarrow> bool" where
  "osm_ok s F M D \<longleftrightarrow> pool_ok s F M D \<and> mdbs_ok s (set M) D"

definition used_mds :: "'a osm_scheme \<Rightarrow> nat set \<Rightarrow> nat set" where
  "used_mds s B = {mdb_entry b i | b i. b \<in> B \<and> i < 3 \<and> entry_used s b i}"

definition clients :: "'a osm_scheme \<Rightarrow> nat list \<Rightarrow> nat list \<Rightarrow> nat set \<Rightarrow> nat set" where
  "clients s F M D = blocks s - set F - set M - D"

text \<open>The descriptor fields of an address, read together.\<close>

definition md_of :: "'a osm_scheme \<Rightarrow> nat \<Rightarrow> nat \<times> int \<times> int \<times> nat" where
  "md_of s x = (m_link s x, m_start s x, m_length s x, m_own s x)"

definition outside_pool :: "'a osm_scheme \<Rightarrow> nat \<Rightarrow> bool" where
  "outside_pool s x \<longleftrightarrow> x + 18 \<le> osmem s \<or> osmem s + 15340 \<le> x"

lemma block_gap: "b \<in> blocks s \<Longrightarrow> c \<in> blocks s \<Longrightarrow> b < c \<Longrightarrow> b + 130 \<le> c"
  by (auto simp: blocks_def)

lemma entry_inj:
  assumes "b \<in> blocks s" "c \<in> blocks s" "i < 3" "j < 3" "mdb_entry b i = mdb_entry c j"
  shows "b = c \<and> i = j"
proof -
  have "\<not> b < c" "\<not> c < b"
    using assms block_gap [OF assms(1,2)] block_gap [OF assms(2,1)] by (auto simp: mdb_entry_def)
  with assms(5) show ?thesis by (auto simp: mdb_entry_def)
qed

lemma zero_block_frame:
  assumes "b \<in> blocks s" "m \<in> blocks s" "b \<noteq> m" "i < 3"
  shows "blk_link (zero_block m s) b = blk_link s b"
    "md_index (zero_block m s) (mdb_entry b i) = md_index s (mdb_entry b i)"
    "md_of (zero_block m s) (mdb_entry b i) = md_of s (mdb_entry b i)"
  using assms block_gap [OF assms(1,2)] block_gap [OF assms(2,1)]
  by (cases "b < m"; simp add: zero_block_def mdb_entry_def md_of_def osm_sizes Let_def)+

lemma block_range: "b \<in> blocks s \<Longrightarrow> 0 \<le> osmptr s \<Longrightarrow> osmem s < b \<and> b + 128 \<le> osmem s + 2 * nat (osmptr s)"
  by (auto simp: blocks_def)

section \<open>Getting and freeing blocks\<close>

lemma chain_upd: "a \<notin> set xs \<Longrightarrow> chain nx p xs \<Longrightarrow> chain (nx(a := v)) p xs"
  by (simp add: seg_frame)

lemma xmfreblk_ok:
  assumes "osm_ok s F M D" "b \<in> clients s F M D"
  shows "osm_ok (xmfreblk b s) (b # F) M D" "clients (xmfreblk b s) (b # F) M D = clients s F M D - {b}"
proof -
  from assms have b: "b \<in> blocks s" "b \<notin> set F" "b \<notin> set M" "b \<notin> D" "ctl s b = 4" "b \<noteq> 0"
    by (auto simp: clients_def osm_ok_def pool_ok_def blocks_def)
  then have e: "xmfreblk b s = s\<lparr>blk_link := (blk_link s)(b := root4 s), root4 := b\<rparr>"
    by (simp add: xmfreblk_def)
  have bl: "blocks (xmfreblk b s) = blocks s" by (simp add: e blocks_def)
  show "osm_ok (xmfreblk b s) (b # F) M D"
    using assms(1) b unfolding osm_ok_def pool_ok_def bl by (simp add: e entry_used_def mdbs_ok_def seg_frame)
  show "clients (xmfreblk b s) (b # F) M D = clients s F M D - {b}"
    unfolding clients_def bl by auto
qed

text \<open>What a block taken by the loop of \<open>xmgetblk\<close> and zeroed leaves of the invariant.\<close>

lemma mdbs_ok_cong:
  assumes "\<And>b i. b \<in> M \<union> D \<Longrightarrow> i < 3 \<Longrightarrow> md_index s' (mdb_entry b i) = md_index s (mdb_entry b i)"
  shows "mdbs_ok s' M D = mdbs_ok s M D" "used_mds s' (M \<union> D) = used_mds s (M \<union> D)"
proof -
  have "entry_used s' b i = entry_used s b i" if "b \<in> M \<union> D" "i < 3" for b i
    using assms that by (simp add: entry_used_def)
  then show "mdbs_ok s' M D = mdbs_ok s M D" "used_mds s' (M \<union> D) = used_mds s (M \<union> D)"
    unfolding mdbs_ok_def used_mds_def using assms by (smt (verit) Un_iff, auto)
qed

lemma zero_block_ok:
  assumes ok: "osm_ok s F M D" and m: "m \<in> clients s F M D"
  shows "osm_ok (zero_block m s) F M D" "clients (zero_block m s) F M D = clients s F M D"
    "used_mds (zero_block m s) (set M \<union> D) = used_mds s (set M \<union> D)"
proof -
  let ?z = "zero_block m s"
  have bl: "blocks ?z = blocks s" by (simp add: zero_block_def blocks_def Let_def)
  have same: "osmem ?z = osmem s" "osmptr ?z = osmptr s" "osmlen ?z = osmlen s" "ctl ?z = ctl s"
    "root4 ?z = root4 s" "mdbroot ?z = mdbroot s"
    by (simp_all add: zero_block_def Let_def)
  from ok m have ne: "b \<in> blocks s" "b \<noteq> m" if "b \<in> set F \<union> set M \<union> D" for b
    using that by (auto simp: osm_ok_def pool_ok_def clients_def)
  have mb: "m \<in> blocks s" using m by (simp add: clients_def)
  have ln: "blk_link ?z b = blk_link s b" if "b \<in> set F \<union> set M \<union> D" for b
    using zero_block_frame(1) [OF ne(1) mb ne(2), of b 0] that by simp
  have ix: "md_index ?z (mdb_entry b i) = md_index s (mdb_entry b i)"
    if "b \<in> set M \<union> D" "i < 3" for b i
    using zero_block_frame(2) [OF ne(1) mb ne(2), of b i] that by simp
  have "seg (blk_link ?z) p F q = seg (blk_link s) p F q" "seg (blk_link ?z) p M q = seg (blk_link s) p M q" for p q
    by (rule seg_cong, simp add: ln)+
  then show "osm_ok ?z F M D"
    using ok mdbs_ok_cong(1) [OF ix] unfolding osm_ok_def pool_ok_def bl same by simp
  show "clients ?z F M D = clients s F M D" by (simp add: clients_def bl)
  show "used_mds ?z (set M \<union> D) = used_mds s (set M \<union> D)" by (rule mdbs_ok_cong(2) [OF ix])
qed

text \<open>One pass of the loop: from the free list, or from the pool.\<close>

lemma loop_free_list:
  assumes "osm_ok s (m # F) M D"
  shows "xmgetblk_loop f t j s = Some (m, s\<lparr>root4 := hd0 F\<rparr>)"
    "osm_ok (s\<lparr>root4 := hd0 F\<rparr>) F M D" "m \<notin> clients s (m # F) M D"
    "clients (s\<lparr>root4 := hd0 F\<rparr>) F M D = insert m (clients s (m # F) M D)"
proof -
  from assms have c: "chain (blk_link s) (root4 s) (m # F)" and bm: "m \<in> blocks s" by (auto simp: osm_ok_def pool_ok_def)
  then have r: "root4 s = m" "m \<noteq> 0" "blk_link s m = hd0 F" "m \<notin> set F"
    using chain_distinct [OF c] by (auto dest: chain_hd0)
  then show "xmgetblk_loop f t j s = Some (m, s\<lparr>root4 := hd0 F\<rparr>)" by (simp add: xmgetblk_loop.simps)
  show "osm_ok (s\<lparr>root4 := hd0 F\<rparr>) F M D"
    using assms r by (auto simp: osm_ok_def pool_ok_def blocks_def mdbs_ok_def entry_used_def)
  show "m \<notin> clients s (m # F) M D" by (simp add: clients_def)
  show "clients (s\<lparr>root4 := hd0 F\<rparr>) F M D = insert m (clients s (m # F) M D)"
    using assms r(4) bm by (auto simp: clients_def blocks_def osm_ok_def pool_ok_def)
qed

definition carved :: "'a osm_scheme \<Rightarrow> 'a osm_scheme" where
  "carved s = s\<lparr>osmptr := osmptr s + 65, osmlen := osmlen s - 65,
     ctl := (ctl s)(osmem s + 2 * nat (osmptr s) + 2 := 4)\<rparr>"

lemma loop_pool:
  assumes ok: "osm_ok s [] M D" and room: "65 \<le> osmlen s"
  defines "m \<equiv> osmem s + 2 * nat (osmptr s) + 2"
  shows "xmgetblk_loop f t j s = Some (m, carved s)"
    "osm_ok (carved s) [] M D" "m \<notin> clients s [] M D"
    "clients (carved s) [] M D = insert m (clients s [] M D)"
proof -
  from ok obtain n where n: "osmptr s = 65 * int n" by (auto simp: osm_ok_def pool_ok_def)
  with ok have n2: "osmlen s = 7670 - 65 * int n" by (simp add: osm_ok_def pool_ok_def osm_sizes)
  have m: "m = osmem s + 2 + 130 * n" by (simp add: m_def n)
  have k: "nat (osmptr s) div 65 = n" "nat (osmptr s + 65) div 65 = Suc n" by (simp_all add: n)
  have bl: "blocks (carved s) = insert m (blocks s)"
    by (auto simp: blocks_def carved_def k m lessThan_Suc)
  have fresh: "m \<notin> blocks s" by (auto simp: blocks_def k m)
  from ok have r: "root4 s = 0" "0 < osmem s" by (simp_all add: osm_ok_def pool_ok_def)
  show "xmgetblk_loop f t j s = Some (m, carved s)"
    using r room n n2 by (simp add: xmgetblk_loop.simps getosm_def osm_sizes m_def carved_def)
  have "\<exists>k. osmptr (carved s) = 65 * int k" by (rule exI [of _ "n + 1"]) (simp add: carved_def n)
  moreover have "mdbs_ok (carved s) X Y = mdbs_ok s X Y" for X Y
    by (simp add: mdbs_ok_def entry_used_def carved_def)
  ultimately show "osm_ok (carved s) [] M D"
    using ok room fresh unfolding osm_ok_def pool_ok_def bl by (auto simp: carved_def m_def)
  show "m \<notin> clients s [] M D" using fresh by (simp add: clients_def)
  show "clients (carved s) [] M D = insert m (clients s [] M D)"
    using ok fresh unfolding clients_def bl by (auto simp: osm_ok_def pool_ok_def)
qed

lemma loop_exhausted:
  assumes "osm_ok s [] M D" "osmlen s < 65"
  shows "xmgetblk_loop f MEMTYPE_MDBLOCK j s = Some (0, s\<lparr>dbggtosm := s32 (dbggtosm s + 1)\<rparr>)"
  using assms by (simp add: xmgetblk_loop.simps getosm_def osm_ok_def pool_ok_def osm_sizes)

text \<open>The block a successful \<open>xmgetblk\<close> returns, whichever way it was found.\<close>

definition block_available :: "'a osm_scheme \<Rightarrow> nat list \<Rightarrow> bool" where
  "block_available s F \<longleftrightarrow> F \<noteq> [] \<or> 65 \<le> osmlen s"

lemma zero_block_md_of:
  assumes ok: "osm_ok s F M D" and m: "m \<in> clients s F M D"
    and x: "x \<in> used_mds s (set M \<union> D) \<or> outside_pool s x"
  shows "md_of (zero_block m s) x = md_of s x"
proof -
  have mb: "m \<in> blocks s" using m by (simp add: clients_def)
  from x show ?thesis
  proof
    assume "x \<in> used_mds s (set M \<union> D)"
    then obtain b i where b: "x = mdb_entry b i" "b \<in> set M \<union> D" "i < 3" by (auto simp: used_mds_def)
    then have "b \<in> blocks s" "b \<noteq> m" using ok m by (auto simp: osm_ok_def pool_ok_def clients_def)
    then show ?thesis using zero_block_frame(3) [of b s m i] b mb by simp
  next
    assume o: "outside_pool s x"
    have "osmem s < m" "m + 128 \<le> osmem s + 15340"
      using block_range [OF mb] ok by (auto simp: osm_ok_def pool_ok_def osm_sizes)
    with o show ?thesis by (auto simp: md_of_def zero_block_def outside_pool_def Let_def osm_sizes)
  qed
qed

lemma loop_gets:
  assumes ok: "osm_ok s F M D" and av: "block_available s F"
  obtains m s' where "\<And>f t. xmgetblk_loop f t 0 s = Some (m, s')" "osm_ok s' (tl F) M D"
    "m \<notin> clients s F M D" "clients s' (tl F) M D = insert m (clients s F M D)"
    "md_of s' = md_of s" "md_index s' = md_index s" "osmem s' = osmem s" "mdbroot s' = mdbroot s"
proof (cases F)
  case Nil
  with av ok have "osm_ok s [] M D" "65 \<le> osmlen s" by (simp_all add: block_available_def)
  from loop_pool [OF this] show thesis
    using Nil by (intro that [of "osmem s + 2 * nat (osmptr s) + 2" "carved s"])
      (auto simp: carved_def md_of_def)
next
  case (Cons m F')
  with ok have "osm_ok s (m # F') M D" by simp
  from loop_free_list [OF this] show thesis
    using Cons by (intro that [of m "s\<lparr>root4 := hd0 F'\<rparr>"]) (auto simp: md_of_def)
qed

lemma used_mds_index: "md_index s' = md_index s \<Longrightarrow> used_mds s' B = used_mds s B"
  by (simp add: used_mds_def entry_used_def)

lemma xmgetblk_gets:
  assumes ok: "osm_ok s F M D" and av: "block_available s F"
    and ty: "MEMTYPE_MDBLOCK \<le> t" "t \<le> MEMTYPE_OFD"
  obtains m s' where "xmgetblk f t s = Some (m, s')" "osm_ok s' (tl F) M D"
    "m \<noteq> 0" "m \<notin> clients s F M D" "clients s' (tl F) M D = insert m (clients s F M D)"
    "used_mds s' (set M \<union> D) = used_mds s (set M \<union> D)"
    "\<forall>x. x \<in> used_mds s (set M \<union> D) \<or> outside_pool s x \<longrightarrow> md_of s' x = md_of s x"
    "osmem s' = osmem s" "mdbroot s' = mdbroot s" "blk_link s' m = 0"
proof -
  obtain m s1 where l: "\<And>f t. xmgetblk_loop f t 0 s = Some (m, s1)" and ok1: "osm_ok s1 (tl F) M D"
    and new: "m \<notin> clients s F M D" and cl: "clients s1 (tl F) M D = insert m (clients s F M D)"
    and md: "md_of s1 = md_of s" and ix: "md_index s1 = md_index s"
    and base: "osmem s1 = osmem s" "mdbroot s1 = mdbroot s"
    using loop_gets [OF ok av] by blast
  have mc: "m \<in> clients s1 (tl F) M D" using cl by simp
  then have "m \<in> blocks s1" by (simp add: clients_def)
  then have m0: "m \<noteq> 0" by (auto simp: blocks_def)
  have u: "used_mds s1 B = used_mds s B" for B using used_mds_index [OF ix] .
  have o: "outside_pool s1 = outside_pool s" using base by (intro ext) (simp add: outside_pool_def)
  show thesis
  proof (rule that)
    show "xmgetblk f t s = Some (m, zero_block m s1)" using ty l m0 by (simp add: xmgetblk_def)
    show "osm_ok (zero_block m s1) (tl F) M D" by (rule zero_block_ok(1) [OF ok1 mc])
    show "clients (zero_block m s1) (tl F) M D = insert m (clients s F M D)"
      using zero_block_ok(2) [OF ok1 mc] cl by simp
    show "used_mds (zero_block m s1) (set M \<union> D) = used_mds s (set M \<union> D)"
      using zero_block_ok(3) [OF ok1 mc] u by simp
    show "\<forall>x. x \<in> used_mds s (set M \<union> D) \<or> outside_pool s x \<longrightarrow> md_of (zero_block m s1) x = md_of s x"
      using zero_block_md_of [OF ok1 mc] u o md by simp
  qed (use m0 new base in \<open>simp_all add: zero_block_def Let_def osm_sizes\<close>)
qed

section \<open>Memory descriptors\<close>

lemma unlink_mdblock_ok:
  assumes c: "chain (blk_link s) (mdbroot s) (xs @ b # ys)"
  obtains nx r where "unlink_mdblock b s = Some (0, s\<lparr>blk_link := nx, mdbroot := r\<rparr>)"
    "chain nx r (xs @ ys)" "nx b = 0" "\<forall>a. a \<notin> set (xs @ b # ys) \<longrightarrow> nx a = blk_link s a"
proof (cases xs rule: rev_cases)
  case Nil
  with c have "mdbroot s = b" "b \<noteq> 0" "chain (blk_link s) (blk_link s b) ys" "b \<notin> set ys"
    using chain_distinct [OF c] by auto
  with Nil show thesis
    by (intro that [where nx = "(blk_link s)(b := 0)" and r = "blk_link s b"])
       (simp_all add: unlink_mdblock_def Let_def seg_frame)
next
  case (snoc zs z)
  let ?n = "(blk_link s)(b := 0)"
  from c have d: "distinct (xs @ b # ys)" "0 \<notin> set (xs @ b # ys)"
    by (rule chain_distinct, rule seg_nonzero)
  have ne: "b \<noteq> mdbroot s" using c d snoc by (cases zs) auto
  have c1: "chain ?n (mdbroot s) (zs @ z # [b])"
    using c d snoc by (auto simp: seg_append seg_frame)
  have pre: "?n y \<noteq> b" if y: "y \<in> set zs" for y
  proof -
    obtain as bs where "zs = as @ y # bs" using y by (metis split_list)
    then have "?n y = hd0 (bs @ [z, b])" using chain_next [of ?n "mdbroot s" as y "bs @ [z, b]"] c1 by simp
    then show ?thesis using d snoc \<open>zs = as @ y # bs\<close> by (cases bs) auto
  qed
  have hit: "?n z = b" using chain_next [of ?n "mdbroot s" zs z "[b]"] c1 by simp
  have f: "find_link ?n (\<lambda>p. ?n p = b) 0 (mdbroot s) = Some (last0 zs, z)"
    by (rule find_link_hit [where P = "\<lambda>p. ?n p = b", OF c1]) (use pre hit in blast)+
  have z0: "z \<noteq> 0" using d snoc by auto
  show thesis
  proof (rule that)
    show "unlink_mdblock b s = Some (0, s\<lparr>blk_link := ?n(z := blk_link s b), mdbroot := mdbroot s\<rparr>)"
      using ne f z0 by (simp add: unlink_mdblock_def Let_def)
    show "chain (?n(z := blk_link s b)) (mdbroot s) (xs @ ys)"
      using c d snoc by (auto simp: seg_append seg_frame)
  qed (use d snoc in auto)
qed

lemma three_upto: "[0..<MDS_PER_BLOCK] = [0, 1, 2]"
  by (simp add: MDS_PER_BLOCK_def upt_rec)

lemma less_3_cases: "(i :: nat) < 3 \<longleftrightarrow> i = 0 \<or> i = 1 \<or> i = 2"
  by auto

lemma all_less_3: "(\<forall>i < 3 :: nat. P i) \<longleftrightarrow> P 0 \<and> P 1 \<and> P 2"
  by (auto simp: less_3_cases)

lemma entry_ne [simp]: "mdb_entry b i = mdb_entry b j \<longleftrightarrow> i = j" "mdb_entry b i \<noteq> 0"
  by (simp_all add: mdb_entry_def)

text \<open>The allocation loop takes the first unused entry and counts the others.\<close>

lemma alloc_entries:
  assumes "\<forall>i < 3. ix (mdb_entry b i) = int i \<or> ix (mdb_entry b i) = - 1"
    and "\<exists>i < 3. ix (mdb_entry b i) \<noteq> int i"
  obtains i a where "i < 3" "ix (mdb_entry b i) = - 1"
    "fold (alloc_entry b) [0..<MDS_PER_BLOCK] (0, 0, ix) = (mdb_entry b i, a, ix(mdb_entry b i := int i))"
    "a = 0 \<longleftrightarrow> (\<forall>j < 3. j \<noteq> i \<longrightarrow> ix (mdb_entry b j) = int j)"
proof -
  have c: "ix (mdb_entry b 0) = 0 \<or> ix (mdb_entry b 0) = - 1"
    "ix (mdb_entry b 1) = 1 \<or> ix (mdb_entry b 1) = - 1"
    "ix (mdb_entry b 2) = 2 \<or> ix (mdb_entry b 2) = - 1"
    using assms(1) by (simp_all add: less_3_cases)
  let ?P = "\<lambda>i. \<exists>a. fold (alloc_entry b) [0..<MDS_PER_BLOCK] (0, 0, ix) = (mdb_entry b i, a, ix(mdb_entry b i := int i))
      \<and> (a = 0 \<longleftrightarrow> (\<forall>j < 3. j \<noteq> i \<longrightarrow> ix (mdb_entry b j) = int j))"
  have "\<exists>i < 3. ix (mdb_entry b i) = - 1 \<and> ?P i"
  proof (cases "ix (mdb_entry b 0) = - 1")
    case True
    then have "?P 0" using c(2,3) by (auto simp: three_upto less_3_cases)
    with True show ?thesis by auto
  next
    case z: False
    show ?thesis
    proof (cases "ix (mdb_entry b 1) = - 1")
      case True
      then have "?P 1" using c z by (auto simp: three_upto less_3_cases)
      with True show ?thesis by auto
    next
      case False
      with z c assms(2) have t: "ix (mdb_entry b 2) = - 1" by (auto simp: less_3_cases)
      then have "?P 2" using c z False by (auto simp: three_upto less_3_cases)
      with t show ?thesis by auto
    qed
  qed
  then show thesis using that by blast
qed

lemma used_mds_upd:
  assumes B: "B \<subseteq> blocks s" and b: "b \<in> B" "i < 3"
    and s': "md_index s' = (md_index s)(mdb_entry b i := v)" "v = int i \<or> v = - 1"
  shows "used_mds s' B = (if v = int i then insert (mdb_entry b i) (used_mds s B)
    else used_mds s B - {mdb_entry b i})"
    "c \<in> B \<Longrightarrow> j < 3 \<Longrightarrow> entry_used s' c j = (if c = b \<and> j = i then v = int i else entry_used s c j)"
    "c \<in> B \<Longrightarrow> j < 3 \<Longrightarrow> md_index s' (mdb_entry c j) = (if c = b \<and> j = i then v else md_index s (mdb_entry c j))"
proof -
  show ix: "md_index s' (mdb_entry c j) = (if c = b \<and> j = i then v else md_index s (mdb_entry c j))"
    if "c \<in> B" "j < 3" for c j
    using entry_inj [of c s b j i] that B b s' by auto
  show eu: "entry_used s' c j = (if c = b \<and> j = i then v = int i else entry_used s c j)"
    if "c \<in> B" "j < 3" for c j
    using ix [OF that] by (simp add: entry_used_def)
  have inj: "mdb_entry c j = mdb_entry b i \<longleftrightarrow> c = b \<and> j = i" if "c \<in> B" "j < 3" for c j
    using entry_inj [of c s b j i] that B b by auto
  show "used_mds s' B = (if v = int i then insert (mdb_entry b i) (used_mds s B)
    else used_mds s B - {mdb_entry b i})"
  proof (cases "v = int i")
    case True
    then show ?thesis unfolding used_mds_def using b by (auto simp: eu split: if_splits) (metis eu)+
  next
    case False
    then show ?thesis unfolding used_mds_def using b by (auto simp: eu inj split: if_splits) (metis eu)+
  qed
qed

lemma pool_ok_index: "pool_ok (s\<lparr>md_index := ix\<rparr>) F M D = pool_ok s F M D"
  by (simp add: pool_ok_def blocks_def)

lemma blocks_upd [simp]:
  "blocks (s\<lparr>md_index := ix\<rparr>) = blocks s" "blocks (s\<lparr>blk_link := l\<rparr>) = blocks s"
  "blocks (s\<lparr>mdbroot := r\<rparr>) = blocks s" "blocks (s\<lparr>root4 := r\<rparr>) = blocks s"
  by (simp_all add: blocks_def)

text \<open>A chain block that became full leaves the chain; a full block that got a free entry joins it.\<close>

lemma pool_ok_unlink:
  assumes p: "pool_ok s F (xs @ b # ys) D"
    and nx: "chain nx r (xs @ ys)" "\<And>a. a \<notin> set (xs @ b # ys) \<Longrightarrow> nx a = blk_link s a"
  shows "pool_ok (s\<lparr>blk_link := nx, mdbroot := r\<rparr>) F (xs @ ys) D"
    "pool_ok (s\<lparr>blk_link := nx, mdbroot := r\<rparr>) F (xs @ ys) (insert b D)"
proof -
  have "seg nx p F q = seg (blk_link s) p F q" for p q
    by (rule seg_cong, rule nx(2)) (use p in \<open>auto simp: pool_ok_def\<close>)
  moreover have "b \<notin> set xs" "b \<notin> set ys"
    using p chain_distinct [of "blk_link s" "mdbroot s" "xs @ b # ys"] by (auto simp: pool_ok_def)
  ultimately show "pool_ok (s\<lparr>blk_link := nx, mdbroot := r\<rparr>) F (xs @ ys) D"
    "pool_ok (s\<lparr>blk_link := nx, mdbroot := r\<rparr>) F (xs @ ys) (insert b D)"
    using p nx(1) by (auto simp: pool_ok_def)
qed

lemma xmgetmd_take_ok:
  assumes p: "pool_ok s F (b # M) D" and m: "mdbs_ok s (set M) D"
    and e: "\<forall>i < 3. entry_used s b i \<or> md_index s (mdb_entry b i) = - 1" "\<exists>i < 3. \<not> entry_used s b i"
  obtains md s' M' D' where "xmgetmd_take b s = Some (md, s')" "osm_ok s' F M' D'"
    "set M' \<union> D' = insert b (set M \<union> D)" "md \<notin> used_mds s (insert b (set M \<union> D))" "md \<noteq> 0"
    "used_mds s' (set M' \<union> D') = insert md (used_mds s (insert b (set M \<union> D)))"
    "md_of s' = md_of s" "osmem s' = osmem s" "blocks s' = blocks s"
proof -
  let ?B = "insert b (set M \<union> D)"
  have B: "?B \<subseteq> blocks s" using p by (auto simp: pool_ok_def)
  have e': "\<forall>i < 3. md_index s (mdb_entry b i) = int i \<or> md_index s (mdb_entry b i) = - 1"
    "\<exists>i < 3. md_index s (mdb_entry b i) \<noteq> int i"
    using e by (auto simp: entry_used_def)
  obtain i a where i: "i < 3" "md_index s (mdb_entry b i) = - 1"
    and fo: "fold (alloc_entry b) [0..<MDS_PER_BLOCK] (0, 0, md_index s)
      = (mdb_entry b i, a, (md_index s)(mdb_entry b i := int i))"
    and a: "a = 0 \<longleftrightarrow> (\<forall>j < 3. j \<noteq> i \<longrightarrow> md_index s (mdb_entry b j) = int j)"
    using alloc_entries [OF e'] by metis
  define s1 where "s1 = s\<lparr>md_index := (md_index s)(mdb_entry b i := int i)\<rparr>"
  have "md_index s1 = (md_index s)(mdb_entry b i := int i)" by (simp add: s1_def)
  note upd = used_mds_upd [OF B insertI1 i(1) this disjI1 [OF refl], unfolded simp_thms if_True]
  have nb: "b \<notin> set M" "b \<notin> D"
    using p chain_distinct [of "blk_link s" "mdbroot s" "b # M"] by (auto simp: pool_ok_def)
  have "md_index s1 (mdb_entry c j) = md_index s (mdb_entry c j)" if "c \<in> set M \<union> D" "j < 3" for c j
    using upd(3) that nb by auto
  from mdbs_ok_cong(1) [OF this] m have mdk: "mdbs_ok s1 (set M) D" by simp
  have b1: "entry_used s1 b j \<or> md_index s1 (mdb_entry b j) = - 1" if "j < 3" for j
    using e(1) upd(2,3) that by auto
  have p1: "pool_ok s1 F (b # M) D" using p by (simp add: s1_def pool_ok_index)
  have new: "mdb_entry b i \<notin> used_mds s ?B"
  proof
    assume "mdb_entry b i \<in> used_mds s ?B"
    then obtain c j where c: "mdb_entry b i = mdb_entry c j" "c \<in> ?B" "j < 3" "entry_used s c j"
      by (auto simp: used_mds_def)
    moreover have "b \<in> blocks s" "c \<in> blocks s" using B c(2) by auto
    ultimately have "c = b" "j = i" using entry_inj [of b s c i j] i(1) by simp_all
    with c(4) i(2) show False by (simp add: entry_used_def)
  qed
  have f1: "md_of s1 = md_of s" "osmem s1 = osmem s" "blocks s1 = blocks s"
    by (auto simp: s1_def md_of_def)
  show thesis
  proof (cases "a = 0")
    case True
    have "chain (blk_link s1) (mdbroot s1) ([] @ b # M)" using p1 by (auto simp: pool_ok_def)
    then obtain nx r where u: "unlink_mdblock b s1 = Some (0, s1\<lparr>blk_link := nx, mdbroot := r\<rparr>)"
      "chain nx r ([] @ M)" "nx b = 0" "\<forall>a. a \<notin> set ([] @ b # M) \<longrightarrow> nx a = blk_link s1 a"
      by (rule unlink_mdblock_ok)
    let ?s = "s1\<lparr>blk_link := nx, mdbroot := r\<rparr>"
    have po: "pool_ok ?s F M (insert b D)"
      using pool_ok_unlink(2) [of s1 F "[]" b M D nx r] p1 u(2,4) by simp
    have "\<forall>j < 3. entry_used s1 b j" using True a upd(2) by (auto simp: entry_used_def)
    then have "mdbs_ok ?s (set M) (insert b D)"
      using mdk by (auto simp: mdbs_ok_def entry_used_def)
    with po have ok: "osm_ok ?s F M (insert b D)" by (simp add: osm_ok_def)
    have "used_mds ?s ?B = used_mds s1 ?B" by (rule used_mds_index) simp
    with ok show thesis
      using True fo u(1) upd(1) new f1
      by (intro that [of "mdb_entry b i" ?s M "insert b D"])
         (auto simp: xmgetmd_take_def s1_def [symmetric] md_of_def fun_eq_iff)
  next
    case False
    then have "\<exists>j < 3. \<not> entry_used s1 b j" using a upd(2) by (auto simp: entry_used_def)
    moreover have "entry_used s1 b i" using upd(2) i by simp
    ultimately have "mdbs_ok s1 (set (b # M)) D"
      using mdk b1 i(1) by (auto simp: mdbs_ok_def)
    with p1 have ok: "osm_ok s1 F (b # M) D" by (simp add: osm_ok_def)
    with False show thesis
      using fo upd(1) new f1
      by (intro that [of "mdb_entry b i" s1 "b # M" D])
         (auto simp: xmgetmd_take_def s1_def [symmetric])
  qed
qed

text \<open>
  The state as its clients see it: \<open>U\<close> the descriptors handed out, \<open>C\<close> the blocks handed out
  to other users of the pool.
\<close>

definition md_inv :: "nat set \<Rightarrow> 'a osm_scheme \<Rightarrow> nat set \<Rightarrow> bool" where
  "md_inv C s U \<longleftrightarrow> (\<exists>F M D. osm_ok s F M D \<and> U = used_mds s (set M \<union> D) \<and> C = clients s F M D)"

lemma mdbs_ok_tl:
  assumes "mdbs_ok s (insert b M) D"
  shows "mdbs_ok s M D" "\<forall>i < 3. entry_used s b i \<or> md_index s (mdb_entry b i) = - 1"
    "\<exists>i < 3. \<not> entry_used s b i"
  using assms by (auto simp: mdbs_ok_def)

lemma new_mdblock_ok:
  assumes ok: "osm_ok s F [] D" and m: "m \<in> clients s F [] D"
  defines "s' \<equiv> s\<lparr>blk_link := (blk_link s)(m := 0),
     md_index := fold (\<lambda>i ix. ix(mdb_entry m i := - 1)) [0..<MDS_PER_BLOCK] (md_index s), mdbroot := m\<rparr>"
  shows "pool_ok s' F [m] D" "mdbs_ok s' {} D" "\<forall>i < 3. md_index s' (mdb_entry m i) = - 1"
    "used_mds s' (insert m D) = used_mds s D"
proof -
  from ok m have mb: "m \<in> blocks s" "m \<notin> set F" "m \<notin> D" and m0: "m \<noteq> 0"
    by (auto simp: clients_def blocks_def)
  show "pool_ok s' F [m] D"
    using ok mb m0 by (auto simp: osm_ok_def pool_ok_def s'_def seg_frame)
  show un: "\<forall>i < 3. md_index s' (mdb_entry m i) = - 1"
    by (auto simp: s'_def three_upto less_3_cases)
  have ix: "md_index s' (mdb_entry b i) = md_index s (mdb_entry b i)" if "b \<in> {} \<union> D" "i < 3" for b i
  proof -
    have "b \<in> blocks s" "b \<noteq> m" using that ok mb by (auto simp: osm_ok_def pool_ok_def)
    then have "mdb_entry b i \<noteq> mdb_entry m j" if "j < 3" for j
      using entry_inj [of b s m i j] that \<open>i < 3\<close> mb by auto
    then show ?thesis by (simp add: s'_def three_upto)
  qed
  show "mdbs_ok s' {} D" using mdbs_ok_cong(1) [of "{}" D s' s, OF ix] ok by (simp add: osm_ok_def)
  have "used_mds s' D = used_mds s D" using mdbs_ok_cong(2) [of "{}" D s' s, OF ix] by simp
  moreover have "used_mds s' (insert m D) = used_mds s' D"
    using un by (fastforce simp: used_mds_def entry_used_def)
  ultimately show "used_mds s' (insert m D) = used_mds s D" by simp
qed

text \<open>The three ways through \<open>xmgetmd\<close>: a partly used block, a new block, and no memory.\<close>

lemma xmgetmd_partial:
  assumes ok: "osm_ok s F (b # M) D"
  obtains md s' where "xmgetmd s = Some (md, s')" "md \<noteq> 0" "md \<notin> used_mds s (set (b # M) \<union> D)"
    "md_inv (clients s F (b # M) D) s' (insert md (used_mds s (set (b # M) \<union> D)))"
    "md_of s' = md_of s" "osmem s' = osmem s"
proof -
  from ok have p: "pool_ok s F (b # M) D" and k: "mdbs_ok s (insert b (set M)) D"
    by (simp_all add: osm_ok_def)
  have r: "mdbroot s = b" "b \<noteq> 0" using p by (auto simp: pool_ok_def)
  obtain md s' M2 D2 where t: "xmgetmd_take b s = Some (md, s')" "osm_ok s' F M2 D2"
    "set M2 \<union> D2 = insert b (set M \<union> D)" "md \<notin> used_mds s (insert b (set M \<union> D))" "md \<noteq> 0"
    "used_mds s' (set M2 \<union> D2) = insert md (used_mds s (insert b (set M \<union> D)))"
    "md_of s' = md_of s" "osmem s' = osmem s" "blocks s' = blocks s"
    using xmgetmd_take_ok [OF p mdbs_ok_tl [OF k]] .
  have "clients s' F M2 D2 = blocks s - set F - insert b (set M \<union> D)"
    using t(3,9) by (auto simp: clients_def)
  then have "clients s F (b # M) D = clients s' F M2 D2" by (auto simp: clients_def)
  then have "md_inv (clients s F (b # M) D) s' (insert md (used_mds s (set (b # M) \<union> D)))"
    using t(2,6) unfolding md_inv_def by (metis Un_insert_left list.simps(15))
  then show thesis using t r by (intro that [of md s']) (auto simp: xmgetmd_def)
qed

lemma xmgetmd_new:
  assumes ok: "osm_ok s F [] D" and av: "block_available s F"
  obtains md s' where "xmgetmd s = Some (md, s')" "md \<noteq> 0" "md \<notin> used_mds s D"
    "md_inv (clients s F [] D) s' (insert md (used_mds s D))"
    "\<forall>x. x \<in> used_mds s D \<or> outside_pool s x \<longrightarrow> md_of s' x = md_of s x" "osmem s' = osmem s"
proof -
  have ty: "MEMTYPE_MDBLOCK \<le> MEMTYPE_MDBLOCK" "MEMTYPE_MDBLOCK \<le> MEMTYPE_OFD" by (simp_all add: osm_sizes)
  obtain m s1 where "xmgetblk (\<lambda>s. (0, s)) MEMTYPE_MDBLOCK s = Some (m, s1)" "osm_ok s1 (tl F) [] D"
    "m \<noteq> 0" "m \<notin> clients s F [] D" "clients s1 (tl F) [] D = insert m (clients s F [] D)"
    "used_mds s1 (set [] \<union> D) = used_mds s (set [] \<union> D)"
    "\<forall>x. x \<in> used_mds s (set [] \<union> D) \<or> outside_pool s x \<longrightarrow> md_of s1 x = md_of s x"
    "osmem s1 = osmem s" "mdbroot s1 = mdbroot s" "blk_link s1 m = 0"
    by (rule xmgetblk_gets [OF ok av ty])
  note g = this [unfolded list.set Un_empty_left]
  let ?s = "s1\<lparr>blk_link := (blk_link s1)(m := 0),
    md_index := fold (\<lambda>i ix. ix(mdb_entry m i := - 1)) [0..<MDS_PER_BLOCK] (md_index s1), mdbroot := m\<rparr>"
  have "m \<in> clients s1 (tl F) [] D" using g by simp
  note n = new_mdblock_ok [OF g(2) this]
  have u: "md_index ?s (mdb_entry m i) = - 1" if "i < 3" for i using n(3) that by blast
  have e: "\<forall>i < 3. entry_used ?s m i \<or> md_index ?s (mdb_entry m i) = - 1" using u by blast
  have x: "\<exists>i < 3. \<not> entry_used ?s m i" using u [of 0] by (intro exI [of _ 0]) (simp add: entry_used_def)
  have k: "mdbs_ok ?s (set []) D" using n(2) by simp
  obtain md s' M2 D2 where "xmgetmd_take m ?s = Some (md, s')" "osm_ok s' (tl F) M2 D2"
    "set M2 \<union> D2 = insert m (set [] \<union> D)" "md \<notin> used_mds ?s (insert m (set [] \<union> D))" "md \<noteq> 0"
    "used_mds s' (set M2 \<union> D2) = insert md (used_mds ?s (insert m (set [] \<union> D)))"
    "md_of s' = md_of ?s" "osmem s' = osmem ?s" "blocks s' = blocks ?s"
    by (rule xmgetmd_take_ok [OF n(1) k e x])
  note t = this [unfolded list.set Un_empty_left]
  have "clients s' (tl F) M2 D2 = clients s1 (tl F) [] D - {m}"
    using t(3,9) by (auto simp: clients_def)
  then have "clients s F [] D = clients s' (tl F) M2 D2" using g(4,5) by auto
  moreover have "used_mds s' (set M2 \<union> D2) = insert md (used_mds s D)" using t(6) n(4) g(6) by simp
  ultimately have "md_inv (clients s F [] D) s' (insert md (used_mds s D))"
    using t(2) unfolding md_inv_def by metis
  moreover have "mdbroot s = 0" using ok by (simp add: osm_ok_def pool_ok_def)
  moreover have "md_of s' x = md_of s1 x" for x using t(7) by (simp add: md_of_def)
  ultimately show thesis using t(1,4,5,8) g n(4)
    by (intro that [of md s']) (auto simp: xmgetmd_def)
qed

lemma xmgetmd_exhausted:
  assumes e: "osm_ok s [] [] D" "osmlen s < 65"
  obtains s' where "xmgetmd s = Some (0, s')" "md_inv (clients s [] [] D) s' (used_mds s D)"
    "md_of s' = md_of s" "osmem s' = osmem s"
proof -
  let ?s = "s\<lparr>dbggtosm := s32 (dbggtosm s + 1)\<rparr>"
  have "md_inv (clients s [] [] D) ?s (used_mds s D)"
    unfolding md_inv_def using e(1)
    by (intro exI [of _ "[]"] exI [of _ D])
       (simp add: osm_ok_def pool_ok_def mdbs_ok_def entry_used_def used_mds_def clients_def blocks_def)
  moreover have "mdbroot s = 0" using e(1) by (simp add: osm_ok_def pool_ok_def)
  ultimately show thesis
    using loop_exhausted [OF e, of "\<lambda>s. (0, s)" 0]
    by (intro that [of ?s]) (auto simp: xmgetmd_def xmgetblk_def md_of_def osm_sizes)
qed

lemma xmgetmd_law:
  assumes "md_inv C s U"
  shows "\<exists>md s'. xmgetmd s = Some (md, s')
    \<and> (if md = 0 then md_inv C s' U else md \<notin> U \<and> md_inv C s' (insert md U))
    \<and> (\<forall>x. x \<in> U \<or> outside_pool s x \<longrightarrow> md_of s' x = md_of s x) \<and> osmem s' = osmem s"
proof -
  obtain F M D where ok: "osm_ok s F M D" and U: "U = used_mds s (set M \<union> D)" and C: "C = clients s F M D"
    using assms by (auto simp: md_inv_def)
  consider (partial) b M' where "M = b # M'" | (fresh) "M = []" "block_available s F"
    | (none) "M = []" "F = []" "osmlen s < 65"
    by (cases M; cases "block_available s F") (auto simp: block_available_def)
  then show ?thesis
  proof cases
    case partial
    with ok have "osm_ok s F (b # M') D" by simp
    then show ?thesis unfolding U C partial by (rule xmgetmd_partial) auto
  next
    case fresh
    with ok have "osm_ok s F [] D" by simp
    then show ?thesis unfolding U C fresh list.set Un_empty_left
      by (rule xmgetmd_new [OF _ fresh(2)]) auto
  next
    case none
    with ok have "osm_ok s [] [] D" by simp
    then show ?thesis unfolding U C none(1,2) list.set Un_empty_left
      by (rule xmgetmd_exhausted [OF _ none(3)]) auto
  qed
qed

text \<open>
  Freeing: the entry is marked unused first; the number of unused entries of its block then
  decides between putting a full block back on the chain, nothing, and giving the block back.
\<close>

definition unused_entries :: "'a osm_scheme \<Rightarrow> nat \<Rightarrow> nat" where
  "unused_entries s b = length (filter (\<lambda>i. md_index s (mdb_entry b i) < 0) [0..<MDS_PER_BLOCK])"

lemma xmfremd_marks:
  assumes "entry_used s b i" "i < 3"
  defines "s1 \<equiv> s\<lparr>md_index := (md_index s)(mdb_entry b i := - 1)\<rparr>"
  shows "xmfremd (mdb_entry b i) s =
    (if unused_entries s1 b = 3
     then map_option (\<lambda>(r, s). if r = 0 then xmfreblk b s else s) (unlink_mdblock b s1)
     else if unused_entries s1 b = 1 then Some (s1\<lparr>blk_link := (blk_link s1)(b := mdbroot s1), mdbroot := b\<rparr>)
     else Some s1)"
proof -
  have "md_index s (mdb_entry b i) = int i" "mdb_entry b i - 18 * i - 4 = b"
    using assms by (simp_all add: entry_used_def mdb_entry_def)
  then show ?thesis using assms(2)
    by (simp add: xmfremd_def Let_def s1_def unused_entries_def MDS_PER_BLOCK_def [unfolded One_nat_def]
        del: upt_rec_numeral upt.simps)
qed

lemma unused_entries_counts:
  assumes "\<forall>i < 3. entry_used s b i \<or> md_index s (mdb_entry b i) = - 1"
  shows "unused_entries s b = 3 \<longleftrightarrow> (\<forall>i < 3. \<not> entry_used s b i)"
    "i < 3 \<Longrightarrow> \<not> entry_used s b i \<Longrightarrow> unused_entries s b = 1 \<longleftrightarrow> (\<forall>j < 3. j \<noteq> i \<longrightarrow> entry_used s b j)"
proof -
  have c: "md_index s (mdb_entry b 0) = 0 \<or> md_index s (mdb_entry b 0) = - 1"
    "md_index s (mdb_entry b 1) = 1 \<or> md_index s (mdb_entry b 1) = - 1"
    "md_index s (mdb_entry b 2) = 2 \<or> md_index s (mdb_entry b 2) = - 1"
    using assms by (auto simp: less_3_cases entry_used_def)
  show "unused_entries s b = 3 \<longleftrightarrow> (\<forall>i < 3. \<not> entry_used s b i)"
    using c by (elim disjE) (simp_all add: unused_entries_def three_upto all_less_3 entry_used_def)
  show "unused_entries s b = 1 \<longleftrightarrow> (\<forall>j < 3. j \<noteq> i \<longrightarrow> entry_used s b j)"
    if "i < 3" "\<not> entry_used s b i"
    using that(1) [unfolded less_3_cases] c that(2)
    by (elim disjE) (simp_all add: unused_entries_def three_upto all_less_3 entry_used_def)
qed

lemma mdbs_ok_insert:
  "mdbs_ok s (insert b M) D \<longleftrightarrow> mdbs_ok s M D
     \<and> (\<forall>i < 3. entry_used s b i \<or> md_index s (mdb_entry b i) = - 1)
     \<and> (\<exists>i < 3. entry_used s b i) \<and> (\<exists>i < 3. \<not> entry_used s b i)"
  "mdbs_ok s M (insert b D) \<longleftrightarrow> mdbs_ok s M D \<and> (\<forall>i < 3. entry_used s b i)"
  by (auto simp: mdbs_ok_def)

lemma xmfremd_full:
  assumes ok: "osm_ok s F M D" and b: "b \<in> D" "i < 3"
  defines "s1 \<equiv> s\<lparr>md_index := (md_index s)(mdb_entry b i := - 1)\<rparr>"
  shows "unused_entries s1 b = 1"
    "md_inv (clients s F M D) (s1\<lparr>blk_link := (blk_link s1)(b := mdbroot s1), mdbroot := b\<rparr>)
       (used_mds s (set M \<union> D) - {mdb_entry b i})"
proof -
  let ?s = "s1\<lparr>blk_link := (blk_link s1)(b := mdbroot s1), mdbroot := b\<rparr>" and ?B = "set M \<union> D"
  from ok have B: "?B \<subseteq> blocks s" and n: "b \<notin> set M" "b \<notin> set F" "b \<noteq> 0" and d: "\<forall>j < 3. entry_used s b j"
    using b by (auto simp: osm_ok_def pool_ok_def mdbs_ok_def blocks_def)
  have bB: "b \<in> ?B" using b by simp
  have ix: "md_index ?s = (md_index s)(mdb_entry b i := - 1)" "md_index s1 = (md_index s)(mdb_entry b i := - 1)"
    by (simp_all add: s1_def)
  note u = used_mds_upd [OF B bB b(2) ix(1) disjI2 [OF refl]]
  note u1 = used_mds_upd [OF B bB b(2) ix(2) disjI2 [OF refl]]
  show "unused_entries s1 b = 1"
    using unused_entries_counts(2) [of s1 b i] u1(2,3) [OF bB] d b(2) by simp
  have "pool_ok ?s F (b # M) (D - {b})"
    using ok b n by (auto simp: osm_ok_def pool_ok_def s1_def seg_frame)
  moreover have "mdbs_ok ?s (set (b # M)) (D - {b})"
  proof -
    have x1: "\<exists>j < 3. entry_used ?s b j" using u(2) [OF bB] d by (intro exI [of _ "if i = 0 then 1 else 0"]) auto
    have x2: "\<exists>j < 3. \<not> entry_used ?s b j" using u(2) [OF bB b(2)] b(2) by auto
    have x3: "\<forall>j < 3. entry_used ?s b j \<or> md_index ?s (mdb_entry b j) = - 1"
      using u(2,3) [OF bB] d by simp
    have "mdbs_ok s (set M) (D - {b})"
      using ok mdbs_ok_insert(2) [of s "set M" b "D - {b}"] b(1) by (simp add: osm_ok_def insert_absorb)
    moreover have same: "md_index ?s (mdb_entry c j) = md_index s (mdb_entry c j)"
      if "c \<in> set M \<union> (D - {b})" "j < 3" for c j using u(3) [of c j] that n(1) by auto
    ultimately have "mdbs_ok ?s (set M) (D - {b})" using mdbs_ok_cong(1) [of "set M" "D - {b}" ?s s, OF same] by simp
    with x1 x2 x3 show ?thesis by (simp add: mdbs_ok_insert)
  qed
  moreover have "used_mds ?s (set (b # M) \<union> (D - {b})) = used_mds s ?B - {mdb_entry b i}"
  proof -
    have "set (b # M) \<union> (D - {b}) = ?B" using b(1) by auto
    then show ?thesis using u(1) by simp
  qed
  moreover have "clients ?s F (b # M) (D - {b}) = clients s F M D"
    using b by (auto simp: clients_def s1_def)
  ultimately show "md_inv (clients s F M D) ?s (used_mds s ?B - {mdb_entry b i})"
    unfolding md_inv_def osm_ok_def by metis
qed

lemma xmfremd_partial:
  assumes ok: "osm_ok s F M D" and b: "b \<in> set M" "i < 3" and ui: "entry_used s b i"
  defines "s1 \<equiv> s\<lparr>md_index := (md_index s)(mdb_entry b i := - 1)\<rparr>"
  shows "unused_entries s1 b \<noteq> 1"
    "unused_entries s1 b \<noteq> 3 \<Longrightarrow> md_inv (clients s F M D) s1 (used_mds s (set M \<union> D) - {mdb_entry b i})"
    "unused_entries s1 b = 3 \<Longrightarrow> \<exists>s2. unlink_mdblock b s1 = Some (0, s2)
       \<and> md_inv (clients s F M D) (xmfreblk b s2) (used_mds s (set M \<union> D) - {mdb_entry b i})
       \<and> md_of s2 = md_of s1 \<and> osmem s2 = osmem s1"
proof -
  let ?B = "set M \<union> D"
  from ok have B: "?B \<subseteq> blocks s" and n: "b \<notin> D" "b \<notin> set F" "b \<noteq> 0"
    and d: "\<forall>j < 3. entry_used s b j \<or> md_index s (mdb_entry b j) = - 1" "\<exists>j < 3. \<not> entry_used s b j"
    using b by (auto simp: osm_ok_def pool_ok_def mdbs_ok_def blocks_def)
  have bB: "b \<in> ?B" using b by simp
  have ix: "md_index s1 = (md_index s)(mdb_entry b i := - 1)" by (simp add: s1_def)
  note u = used_mds_upd [OF B bB b(2) ix disjI2 [OF refl]]
  have e: "\<forall>j < 3. entry_used s1 b j \<or> md_index s1 (mdb_entry b j) = - 1" using u(2,3) [OF bB] d(1) by simp
  note cnt = unused_entries_counts [OF e]
  have nu: "\<not> entry_used s1 b i" using u(2) [OF bB b(2)] by simp
  obtain j where j: "j < 3" "\<not> entry_used s b j" using d(2) by blast
  then have "j \<noteq> i" "\<not> entry_used s1 b j" using ui u(2) [OF bB j(1)] by auto
  then show "unused_entries s1 b \<noteq> 1" using cnt(2) [OF b(2) nu] j(1) by blast
  have same: "md_index s1 (mdb_entry c j) = md_index s (mdb_entry c j)" if "c \<in> (set M - {b}) \<union> D" "j < 3" for c j
    using u(3) [of c j] that n(1) by auto
  have rest: "mdbs_ok s1 (set M - {b}) D"
    using mdbs_ok_cong(1) [of "set M - {b}" D s1 s, OF same] ok mdbs_ok_insert(1) [of s b "set M - {b}" D] b(1)
    by (simp add: osm_ok_def insert_absorb)
  have p: "pool_ok s1 F M D" using ok by (simp add: osm_ok_def s1_def pool_ok_index)
  have used: "used_mds s1 ?B = used_mds s ?B - {mdb_entry b i}" using u(1) by simp
  show "md_inv (clients s F M D) s1 (used_mds s ?B - {mdb_entry b i})" if "unused_entries s1 b \<noteq> 3"
  proof -
    have "\<exists>j < 3. entry_used s1 b j" using that cnt(1) by blast
    then have "mdbs_ok s1 (insert b (set M - {b})) D" unfolding mdbs_ok_insert using rest e nu b(2) by blast
    then have "osm_ok s1 F M D" using p b(1) by (simp add: osm_ok_def insert_absorb)
    then show ?thesis unfolding md_inv_def using used by (metis clients_def blocks_upd(1) s1_def)
  qed
  show "\<exists>s2. unlink_mdblock b s1 = Some (0, s2)
       \<and> md_inv (clients s F M D) (xmfreblk b s2) (used_mds s ?B - {mdb_entry b i})
       \<and> md_of s2 = md_of s1 \<and> osmem s2 = osmem s1" if a: "unused_entries s1 b = 3"
  proof -
    obtain xs ys where M: "M = xs @ b # ys" using b(1) by (metis split_list)
    have c: "chain (blk_link s1) (mdbroot s1) (xs @ b # ys)" using p M by (simp add: pool_ok_def)
    obtain nx r where l: "unlink_mdblock b s1 = Some (0, s1\<lparr>blk_link := nx, mdbroot := r\<rparr>)"
      "chain nx r (xs @ ys)" "nx b = 0" "\<forall>a. a \<notin> set (xs @ b # ys) \<longrightarrow> nx a = blk_link s1 a"
      by (rule unlink_mdblock_ok [OF c])
    let ?s2 = "s1\<lparr>blk_link := nx, mdbroot := r\<rparr>"
    have sM: "set (xs @ ys) = set M - {b}" using chain_distinct [OF c] M by auto
    have "pool_ok ?s2 F (xs @ ys) D" using pool_ok_unlink(1) [of s1 F xs b ys D nx r] p M l(2,4) by simp
    moreover have "mdbs_ok ?s2 (set (xs @ ys)) D" using rest sM by (simp add: mdbs_ok_def entry_used_def)
    ultimately have ok2: "osm_ok ?s2 F (xs @ ys) D" by (simp add: osm_ok_def)
    have bc: "b \<in> clients ?s2 F (xs @ ys) D" using sM B n bB by (auto simp: clients_def s1_def)
    note f = xmfreblk_ok [OF ok2 bc]
    have "clients ?s2 F (xs @ ys) D - {b} = clients s F M D" using sM b(1) by (auto simp: clients_def s1_def)
    moreover have "used_mds (xmfreblk b ?s2) (set (xs @ ys) \<union> D) = used_mds s1 ?B"
    proof -
      have "used_mds (xmfreblk b ?s2) X = used_mds s1 X" for X
        by (rule used_mds_index) (simp add: xmfreblk_def)
      moreover have "used_mds s1 ((set M - {b}) \<union> D) = used_mds s1 ?B"
        using a cnt(1) by (auto simp: used_mds_def) metis
      ultimately show ?thesis using sM by simp
    qed
    ultimately have "md_inv (clients s F M D) (xmfreblk b ?s2) (used_mds s ?B - {mdb_entry b i})"
      unfolding md_inv_def using f used by metis
    then show ?thesis using l(1) by (auto simp: md_of_def)
  qed
qed

lemma xmfreblk_md_of: "md_of (xmfreblk b s) = md_of s" "osmem (xmfreblk b s) = osmem s"
  by (auto simp: xmfreblk_def md_of_def)

lemma xmfremd_law:
  assumes "md_inv C s U" "md \<in> U"
  shows "\<exists>s'. xmfremd md s = Some s' \<and> md_inv C s' (U - {md}) \<and> md_of s' = md_of s \<and> osmem s' = osmem s"
proof -
  obtain F M D where ok: "osm_ok s F M D" and U: "U = used_mds s (set M \<union> D)" and C: "C = clients s F M D"
    using assms by (auto simp: md_inv_def)
  then obtain b i where b: "b \<in> set M \<union> D" "i < 3" "entry_used s b i" and md: "md = mdb_entry b i"
    using assms(2) by (auto simp: used_mds_def)
  let ?s1 = "s\<lparr>md_index := (md_index s)(mdb_entry b i := - 1)\<rparr>"
  note fr = xmfremd_marks [OF b(3,2)]
  have m1: "md_of ?s1 = md_of s" by (auto simp: md_of_def)
  show ?thesis
  proof (cases "b \<in> D")
    case True
    note f = xmfremd_full [OF ok True b(2)]
    show ?thesis using f fr unfolding md U C by (simp add: md_of_def fun_eq_iff)
  next
    case False
    with b have "b \<in> set M" by simp
    note f = xmfremd_partial [OF ok this b(2,3)]
    show ?thesis
    proof (cases "unused_entries ?s1 b = 3")
      case True
      then show ?thesis using f(3) fr unfolding md U C by (auto simp: xmfreblk_md_of m1)
    next
      case False
      then show ?thesis using f(1,2) fr unfolding md U C by (simp add: md_of_def fun_eq_iff)
    qed
  qed
qed

section \<open>The interface to the memory manager\<close>

text \<open>
  A source of memory descriptors: \<open>inv s U\<close> says that the descriptors \<open>U\<close> are in use, \<open>rd\<close>
  reads one, and \<open>static\<close> holds of addresses the source never touches. Getting one returns an
  unused descriptor or null and changes no descriptor in use; freeing one changes none at all.
\<close>

locale md_source =
  fixes get :: "'s \<Rightarrow> (nat \<times> 's) option" and free :: "nat \<Rightarrow> 's \<Rightarrow> 's option"
    and inv :: "'s \<Rightarrow> nat set \<Rightarrow> bool" and rd :: "'s \<Rightarrow> nat \<Rightarrow> 'd" and static :: "'s \<Rightarrow> nat \<Rightarrow> bool"
  assumes get_law: "inv s U \<Longrightarrow> \<exists>m s'. get s = Some (m, s')
      \<and> (if m = 0 then inv s' U else m \<notin> U \<and> inv s' (insert m U))
      \<and> (\<forall>x. x \<in> U \<or> static s x \<longrightarrow> rd s' x = rd s x) \<and> static s' = static s"
    and free_law: "inv s U \<Longrightarrow> m \<in> U \<Longrightarrow> \<exists>s'. free m s = Some s' \<and> inv s' (U - {m})
      \<and> rd s' = rd s \<and> static s' = static s"
begin

lemma get_cases:
  assumes "inv s U"
  obtains (none) s' where "get s = Some (0, s')" "inv s' U"
      "\<forall>x. x \<in> U \<or> static s x \<longrightarrow> rd s' x = rd s x" "static s' = static s"
    | (got) m s' where "get s = Some (m, s')" "m \<noteq> 0" "m \<notin> U" "inv s' (insert m U)"
      "\<forall>x. x \<in> U \<or> static s x \<longrightarrow> rd s' x = rd s x" "static s' = static s"
  using get_law [OF assms] by (metis (no_types, lifting))

lemma free_cases:
  assumes "inv s U" "m \<in> U"
  obtains s' where "free m s = Some s'" "inv s' (U - {m})" "rd s' = rd s" "static s' = static s"
  using free_law [OF assms] by blast

text \<open>A descriptor that is taken and given back leaves the others as they were.\<close>

lemma get_free:
  assumes "inv s U" "get s = Some (m, s')" "m \<noteq> 0"
  shows "\<exists>s''. free m s' = Some s'' \<and> inv s'' U \<and> (\<forall>x \<in> U. rd s'' x = rd s x)"
proof -
  from get_law [OF assms(1)] assms(2,3)
  have g: "m \<notin> U" "inv s' (insert m U)" "\<forall>x \<in> U. rd s' x = rd s x" by auto
  from free_law [OF g(2), of m] obtain s'' where "free m s' = Some s''" "inv s'' (insert m U - {m})" "rd s'' = rd s'"
    by auto
  with g show ?thesis by (auto simp: insert_Diff_if)
qed

end

interpretation pool_md: md_source xmgetmd xmfremd "md_inv C" md_of outside_pool for C
proof unfold_locales
  have st: "outside_pool s' = outside_pool s" if "osmem s' = osmem s" for s s' :: "'a osm_scheme"
    using that by (intro ext) (simp add: outside_pool_def)
  fix s :: "'a osm_scheme" and U m
  assume i: "md_inv C s U"
  from xmgetmd_law [OF i] st
  show "\<exists>m s'. xmgetmd s = Some (m, s') \<and> (if m = 0 then md_inv C s' U else m \<notin> U \<and> md_inv C s' (insert m U))
      \<and> (\<forall>x. x \<in> U \<or> outside_pool s x \<longrightarrow> md_of s' x = md_of s x) \<and> outside_pool s' = outside_pool s"
    by (metis (no_types, lifting))
  assume "m \<in> U"
  from xmfremd_law [OF i this] st
  show "\<exists>s'. xmfremd m s = Some s' \<and> md_inv C s' (U - {m}) \<and> md_of s' = md_of s \<and> outside_pool s' = outside_pool s"
    by blast
qed

section \<open>Properties\<close>

text \<open>
  C27. A block handed out by \<open>xmgetblk\<close> is new: when the free list or the pool has one, every
  valid request returns a non-null block that was not in use before, is cut off from every
  list and zeroed at its link word, and the other clients, the descriptors in use and their
  contents stay; a request of an invalid type returns null and changes only a counter.
\<close>

theorem xmgetblk_fresh:
  assumes "osm_ok s F M D" and "block_available s F"
  shows "if MEMTYPE_MDBLOCK \<le> t \<and> t \<le> MEMTYPE_OFD
     then \<exists>m s'. xmgetblk f t s = Some (m, s') \<and> m \<noteq> 0 \<and> osm_ok s' (tl F) M D
       \<and> m \<notin> clients s F M D \<and> clients s' (tl F) M D = insert m (clients s F M D) \<and> blk_link s' m = 0
       \<and> used_mds s' (set M \<union> D) = used_mds s (set M \<union> D)
       \<and> (\<forall>x \<in> used_mds s (set M \<union> D). md_of s' x = md_of s x)
     else xmgetblk f t s = Some (0, s\<lparr>dbggtblk := s32 (dbggtblk s + 1)\<rparr>)"
proof (cases "MEMTYPE_MDBLOCK \<le> t \<and> t \<le> MEMTYPE_OFD")
  case True
  show ?thesis by (rule xmgetblk_gets [OF assms, of t f]) (use True in auto)
next
  case False
  then show ?thesis by (simp add: xmgetblk_def not_le) linarith
qed

text \<open>The pool as \<open>osmem_init\<close> leaves it at boot, the static variables being zero.\<close>

definition boot_osm :: "nat \<Rightarrow> osm" where
  "boot_osm base = osmem_init \<lparr>osmem = base, osmptr = 0, osmlen = 0, root4 = 0, mdbroot = 0, ctl = (\<lambda>_. 0),
     blk_link = (\<lambda>_. 0), md_index = (\<lambda>_. 0), m_link = (\<lambda>_. 0), m_start = (\<lambda>_. 0), m_length = (\<lambda>_. 0),
     m_own = (\<lambda>_. 0), dbgfreblk = 0, dbggtosm = 0, dbggtblk = 0\<rparr>"

lemma boot_osm_ok: "0 < base \<Longrightarrow> osm_ok (boot_osm base) [] [] {}"
  by (auto simp: boot_osm_def osmem_init_def osm_ok_def pool_ok_def blocks_def mdbs_ok_def osm_sizes)

theorem xmgetblk_fresh_witness:
  "\<exists>m s'. xmgetblk (\<lambda>s. (0, s)) MEMTYPE_OFD (boot_osm 4096) = Some (m, s') \<and> m \<noteq> 0 \<and> blk_link s' m = 0"
proof -
  have "osm_ok (boot_osm 4096) [] [] {}" by (rule boot_osm_ok) simp
  moreover have "block_available (boot_osm 4096) []"
    by (simp add: block_available_def boot_osm_def osmem_init_def osm_sizes)
  ultimately show ?thesis
    using xmgetblk_fresh [of "boot_osm 4096" "[]" "[]" "{}" MEMTYPE_OFD "\<lambda>s. (0, s)"]
    by (auto simp: osm_sizes)
qed


lemma boot_md_inv: "0 < base \<Longrightarrow> md_inv {} (boot_osm base) {}"
  unfolding md_inv_def using boot_osm_ok [of base]
  by (intro exI [of _ "[]"] exI [of _ "{}"])
     (simp add: used_mds_def clients_def blocks_def boot_osm_def osmem_init_def)


text \<open>
  The guard against a lying \<open>free_available_dnds\<close> works: if nothing is on the free list
  and the pool is used up, and the function reports success without making a block
  available, a request for a DMD, DND or OFD ends with the system halted rather than in an
  endless loop, while a request for an \<open>MDBLOCK\<close> returns null.
\<close>

theorem xmgetblk_halts:
  assumes "root4 s = 0" "osmlen s < OSM_PAYLOAD + BLOCK_PAD"
    and lies: "\<forall>s. root4 s = 0 \<and> osmlen s < OSM_PAYLOAD + BLOCK_PAD \<longrightarrow>
      root4 (snd (f s)) = 0 \<and> osmlen (snd (f s)) < OSM_PAYLOAD + BLOCK_PAD"
  shows "if MEMTYPE_MDBLOCK < t \<and> t \<le> MEMTYPE_OFD then xmgetblk f t s = None
     else \<exists>s'. xmgetblk f t s = Some (0, s')"
proof -
  have loop: "xmgetblk_loop f t j s = (if t = MEMTYPE_MDBLOCK then Some (0, s\<lparr>dbggtosm := s32 (dbggtosm s + 1)\<rparr>) else None)"
    if "root4 s = 0" "osmlen s < OSM_PAYLOAD + BLOCK_PAD" for t j s
    using that
  proof (induction "2 - j" arbitrary: j s rule: less_induct)
    case less
    let ?s = "s\<lparr>dbggtosm := s32 (dbggtosm s + 1)\<rparr>"
    have g: "getosm (OSM_PAYLOAD + BLOCK_PAD) s = (0, ?s)" using less.prems by (simp add: getosm_def)
    have "root4 (snd (f ?s)) = 0" "osmlen (snd (f ?s)) < OSM_PAYLOAD + BLOCK_PAD"
      using lies less.prems by (metis osm.select_convs osm.surjective osm.update_convs(14))+
    then have "j < 2 \<Longrightarrow> t \<noteq> MEMTYPE_MDBLOCK \<Longrightarrow> xmgetblk_loop f t (j + 1) (snd (f ?s)) = None"
      using less.hyps [of "j + 1" "snd (f ?s)"] by simp
    then show ?case using less.prems g
      by (subst xmgetblk_loop.simps) (auto split: prod.splits simp: not_le)
  qed
  show ?thesis using loop [OF assms(1,2)] by (auto simp: xmgetblk_def osm_sizes)
qed

theorem xmgetblk_halts_witness:
  "xmgetblk (\<lambda>s. (1, s)) MEMTYPE_DND (boot_osm 4096\<lparr>osmlen := 0\<rparr>) = None"
  using xmgetblk_halts [of "boot_osm 4096\<lparr>osmlen := 0\<rparr>" "\<lambda>s. (1, s)" MEMTYPE_DND]
  by (simp add: boot_osm_def osmem_init_def osm_sizes)

end
