(* ===== verification/UMem.thy ===== *)
theory UMem
  imports OsMem
begin

text \<open>
  The user memory manager: bdos/iumem.c (\<open>ffit\<close>, \<open>freeit\<close>, \<open>shrinkit\<close>), the system calls of
  bdos/umem.c, the two loops of bdos/proc.c over the blocks of a process, and the part of
  bios/biosmem.c that carves ST-RAM before the BDOS starts. A memory descriptor is a node of
  the typed store of \<open>OsMem\<close>; a pool has a free list and a list of allocated descriptors.
  Modelled with \<open>CONF_WITH_ALT_RAM\<close> and \<open>CONF_WITH_VIDEL\<close>, without \<open>CONF_WITH_STATIC_ALT_RAM\<close>.
  Results that the C code returns through a pointer type are integers; \<open>None\<close> is a list walk
  that does not return.
\<close>

record mpb =
  mp_mfl :: nat
  mp_mal :: nat

datatype pool = PMD | PMDALT

record umem =
  os :: osm
  pmd :: mpb
  pmdalt :: mpb
  has_alt_ram :: bool
  malloc_align_stram :: int
  start_stram :: int
  end_stram :: int
  run :: nat
  p_flags :: int
  has_videl :: bool
  video_ram_addr :: int
  video_ram_size :: int
  themd :: nat
  membot :: int
  memtop :: int
  end_os :: int

definition MALLOC_ALIGN_ALTRAM :: int where "MALLOC_ALIGN_ALTRAM = 3"
definition MX_MODEMASK :: int where "MX_MODEMASK = 3"
definition PF_TTRAMMEM :: int where "PF_TTRAMMEM = 4"
definition FREESPACE_KLUDGE :: int where "FREESPACE_KLUDGE = 256"
definition EXTRA_VRAM_SIZE :: int where "EXTRA_VRAM_SIZE = 256"

text \<open>The \<open>MPB\<close> a pool pointer stands for, and stores through it and through \<open>MD\<close> pointers.\<close>

fun mpb_of :: "pool \<Rightarrow> umem \<Rightarrow> mpb" where
  "mpb_of PMD s = pmd s"
| "mpb_of PMDALT s = pmdalt s"

fun set_mpb :: "pool \<Rightarrow> mpb \<Rightarrow> umem \<Rightarrow> umem" where
  "set_mpb PMD m s = s\<lparr>pmd := m\<rparr>"
| "set_mpb PMDALT m s = s\<lparr>pmdalt := m\<rparr>"

definition set_mfl :: "pool \<Rightarrow> nat \<Rightarrow> umem \<Rightarrow> umem" where
  "set_mfl k v s = set_mpb k ((mpb_of k s)\<lparr>mp_mfl := v\<rparr>) s"

definition set_mal :: "pool \<Rightarrow> nat \<Rightarrow> umem \<Rightarrow> umem" where
  "set_mal k v s = set_mpb k ((mpb_of k s)\<lparr>mp_mal := v\<rparr>) s"

definition set_link :: "nat \<Rightarrow> nat \<Rightarrow> umem \<Rightarrow> umem" where
  "set_link p v s = s\<lparr>os := (os s)\<lparr>m_link := (m_link (os s))(p := v)\<rparr>\<rparr>"

definition set_start :: "nat \<Rightarrow> int \<Rightarrow> umem \<Rightarrow> umem" where
  "set_start p v s = s\<lparr>os := (os s)\<lparr>m_start := (m_start (os s))(p := v)\<rparr>\<rparr>"

definition set_length :: "nat \<Rightarrow> int \<Rightarrow> umem \<Rightarrow> umem" where
  "set_length p v s = s\<lparr>os := (os s)\<lparr>m_length := (m_length (os s))(p := v)\<rparr>\<rparr>"

definition set_own :: "nat \<Rightarrow> nat \<Rightarrow> umem \<Rightarrow> umem" where
  "set_own p v s = s\<lparr>os := (os s)\<lparr>m_own := (m_own (os s))(p := v)\<rparr>\<rparr>"

text \<open>\<open>if (q) q->m_link = v; else mp->mp_mfl = v;\<close> and the same for the allocated list.\<close>

definition relink_mfl :: "pool \<Rightarrow> nat \<Rightarrow> nat \<Rightarrow> umem \<Rightarrow> umem" where
  "relink_mfl k q v s = (if q \<noteq> 0 then set_link q v s else set_mfl k v s)"

definition relink_mal :: "pool \<Rightarrow> nat \<Rightarrow> nat \<Rightarrow> umem \<Rightarrow> umem" where
  "relink_mal k q v s = (if q \<noteq> 0 then set_link q v s else set_mal k v s)"

text \<open>\<open>(amount + align) & ~align\<close>, stored in a \<open>LONG\<close>.\<close>

definition round_up :: "int \<Rightarrow> int \<Rightarrow> int" where
  "round_up align amount = s32 ((amount + align) AND NOT align)"

definition pool_align :: "pool \<Rightarrow> umem \<Rightarrow> int" where
  "pool_align k s = (if k = PMD then malloc_align_stram s else MALLOC_ALIGN_ALTRAM)"

section \<open>bdos/iumem.c\<close>

text \<open>The part of \<open>ffit\<close> behind the search: take \<open>q\<close> or split it, and link it as allocated.\<close>

definition ffit_link :: "pool \<Rightarrow> nat \<Rightarrow> umem \<Rightarrow> int \<times> umem" where
  "ffit_link k q s =
     (let s = set_link q (mp_mal (mpb_of k s)) s; s = set_mal k q s; s = set_own q (run s) s
      in (int q, s))"

definition ffit :: "int \<Rightarrow> pool \<Rightarrow> umem \<Rightarrow> (int \<times> umem) option" where
  "ffit amount k s =
     (if mp_mfl (mpb_of k s) = 0 then Some (0, s)
      else if amount = - 1
      then case nodes (m_link (os s)) (mp_mfl (mpb_of k s)) of
          None \<Rightarrow> None
        | Some qs \<Rightarrow>
            let maxval = fold (\<lambda>q mx. if m_length (os s) q > mx then m_length (os s) q else mx) qs 0;
                alignment = pool_align k s
            in Some (if maxval AND alignment \<noteq> 0 then maxval AND NOT alignment else maxval, s)
      else
      let amount = round_up (pool_align k s) amount in
      case find_link (m_link (os s)) (\<lambda>q. m_length (os s) q \<ge> amount) 0 (mp_mfl (mpb_of k s)) of
        None \<Rightarrow> None
      | Some (p, q) \<Rightarrow>
          if q = 0 then Some (0, s)
          else if m_length (os s) q = amount
          then Some (ffit_link k q (relink_mfl k p (m_link (os s) q) s))
          else case xmgetmd (os s) of
            None \<Rightarrow> None
          | Some (p1, os') \<Rightarrow>
              let s = s\<lparr>os := os'\<rparr> in
              if p1 = 0 then Some (0, s)
              else
              let s = set_length p1 (s32 (m_length (os s) q - amount)) s;
                  s = set_start p1 (u32 (m_start (os s) q + amount)) s;
                  s = set_link p1 (m_link (os s) q) s;
                  s = relink_mfl k p p1 s;
                  s = set_length q amount s
              in Some (ffit_link k q s))"

text \<open>The two joins at the end of \<open>freeit\<close>; \<open>p\<close> the freed descriptor, \<open>f\<close> and \<open>q\<close> its neighbours.\<close>

definition join_higher :: "nat \<Rightarrow> nat \<Rightarrow> umem \<Rightarrow> umem option" where
  "join_higher p f s =
     (if f \<noteq> 0 \<and> u32 (m_start (os s) p + m_length (os s) p) = m_start (os s) f
      then let s = set_length p (s32 (m_length (os s) p + m_length (os s) f)) s;
               s = set_link p (m_link (os s) f) s
           in map_option (\<lambda>os'. s\<lparr>os := os'\<rparr>) (xmfremd f (os s))
      else Some s)"

definition join_lower :: "nat \<Rightarrow> nat \<Rightarrow> umem \<Rightarrow> umem option" where
  "join_lower q p s =
     (if q \<noteq> 0 \<and> u32 (m_start (os s) q + m_length (os s) q) = m_start (os s) p
      then let s = set_length q (s32 (m_length (os s) q + m_length (os s) p)) s;
               s = set_link q (m_link (os s) p) s
           in map_option (\<lambda>os'. s\<lparr>os := os'\<rparr>) (xmfremd p (os s))
      else Some s)"

definition freeit :: "nat \<Rightarrow> pool \<Rightarrow> umem \<Rightarrow> umem option" where
  "freeit m k s =
     (case find_link (m_link (os s)) (\<lambda>p. m_start (os s) m = m_start (os s) p) 0 (mp_mal (mpb_of k s)) of
        None \<Rightarrow> None
      | Some (q, p) \<Rightarrow>
          if p = 0 then Some s
          else
          let s = relink_mal k q (m_link (os s) p) s in
          case find_link (m_link (os s)) (\<lambda>f. m_start (os s) p \<le> m_start (os s) f) 0 (mp_mfl (mpb_of k s)) of
            None \<Rightarrow> None
          | Some (q, f) \<Rightarrow>
              let s = set_link p f s;
                  s = relink_mfl k q p s
              in case join_higher p f s of None \<Rightarrow> None | Some s \<Rightarrow> join_lower q p s)"

definition shrinkit :: "nat \<Rightarrow> pool \<Rightarrow> int \<Rightarrow> umem \<Rightarrow> (int \<times> umem) option" where
  "shrinkit m k newlen s =
     (let newlen = round_up 3 newlen in
      case xmgetmd (os s) of
        None \<Rightarrow> None
      | Some (f, os') \<Rightarrow>
          let s = s\<lparr>os := os'\<rparr> in
          if f = 0 then Some (- 1, s)
          else
          let s = set_start f (u32 (m_start (os s) m + newlen)) s;
              s = set_length f (s32 (m_length (os s) m - newlen)) s;
              s = set_link f (mp_mal (mpb_of k s)) s;
              s = set_mal k f s;
              s = set_length m newlen s
          in map_option (Pair 0) (freeit f k s))"

section \<open>bdos/umem.c\<close>

definition find_mpb :: "int \<Rightarrow> umem \<Rightarrow> pool option" where
  "find_mpb addr s =
     (if start_stram s \<le> addr \<and> addr < end_stram s then Some PMD
      else if has_alt_ram s then Some PMDALT else None)"

text \<open>\<open>ffit\<close> returns a descriptor; \<open>xmxalloc\<close> returns the start of its block.\<close>

definition start_of :: "int \<times> umem \<Rightarrow> int \<times> umem" where
  "start_of = (\<lambda>(m, s). (if m = 0 then 0 else m_start (os s) (nat m), s))"

definition ffit_else :: "int \<Rightarrow> pool \<Rightarrow> pool \<Rightarrow> umem \<Rightarrow> (int \<times> umem) option" where
  "ffit_else amount k k' s =
     (case ffit amount k s of
        None \<Rightarrow> None
      | Some (m, s) \<Rightarrow> if m = 0 then ffit amount k' s else Some (m, s))"

definition xmxalloc :: "int \<Rightarrow> int \<Rightarrow> umem \<Rightarrow> (int \<times> umem) option" where
  "xmxalloc amount mode s =
     (let mode = mode AND MX_MODEMASK in
      if amount = - 1
      then if mode = 0 then ffit (- 1) PMD s
           else if mode = 1 then ffit (- 1) PMDALT s
           else (case ffit (- 1) PMD s of
               None \<Rightarrow> None
             | Some (r, s) \<Rightarrow> (case ffit (- 1) PMDALT s of
                 None \<Rightarrow> None
               | Some (tmp, s) \<Rightarrow> Some (if r < tmp then tmp else r, s)))
      else if amount \<le> 0 then Some (0, s)
      else map_option start_of
        (if mode = 0 then ffit amount PMD s
         else if mode = 1 then ffit amount PMDALT s
         else if mode = 2 then ffit_else amount PMD PMDALT s
         else ffit_else amount PMDALT PMD s))"

definition xmalloc :: "int \<Rightarrow> umem \<Rightarrow> (int \<times> umem) option" where
  "xmalloc amount s =
     (if p_flags s AND PF_TTRAMMEM \<noteq> 0 then xmxalloc amount 3 s else xmxalloc amount 0 s)"

definition xmfree :: "int \<Rightarrow> umem \<Rightarrow> (int \<times> umem) option" where
  "xmfree addr s =
     (case find_mpb addr s of
        None \<Rightarrow> Some (EIMBA, s)
      | Some k \<Rightarrow>
          (case find_link (m_link (os s)) (\<lambda>p. addr = m_start (os s) p) 0 (mp_mal (mpb_of k s)) of
             None \<Rightarrow> None
           | Some (_, p) \<Rightarrow>
               if p = 0 then Some (EIMBA, s)
               else map_option (Pair E_OK) (freeit p k s)))"

definition xsetblk :: "int \<Rightarrow> int \<Rightarrow> int \<Rightarrow> umem \<Rightarrow> (int \<times> umem) option" where
  "xsetblk n blk len s =
     (case find_mpb blk s of
        None \<Rightarrow> Some (EIMBA, s)
      | Some k \<Rightarrow>
          (case find_link (m_link (os s)) (\<lambda>p. blk = m_start (os s) p) 0 (mp_mal (mpb_of k s)) of
             None \<Rightarrow> None
           | Some (_, p) \<Rightarrow>
               if p = 0 then Some (EIMBA, s)
               else
               let len = round_up (pool_align k s) len in
               if m_length (os s) p < len then Some (EGSBF, s)
               else if m_length (os s) p = len then Some (E_OK, s)
               else if len = 0 then map_option (Pair E_OK) (freeit p k s)
               else (case shrinkit p k len s of
                   None \<Rightarrow> None
                 | Some (r, s) \<Rightarrow> Some (if r < 0 then ERR else E_OK, s))))"

text \<open>\<open>last\<close> after the loop over the free list is its last descriptor.\<close>

definition srealloc :: "int \<Rightarrow> umem \<Rightarrow> (int \<times> umem) option" where
  "srealloc amount s =
     (if \<not> has_videl s then Some (EINVFN, s)
      else if video_ram_size s = 0 then Some (0, s)
      else case nodes (m_link (os s)) (mp_mfl (pmd s)) of
        None \<Rightarrow> None
      | Some fl \<Rightarrow>
          if fl = [] then Some (0, s)
          else
          let lst = last fl;
              contig = (u32 (m_start (os s) lst + m_length (os s) lst) = video_ram_addr s);
              available =
                (if contig
                 then s32 (m_length (os s) lst + video_ram_size s - EXTRA_VRAM_SIZE - FREESPACE_KLUDGE)
                 else max 0 (s32 (video_ram_size s - EXTRA_VRAM_SIZE)))
          in if amount < 0 then Some (available, s)
          else if \<not> contig then Some (0, s)
          else
          let amount = s32 (s32 ((amount + 255) AND NOT 255) + EXTRA_VRAM_SIZE) in
          if amount > available then Some (0, s)
          else
          let len = s32 (m_length (os s) lst + video_ram_size s - amount);
              s = set_length lst len s;
              s = s\<lparr>video_ram_size := amount, video_ram_addr := u32 (m_start (os s) lst + len)\<rparr>
          in Some (video_ram_addr s, s))"

text \<open>The merge loop of \<open>xmaddalt\<close> stops at the first free block that touches the new one.\<close>

definition xmaddalt :: "int \<Rightarrow> int \<Rightarrow> umem \<Rightarrow> (int \<times> umem) option" where
  "xmaddalt start sz s =
     (let sz = sz AND (- 4) in
      if sz \<le> 0 then Some (- 1, s)
      else if (start < start_stram s \<and> u32 (start + sz) > start_stram s) \<or> start < end_stram s
      then Some (- 1, s)
      else case find_link (m_link (os s))
          (\<lambda>p. u32 (m_start (os s) p + m_length (os s) p) = start \<or> u32 (start + sz) = m_start (os s) p)
          0 (mp_mfl (pmdalt s)) of
        None \<Rightarrow> None
      | Some (_, p) \<Rightarrow>
          if p \<noteq> 0
          then if u32 (m_start (os s) p + m_length (os s) p) = start
               then Some (0, set_length p (s32 (m_length (os s) p + sz)) s)
               else Some (0, set_length p (s32 (m_length (os s) p + sz))
                      (set_start p (u32 (m_start (os s) p - sz)) s))
          else (case xmgetmd (os s) of
              None \<Rightarrow> None
            | Some (md, os') \<Rightarrow>
                let s = s\<lparr>os := os'\<rparr> in
                if md = 0 then Some (ENSMEM, s)
                else
                let s = set_own md 0 (set_length md sz (set_start md start s)) in
                if has_alt_ram s
                then Some (0, set_link md (mp_mfl (pmdalt s)) (set_mfl PMDALT md s))
                else Some (0, (set_link md 0 s)\<lparr>pmdalt := \<lparr>mp_mfl = md, mp_mal = 0\<rparr>, has_alt_ram := True\<rparr>)))"

definition total_alt_ram :: "umem \<Rightarrow> int option" where
  "total_alt_ram s =
     (case (nodes (m_link (os s)) (mp_mfl (pmdalt s)), nodes (m_link (os s)) (mp_mal (pmdalt s))) of
        (Some fl, Some al) \<Rightarrow>
          Some (fold (\<lambda>md total. s32 (total + m_length (os s) md)) al
            (fold (\<lambda>md total. s32 (total + m_length (os s) md)) fl 0))
      | _ \<Rightarrow> None)"

definition set_owner :: "int \<Rightarrow> nat \<Rightarrow> umem \<Rightarrow> umem option" where
  "set_owner addr p s =
     (case find_mpb addr s of
        None \<Rightarrow> Some s
      | Some k \<Rightarrow>
          (case find_link (m_link (os s)) (\<lambda>m. m_start (os s) m = addr) 0 (mp_mal (mpb_of k s)) of
             None \<Rightarrow> None
           | Some (_, m) \<Rightarrow> Some (if m = 0 then s else set_own m p s)))"

section \<open>bios/biosmem.c\<close>

text \<open>\<open>None\<close>: the panic.\<close>

definition balloc_stram :: "int \<Rightarrow> bool \<Rightarrow> umem \<Rightarrow> (int \<times> umem) option" where
  "balloc_stram sz from_top s =
     (let sz = u32 ((sz + 3) AND NOT 3) in
      if u32 (memtop s - membot s) < sz then None
      else if from_top then Some (memtop s - sz, s\<lparr>memtop := memtop s - sz\<rparr>)
      else Some (membot s, s\<lparr>membot := membot s + sz, end_os := membot s + sz\<rparr>))"

definition getmpb :: "umem \<Rightarrow> umem" where
  "getmpb s =
     (let s = set_link (themd s) 0 s;
          s = set_start (themd s) (membot s) s;
          s = set_length (themd s) (s32 (memtop s - m_start (os s) (themd s))) s;
          s = set_own (themd s) 0 s
      in s\<lparr>pmd := \<lparr>mp_mfl = themd s, mp_mal = 0\<rparr>\<rparr>)"

text \<open>\<open>falcon\<close>: the machine cookie is there and says Falcon.\<close>

definition umem_init :: "bool \<Rightarrow> umem \<Rightarrow> umem" where
  "umem_init falcon s =
     (let s = getmpb s;
          b = m_start (os s) (mp_mfl (pmd s));
          s = s\<lparr>start_stram := b, end_stram := u32 (b + m_length (os s) (mp_mfl (pmd s)))\<rparr>
      in s\<lparr>has_alt_ram := False, malloc_align_stram := (if falcon then 3 else 1)\<rparr>)"

section \<open>bdos/proc.c\<close>

text \<open>\<open>q\<close> points at the link that holds \<open>m\<close>: the list head for 0, else that of node \<open>q\<close>.\<close>

partial_function (option) reserve_loop :: "nat \<Rightarrow> pool \<Rightarrow> nat \<Rightarrow> nat \<Rightarrow> umem \<Rightarrow> umem option" where
  "reserve_loop p k q m s =
     (if m = 0 then Some s
      else if m_own (os s) m = p
      then let s = relink_mal k q (m_link (os s) m) s in
           Option.bind (xmfremd m (os s)) (\<lambda>os'.
             let s = s\<lparr>os := os'\<rparr> in
             reserve_loop p k q (if q = 0 then mp_mal (mpb_of k s) else m_link (os s) q) s)
      else reserve_loop p k m (m_link (os s) m) s)"

definition reserve_blocks :: "nat \<Rightarrow> pool \<Rightarrow> umem \<Rightarrow> umem option" where
  "reserve_blocks p k s = reserve_loop p k 0 (mp_mal (mpb_of k s)) s"

partial_function (option) free_owned_loop :: "nat \<Rightarrow> pool \<Rightarrow> nat \<Rightarrow> umem \<Rightarrow> umem option" where
  "free_owned_loop p k m s =
     (if m = 0 then Some s
      else let nxt = m_link (os s) m in
        if m_own (os s) m = p then Option.bind (freeit m k s) (free_owned_loop p k nxt)
        else free_owned_loop p k nxt s)"

definition free_all_owned :: "nat \<Rightarrow> pool \<Rightarrow> umem \<Rightarrow> umem option" where
  "free_all_owned p k s = free_owned_loop p k (mp_mal (mpb_of k s)) s"

section \<open>Abstract memory: lists of blocks\<close>

text \<open>
  A block is a start address and a length. \<open>aalloc\<close> is first fit on a list of free blocks;
  \<open>afree\<close> inserts a block in address order and joins it with its neighbours.
\<close>

type_synonym blk = "int \<times> int"

definition bytes :: "blk \<Rightarrow> int set" where
  "bytes c = {fst c ..< fst c + snd c}"

definition region :: "blk list \<Rightarrow> int set" where
  "region cs = (\<Union>c \<in> set cs. bytes c)"

definition blk_ok :: "blk \<Rightarrow> bool" where
  "blk_ok c \<longleftrightarrow> 0 \<le> fst c \<and> 0 < snd c \<and> fst c + snd c < 2 ^ 31"

text \<open>A free list in order, every two neighbours separated by memory that is not free.\<close>

definition below :: "blk \<Rightarrow> blk \<Rightarrow> bool" where
  "below c d \<longleftrightarrow> fst c + snd c < fst d"

definition free_ok :: "blk list \<Rightarrow> bool" where
  "free_ok cs \<longleftrightarrow> sorted_wrt below cs \<and> (\<forall>c \<in> set cs. blk_ok c)"

fun aalloc :: "int \<Rightarrow> blk list \<Rightarrow> (blk \<times> blk list) option" where
  "aalloc n [] = None"
| "aalloc n (c # cs) =
     (if snd c \<ge> n
      then Some ((fst c, n), if snd c = n then cs else (fst c + n, snd c - n) # cs)
      else map_option (\<lambda>(a, r). (a, c # r)) (aalloc n cs))"

fun join_hi :: "blk \<Rightarrow> blk list \<Rightarrow> blk list" where
  "join_hi c [] = [c]"
| "join_hi c (d # ds) = (if fst c + snd c = fst d then (fst c, snd c + snd d) # ds else c # d # ds)"

fun afree :: "blk \<Rightarrow> blk list \<Rightarrow> blk list" where
  "afree c [] = [c]"
| "afree c (d # ds) =
     (if fst c \<le> fst d then join_hi c (d # ds)
      else if fst d + snd d = fst c
      then (case join_hi c ds of [] \<Rightarrow> [] | e # es \<Rightarrow> (fst d, snd d + snd e) # es)
      else d # afree c ds)"

lemma region_simps [simp]:
  "region [] = {}" "region (c # cs) = bytes c \<union> region cs" "region (xs @ ys) = region xs \<union> region ys"
  by (auto simp: region_def)

lemma bytes_split: "0 \<le> n \<Longrightarrow> n \<le> l \<Longrightarrow> bytes (b, l) = bytes (b, n) \<union> bytes (b + n, l - n)"
  by (auto simp: bytes_def)

lemma bytes_join: "0 \<le> l \<Longrightarrow> 0 \<le> m \<Longrightarrow> bytes (b, l + m) = bytes (b, l) \<union> bytes (b + l, m)"
  by (auto simp: bytes_def)

lemma free_ok_Cons: "free_ok (c # cs) \<longleftrightarrow> blk_ok c \<and> (\<forall>d \<in> set cs. below c d) \<and> free_ok cs"
  by (auto simp: free_ok_def)

lemma free_ok_append:
  "free_ok (xs @ ys) \<longleftrightarrow> free_ok xs \<and> free_ok ys \<and> (\<forall>x \<in> set xs. \<forall>y \<in> set ys. below x y)"
  by (auto simp: free_ok_def sorted_wrt_append)

lemma aalloc_None: "aalloc n cs = None \<longleftrightarrow> (\<forall>c \<in> set cs. snd c < n)"
  by (induction cs) auto

lemma aalloc_hit:
  "\<forall>c \<in> set xs. snd c < n \<Longrightarrow> snd c \<ge> n \<Longrightarrow> aalloc n (xs @ c # ys) =
     Some ((fst c, n), xs @ (if snd c = n then ys else (fst c + n, snd c - n) # ys))"
  by (induction xs) auto

lemma aalloc_SomeD:
  assumes "aalloc n cs = Some (a, r)"
  obtains xs c ys where "cs = xs @ c # ys" "\<forall>d \<in> set xs. snd d < n" "snd c \<ge> n" "a = (fst c, n)"
    "r = xs @ (if snd c = n then ys else (fst c + n, snd c - n) # ys)"
proof -
  have "\<exists>c \<in> set cs. snd c \<ge> n" using assms aalloc_None [of n cs] by (auto simp: not_less)
  then obtain xs c ys where c: "cs = xs @ c # ys" "snd c \<ge> n" "\<forall>d \<in> set xs. \<not> n \<le> snd d"
    by (rule split_list_first_propE)
  then have s: "\<forall>d \<in> set xs. snd d < n" by auto
  show thesis using aalloc_hit [OF s c(2), of ys] assms c(1) by (intro that [OF c(1) s c(2)]) simp_all
qed

text \<open>Blocks strictly below or above another share no bytes with it.\<close>

lemma below_disjoint: "below c d \<Longrightarrow> bytes c \<inter> bytes d = {}"
  by (auto simp: below_def bytes_def)

lemma region_disjoint: "(\<forall>d \<in> set cs. bytes c \<inter> bytes d = {}) \<longleftrightarrow> bytes c \<inter> region cs = {}"
  by (auto simp: region_def)

lemma aalloc_ok:
  assumes ok: "free_ok cs" and a: "aalloc n cs = Some (a, r)" and n: "0 < n"
  shows "free_ok r" "blk_ok a" "snd a = n" "region cs = bytes a \<union> region r" "bytes a \<inter> region r = {}"
proof -
  obtain xs c ys where cs: "cs = xs @ c # ys" "snd c \<ge> n" "a = (fst c, n)"
    "r = xs @ (if snd c = n then ys else (fst c + n, snd c - n) # ys)"
    using aalloc_SomeD [OF a] by metis
  let ?d = "(fst c + n, snd c - n)"
  have s: "free_ok xs" "free_ok ys" "blk_ok c" "\<forall>x \<in> set xs. below x c" "\<forall>y \<in> set ys. below c y"
    "\<forall>x \<in> set xs. \<forall>y \<in> set ys. below x y"
    using ok cs(1) by (auto simp: free_ok_append free_ok_Cons)
  have d: "\<forall>y \<in> set ys. below ?d y" "\<forall>x \<in> set xs. below x ?d" "\<forall>x \<in> set xs. below x a" "\<forall>y \<in> set ys. below a y"
    "snd c \<noteq> n \<Longrightarrow> blk_ok ?d" "blk_ok a" "bytes a \<inter> bytes ?d = {}"
    using s(3-5) n cs(2,3) by (auto simp: below_def blk_ok_def bytes_def)
  show "free_ok r" using s d by (auto simp: cs(4) free_ok_append free_ok_Cons)
  show "blk_ok a" "snd a = n" using d(6) cs(3) by simp_all
  have "bytes c = bytes a \<union> bytes ?d"
    using bytes_split [of n "snd c" "fst c"] n cs(2,3) by simp
  moreover have "snd c = n \<Longrightarrow> bytes ?d = {}" by (simp add: bytes_def)
  ultimately show "region cs = bytes a \<union> region r" by (auto simp: cs(1,4))
  show "bytes a \<inter> region r = {}"
  proof -
    have "\<forall>x \<in> set xs. bytes a \<inter> bytes x = {}" "\<forall>y \<in> set ys. bytes a \<inter> bytes y = {}"
      using d(3,4) below_disjoint by blast+
    then show ?thesis
      unfolding region_disjoint [symmetric] cs(4) using d(7) by (auto split: if_splits)
  qed
qed

lemma disjoint_above:
  assumes "blk_ok c" "blk_ok d" "bytes c \<inter> bytes d = {}" "fst c \<le> fst d"
  shows "fst c + snd c \<le> fst d"
proof (rule ccontr)
  assume "\<not> ?thesis"
  then have "fst d \<in> bytes c \<inter> bytes d" using assms(1,2,4) by (simp add: bytes_def blk_ok_def)
  with assms(3) show False by simp
qed

lemma join_hi_ok:
  assumes f: "free_ok cs" and c: "blk_ok c" and a: "\<forall>d \<in> set cs. fst c + snd c \<le> fst d"
  shows "free_ok (join_hi c cs) \<and> region (join_hi c cs) = bytes c \<union> region cs
    \<and> (\<exists>e es. join_hi c cs = (fst c, e) # es \<and> snd c \<le> e \<and> set es \<subseteq> set cs)"
proof (cases cs)
  case Nil
  with c show ?thesis by (cases c) (simp add: free_ok_def)
next
  case (Cons d ds)
  with f have d: "blk_ok d" "\<forall>e \<in> set ds. below d e" "free_ok ds" by (simp_all add: free_ok_Cons)
  show ?thesis
  proof (cases "fst c + snd c = fst d")
    case True
    have "bytes (fst c, snd c + snd d) = bytes c \<union> bytes d"
      using bytes_join [of "snd c" "snd d" "fst c"] c d(1) True by (simp add: blk_ok_def bytes_def)
    moreover have "blk_ok (fst c, snd c + snd d)" "\<forall>e \<in> set ds. below (fst c, snd c + snd d) e"
      using c d True by (auto simp: blk_ok_def below_def)
    ultimately show ?thesis using Cons True d by (auto simp: free_ok_Cons blk_ok_def)
  next
    case False
    with a Cons have "below c d" by (auto simp: below_def)
    moreover from this have "\<forall>e \<in> set ds. below c e" using d(1,2) by (auto simp: below_def blk_ok_def)
    ultimately show ?thesis using Cons False f c by (cases c) (auto simp: free_ok_Cons)
  qed
qed

text \<open>Freeing is correct: the freed bytes join the free ones, and the list stays in order and joined.\<close>

lemma afree_ok:
  assumes "free_ok cs" "blk_ok c" "bytes c \<inter> region cs = {}"
  shows "free_ok (afree c cs) \<and> region (afree c cs) = bytes c \<union> region cs
    \<and> (\<forall>x. below x c \<and> (\<forall>d \<in> set cs. below x d) \<longrightarrow> (\<forall>e \<in> set (afree c cs). below x e))"
  using assms
proof (induction cs)
  case Nil
  then show ?case by (auto simp: free_ok_Cons free_ok_def)
next
  case (Cons d ds)
  note c = Cons.prems(2)
  from Cons.prems have d: "blk_ok d" "\<forall>e \<in> set ds. below d e" "free_ok ds" "bytes c \<inter> bytes d = {}" "bytes c \<inter> region ds = {}"
    by (auto simp: free_ok_Cons)
  have up: "fst c + snd c \<le> fst e" if "e \<in> set (d # ds)" "fst c \<le> fst e" for e
    using disjoint_above [OF c, of e] that d by (auto simp: free_ok_def region_disjoint [symmetric])
  have dl: "fst d \<le> fst e" if "e \<in> set ds" for e using d(1,2) that by (auto simp: below_def blk_ok_def)
  consider (before) "fst c \<le> fst d" | (touch) "fst d < fst c" "fst d + snd d = fst c" | (after) "below d c"
    using disjoint_above [OF d(1) c] d(4) by (auto simp: Int_commute below_def) linarith
  then show ?case
  proof cases
    case before
    have "\<forall>e \<in> set (d # ds). fst c + snd c \<le> fst e"
    proof
      fix e assume e: "e \<in> set (d # ds)"
      then have "fst c \<le> fst e" using before dl [of e] by (cases "e \<in> set ds") auto
      with e show "fst c + snd c \<le> fst e" by (rule up)
    qed
    from join_hi_ok [OF Cons.prems(1) c this] before show ?thesis
      by (auto simp: below_def)
  next
    case touch
    have "\<forall>e \<in> set ds. fst c + snd c \<le> fst e"
    proof
      fix e assume e: "e \<in> set ds"
      then have "fst c \<le> fst e" using touch d(2) by (auto simp: below_def)
      with e show "fst c + snd c \<le> fst e" by (intro up) auto
    qed
    from join_hi_ok [OF d(3) c this] obtain e es where j: "join_hi c ds = (fst c, e) # es" "snd c \<le> e"
      "set es \<subseteq> set ds" "free_ok ((fst c, e) # es)" "bytes (fst c, e) \<union> region es = bytes c \<union> region ds"
      by auto
    have "bytes (fst d, snd d + e) = bytes d \<union> bytes (fst c, e)"
      using bytes_join [of "snd d" e "fst d"] d(1) c j(2) touch by (simp add: blk_ok_def bytes_def)
    moreover have "free_ok ((fst d, snd d + e) # es)"
      using j(4) d(1) touch by (auto simp: free_ok_Cons blk_ok_def below_def)
    ultimately show ?thesis using j touch by (auto simp: below_def)
  next
    case after
    then have "\<not> fst c \<le> fst d" "fst d + snd d \<noteq> fst c" using d(1) by (auto simp: below_def blk_ok_def)
    then have e: "afree c (d # ds) = d # afree c ds" by simp
    note ih = Cons.IH [OF d(3) c d(5)]
    then have "\<forall>e \<in> set (afree c ds). below d e" using after d(2) by blast
    then have "free_ok (afree c (d # ds))" using ih d(1) unfolding e free_ok_Cons by blast
    moreover have "region (afree c (d # ds)) = bytes c \<union> region (d # ds)" using ih unfolding e by auto
    moreover have "\<forall>x. below x c \<and> (\<forall>e \<in> set (d # ds). below x e) \<longrightarrow> (\<forall>e \<in> set (afree c (d # ds)). below x e)"
      using ih unfolding e list.set ball_simps by blast
    ultimately show ?thesis by blast
  qed
qed

section \<open>The lists of a pool\<close>

lemma mpb_upd [simp]:
  "os (set_mfl k v s) = os s" "os (set_mal k v s) = os s"
  "mpb_of k (set_mfl k v s) = (mpb_of k s)\<lparr>mp_mfl := v\<rparr>"
  "mpb_of k (set_mal k v s) = (mpb_of k s)\<lparr>mp_mal := v\<rparr>"
  "k' \<noteq> k \<Longrightarrow> mpb_of k' (set_mfl k v s) = mpb_of k' s"
  "k' \<noteq> k \<Longrightarrow> mpb_of k' (set_mal k v s) = mpb_of k' s"
  "mpb_of k (set_link p w s) = mpb_of k s" "mpb_of k (set_start p i s) = mpb_of k s"
  "mpb_of k (set_length p i s) = mpb_of k s" "mpb_of k (set_own p w s) = mpb_of k s"
  "mpb_of k (s\<lparr>os := x\<rparr>) = mpb_of k s"
  by (cases k; cases k'; simp add: set_mfl_def set_mal_def set_link_def set_start_def set_length_def set_own_def)+

lemma md_upd [simp]:
  "m_link (os (set_link p v s)) = (m_link (os s))(p := v)" "m_start (os (set_link p v s)) = m_start (os s)"
  "m_length (os (set_link p v s)) = m_length (os s)" "m_own (os (set_link p v s)) = m_own (os s)"
  "m_link (os (set_start p i s)) = m_link (os s)" "m_start (os (set_start p i s)) = (m_start (os s))(p := i)"
  "m_length (os (set_start p i s)) = m_length (os s)" "m_own (os (set_start p i s)) = m_own (os s)"
  "m_link (os (set_length p i s)) = m_link (os s)" "m_start (os (set_length p i s)) = m_start (os s)"
  "m_length (os (set_length p i s)) = (m_length (os s))(p := i)" "m_own (os (set_length p i s)) = m_own (os s)"
  "m_link (os (set_own p v s)) = m_link (os s)" "m_start (os (set_own p v s)) = m_start (os s)"
  "m_length (os (set_own p v s)) = m_length (os s)" "m_own (os (set_own p v s)) = (m_own (os s))(p := v)"
  by (simp_all add: set_link_def set_start_def set_length_def set_own_def)

text \<open>Every field that the list operations leave alone.\<close>

definition same_rest :: "umem \<Rightarrow> umem \<Rightarrow> bool" where
  "same_rest s s' \<longleftrightarrow> themd s' = themd s \<and> run s' = run s \<and> has_alt_ram s' = has_alt_ram s
     \<and> malloc_align_stram s' = malloc_align_stram s \<and> start_stram s' = start_stram s \<and> end_stram s' = end_stram s"

lemma same_rest_simps [simp]:
  "same_rest s s" "same_rest s0 (set_mfl k v s) = same_rest s0 s" "same_rest s0 (set_mal k v s) = same_rest s0 s"
  "same_rest s0 (set_link p v s) = same_rest s0 s" "same_rest s0 (set_start p i s) = same_rest s0 s"
  "same_rest s0 (set_length p i s) = same_rest s0 s" "same_rest s0 (set_own p v s) = same_rest s0 s"
  "same_rest s0 (s\<lparr>os := x\<rparr>) = same_rest s0 s"
  by (cases k; simp add: same_rest_def set_mfl_def set_mal_def set_link_def set_start_def set_length_def set_own_def)+

lemma run_upd [simp]:
  "run (set_mfl k v s) = run s" "run (set_mal k v s) = run s" "run (set_link p v s) = run s"
  "run (set_start p i s) = run s" "run (set_length p i s) = run s" "run (set_own p v s) = run s"
  by (cases k; simp add: set_mfl_def set_mal_def set_link_def set_start_def set_length_def set_own_def)+

text \<open>The descriptor pool of \<open>OsMem\<close> does not look into descriptors.\<close>

lemma md_inv_fields [simp]:
  "md_inv C (x\<lparr>m_link := a\<rparr>) U = md_inv C x U" "md_inv C (x\<lparr>m_start := b\<rparr>) U = md_inv C x U"
  "md_inv C (x\<lparr>m_length := c\<rparr>) U = md_inv C x U" "md_inv C (x\<lparr>m_own := d\<rparr>) U = md_inv C x U"
  by (simp_all add: md_inv_def osm_ok_def pool_ok_def mdbs_ok_def entry_used_def used_mds_def clients_def blocks_def)

lemma md_inv_upd [simp]:
  "md_inv C (os (set_link p v s)) U = md_inv C (os s) U" "md_inv C (os (set_start p i s)) U = md_inv C (os s) U"
  "md_inv C (os (set_length p i s)) U = md_inv C (os s) U" "md_inv C (os (set_own p v s)) U = md_inv C (os s) U"
  by (simp_all add: set_link_def set_start_def set_length_def set_own_def)

lemma outside_upd [simp]:
  "outside_pool (os (set_link p v s)) = outside_pool (os s)" "outside_pool (os (set_start p i s)) = outside_pool (os s)"
  "outside_pool (os (set_length p i s)) = outside_pool (os s)" "outside_pool (os (set_own p v s)) = outside_pool (os s)"
  by (auto simp: set_link_def set_start_def set_length_def set_own_def outside_pool_def fun_eq_iff)

definition blk_of :: "umem \<Rightarrow> nat \<Rightarrow> blk" where
  "blk_of s x = (m_start (os s) x, m_length (os s) x)"

text \<open>
  \<open>mp_ok s k fl al\<close>: the pool's two chains are \<open>fl\<close> and \<open>al\<close>; the free list is in order and
  joined; allocated blocks overlap neither free memory nor each other.
\<close>

definition mp_ok :: "umem \<Rightarrow> pool \<Rightarrow> nat list \<Rightarrow> nat list \<Rightarrow> bool" where
  "mp_ok s k fl al \<longleftrightarrow>
     chain (m_link (os s)) (mp_mfl (mpb_of k s)) fl \<and> chain (m_link (os s)) (mp_mal (mpb_of k s)) al
     \<and> set fl \<inter> set al = {} \<and> free_ok (map (blk_of s) fl)
     \<and> (\<forall>x \<in> set al. blk_ok (blk_of s x) \<and> bytes (blk_of s x) \<inter> region (map (blk_of s) fl) = {}
          \<and> (\<forall>y \<in> set al. y \<noteq> x \<longrightarrow> bytes (blk_of s x) \<inter> bytes (blk_of s y) = {}))"

text \<open>
  \<open>descr_ok C s U xs\<close>: the descriptors \<open>xs\<close> come from the pool of \<open>OsMem\<close>, except for \<open>themd\<close>,
  the static one that describes the lowest block.
\<close>

definition descr_ok :: "nat set \<Rightarrow> umem \<Rightarrow> nat set \<Rightarrow> nat set \<Rightarrow> bool" where
  "descr_ok C s U X \<longleftrightarrow>
     md_inv C (os s) U \<and> outside_pool (os s) (themd s) \<and> X \<subseteq> insert (themd s) U
     \<and> (themd s \<in> X \<longrightarrow> (\<forall>x \<in> X. m_start (os s) (themd s) \<le> m_start (os s) x))"

lemma relink_mfl_fields [simp]:
  "m_start (os (relink_mfl k q v s)) = m_start (os s)" "m_length (os (relink_mfl k q v s)) = m_length (os s)"
  "m_own (os (relink_mfl k q v s)) = m_own (os s)" "mp_mal (mpb_of k (relink_mfl k q v s)) = mp_mal (mpb_of k s)"
  "k' \<noteq> k \<Longrightarrow> mpb_of k' (relink_mfl k q v s) = mpb_of k' s" "run (relink_mfl k q v s) = run s"
  "same_rest s0 (relink_mfl k q v s) = same_rest s0 s"
  "md_inv C (os (relink_mfl k q v s)) U = md_inv C (os s) U"
  "outside_pool (os (relink_mfl k q v s)) = outside_pool (os s)"
  "relink q v (mp_mfl (mpb_of k s), m_link (os s))
     = (mp_mfl (mpb_of k (relink_mfl k q v s)), m_link (os (relink_mfl k q v s)))"
  "x \<noteq> q \<Longrightarrow> m_link (os (relink_mfl k q v s)) x = m_link (os s) x"
  by (simp_all add: relink_mfl_def relink_def)

lemma relink_mal_fields [simp]:
  "m_start (os (relink_mal k q v s)) = m_start (os s)" "m_length (os (relink_mal k q v s)) = m_length (os s)"
  "m_own (os (relink_mal k q v s)) = m_own (os s)" "mp_mfl (mpb_of k (relink_mal k q v s)) = mp_mfl (mpb_of k s)"
  "k' \<noteq> k \<Longrightarrow> mpb_of k' (relink_mal k q v s) = mpb_of k' s"
  "same_rest s0 (relink_mal k q v s) = same_rest s0 s"
  "md_inv C (os (relink_mal k q v s)) U = md_inv C (os s) U"
  "outside_pool (os (relink_mal k q v s)) = outside_pool (os s)"
  "relink q v (mp_mal (mpb_of k s), m_link (os s))
     = (mp_mal (mpb_of k (relink_mal k q v s)), m_link (os (relink_mal k q v s)))"
  "x \<noteq> q \<Longrightarrow> m_link (os (relink_mal k q v s)) x = m_link (os s) x"
  by (simp_all add: relink_mal_def relink_def)

lemma chain_cong_on:
  assumes "chain nx p xs" "\<forall>x \<in> set xs. ny x = nx x"
  shows "chain ny p xs"
  using seg_cong [of xs ny nx p 0] assms by simp

lemma last0_in: "last0 xs \<noteq> 0 \<Longrightarrow> last0 xs \<in> set xs"
  by (auto simp: last0_def split: if_splits)

lemma last0_notin:
  assumes "chain nx p al" "x \<in> set al" "set as \<inter> set al = {}"
  shows "x \<noteq> last0 as"
proof
  assume x: "x = last0 as"
  then have "x \<noteq> 0" using assms(2) seg_nonzero [OF assms(1)] by metis
  then show False using last0_in [of as] x assms(2,3) by auto
qed

text \<open>Taking a descriptor out of the free list, or replacing it there by a new one.\<close>

lemma free_list_snip:
  assumes "chain (m_link (os s)) (mp_mfl (mpb_of k s)) (as @ q # bs)"
    "chain (m_link (os s)) (mp_mal (mpb_of k s)) al" "set (as @ q # bs) \<inter> set al = {}"
  defines "s' \<equiv> relink_mfl k (last0 as) (m_link (os s) q) s"
  shows "chain (m_link (os s')) (mp_mfl (mpb_of k s')) (as @ bs)" "chain (m_link (os s')) (mp_mal (mpb_of k s')) al"
proof -
  show "chain (m_link (os s')) (mp_mfl (mpb_of k s')) (as @ bs)"
    using relink_snip [OF assms(1)] unfolding s'_def by (metis relink_mfl_fields(10))
  have "x \<noteq> last0 as" if "x \<in> set al" for x
    using last0_notin [OF assms(2) that] assms(3) by auto
  then have "\<forall>x \<in> set al. m_link (os s') x = m_link (os s) x"
    unfolding s'_def by (intro ballI relink_mfl_fields(11))
  with assms(2) show "chain (m_link (os s')) (mp_mal (mpb_of k s')) al"
    unfolding s'_def relink_mfl_fields(4) by (rule chain_cong_on)
qed

definition frame_ok :: "umem \<Rightarrow> umem \<Rightarrow> pool \<Rightarrow> nat set \<Rightarrow> bool" where
  "frame_ok s s' k Y \<longleftrightarrow> same_rest s s' \<and> (\<forall>k'. k' \<noteq> k \<longrightarrow> mpb_of k' s' = mpb_of k' s)
     \<and> (\<forall>x \<in> Y. md_of (os s') x = md_of (os s) x)"

lemma mp_ok_alloc:
  assumes ok: "mp_ok s k fl al" and a: "aalloc n (map (blk_of s) fl) = Some (a, r)" "0 < n"
    and c: "chain (m_link (os s')) (mp_mfl (mpb_of k s')) fl'" "chain (m_link (os s')) (mp_mal (mpb_of k s')) (q # al)"
    and d: "q \<notin> set al" "set fl' \<inter> set (q # al) = {}"
    and b: "map (blk_of s') fl' = r" "blk_of s' q = a" "\<forall>x \<in> set al. blk_of s' x = blk_of s x"
  shows "mp_ok s' k fl' (q # al)"
proof -
  have f: "free_ok (map (blk_of s) fl)" using ok by (simp add: mp_ok_def)
  note al = aalloc_ok [OF f a]
  have "bytes (blk_of s x) \<inter> bytes a = {}" "bytes (blk_of s x) \<inter> region r = {}" "blk_ok (blk_of s x)"
    if "x \<in> set al" for x
    using ok al(4) that by (auto simp: mp_ok_def)
  then show ?thesis using ok c d b al(1,2,5) unfolding mp_ok_def
    by (auto simp: Int_commute)
qed

section \<open>First fit\<close>

text \<open>The descriptor found by the search, taken whole.\<close>

lemma ffit_whole:
  assumes ok: "mp_ok s k (as @ q # bs) al" and small: "\<forall>x \<in> set as. m_length (os s) x < n"
    and n: "0 < n" "m_length (os s) q = n"
  defines "s1 \<equiv> relink_mfl k (last0 as) (m_link (os s) q) s"
  obtains s' where "ffit_link k q s1 = (int q, s')" "mp_ok s' k (as @ bs) (q # al)"
    "aalloc n (map (blk_of s) (as @ q # bs)) = Some (blk_of s' q, map (blk_of s') (as @ bs))"
    "m_own (os s') q = run s" "m_start (os s') = m_start (os s)" "m_own (os s') = (m_own (os s))(q := run s)"
    "frame_ok s s' k (- set (as @ q # bs) - set al)"
    "\<forall>C U. md_inv C (os s') U = md_inv C (os s) U" "outside_pool (os s') = outside_pool (os s)"
proof -
  from ok have c: "chain (m_link (os s)) (mp_mfl (mpb_of k s)) (as @ q # bs)"
    "chain (m_link (os s)) (mp_mal (mpb_of k s)) al" "set (as @ q # bs) \<inter> set al = {}"
    by (simp_all add: mp_ok_def)
  note sn = free_list_snip [OF c, folded s1_def]
  have d: "distinct (as @ q # bs)" "0 \<notin> set (as @ q # bs)" by (rule chain_distinct [OF c(1)], rule seg_nonzero [OF c(1)])
  define s' where "s' = snd (ffit_link k q s1)"
  have l: "ffit_link k q s1 = (int q, s')" by (simp add: s'_def ffit_link_def Let_def)
  have f: "m_link (os s') = (m_link (os s1))(q := mp_mal (mpb_of k s1))" "m_start (os s') = m_start (os s)"
    "m_length (os s') = m_length (os s)" "m_own (os s') = (m_own (os s))(q := run s)"
    "mp_mfl (mpb_of k s') = mp_mfl (mpb_of k s1)" "mp_mal (mpb_of k s') = q"
    by (simp_all add: s'_def ffit_link_def Let_def s1_def)
  have b: "blk_of s' = blk_of s" by (simp add: blk_of_def f fun_eq_iff)
  have a: "aalloc n (map (blk_of s) (as @ q # bs)) = Some (blk_of s' q, map (blk_of s') (as @ bs))"
    using aalloc_hit [of "map (blk_of s) as" n "blk_of s q" "map (blk_of s) bs"] small n(2)
    by (simp add: b) (simp add: blk_of_def)
  have ch: "chain (m_link (os s')) (mp_mfl (mpb_of k s')) (as @ bs)"
    "chain (m_link (os s')) (mp_mal (mpb_of k s')) (q # al)"
    using sn d c(3) by (auto simp: f seg_frame)
  have "mp_ok s' k (as @ bs) (q # al)"
    by (rule mp_ok_alloc [OF ok a n(1) ch]) (use d c(3) in \<open>auto simp: b\<close>)
  moreover have "frame_ok s s' k (- set (as @ q # bs) - set al)"
    using d last0_in [of as]
    by (auto simp: frame_ok_def s'_def ffit_link_def Let_def s1_def md_of_def relink_mfl_def)
  ultimately show thesis using l a f
    by (intro that [of s']) (auto simp: s'_def ffit_link_def Let_def s1_def)
qed

text \<open>The descriptor found by the search, split in two: \<open>p1\<close> is a new descriptor for the rest.\<close>

lemma ffit_split:
  assumes ok: "mp_ok s k (as @ q # bs) al" and small: "\<forall>x \<in> set as. m_length (os s) x < n"
    and n: "0 < n" "n < m_length (os s) q" and p1: "p1 \<noteq> 0" "p1 \<notin> set (as @ q # bs)" "p1 \<notin> set al"
  defines "s0 \<equiv> set_link p1 (m_link (os s) q) (set_start p1 (u32 (m_start (os s) q + n))
      (set_length p1 (s32 (m_length (os s) q - n)) s))"
  defines "s1 \<equiv> set_length q n (relink_mfl k (last0 as) p1 s0)"
  obtains s' where "ffit_link k q s1 = (int q, s')" "mp_ok s' k (as @ p1 # bs) (q # al)"
    "aalloc n (map (blk_of s) (as @ q # bs)) = Some (blk_of s' q, map (blk_of s') (as @ p1 # bs))"
    "m_own (os s') q = run s" "m_start (os s') = (m_start (os s))(p1 := m_start (os s) q + n)"
    "m_own (os s') = (m_own (os s))(q := run s)" "frame_ok s s' k (- {p1} - set (as @ q # bs) - set al)"
    "\<forall>C U. md_inv C (os s') U = md_inv C (os s) U" "outside_pool (os s') = outside_pool (os s)"
proof -
  from ok have c: "chain (m_link (os s)) (mp_mfl (mpb_of k s)) (as @ q # bs)"
    "chain (m_link (os s)) (mp_mal (mpb_of k s)) al" "set (as @ q # bs) \<inter> set al = {}"
    and bq: "blk_ok (blk_of s q)"
    by (simp_all add: mp_ok_def free_ok_append free_ok_Cons)
  have d: "distinct (as @ q # bs)" "0 \<notin> set (as @ q # bs)" by (rule chain_distinct [OF c(1)], rule seg_nonzero [OF c(1)])
  have w: "u32 (m_start (os s) q + n) = m_start (os s) q + n" "s32 (m_length (os s) q - n) = m_length (os s) q - n"
    using bq n by (auto simp: blk_ok_def blk_of_def)
  have s0: "m_link (os s0) = (m_link (os s))(p1 := m_link (os s) q)" "mpb_of k s0 = mpb_of k s"
    "m_start (os s0) = (m_start (os s))(p1 := m_start (os s) q + n)"
    "m_length (os s0) = (m_length (os s))(p1 := m_length (os s) q - n)" "m_own (os s0) = m_own (os s)" "run s0 = run s"
    by (simp_all add: s0_def w)
  have fl: "chain (m_link (os s1)) (mp_mfl (mpb_of k s1)) (as @ p1 # bs)"
    using relink_replace [OF c(1) p1(1,2)] relink_mfl_fields(10) [of "last0 as" p1 k s0]
    by (simp add: s1_def s0)
  have "x \<noteq> last0 as" if "x \<in> set al" for x using last0_notin [OF c(2) that] c(3) by auto
  then have "\<forall>x \<in> set al. m_link (os s1) x = m_link (os s) x"
    using p1(3) by (auto simp: s1_def s0)
  then have al: "chain (m_link (os s1)) (mp_mal (mpb_of k s1)) al"
    using chain_cong_on [OF c(2)] by (simp add: s1_def s0)
  define s' where "s' = snd (ffit_link k q s1)"
  have l: "ffit_link k q s1 = (int q, s')" by (simp add: s'_def ffit_link_def Let_def)
  have f: "m_link (os s') = (m_link (os s1))(q := mp_mal (mpb_of k s1))" "m_start (os s') = m_start (os s0)"
    "m_length (os s') = (m_length (os s0))(q := n)" "m_own (os s') = (m_own (os s))(q := run s)"
    "mp_mfl (mpb_of k s') = mp_mfl (mpb_of k s1)" "mp_mal (mpb_of k s') = q"
    by (simp_all add: s'_def ffit_link_def Let_def s1_def s0)
  have b: "blk_of s' x = (if x = q then (m_start (os s) q, n) else if x = p1 then (m_start (os s) q + n, m_length (os s) q - n)
      else blk_of s x)" for x
    using p1 by (auto simp: blk_of_def f s0)
  have a: "aalloc n (map (blk_of s) (as @ q # bs)) = Some (blk_of s' q, map (blk_of s') (as @ p1 # bs))"
  proof -
    have m: "map (blk_of s') as = map (blk_of s) as" "map (blk_of s') bs = map (blk_of s) bs"
      using d p1 by (auto simp: b)
    have z: "fst (blk_of s x) = m_start (os s) x" "snd (blk_of s x) = m_length (os s) x" for x by (simp_all add: blk_of_def)
    show ?thesis
      using aalloc_hit [of "map (blk_of s) as" n "blk_of s q" "map (blk_of s) bs"] small n p1
      by (simp add: m z) (simp add: b)
  qed
  have ch: "chain (m_link (os s')) (mp_mfl (mpb_of k s')) (as @ p1 # bs)"
    "chain (m_link (os s')) (mp_mal (mpb_of k s')) (q # al)"
    using fl al d c(3) p1 by (auto simp: f seg_frame)
  have "mp_ok s' k (as @ p1 # bs) (q # al)"
    by (rule mp_ok_alloc [OF ok a n(1) ch]) (use d c(3) p1 in \<open>auto simp: b\<close>)
  moreover have "frame_ok s s' k (- {p1} - set (as @ q # bs) - set al)"
    using d last0_in [of as]
    by (auto simp: frame_ok_def s'_def ffit_link_def Let_def s1_def s0_def md_of_def relink_mfl_def)
  ultimately show thesis using l a f
    by (intro that [of s']) (auto simp: s'_def ffit_link_def Let_def s1_def s0_def w)
qed

lemma used_inside:
  assumes "md_inv C x U" "m \<in> U"
  shows "\<not> outside_pool x m"
proof -
  obtain F M D where ok: "osm_ok x F M D" and u: "U = used_mds x (set M \<union> D)"
    using assms(1) by (auto simp: md_inv_def)
  then obtain b i where b: "m = mdb_entry b i" "b \<in> set M \<union> D" "i < 3" using assms(2) by (auto simp: used_mds_def)
  moreover have "b \<in> blocks x" using ok b(2) by (auto simp: osm_ok_def pool_ok_def)
  moreover have "0 \<le> osmptr x" "osmptr x \<le> 7670" using ok by (auto simp: osm_ok_def pool_ok_def osm_sizes)
  ultimately show ?thesis using block_range [of b x] by (auto simp: outside_pool_def mdb_entry_def)
qed

lemma mp_ok_os_cong:
  assumes "mp_ok s k fl al" "\<forall>x \<in> set fl \<union> set al. md_of x' x = md_of (os s) x"
  shows "mp_ok (s\<lparr>os := x'\<rparr>) k fl al" "\<forall>x \<in> set fl \<union> set al. blk_of (s\<lparr>os := x'\<rparr>) x = blk_of s x"
proof -
  have e: "m_link x' x = m_link (os s) x" "m_start x' x = m_start (os s) x" "m_length x' x = m_length (os s) x"
    if "x \<in> set fl \<union> set al" for x
    using assms(2) that by (auto simp: md_of_def)
  then show b: "\<forall>x \<in> set fl \<union> set al. blk_of (s\<lparr>os := x'\<rparr>) x = blk_of s x" by (simp add: blk_of_def)
  have "chain (m_link x') p fl" if "chain (m_link (os s)) p fl" for p
    using chain_cong_on [OF that, of "m_link x'"] e(1) by simp
  moreover have "chain (m_link x') p al" if "chain (m_link (os s)) p al" for p
    using chain_cong_on [OF that, of "m_link x'"] e(1) by simp
  moreover have m: "map (blk_of (s\<lparr>os := x'\<rparr>)) fl = map (blk_of s) fl" using b by auto
  ultimately show "mp_ok (s\<lparr>os := x'\<rparr>) k fl al"
    using assms(1) b unfolding mp_ok_def m by (simp add: Ball_def)
qed

lemma descr_md_of:
  assumes "descr_ok C s U X" "\<forall>x. x \<in> U \<or> outside_pool (os s) x \<longrightarrow> md_of x' x = md_of (os s) x"
    "outside_pool x' = outside_pool (os s)"
  shows "\<forall>x \<in> insert (themd s) U. md_of x' x = md_of (os s) x"
    "md_inv C x' U \<Longrightarrow> descr_ok C (s\<lparr>os := x'\<rparr>) U X"
proof -
  show a: "\<forall>x \<in> insert (themd s) U. md_of x' x = md_of (os s) x" using assms(1,2) by (auto simp: descr_ok_def)
  then have "m_start x' x = m_start (os s) x" if "x \<in> insert (themd s) U" for x using that by (auto simp: md_of_def)
  with assms(1,3) show "descr_ok C (s\<lparr>os := x'\<rparr>) U X" if "md_inv C x' U"
    using that by (simp add: descr_ok_def subset_eq)
qed

text \<open>The search of \<open>ffit\<close> on a well-formed pool.\<close>

lemma ffit_search:
  assumes ok: "mp_ok s k fl al" and am: "amount \<noteq> - 1" and n: "n = round_up (pool_align k s) amount" "0 < n"
  obtains (miss) "\<forall>x \<in> set fl. m_length (os s) x < n" "ffit amount k s = Some (0, s)"
    | (whole) as q bs where "fl = as @ q # bs" "\<forall>x \<in> set as. m_length (os s) x < n" "m_length (os s) q = n" "q \<noteq> 0"
      "ffit amount k s = Some (ffit_link k q (relink_mfl k (last0 as) (m_link (os s) q) s))"
    | (part) as q bs where "fl = as @ q # bs" "\<forall>x \<in> set as. m_length (os s) x < n" "n < m_length (os s) q" "q \<noteq> 0"
      "ffit amount k s = (case xmgetmd (os s) of None \<Rightarrow> None | Some (p1, os') \<Rightarrow>
         let s = s\<lparr>os := os'\<rparr> in if p1 = 0 then Some (0, s)
         else Some (ffit_link k q (set_length q n (relink_mfl k (last0 as) p1 (set_link p1 (m_link (os s) q)
           (set_start p1 (u32 (m_start (os s) q + n)) (set_length p1 (s32 (m_length (os s) q - n)) s)))))))"
proof -
  have c: "chain (m_link (os s)) (mp_mfl (mpb_of k s)) fl" using ok by (simp add: mp_ok_def)
  show thesis
  proof (cases "mp_mfl (mpb_of k s) = 0")
    case True
    with c have "fl = []" by (cases fl) auto
    with True show thesis by (intro miss) (auto simp: ffit_def)
  next
    case False
    from c show thesis
    proof (cases rule: find_link_total [where P = "\<lambda>q. m_length (os s) q \<ge> n"])
      case (hit as q bs)
      have q0: "q \<noteq> 0" using seg_nonzero [OF c] hit(1) by auto
      have small: "\<forall>x \<in> set as. m_length (os s) x < n" using hit(2) by auto
      show thesis
      proof (cases "m_length (os s) q = n")
        case True
        then show thesis using False am hit n(1) q0 small by (intro whole [of as q bs]) (simp_all add: ffit_def Let_def)
      next
        case ne: False
        then have "n < m_length (os s) q" using hit(3) by simp
        then show thesis using False am hit n(1) q0 small ne
          by (intro part [of as q bs]) (simp_all add: ffit_def Let_def split: option.split)
      qed
    next
      case m: miss
      then show thesis using False am n(1) by (intro miss) (auto simp: ffit_def Let_def not_le)
    qed
  qed
qed

text \<open>The split when \<open>xmgetmd\<close> gave \<open>p1\<close> and the descriptor store \<open>x\<close>.\<close>

lemma ffit_split_got:
  assumes ok: "mp_ok s k (as @ q # bs) al" and de: "descr_ok C s U (set (as @ q # bs) \<union> set al)"
    and small: "\<forall>y \<in> set as. m_length (os s) y < n" and n: "0 < n" "n < m_length (os s) q"
    and g: "p1 \<noteq> 0" "p1 \<notin> U" "md_inv C x (insert p1 U)"
      "\<forall>y. y \<in> U \<or> outside_pool (os s) y \<longrightarrow> md_of x y = md_of (os s) y" "outside_pool x = outside_pool (os s)"
  defines "s0 \<equiv> s\<lparr>os := x\<rparr>"
  obtains s' where "ffit_link k q (set_length q n (relink_mfl k (last0 as) p1 (set_link p1 (m_link (os s0) q)
           (set_start p1 (u32 (m_start (os s0) q + n)) (set_length p1 (s32 (m_length (os s0) q - n)) s0))))) = (int q, s')"
    "mp_ok s' k (as @ p1 # bs) (q # al)" "descr_ok C s' (insert p1 U) (set (as @ p1 # bs) \<union> set (q # al))"
    "aalloc n (map (blk_of s) (as @ q # bs)) = Some (blk_of s' q, map (blk_of s') (as @ p1 # bs))"
    "m_own (os s') q = run s" "frame_ok s s' k (insert (themd s) U - set (as @ q # bs) - set al)"
proof -
  let ?X = "set (as @ q # bs) \<union> set al"
  note m = descr_md_of [OF de g(4,5)]
  have "\<forall>y \<in> ?X. md_of x y = md_of (os s) y" using m(1) de by (auto simp: descr_ok_def)
  note o = mp_ok_os_cong [OF ok this, folded s0_def]
  have st: "\<forall>y \<in> ?X. m_start x y = m_start (os s) y \<and> m_length x y = m_length (os s) y"
    using o(2) by (simp add: blk_of_def s0_def)
  have "\<not> outside_pool x p1" by (rule used_inside [OF g(3)]) simp
  then have pt: "p1 \<noteq> themd s" using g(5) de by (auto simp: descr_ok_def)
  then have p1: "p1 \<notin> set (as @ q # bs)" "p1 \<notin> set al" using g(2) de by (auto simp: descr_ok_def)
  have sm: "\<forall>y \<in> set as. m_length (os s0) y < n" "n < m_length (os s0) q" using small n st by (auto simp: s0_def)
  obtain s' where l: "ffit_link k q (set_length q n (relink_mfl k (last0 as) p1 (set_link p1 (m_link (os s0) q)
           (set_start p1 (u32 (m_start (os s0) q + n)) (set_length p1 (s32 (m_length (os s0) q - n)) s0))))) = (int q, s')"
    "mp_ok s' k (as @ p1 # bs) (q # al)"
    "aalloc n (map (blk_of s0) (as @ q # bs)) = Some (blk_of s' q, map (blk_of s') (as @ p1 # bs))"
    "m_own (os s') q = run s0" "m_start (os s') = (m_start (os s0))(p1 := m_start (os s0) q + n)"
    "m_own (os s') = (m_own (os s0))(q := run s0)" "frame_ok s0 s' k (- {p1} - set (as @ q # bs) - set al)"
    "\<forall>C U. md_inv C (os s') U = md_inv C (os s0) U" "outside_pool (os s') = outside_pool (os s0)"
    by (rule ffit_split [OF o(1) sm(1) n(1) sm(2) g(1) p1])
  have mp: "map (blk_of s0) (as @ q # bs) = map (blk_of s) (as @ q # bs)" using o(2) by auto
  have th: "themd s' = themd s" using l(7) by (simp add: frame_ok_def same_rest_def s0_def)
  have "m_start (os s') (themd s) \<le> m_start (os s') y"
    if "themd s \<in> set (as @ p1 # bs) \<union> set (q # al)" "y \<in> set (as @ p1 # bs) \<union> set (q # al)" for y
  proof -
    have t: "themd s \<in> ?X" "\<forall>y \<in> ?X. m_start (os s) (themd s) \<le> m_start (os s) y"
      using that(1) pt de by (auto simp: descr_ok_def)
    have e: "m_start (os s') z = m_start (os s) z" if "z \<in> ?X" for z using that st p1 by (auto simp: l(5) s0_def)
    show ?thesis
    proof (cases "y = p1")
      case True
      have "m_start (os s') p1 = m_start (os s) q + n" using st by (simp add: l(5) s0_def)
      then show ?thesis using True t e [OF t(1)] n(1) by fastforce
    next
      case False
      then show ?thesis using that(2) t e by auto
    qed
  qed
  then have "descr_ok C s' (insert p1 U) (set (as @ p1 # bs) \<union> set (q # al))"
    using de g(3) l(8,9) g(5) by (auto simp: descr_ok_def th s0_def)
  moreover have "frame_ok s s' k (insert (themd s) U - set (as @ q # bs) - set al)"
  proof -
    have "md_of (os s') y = md_of (os s) y" if "y \<in> insert (themd s) U - set (as @ q # bs) - set al" for y
    proof -
      have "y \<in> - {p1} - set (as @ q # bs) - set al" using that pt g(2) by auto
      then have "md_of (os s') y = md_of x y" using l(7) by (simp add: frame_ok_def s0_def)
      then show ?thesis using m(1) that by auto
    qed
    moreover have "same_rest s s'" "\<forall>k'. k' \<noteq> k \<longrightarrow> mpb_of k' s' = mpb_of k' s"
      using l(7) by (simp_all add: frame_ok_def s0_def same_rest_def)
    ultimately show ?thesis by (simp add: frame_ok_def)
  qed
  ultimately show thesis using l(1,2,4) l(3) [unfolded mp] by (intro that [of s']) (simp_all add: s0_def)
qed


section \<open>Freeing\<close>

lemma afree_split:
  assumes "free_ok (xs @ ys)" "\<forall>x \<in> set xs. fst x < fst c" "ys = [] \<or> fst c \<le> fst (hd ys)"
  shows "afree c (xs @ ys) =
    (if xs \<noteq> [] \<and> fst (last xs) + snd (last xs) = fst c
     then butlast xs @ (case join_hi c ys of [] \<Rightarrow> [] | e # es \<Rightarrow> (fst (last xs), snd (last xs) + snd e) # es)
     else xs @ join_hi c ys)"
  using assms
proof (induction xs)
  case Nil
  then show ?case by (cases ys) auto
next
  case (Cons d xs)
  show ?case
  proof (cases xs)
    case Nil
    with Cons.prems show ?thesis by (cases ys) auto
  next
    case (Cons e es)
    have "below d e" using Cons.prems(1) Cons by (simp add: free_ok_Cons)
    then have "fst d + snd d \<noteq> fst c" using Cons.prems(2) Cons by (auto simp: below_def)
    have "free_ok (xs @ ys)" using Cons.prems(1) by (simp add: free_ok_Cons)
    note ih = Cons.IH [OF this _ Cons.prems(3)]
    have ne: "xs \<noteq> []" using Cons by simp
    have "afree c ((d # xs) @ ys) = d # afree c (xs @ ys)"
      using Cons.prems(2) \<open>fst d + snd d \<noteq> fst c\<close> by simp
    then show ?thesis using ih Cons.prems(2) ne unfolding last_ConsR [OF ne] by simp
  qed
qed

lemma md_of_eqD:
  assumes "md_of x' = md_of x"
  shows "m_link x' = m_link x" "m_start x' = m_start x" "m_length x' = m_length x" "m_own x' = m_own x"
  using fun_cong [OF assms] by (auto simp: md_of_def)

text \<open>What the two joins share: a node's length and link change, and another descriptor goes back.\<close>

definition joined :: "nat \<Rightarrow> int \<Rightarrow> nat \<Rightarrow> umem \<Rightarrow> umem \<Rightarrow> bool" where
  "joined p l v s s' \<longleftrightarrow> m_link (os s') = (m_link (os s))(p := v) \<and> m_start (os s') = m_start (os s)
     \<and> m_length (os s') = (m_length (os s))(p := l) \<and> m_own (os s') = m_own (os s)
     \<and> (\<forall>k. mpb_of k s' = mpb_of k s) \<and> same_rest s s' \<and> outside_pool (os s') = outside_pool (os s)"

lemma join_free:
  assumes "md_inv C (os s) U" "f \<in> U"
  obtains x where "xmfremd f (os (set_link p v (set_length p l s))) = Some x"
    "joined p l v s ((set_link p v (set_length p l s))\<lparr>os := x\<rparr>)" "md_inv C x (U - {f})"
proof -
  have "md_inv C (os (set_link p v (set_length p l s))) U" using assms(1) by simp
  then obtain x where x: "xmfremd f (os (set_link p v (set_length p l s))) = Some x" "md_inv C x (U - {f})"
    "md_of x = md_of (os (set_link p v (set_length p l s)))"
    "outside_pool x = outside_pool (os (set_link p v (set_length p l s)))"
    using assms(2) by (rule pool_md.free_cases)
  show thesis using x md_of_eqD [OF x(3)] by (intro that [of x]) (auto simp: joined_def)
qed

text \<open>A free list with one block that may touch its neighbours, and the rest of a pool.\<close>

definition mid_ok :: "umem \<Rightarrow> pool \<Rightarrow> nat list \<Rightarrow> nat list \<Rightarrow> bool" where
  "mid_ok s k fl al \<longleftrightarrow>
     chain (m_link (os s)) (mp_mfl (mpb_of k s)) fl \<and> chain (m_link (os s)) (mp_mal (mpb_of k s)) al
     \<and> set fl \<inter> set al = {} \<and> (\<forall>x \<in> set fl. blk_ok (blk_of s x))"

lemma chain_drop_next:
  assumes "chain nx p (xs @ m # f # ys)"
  shows "chain (nx(m := nx f)) p (xs @ m # ys)"
proof -
  have "distinct (xs @ m # f # ys)" by (rule chain_distinct [OF assms])
  then show ?thesis using assms by (auto simp: seg_append seg_frame)
qed

lemma joined_blk: "joined p l v s s' \<Longrightarrow> blk_of s' x = (if x = p then (m_start (os s) p, l) else blk_of s x)"
  by (simp add: joined_def blk_of_def)

lemma blk_ok_u32: "blk_ok (blk_of s x) \<Longrightarrow> u32 (m_start (os s) x + m_length (os s) x) = m_start (os s) x + m_length (os s) x"
  by (simp add: blk_ok_def blk_of_def)

lemma join_higher_ok:
  assumes ok: "mid_ok s k (xs @ m # ys) al" and mi: "md_inv C (os s) U"
    and f: "ys \<noteq> [] \<Longrightarrow> m_start (os s) m + m_length (os s) m = m_start (os s) (hd ys) \<Longrightarrow> hd ys \<in> U"
  obtains s' ys' l v where "join_higher m (hd0 ys) s = Some s'" "mid_ok s' k (xs @ m # ys') al"
    "map (blk_of s') (m # ys') = join_hi (blk_of s m) (map (blk_of s) ys)" "joined m l v s s'"
    "set ys' \<subseteq> set ys" "md_inv C (os s') (U - (set ys - set ys'))"
proof -
  have c: "chain (m_link (os s)) (mp_mfl (mpb_of k s)) (xs @ m # ys)" using ok by (simp add: mid_ok_def)
  have d: "distinct (xs @ m # ys)" "0 \<notin> set (xs @ m # ys)" by (rule chain_distinct [OF c], rule seg_nonzero [OF c])
  have bk: "\<forall>x \<in> set (xs @ m # ys). blk_ok (blk_of s x)" using ok by (simp add: mid_ok_def)
  then have u: "u32 (m_start (os s) m + m_length (os s) m) = m_start (os s) m + m_length (os s) m"
    by (simp add: blk_ok_def blk_of_def)
  show thesis
  proof (cases "ys \<noteq> [] \<and> m_start (os s) m + m_length (os s) m = m_start (os s) (hd ys)")
    case True
    then obtain g zs where y: "ys = g # zs" "g \<in> U" "m_start (os s) m + m_length (os s) m = m_start (os s) g"
      using f by (cases ys) auto
    have L: "s32 (m_length (os s) m + m_length (os s) g) = m_length (os s) m + m_length (os s) g"
      using bk y by (simp add: blk_ok_def blk_of_def)
    let ?l = "m_length (os s) m + m_length (os s) g" and ?v = "m_link (os s) g"
    obtain x where x: "xmfremd g (os (set_link m ?v (set_length m ?l s))) = Some x"
      "joined m ?l ?v s ((set_link m ?v (set_length m ?l s))\<lparr>os := x\<rparr>)" "md_inv C x (U - {g})"
      by (rule join_free [OF mi y(2)])
    let ?s = "(set_link m ?v (set_length m ?l s))\<lparr>os := x\<rparr>"
    have "join_higher m (hd0 ys) s = Some ?s"
      using x(1) y d u L by (simp add: join_higher_def)
    moreover have "mid_ok ?s k (xs @ m # zs) al"
    proof -
      have "chain (m_link (os ?s)) (mp_mfl (mpb_of k ?s)) (xs @ m # zs)"
        using chain_drop_next [of "m_link (os s)" _ xs m g zs] c y(1) x(2) by (simp add: joined_def)
      moreover have "blk_ok (m_start (os s) m, ?l)" using bk y by (auto simp: blk_ok_def blk_of_def)
      ultimately show ?thesis
        using ok bk y(1) x(2) by (auto simp: mid_ok_def joined_def joined_blk [OF x(2)] seg_frame)
    qed
    moreover have "map (blk_of ?s) (m # zs) = join_hi (blk_of s m) (map (blk_of s) ys)"
    proof -
      have b: "blk_of ?s z = (if z = m then (m_start (os s) m, ?l) else blk_of s z)" for z by (rule joined_blk [OF x(2)])
      have "map (blk_of ?s) zs = map (blk_of s) zs" using d y(1) by (auto simp: b)
      moreover have "join_hi (blk_of s m) (map (blk_of s) ys) = (m_start (os s) m, ?l) # map (blk_of s) zs"
        using y by (simp add: blk_of_def)
      ultimately show ?thesis by (simp add: b)
    qed
    moreover have "set ys - set zs = {g}" "set zs \<subseteq> set ys" using y(1) d by auto
    ultimately show thesis using x(2,3) by (intro that [of ?s zs ?l ?v]) simp_all
  next
    case False
    then have "join_higher m (hd0 ys) s = Some s" using u by (cases ys) (auto simp: join_higher_def)
    moreover have "map (blk_of s) (m # ys) = join_hi (blk_of s m) (map (blk_of s) ys)"
      using False by (cases ys) (auto simp: blk_of_def)
    moreover have "joined m (m_length (os s) m) (m_link (os s) m) s s" by (simp add: joined_def)
    ultimately show thesis using ok mi by (intro that [of s ys]) auto
  qed
qed

lemma join_lower_ok:
  assumes ok: "mid_ok s k (xs @ m # ys) al" and mi: "md_inv C (os s) U"
    and f: "xs \<noteq> [] \<Longrightarrow> m_start (os s) (last xs) + m_length (os s) (last xs) = m_start (os s) m \<Longrightarrow> m \<in> U"
  obtains s' fl' p l v where "join_lower (last0 xs) m s = Some s'" "mid_ok s' k fl' al"
    "map (blk_of s') fl' =
      (if xs \<noteq> [] \<and> m_start (os s) (last xs) + m_length (os s) (last xs) = m_start (os s) m
       then map (blk_of s) (butlast xs) @ (m_start (os s) (last xs), m_length (os s) (last xs) + m_length (os s) m)
         # map (blk_of s) ys
       else map (blk_of s) (xs @ m # ys))"
    "joined p l v s s'" "p \<in> set (xs @ m # ys)" "set fl' \<subseteq> set (xs @ m # ys)"
    "md_inv C (os s') (U - (set (xs @ m # ys) - set fl'))"
proof -
  have c: "chain (m_link (os s)) (mp_mfl (mpb_of k s)) (xs @ m # ys)" using ok by (simp add: mid_ok_def)
  have d: "distinct (xs @ m # ys)" "0 \<notin> set (xs @ m # ys)" by (rule chain_distinct [OF c], rule seg_nonzero [OF c])
  have bk: "\<forall>x \<in> set (xs @ m # ys). blk_ok (blk_of s x)" using ok by (simp add: mid_ok_def)
  then have u: "u32 (m_start (os s) x + m_length (os s) x) = m_start (os s) x + m_length (os s) x"
    if "x \<in> set (xs @ m # ys)" for x using that by (intro blk_ok_u32) blast
  show thesis
  proof (cases "xs \<noteq> [] \<and> m_start (os s) (last xs) + m_length (os s) (last xs) = m_start (os s) m")
    case True
    then obtain zs z where y: "xs = zs @ [z]" "m \<in> U" "m_start (os s) z + m_length (os s) z = m_start (os s) m"
      using f by (cases xs rule: rev_cases) auto
    let ?l = "m_length (os s) z + m_length (os s) m" and ?v = "m_link (os s) m"
    have L: "s32 ?l = ?l" using bk y by (simp add: blk_ok_def blk_of_def)
    obtain x where x: "xmfremd m (os (set_link z ?v (set_length z ?l s))) = Some x"
      "joined z ?l ?v s ((set_link z ?v (set_length z ?l s))\<lparr>os := x\<rparr>)" "md_inv C x (U - {m})"
      by (rule join_free [OF mi y(2)])
    let ?s = "(set_link z ?v (set_length z ?l s))\<lparr>os := x\<rparr>"
    have b: "blk_of ?s w = (if w = z then (m_start (os s) z, ?l) else blk_of s w)" for w by (rule joined_blk [OF x(2)])
    have j: "join_lower (last0 xs) m s = Some ?s"
      using x(1) y d u [of z] L by (simp add: join_lower_def)
    have "chain (m_link (os ?s)) (mp_mfl (mpb_of k ?s)) (zs @ z # ys)"
      using chain_drop_next [of "m_link (os s)" _ zs z m ys] c y(1) x(2) by (simp add: joined_def)
    moreover have "blk_ok (m_start (os s) z, ?l)" using bk y by (auto simp: blk_ok_def blk_of_def)
    ultimately have o: "mid_ok ?s k (zs @ z # ys) al"
      using ok bk y(1) x(2) by (auto simp: mid_ok_def joined_def b seg_frame)
    have mz: "map (blk_of ?s) zs = map (blk_of s) zs" "map (blk_of ?s) ys = map (blk_of s) ys"
      using d y(1) by (auto simp: b)
    have "set (xs @ m # ys) - set (zs @ z # ys) = {m}" "set (zs @ z # ys) \<subseteq> set (xs @ m # ys)" "z \<in> set (xs @ m # ys)"
      using y(1) d by auto
    then show thesis using j o mz x(2,3) True y by (intro that [of ?s "zs @ z # ys" z ?l ?v]) (simp_all add: b)
  next
    case False
    have "join_lower (last0 xs) m s = Some s"
      using False u d by (cases xs rule: rev_cases) (auto simp: join_lower_def)
    moreover have "joined m (m_length (os s) m) (m_link (os s) m) s s" by (simp add: joined_def)
    ultimately show thesis using ok mi False by (intro that [of s "xs @ m # ys" m]) auto
  qed
qed

text \<open>The first half of \<open>freeit\<close>: out of the allocated list, into the free list in address order.\<close>

lemma freeit_insert:
  assumes ok: "mp_ok s k fl (as @ m # bs)"
  obtains s2 xs ys where "fl = xs @ ys" "\<forall>x \<in> set xs. m_start (os s) x < m_start (os s) m"
    "ys = [] \<or> m_start (os s) m \<le> m_start (os s) (hd ys)"
    "freeit m k s = (case join_higher m (hd0 ys) s2 of None \<Rightarrow> None | Some s3 \<Rightarrow> join_lower (last0 xs) m s3)"
    "mid_ok s2 k (xs @ m # ys) (as @ bs)" "m_start (os s2) = m_start (os s)" "m_length (os s2) = m_length (os s)"
    "m_own (os s2) = m_own (os s)" "\<forall>C U. md_inv C (os s2) U = md_inv C (os s) U"
    "outside_pool (os s2) = outside_pool (os s)" "frame_ok s s2 k (- set fl - set (as @ m # bs))"
proof -
  from ok have c: "chain (m_link (os s)) (mp_mfl (mpb_of k s)) fl"
    "chain (m_link (os s)) (mp_mal (mpb_of k s)) (as @ m # bs)" and dj: "set fl \<inter> set (as @ m # bs) = {}"
    by (simp_all add: mp_ok_def)
  have da: "distinct (as @ m # bs)" "0 \<notin> set (as @ m # bs)" by (rule chain_distinct [OF c(2)], rule seg_nonzero [OF c(2)])
  have "m_start (os s) m \<noteq> m_start (os s) y" if "y \<in> set as" for y
  proof -
    have "y \<noteq> m" "bytes (blk_of s m) \<inter> bytes (blk_of s y) = {}" "blk_ok (blk_of s m)" "blk_ok (blk_of s y)"
      using ok that da by (auto simp: mp_ok_def)
    then show ?thesis by (auto simp: bytes_def blk_ok_def blk_of_def)
  qed
  then have f1: "find_link (m_link (os s)) (\<lambda>p. m_start (os s) m = m_start (os s) p) 0 (mp_mal (mpb_of k s)) = Some (last0 as, m)"
    by (intro find_link_hit [OF c(2)]) auto
  define s1 where "s1 = relink_mal k (last0 as) (m_link (os s) m) s"
  have al1: "chain (m_link (os s1)) (mp_mal (mpb_of k s1)) (as @ bs)"
    using relink_snip [OF c(2)] unfolding s1_def by (metis relink_mal_fields(9))
  have "x \<noteq> last0 as" if "x \<in> set fl" for x using last0_notin [OF c(1) that, of as] dj by auto
  then have "\<forall>x \<in> set fl. m_link (os s1) x = m_link (os s) x" unfolding s1_def by (intro ballI relink_mal_fields(10))
  then have fl1: "chain (m_link (os s1)) (mp_mfl (mpb_of k s1)) fl"
    using chain_cong_on [OF c(1)] by (simp add: s1_def)
  obtain xs ys where sp: "fl = xs @ ys" "\<forall>x \<in> set xs. \<not> m_start (os s) m \<le> m_start (os s) x"
    "ys = [] \<or> m_start (os s) m \<le> m_start (os s) (hd ys)"
    "find_link (m_link (os s1)) (\<lambda>f. m_start (os s) m \<le> m_start (os s) f) 0 (mp_mfl (mpb_of k s1)) = Some (last0 xs, hd0 ys)"
    using fl1
  proof (cases rule: find_link_total [where P = "\<lambda>f. m_start (os s) m \<le> m_start (os s) f"])
    case (hit zs f bs')
    then show thesis by (intro that [of zs "f # bs'"]) auto
  next
    case miss
    then show thesis by (intro that [of fl "[]"]) auto
  qed
  define s2 where "s2 = relink_mfl k (last0 xs) m (set_link m (hd0 ys) s1)"
  have m: "m \<noteq> 0" "m \<notin> set xs" "m \<notin> set ys" "m \<notin> set (as @ bs)" using da dj sp(1) by auto
  have "relink (last0 xs) m (mp_mfl (mpb_of k s1), (m_link (os s1))(m := hd0 ys))
    = (mp_mfl (mpb_of k s2), m_link (os s2))"
    using relink_mfl_fields(10) [of "last0 xs" m k "set_link m (hd0 ys) s1"] by (simp add: s2_def)
  from relink_insert [OF fl1 [unfolded sp(1)] m(1-3) this]
  have fl2: "chain (m_link (os s2)) (mp_mfl (mpb_of k s2)) (xs @ m # ys)" .
  have "x \<noteq> last0 xs" if "x \<in> set (as @ bs)" for x using last0_notin [OF al1 that, of xs] dj sp(1) by auto
  then have "\<forall>x \<in> set (as @ bs). m_link (os s2) x = m_link (os s1) x"
    using m(4) by (auto simp: s2_def)
  then have al2: "chain (m_link (os s2)) (mp_mal (mpb_of k s2)) (as @ bs)"
    using chain_cong_on [OF al1] by (simp add: s2_def)
  have fd: "m_start (os s2) = m_start (os s)" "m_length (os s2) = m_length (os s)" "m_own (os s2) = m_own (os s)"
    by (simp_all add: s2_def s1_def)
  have "mid_ok s2 k (xs @ m # ys) (as @ bs)"
    using fl2 al2 dj da sp(1) ok by (auto simp: mid_ok_def mp_ok_def free_ok_def blk_of_def fd)
  moreover have "freeit m k s = (case join_higher m (hd0 ys) s2 of None \<Rightarrow> None | Some s3 \<Rightarrow> join_lower (last0 xs) m s3)"
    using f1 sp(4) m(1) by (simp add: freeit_def Let_def s1_def [symmetric] s2_def [symmetric])
      (simp add: s1_def s2_def)
  moreover have "frame_ok s s2 k (- set fl - set (as @ m # bs))"
    using last0_in [of xs] last0_in [of as] sp(1)
    by (auto simp: frame_ok_def s2_def s1_def md_of_def relink_mfl_def relink_mal_def)
  ultimately show thesis using sp fd by (intro that [of xs ys s2]) (auto simp: not_le s2_def s1_def)
qed

text \<open>The second half: both joins give the abstract \<open>afree\<close>.\<close>

lemma joined_trans_frame:
  assumes "frame_ok s s2 k Y" "joined p l v s2 s3" "p \<notin> Y"
  shows "frame_ok s s3 k Y"
  using assms by (auto simp: frame_ok_def joined_def md_of_def same_rest_def)

lemma freeit_joins:
  assumes ok: "mp_ok s k fl (as @ m # bs)" and de: "descr_ok C s U (set fl \<union> set (as @ m # bs))"
  obtains s' fl' U' where "freeit m k s = Some s'" "mid_ok s' k fl' (as @ bs)"
    "map (blk_of s') fl' = afree (blk_of s m) (map (blk_of s) fl)"
    "\<forall>x \<in> set (as @ bs). blk_of s' x = blk_of s x" "m_own (os s') = m_own (os s)"
    "descr_ok C s' U' (set fl' \<union> set (as @ bs))" "frame_ok s s' k (- set fl - set (as @ m # bs))"
proof -
  let ?X = "set fl \<union> set (as @ m # bs)"
  obtain s2 xs ys where i: "fl = xs @ ys" "\<forall>x \<in> set xs. m_start (os s) x < m_start (os s) m"
    "ys = [] \<or> m_start (os s) m \<le> m_start (os s) (hd ys)"
    "freeit m k s = (case join_higher m (hd0 ys) s2 of None \<Rightarrow> None | Some s3 \<Rightarrow> join_lower (last0 xs) m s3)"
    "mid_ok s2 k (xs @ m # ys) (as @ bs)" "m_start (os s2) = m_start (os s)" "m_length (os s2) = m_length (os s)"
    "m_own (os s2) = m_own (os s)" "\<forall>C U. md_inv C (os s2) U = md_inv C (os s) U"
    "outside_pool (os s2) = outside_pool (os s)" "frame_ok s s2 k (- set fl - set (as @ m # bs))"
    by (rule freeit_insert [OF ok])
  have d2: "distinct (xs @ m # ys)" using i(5) chain_distinct unfolding mid_ok_def by blast
  have dj: "set (xs @ m # ys) \<inter> set (as @ bs) = {}" using i(5) by (simp add: mid_ok_def)
  have b2: "blk_of s2 = blk_of s" using i(6,7) by (simp add: blk_of_def fun_eq_iff)
  have pos: "0 < m_length (os s) x" if "x \<in> set (xs @ m # ys)" for x
    using i(5) that by (auto simp: mid_ok_def b2 blk_ok_def blk_of_def)
  have themin: "m_start (os s) (themd s) \<le> m_start (os s) y" if "themd s \<in> ?X" "y \<in> ?X" for y
    using de that unfolding descr_ok_def by blast
  have inU: "x \<in> U" if "x \<in> ?X" "y \<in> ?X" "m_start (os s) y < m_start (os s) x" for x y
  proof -
    have "x \<noteq> themd s" using themin [of y] that by fastforce
    moreover have "x \<in> insert (themd s) U" using de that(1) unfolding descr_ok_def by blast
    ultimately show ?thesis by simp
  qed
  have mi: "md_inv C (os s2) U" using de i(9) by (simp add: descr_ok_def)
  have "hd ys \<in> U" if "ys \<noteq> []" "m_start (os s2) m + m_length (os s2) m = m_start (os s2) (hd ys)"
    using inU [of "hd ys" m] that pos [of m] i(1,6,7) by (cases ys) auto
  with i(5) mi obtain s3 ys' l v where h: "join_higher m (hd0 ys) s2 = Some s3" "mid_ok s3 k (xs @ m # ys') (as @ bs)"
    "map (blk_of s3) (m # ys') = join_hi (blk_of s2 m) (map (blk_of s2) ys)" "joined m l v s2 s3"
    "set ys' \<subseteq> set ys" "md_inv C (os s3) (U - (set ys - set ys'))"
    by (rule join_higher_ok)
  have st3: "m_start (os s3) = m_start (os s)" using h(4) i(6) by (simp add: joined_def)
  have b3: "blk_of s3 x = blk_of s x" if "x \<noteq> m" for x using joined_blk [OF h(4)] that b2 by simp
  have "m \<in> U - (set ys - set ys')" if "xs \<noteq> []" "m_start (os s3) (last xs) + m_length (os s3) (last xs) = m_start (os s3) m"
    using inU [of m "last xs"] that i(1,2) d2 by (auto simp: st3)
  with h(2,6) obtain s' fl' p l' v' where g: "join_lower (last0 xs) m s3 = Some s'" "mid_ok s' k fl' (as @ bs)"
    "map (blk_of s') fl' =
      (if xs \<noteq> [] \<and> m_start (os s3) (last xs) + m_length (os s3) (last xs) = m_start (os s3) m
       then map (blk_of s3) (butlast xs) @ (m_start (os s3) (last xs), m_length (os s3) (last xs) + m_length (os s3) m)
         # map (blk_of s3) ys'
       else map (blk_of s3) (xs @ m # ys'))"
    "joined p l' v' s3 s'" "p \<in> set (xs @ m # ys')" "set fl' \<subseteq> set (xs @ m # ys')"
    "md_inv C (os s') (U - (set ys - set ys') - (set (xs @ m # ys') - set fl'))"
    by (rule join_lower_ok)
  have fr: "freeit m k s = Some s'" using i(4) h(1) g(1) by simp
  have pm: "p \<in> insert m (set fl)" using g(5) h(5) i(1) by auto
  have "map (blk_of s') fl' = afree (blk_of s m) (map (blk_of s) fl)"
  proof -
    have z: "fst (blk_of s x) = m_start (os s) x" "snd (blk_of s x) = m_length (os s) x" for x by (simp_all add: blk_of_def)
    have fo: "free_ok (map (blk_of s) xs @ map (blk_of s) ys)" using ok i(1) by (simp add: mp_ok_def)
    have xs3: "map (blk_of s3) xs = map (blk_of s) xs" by (intro map_cong refl b3) (use d2 in auto)
    have J: "join_hi (blk_of s m) (map (blk_of s) ys) = (m_start (os s) m, m_length (os s3) m) # map (blk_of s3) ys'"
      using h(3) b2 st3 by (simp add: blk_of_def)
    have L: "m_length (os s3) (last xs) = m_length (os s) (last xs)" if "xs \<noteq> []"
    proof -
      have "last xs \<in> set xs" using that by simp
      then have "last xs \<noteq> m" using d2 by auto
      from b3 [OF this] show ?thesis by (simp add: blk_of_def)
    qed
    have ys0: "map (blk_of s) ys = [] \<or> fst (blk_of s m) \<le> fst (hd (map (blk_of s) ys))"
      using i(3) by (cases ys) (auto simp: z)
    have xs0: "\<forall>x \<in> set (map (blk_of s) xs). fst x < fst (blk_of s m)" using i(2) by (auto simp: z)
    show ?thesis
      unfolding g(3) i(1) map_append afree_split [OF fo xs0 ys0] J st3
      using L xs3 by (auto simp: z last_map map_butlast [symmetric] blk_of_def st3 dest: in_set_butlastD)
  qed
  moreover have "\<forall>x \<in> set (as @ bs). blk_of s' x = blk_of s x"
  proof
    fix x assume x: "x \<in> set (as @ bs)"
    then have "x \<noteq> p" "x \<noteq> m" using pm i(1) dj by auto
    then show "blk_of s' x = blk_of s x" using joined_blk [OF g(4)] b3 [of x] by simp
  qed
  moreover have "descr_ok C s' (U - (set ys - set ys') - (set (xs @ m # ys') - set fl')) (set fl' \<union> set (as @ bs))"
  proof -
    have e: "themd s' = themd s" "m_start (os s') = m_start (os s)" "outside_pool (os s') = outside_pool (os s)"
      using g(4) h(4) i(6,10,11) by (simp_all add: joined_def frame_ok_def same_rest_def)
    have "set fl' \<union> set (as @ bs) \<subseteq> ?X" using g(6) h(5) i(1) by auto
    moreover have "x \<notin> set ys - set ys'" "x \<notin> set (xs @ m # ys') - set fl'" if "x \<in> set fl' \<union> set (as @ bs)" for x
      using that g(6) h(5) d2 dj by auto
    ultimately show ?thesis using de g(7) unfolding descr_ok_def e by blast
  qed
  moreover have "frame_ok s s' k (- set fl - set (as @ m # bs))"
    using joined_trans_frame [OF joined_trans_frame [OF i(11) h(4)] g(4)] pm by auto
  ultimately show thesis using that [OF fr g(2)] g(4) h(4) i(8) by (simp add: joined_def)
qed

lemma freeit_ok:
  assumes ok: "mp_ok s k fl (as @ m # bs)" and de: "descr_ok C s U (set fl \<union> set (as @ m # bs))"
  shows "\<exists>s' fl' U'. freeit m k s = Some s' \<and> mp_ok s' k fl' (as @ bs)
    \<and> map (blk_of s') fl' = afree (blk_of s m) (map (blk_of s) fl)
    \<and> region (map (blk_of s') fl') = bytes (blk_of s m) \<union> region (map (blk_of s) fl)
    \<and> (\<forall>x \<in> set (as @ bs). blk_of s' x = blk_of s x \<and> m_own (os s') x = m_own (os s) x)
    \<and> descr_ok C s' U' (set fl' \<union> set (as @ bs)) \<and> frame_ok s s' k (- set fl - set (as @ m # bs))"
proof -
  obtain s' fl' U' where f: "freeit m k s = Some s'" "mid_ok s' k fl' (as @ bs)"
    "map (blk_of s') fl' = afree (blk_of s m) (map (blk_of s) fl)"
    "\<forall>x \<in> set (as @ bs). blk_of s' x = blk_of s x" "m_own (os s') = m_own (os s)"
    "descr_ok C s' U' (set fl' \<union> set (as @ bs))" "frame_ok s s' k (- set fl - set (as @ m # bs))"
    by (rule freeit_joins [OF ok de])
  have "distinct (as @ m # bs)" using ok chain_distinct unfolding mp_ok_def by blast
  then have nm: "m \<notin> set (as @ bs)" by auto
  have b: "free_ok (map (blk_of s) fl)" "blk_ok (blk_of s m)" "bytes (blk_of s m) \<inter> region (map (blk_of s) fl) = {}"
    using ok by (simp_all add: mp_ok_def)
  have a: "free_ok (map (blk_of s') fl')" "region (map (blk_of s') fl') = bytes (blk_of s m) \<union> region (map (blk_of s) fl)"
    using afree_ok [OF b] unfolding f(3) by blast+
  have "blk_ok (blk_of s x)" "bytes (blk_of s x) \<inter> region (map (blk_of s) fl) = {}" "bytes (blk_of s x) \<inter> bytes (blk_of s m) = {}"
    "\<forall>y \<in> set (as @ bs). y \<noteq> x \<longrightarrow> bytes (blk_of s x) \<inter> bytes (blk_of s y) = {}" if "x \<in> set (as @ bs)" for x
    using ok that nm by (auto simp: mp_ok_def)
  then have "mp_ok s' k fl' (as @ bs)"
    using f(2,4) a unfolding mp_ok_def mid_ok_def by (simp add: Int_Un_distrib)
  then show ?thesis using f a(2) by metis
qed

text \<open>
  C9. \<open>freeit\<close> is correct: freeing an allocated descriptor of a well-formed pool returns,
  takes exactly that descriptor off the allocated list and changes the free list as the
  abstract \<open>afree\<close> does (insertion in address order, joined with a touching neighbour on
  either side, the spare descriptors given back). The free bytes afterwards are those free
  before and those of the block, the pool is well-formed again, the other blocks keep
  address, length and owner, and nothing outside the pool changes.
\<close>

theorem freeit_correct:
  assumes "mp_ok s k fl (as @ m # bs)" and "descr_ok C s U (set fl \<union> set (as @ m # bs))"
  shows "\<exists>s' fl' U'. freeit m k s = Some s' \<and> mp_ok s' k fl' (as @ bs)
    \<and> map (blk_of s') fl' = afree (blk_of s m) (map (blk_of s) fl)
    \<and> region (map (blk_of s') fl') = bytes (blk_of s m) \<union> region (map (blk_of s) fl)
    \<and> (\<forall>x \<in> set (as @ bs). blk_of s' x = blk_of s x \<and> m_own (os s') x = m_own (os s) x)
    \<and> descr_ok C s' U' (set fl' \<union> set (as @ bs)) \<and> frame_ok s s' k (- set fl - set (as @ m # bs))"
  using freeit_ok [OF assms] .

text \<open>A machine after \<open>umem_init\<close>: 32 KiB of ST-RAM, the BIOS descriptor at address 1166.\<close>

definition boot_um :: umem where
  "boot_um = umem_init False \<lparr>os = boot_osm 4096, pmd = \<lparr>mp_mfl = 0, mp_mal = 0\<rparr>, pmdalt = \<lparr>mp_mfl = 0, mp_mal = 0\<rparr>,
     has_alt_ram = False, malloc_align_stram = 0, start_stram = 0, end_stram = 0, run = 7, p_flags = 0,
     has_videl = False, video_ram_addr = 0, video_ram_size = 0, themd = 1166, membot = 65536, memtop = 98304,
     end_os = 65536\<rparr>"

lemmas boot_um_defs = boot_um_def umem_init_def getmpb_def Let_def set_link_def set_start_def set_length_def set_own_def

lemma boot_um_fields:
  "mpb_of PMD boot_um = \<lparr>mp_mfl = 1166, mp_mal = 0\<rparr>" "blk_of boot_um 1166 = (65536, 32768)" "m_link (os boot_um) 1166 = 0"
  "themd boot_um = 1166" "pool_align PMD boot_um = 1" "run boot_um = 7"
  by (simp_all add: boot_um_defs blk_of_def pool_align_def)

lemma boot_um_ok: "mp_ok boot_um PMD [1166] []" "descr_ok {} boot_um {} ({1166} \<union> set [])"
proof -
  show "mp_ok boot_um PMD [1166] []"
    using boot_um_fields by (simp add: mp_ok_def free_ok_def blk_ok_def)
  have "md_inv {} (os boot_um) {}" using boot_md_inv [of 4096] by (simp add: boot_um_defs)
  moreover have "outside_pool (os boot_um) 1166"
    by (simp add: boot_um_defs outside_pool_def boot_osm_def osmem_init_def)
  ultimately show "descr_ok {} boot_um {} ({1166} \<union> set [])" by (simp add: descr_ok_def boot_um_fields)
qed


text \<open>The same machine with all of its memory allocated.\<close>

definition full_um :: umem where "full_um = boot_um\<lparr>pmd := \<lparr>mp_mfl = 0, mp_mal = 1166\<rparr>\<rparr>"

theorem freeit_correct_witness:
  "\<exists>s' fl'. freeit 1166 PMD full_um = Some s' \<and> mp_ok s' PMD fl' [] \<and> region (map (blk_of s') fl') = {65536 ..< 98304}"
proof -
  have b: "blk_of full_um 1166 = (65536, 32768)" "m_link (os full_um) 1166 = 0" "themd full_um = 1166" "os full_um = os boot_um"
    using boot_um_fields by (simp_all add: full_um_def blk_of_def)
  have "mp_ok full_um PMD [] ([] @ 1166 # [])" using b by (simp add: mp_ok_def free_ok_def blk_ok_def full_um_def)
  moreover have "descr_ok {} full_um {} (set [] \<union> set ([] @ 1166 # []))"
    using boot_um_ok(2) b by (simp add: descr_ok_def boot_um_fields)
  ultimately show ?thesis
    using freeit_correct [of full_um PMD "[]" "[]" 1166 "[]" "{}" "{}"] by (auto simp: b bytes_def)
qed

section \<open>The system calls\<close>

lemma mp_ok_push:
  assumes ok: "mp_ok s k fl al" and m: "m \<in> set al" and f: "f \<noteq> 0" "f \<notin> set fl" "f \<notin> set al"
    and n: "0 < n" "n < m_length (os s) m"
  defines "s' \<equiv> set_length m n (set_mal k f (set_link f (mp_mal (mpb_of k s))
      (set_length f (m_length (os s) m - n) (set_start f (m_start (os s) m + n) s))))"
  shows "mp_ok s' k fl (f # al)"
    "blk_of s' x = (if x = m then (m_start (os s) m, n)
      else if x = f then (m_start (os s) m + n, m_length (os s) m - n) else blk_of s x)"
proof -
  have c: "chain (m_link (os s)) (mp_mfl (mpb_of k s)) fl" "chain (m_link (os s)) (mp_mal (mpb_of k s)) al"
    and dj: "set fl \<inter> set al = {}" and fr: "free_ok (map (blk_of s) fl)"
    and al: "\<forall>x \<in> set al. blk_ok (blk_of s x) \<and> bytes (blk_of s x) \<inter> region (map (blk_of s) fl) = {}
          \<and> (\<forall>y \<in> set al. y \<noteq> x \<longrightarrow> bytes (blk_of s x) \<inter> bytes (blk_of s y) = {})"
    using ok by (simp_all add: mp_ok_def)
  have fm: "f \<noteq> m" "m \<notin> set fl" using m f dj by auto
  show b: "blk_of s' x = (if x = m then (m_start (os s) m, n)
      else if x = f then (m_start (os s) m + n, m_length (os s) m - n) else blk_of s x)" for x
    using fm by (auto simp: blk_of_def s'_def)
  let ?lo = "(m_start (os s) m, n)" and ?hi = "(m_start (os s) m + n, m_length (os s) m - n)"
  have sp: "bytes (blk_of s m) = bytes ?lo \<union> bytes ?hi" "bytes ?lo \<inter> bytes ?hi = {}" "blk_ok ?lo" "blk_ok ?hi"
    using bytes_split [of n "m_length (os s) m" "m_start (os s) m"] n al m
    by (auto simp: blk_of_def blk_ok_def bytes_def)
  have fl': "map (blk_of s') fl = map (blk_of s) fl" by (intro map_cong refl) (use fm f b in auto)
  have "chain (m_link (os s')) (mp_mfl (mpb_of k s')) fl" "chain (m_link (os s')) (mp_mal (mpb_of k s')) (f # al)"
    using c f by (simp_all add: s'_def seg_frame)
  moreover have "blk_ok (blk_of s' x) \<and> bytes (blk_of s' x) \<inter> region (map (blk_of s) fl) = {}
      \<and> (\<forall>y \<in> set (f # al). y \<noteq> x \<longrightarrow> bytes (blk_of s' x) \<inter> bytes (blk_of s' y) = {})" if x: "x \<in> set (f # al)" for x
  proof -
    have sub: "bytes (blk_of s' y) \<subseteq> bytes (blk_of s (if y = f then m else y))" for y
      using sp(1) fm by (auto simp: b)
    have al2: "bytes (blk_of s' x) \<inter> bytes (blk_of s' y) = {}" if "y \<in> set (f # al)" "y \<noteq> x" for y
    proof (cases "{x, y} = {f, m}")
      case True
      then show ?thesis using sp(2) fm by (auto simp: b doubleton_eq_iff)
    next
      case False
      let ?g = "\<lambda>z. if z = f then m else z"
      have "?g x \<in> set al" "?g y \<in> set al" "?g y \<noteq> ?g x" using x that m False by auto
      then have "bytes (blk_of s (?g x)) \<inter> bytes (blk_of s (?g y)) = {}" using al by blast
      then show ?thesis using sub [of x] sub [of y] by blast
    qed
    have "(if x = f then m else x) \<in> set al" using x m by auto
    then have "bytes (blk_of s (if x = f then m else x)) \<inter> region (map (blk_of s) fl) = {}" using al by blast
    then have "bytes (blk_of s' x) \<inter> region (map (blk_of s) fl) = {}" using sub [of x] by blast
    moreover have "blk_ok (blk_of s' x)" using x al sp(3,4) by (auto simp: b)
    ultimately show ?thesis using al2 by blast
  qed
  ultimately show "mp_ok s' k fl (f # al)"
    unfolding mp_ok_def fl' using dj f fr by auto
qed

lemma fresh_descr:
  assumes de: "descr_ok C s U X" and g: "f \<notin> U" "md_inv C x (insert f U)" "outside_pool x = outside_pool (os s)"
  shows "f \<notin> X" "f \<noteq> themd s"
proof -
  have "\<not> outside_pool x f" by (rule used_inside [OF g(2)]) simp
  then show "f \<noteq> themd s" using g(3) de by (auto simp: descr_ok_def)
  then show "f \<notin> X" using g(1) de by (auto simp: descr_ok_def)
qed

lemma shrinkit_ok:
  assumes ok: "mp_ok s k fl (as @ m # bs)" and de: "descr_ok C s U (set fl \<union> set (as @ m # bs))"
    and n: "round_up 3 n = n" "0 < n" "n < m_length (os s) m"
  obtains (full) s' where "shrinkit m k n s = Some (- 1, s')" "mp_ok s' k fl (as @ m # bs)"
      "\<forall>x \<in> set fl \<union> set (as @ m # bs). blk_of s' x = blk_of s x"
    | (shrunk) s' fl' U' where "shrinkit m k n s = Some (0, s')" "mp_ok s' k fl' (as @ m # bs)"
      "descr_ok C s' U' (set fl' \<union> set (as @ m # bs))" "blk_of s' m = (m_start (os s) m, n)"
      "region (map (blk_of s') fl') = bytes (m_start (os s) m + n, m_length (os s) m - n) \<union> region (map (blk_of s) fl)"
      "\<forall>x \<in> set (as @ bs). blk_of s' x = blk_of s x"
proof -
  let ?X = "set fl \<union> set (as @ m # bs)"
  have mi: "md_inv C (os s) U" using de by (simp add: descr_ok_def)
  then show thesis
  proof (cases rule: pool_md.get_cases)
    case (none x)
    have "\<forall>y \<in> ?X. md_of x y = md_of (os s) y" using descr_md_of(1) [OF de none(3,4)] de by (auto simp: descr_ok_def)
    note o = mp_ok_os_cong [OF ok this]
    show thesis using none(1) o n(1) by (intro full [of "s\<lparr>os := x\<rparr>"]) (simp_all add: shrinkit_def Let_def)
  next
    case (got f x)
    note dm = descr_md_of [OF de got(5,6)]
    have "\<forall>y \<in> ?X. md_of x y = md_of (os s) y" using dm(1) de by (auto simp: descr_ok_def)
    note o = mp_ok_os_cong [OF ok this]
    let ?s = "s\<lparr>os := x\<rparr>"
    have e: "m_start (os ?s) y = m_start (os s) y" "m_length (os ?s) y = m_length (os s) y" if "y \<in> ?X" for y
      using o(2) that by (auto simp: blk_of_def)
    note fr = fresh_descr [OF de got(3,4,6)]
    have mX: "m \<in> ?X" by simp
    have bm: "blk_ok (blk_of s m)" using ok by (simp add: mp_ok_def)
    define s1 where "s1 = set_length m n (set_mal k f (set_link f (mp_mal (mpb_of k ?s))
      (set_length f (m_length (os ?s) m - n) (set_start f (m_start (os ?s) m + n) ?s))))"
    have nm: "n < m_length (os ?s) m" using n(3) e(2) [OF mX] by simp
    have pu: "mp_ok s1 k fl (f # as @ m # bs)"
      "\<And>y. blk_of s1 y = (if y = m then (m_start (os ?s) m, n)
        else if y = f then (m_start (os ?s) m + n, m_length (os ?s) m - n) else blk_of ?s y)"
      unfolding s1_def using mp_ok_push [OF o(1) _ got(2) _ _ n(2) nm] fr(1) by auto
    have w: "u32 (m_start (os ?s) m + n) = m_start (os ?s) m + n" "s32 (m_length (os ?s) m - n) = m_length (os ?s) m - n"
      using bm n e [OF mX] by (auto simp: blk_ok_def blk_of_def)
    have sh: "shrinkit m k n s = map_option (Pair 0) (freeit f k s1)"
      using got(1,2) n(1) fr(1) w by (simp add: shrinkit_def Let_def s1_def)
    have d1: "descr_ok C s1 (insert f U) (set fl \<union> set ([] @ f # (as @ m # bs)))"
    proof -
      have "themd s1 = themd s" "md_inv C (os s1) (insert f U)" "outside_pool (os s1) = outside_pool (os s)"
        using got(4,6) by (cases k; simp add: s1_def set_mal_def set_link_def set_start_def set_length_def
            outside_pool_def fun_eq_iff)+
      moreover have st: "m_start (os s1) y = (if y = f then m_start (os s) m + n else m_start (os ?s) y)" for y
        using e(1) [OF mX] by (simp add: s1_def)
      moreover have "m_start (os s1) (themd s) \<le> m_start (os s1) y"
        if t: "themd s \<in> set fl \<union> set (f # as @ m # bs)" "y \<in> set fl \<union> set (f # as @ m # bs)" for y
      proof -
        have "themd s \<in> ?X" using t(1) fr(2) by auto
        then have mn: "\<forall>z \<in> ?X. m_start (os s) (themd s) \<le> m_start (os s) z" using de unfolding descr_ok_def by blast
        have "m_start (os s1) (themd s) = m_start (os s) (themd s)" using e(1) \<open>themd s \<in> ?X\<close> fr(2) st by simp
        moreover have "m_start (os s) (themd s) \<le> m_start (os s1) y"
        proof (cases "y = f")
          case True
          then show ?thesis using mn mX n(2) st by fastforce
        next
          case False
          then have y: "y \<in> ?X" using t(2) by auto
          then have "m_start (os s) (themd s) \<le> m_start (os s) y" using mn by blast
          then show ?thesis using e(1) [OF y] st False by simp
        qed
        ultimately show ?thesis by simp
      qed
      ultimately show ?thesis using de by (auto simp: descr_ok_def)
    qed
    from freeit_ok [of s1 k fl "[]" f "as @ m # bs" C "insert f U"] pu(1) d1
    obtain s' fl' U' where r: "freeit f k s1 = Some s'" "mp_ok s' k fl' (as @ m # bs)"
      "region (map (blk_of s') fl') = bytes (blk_of s1 f) \<union> region (map (blk_of s1) fl)"
      "\<forall>y \<in> set (as @ m # bs). blk_of s' y = blk_of s1 y" "descr_ok C s' U' (set fl' \<union> set (as @ m # bs))"
      by auto
    have d: "distinct (as @ m # bs)" using ok chain_distinct unfolding mp_ok_def by blast
    have dj: "set fl \<inter> set (as @ m # bs) = {}" using ok by (simp add: mp_ok_def)
    have b1: "blk_of s1 y = blk_of s y" if "y \<in> set fl \<union> set (as @ bs)" for y
      using that pu(2) [of y] o(2) fr(1) d dj by auto
    then have mf: "map (blk_of s1) fl = map (blk_of s) fl" by simp
    have "blk_of s1 f = (m_start (os s) m + n, m_length (os s) m - n)" "blk_of s1 m = (m_start (os s) m, n)"
      using pu(2) [of f] pu(2) [of m] e [OF mX] fr(1) by auto
    then show thesis using r(1,2,4,5) r(3) [unfolded mf] sh b1 by (intro shrunk [of s' fl' U']) simp_all
  qed
qed


lemma full_um_ok:
  "mp_ok full_um PMD [] ([] @ 1166 # [])" "descr_ok {} full_um {} (set [] \<union> set ([] @ 1166 # []))"
  "find_mpb 65536 full_um = Some PMD" "m_start (os full_um) 1166 = 65536" "m_length (os full_um) 1166 = 32768"
  "pool_align PMD full_um = 1"
proof -
  have b: "blk_of full_um 1166 = (65536, 32768)" "m_link (os full_um) 1166 = 0" "themd full_um = 1166" "os full_um = os boot_um"
    using boot_um_fields by (simp_all add: full_um_def blk_of_def)
  then show "mp_ok full_um PMD [] ([] @ 1166 # [])" by (simp add: mp_ok_def free_ok_def blk_ok_def full_um_def)
  show "descr_ok {} full_um {} (set [] \<union> set ([] @ 1166 # []))"
    using boot_um_ok(2) b by (simp add: descr_ok_def boot_um_fields)
  show "m_start (os full_um) 1166 = 65536" "m_length (os full_um) 1166 = 32768" using b(1) by (simp_all add: blk_of_def)
  show "find_mpb 65536 full_um = Some PMD" by (simp add: find_mpb_def full_um_def boot_um_defs)
  show "pool_align PMD full_um = 1" using boot_um_fields by (simp add: full_um_def pool_align_def)
qed


text \<open>
  Addresses that are not the start of an allocated block: \<open>xmfree\<close> and \<open>xsetblk\<close> return
  \<open>EIMBA\<close> and \<open>set_owner\<close> returns, all three without changing anything.
\<close>

theorem bad_address_EIMBA:
  assumes "\<forall>k. find_mpb addr s = Some k \<longrightarrow> (\<exists>al. chain (m_link (os s)) (mp_mal (mpb_of k s)) al
      \<and> (\<forall>x \<in> set al. m_start (os s) x \<noteq> addr))"
  shows "xmfree addr s = Some (EIMBA, s) \<and> xsetblk n addr len s = Some (EIMBA, s) \<and> set_owner addr p s = Some s"
proof (cases "find_mpb addr s")
  case None
  then show ?thesis by (simp add: xmfree_def xsetblk_def set_owner_def)
next
  case (Some k)
  then obtain al where al: "chain (m_link (os s)) (mp_mal (mpb_of k s)) al" "\<forall>x \<in> set al. m_start (os s) x \<noteq> addr"
    using assms by blast
  then have "find_link (m_link (os s)) (\<lambda>p. addr = m_start (os s) p) 0 (mp_mal (mpb_of k s)) = Some (last0 al, 0)"
    "find_link (m_link (os s)) (\<lambda>p. m_start (os s) p = addr) 0 (mp_mal (mpb_of k s)) = Some (last0 al, 0)"
    by (auto intro: find_link_none)
  with Some show ?thesis by (simp add: xmfree_def xsetblk_def set_owner_def)
qed

theorem bad_address_EIMBA_witness:
  "xmfree 65540 full_um = Some (EIMBA, full_um) \<and> xsetblk 0 65540 8 full_um = Some (EIMBA, full_um)"
proof -
  have f: "find_mpb 65540 full_um = Some PMD" by (simp add: find_mpb_def full_um_def boot_um_defs)
  have c: "chain (m_link (os full_um)) (mp_mal (mpb_of PMD full_um)) [1166]"
    using full_um_ok(1) by (simp add: mp_ok_def)
  have "\<forall>k. find_mpb 65540 full_um = Some k \<longrightarrow> (\<exists>al. chain (m_link (os full_um)) (mp_mal (mpb_of k full_um)) al
      \<and> (\<forall>x \<in> set al. m_start (os full_um) x \<noteq> 65540))"
    unfolding f using c full_um_ok(4) by (intro allI impI exI [of _ "[1166]"]) auto
  from bad_address_EIMBA [OF this] show ?thesis by blast
qed

text \<open>
  \<open>Malloc(-1)\<close>: the value reported for a pool is the length of its largest free block,
  rounded down to the pool's alignment, and nothing changes; for an empty free list it is 0.
\<close>

theorem ffit_largest:
  assumes "mp_ok s k fl al" and "pool_align k s = 2 ^ e - 1"
  shows "\<exists>M. ffit (- 1) k s = Some (M - M mod 2 ^ e, s)
    \<and> (if fl = [] then M = 0 else M \<in> m_length (os s) ` set fl \<and> (\<forall>x \<in> set fl. m_length (os s) x \<le> M))"
proof -
  have c: "chain (m_link (os s)) (mp_mfl (mpb_of k s)) fl" and pos: "\<forall>x \<in> set fl. 0 < m_length (os s) x"
    using assms(1) by (auto simp: mp_ok_def free_ok_def blk_ok_def blk_of_def)
  let ?g = "\<lambda>q mx. if m_length (os s) q > mx then m_length (os s) q else mx"
  have g: "mx \<le> fold ?g xs mx \<and> (\<forall>x \<in> set xs. m_length (os s) x \<le> fold ?g xs mx)
      \<and> (fold ?g xs mx = mx \<or> fold ?g xs mx \<in> m_length (os s) ` set xs)" for xs mx
    by (induction xs arbitrary: mx) (auto, (smt (verit))+)
  show ?thesis
  proof (cases "fl = []")
    case True
    with c show ?thesis by (auto simp: ffit_def)
  next
    case False
    then have "mp_mfl (mpb_of k s) \<noteq> 0" using c by (cases fl) auto
    moreover have "(if M AND (2 ^ e - 1) \<noteq> 0 then M AND NOT (2 ^ e - 1) else M) = M - M mod 2 ^ e" for M :: int
      using and_not_mask_int [of M e] by (simp add: take_bit_eq_mask [symmetric] mask_eq_exp_minus_1 [symmetric] take_bit_eq_mod)
    ultimately have f: "ffit (- 1) k s = Some (fold ?g fl 0 - fold ?g fl 0 mod 2 ^ e, s)"
      using nodes_chain [OF c] assms(2) by (simp add: ffit_def Let_def)
    have "fold ?g fl 0 \<noteq> 0" using g [of 0 fl] pos False by (cases fl) force+
    then show ?thesis using f g [of 0 fl] False by (intro exI [of _ "fold ?g fl 0"]) auto
  qed
qed

theorem ffit_largest_witness: "ffit (- 1) PMD boot_um = Some (32768, boot_um)"
proof -
  have "m_length (os boot_um) 1166 = 32768" using boot_um_fields(2) by (simp add: blk_of_def)
  with ffit_largest [OF boot_um_ok(1), of 1] show ?thesis by (auto simp: boot_um_fields)
qed

text \<open>
  A request of \<open>0x7fffffff\<close> bytes passes the test for non-positive amounts but rounds to
  \<open>- 0x80000000\<close>, for either alignment. Every free block is then large enough, so the
  request does not fail: as soon as the free list is not empty and a descriptor is to be had,
  \<open>xmxalloc\<close> returns the start of the first free block, whose descriptor gets that negative length.
\<close>

theorem xmxalloc_wraps:
  assumes "mp_ok s PMD (q # fl) al" and "malloc_align_stram s \<in> {1, 3}"
    and "xmgetmd (os s) = Some (p1, x)" "p1 \<noteq> 0" "p1 \<noteq> q" "m_start x q = m_start (os s) q" "0 < m_start (os s) q"
  shows "\<exists>s'. xmxalloc 0x7fffffff 0 s = Some (m_start (os s) q, s') \<and> m_length (os s') q = - 0x80000000"
proof -
  have r: "round_up (pool_align PMD s) 0x7fffffff = - 0x80000000"
    using assms(2) by (auto simp: round_up_def pool_align_def s32_def and_not_mask_int [of _ 1, simplified]
        and_not_mask_int [of _ 2, simplified])
  have c: "chain (m_link (os s)) (mp_mfl (pmd s)) ([] @ q # fl)" and pos: "0 < m_length (os s) q"
    using assms(1) by (auto simp: mp_ok_def free_ok_def blk_ok_def blk_of_def)
  have "find_link (m_link (os s)) (\<lambda>y. - 0x80000000 \<le> m_length (os s) y) 0 (mp_mfl (pmd s)) = Some (0, q)"
    using find_link_hit [OF c, of "\<lambda>y. - 0x80000000 \<le> m_length (os s) y"] pos by simp
  moreover have "mp_mfl (pmd s) = q" "q \<noteq> 0" using c by auto
  ultimately show ?thesis
    using r assms(3-) pos
    by (simp add: xmxalloc_def ffit_def Let_def MX_MODEMASK_def start_of_def ffit_link_def relink_mfl_def
        set_mfl_def set_mal_def set_link_def set_start_def set_length_def set_own_def)
qed

theorem xmxalloc_wraps_witness:
  "\<exists>s'. xmxalloc 0x7fffffff 0 boot_um = Some (65536, s') \<and> m_length (os s') 1166 = - 0x80000000"
proof -
  have ok: "osm_ok (os boot_um) [] [] {}"
    using boot_osm_ok [of 4096]
    by (simp add: boot_um_defs osm_ok_def pool_ok_def mdbs_ok_def entry_used_def blocks_def)
  have av: "block_available (os boot_um) []"
    by (simp add: block_available_def boot_um_defs boot_osm_def osmem_init_def osm_sizes)
  obtain p1 x where g: "xmgetmd (os boot_um) = Some (p1, x)" "p1 \<noteq> 0" "p1 \<notin> used_mds (os boot_um) {}"
    "md_inv (clients (os boot_um) [] [] {}) x (insert p1 (used_mds (os boot_um) {}))"
    "\<forall>y. y \<in> used_mds (os boot_um) {} \<or> outside_pool (os boot_um) y \<longrightarrow> md_of x y = md_of (os boot_um) y"
    "osmem x = osmem (os boot_um)"
    by (rule xmgetmd_new [OF ok av])
  have o: "outside_pool (os boot_um) 1166" using boot_um_ok(2) by (simp add: descr_ok_def boot_um_fields)
  then have "md_of x 1166 = md_of (os boot_um) 1166" using g(5) by blast
  then have st: "m_start x 1166 = m_start (os boot_um) 1166" by (simp add: md_of_def)
  have "\<not> outside_pool x p1" by (rule used_inside [OF g(4)]) simp
  then have "p1 \<noteq> 1166" using o g(6) by (auto simp: outside_pool_def)
  moreover have "m_start (os boot_um) 1166 = 65536" using boot_um_fields(2) by (simp add: blk_of_def)
  ultimately show ?thesis
    using xmxalloc_wraps [OF boot_um_ok(1) _ g(1,2) _ st] boot_um_fields(5) by (simp add: pool_align_def)
qed

end
