(* ===== verification/FsTypes.thy ===== *)
theory FsTypes
  imports OsMem
begin

text \<open>
  The data structures of the file system (bdos/fs.h) and the state the file system modules
  share: the drive media blocks, open file descriptors, disk file data and directory nodes
  as stores indexed by their address, the system file table, the buffer control blocks, the
  user's memory, and the disk as a map from drives and physical records to bytes. The device
  driver (\<open>Rwabs\<close>, \<open>Mediach\<close>) is a parameter that decides which transfers fail. A \<open>longjmp\<close>
  to the BDOS entry is the left summand of a result; \<open>None\<close> is a loop that does not return,
  a null pointer followed or a halted system. Cluster numbers (\<open>CLNO\<close>, 16 bits) and record
  numbers (\<open>RECNO\<close>, 32 bits) are natural numbers, reduced where an operation can leave their
  range; the pluggable file systems are configured out, as \<open>CONF_WITH_PLUGGABLE_FS\<close> is by
  default.
\<close>

named_theorems fs_frame \<open>which parts of the state a field update leaves alone\<close>

type_synonym byte = "8 word"
type_synonym sector = "nat \<Rightarrow> byte"

record dmd =
  m_recoff :: "nat \<Rightarrow> nat"
  m_drvnum :: int
  m_fsiz :: nat
  m_clsiz :: nat
  m_clsizb :: nat
  m_recsiz :: nat
  m_numcl :: nat
  m_clrlog :: nat
  m_clrm :: nat
  m_rblog :: nat
  m_rbm :: nat
  m_clblog :: nat
  m_clbm :: nat
  m_fatofd :: nat
  m_dtl :: nat
  m_16 :: bool
  m_1fat :: bool

text \<open>The disk file data, stored under the address of the descriptor that contains it.\<close>

record dfd =
  o_flag :: nat
  o_usecnt :: int
  o_date :: nat
  o_time :: nat
  o_strtcl :: nat
  o_fileln :: int

record ofd =
  o_link :: nat
  o_dfd :: nat
  o_dmd :: nat
  o_dnode :: nat
  o_dirfil :: nat
  o_dirbyt :: int
  o_bytnum :: int
  o_curcl :: nat
  o_currec :: nat
  o_curbyt :: nat
  o_thread :: nat
  o_mod :: nat

record dnd =
  d_strtcl :: nat
  d_ofd :: nat
  d_drv :: nat
  d_files :: nat

record ftab =
  f_ofd :: int
  f_own :: nat
  f_use :: int

text \<open>The directory entry on disk, its multi-byte fields as stored (little-endian).\<close>

record fcb =
  f_name :: string
  f_attrib :: nat
  f_time :: nat
  f_date :: nat
  f_clust :: nat
  f_fileln :: int

record fsst =
  bufl_fat :: nat
  bufl_data :: nat
  b_link :: "nat \<Rightarrow> nat"
  b_bufdrv :: "nat \<Rightarrow> int"
  b_bufrec :: "nat \<Rightarrow> nat"
  b_buftyp :: "nat \<Rightarrow> nat"
  b_dirty :: "nat \<Rightarrow> bool"
  b_dm :: "nat \<Rightarrow> nat"
  b_bufr :: "nat \<Rightarrow> sector"
  disk :: "int \<Rightarrow> nat \<Rightarrow> sector"
  errdrv :: int
  errcode :: int
  drvtbl :: "int \<Rightarrow> nat"
  dmds :: "nat \<Rightarrow> dmd"
  ofds :: "nat \<Rightarrow> ofd"
  dfds :: "nat \<Rightarrow> dfd"
  dnds :: "nat \<Rightarrow> dnd"
  sft :: "nat \<Rightarrow> ftab"
  p_uft :: "nat \<Rightarrow> nat \<Rightarrow> int"
  run :: nat
  umem :: "nat \<Rightarrow> byte"
  pool :: osm

text \<open>The driver: the result of \<open>Rwabs\<close> by direction, record and drive, and of \<open>Mediach\<close>.\<close>

record driver =
  d_rwabs :: "bool \<Rightarrow> nat \<Rightarrow> nat \<Rightarrow> int \<Rightarrow> int"
  d_mediach :: "int \<Rightarrow> int"

type_synonym 'a res = "((int + 'a) \<times> fsst) option"

definition ret :: "'a \<Rightarrow> fsst \<Rightarrow> 'a res" where
  "ret a s = Some (Inr a, s)"

definition bind_res :: "'a res \<Rightarrow> ('a \<Rightarrow> fsst \<Rightarrow> 'b res) \<Rightarrow> 'b res" where
  "bind_res m f = (case m of
     None \<Rightarrow> None
   | Some (Inl e, s) \<Rightarrow> Some (Inl e, s)
   | Some (Inr a, s) \<Rightarrow> f a s)"

lemma bind_res_simps [simp]:
  "bind_res (ret a s) f = f a s" "bind_res None f = None"
  "bind_res (Some (Inl e, s)) f = Some (Inl e, s)" "bind_res (Some (Inr a, s)) f = f a s"
  by (simp_all add: bind_res_def ret_def)

lemma bind_res_assoc: "bind_res (bind_res m f) g = bind_res m (\<lambda>a s. bind_res (f a s) g)"
  by (auto simp: bind_res_def split: option.splits sum.splits)

definition BT_FAT :: nat where "BT_FAT = 0"
definition BT_ROOT :: nat where "BT_ROOT = 1"
definition BT_DATA :: nat where "BT_DATA = 2"
definition O_DIRTY :: nat where "O_DIRTY = 1"
definition NUMSTD :: nat where "NUMSTD = 6"
definition OPNFILES :: nat where "OPNFILES = 75"
definition NUMHANDLES :: nat where "NUMHANDLES = NUMSTD + OPNFILES"

lemmas bt_defs = BT_FAT_def BT_ROOT_def BT_DATA_def

section \<open>Mounted drives\<close>

text \<open>
  A drive media block is mounted when the drive table gives it for its own drive number.
  Its layout: the first FAT copy if there are two, the FAT, the root directory, the data;
  sizes are powers of two with the logarithms and masks that \<open>log_media\<close> computes.
\<close>

definition mounted :: "fsst \<Rightarrow> nat \<Rightarrow> bool" where
  "mounted s dmp \<longleftrightarrow> dmp \<noteq> 0 \<and> drvtbl s (m_drvnum (dmds s dmp)) = dmp"

definition layout_ok :: "dmd \<Rightarrow> bool" where
  "layout_ok dm \<longleftrightarrow> 0 \<le> m_drvnum dm \<and> (m_1fat dm \<or> m_fsiz dm \<le> m_recoff dm BT_FAT)
     \<and> m_recoff dm BT_FAT + m_fsiz dm = m_recoff dm BT_ROOT \<and> m_recoff dm BT_ROOT \<le> m_recoff dm BT_DATA"

text \<open>The records of each type that a drive has.\<close>

definition rec_ok :: "dmd \<Rightarrow> nat \<Rightarrow> nat \<Rightarrow> bool" where
  "rec_ok dm n rec \<longleftrightarrow>
     (n = BT_FAT \<and> rec < m_fsiz dm) \<or> (n = BT_ROOT \<and> rec < m_recoff dm BT_DATA - m_recoff dm BT_ROOT)
     \<or> n = BT_DATA"

lemma mounted_unique:
  "mounted s a \<Longrightarrow> mounted s b \<Longrightarrow> m_drvnum (dmds s a) = m_drvnum (dmds s b) \<Longrightarrow> a = b"
  by (auto simp: mounted_def)

text \<open>Different records of a drive are at different places, and not in the first FAT copy.\<close>

lemma phys_unique:
  assumes "layout_ok dm" "rec_ok dm n r" "rec_ok dm n' r'"
    and "r + m_recoff dm n = r' + m_recoff dm n'"
  shows "n = n' \<and> r = r'"
  using assms by (auto simp: layout_ok_def rec_ok_def bt_defs)

lemma phys_not_copy:
  assumes "layout_ok dm" "rec_ok dm n r" "rec_ok dm BT_FAT r'" "\<not> m_1fat dm"
  shows "r + m_recoff dm n \<noteq> r' + m_recoff dm BT_FAT - m_fsiz dm"
  using assms by (auto simp: layout_ok_def rec_ok_def bt_defs)

end
