(* ===== verification/BufCache.thy ===== *)
theory BufCache
  imports FsTypes
begin

text \<open>
  bdos/fsbuf.c: the sector cache of the file system. Two lists of buffer control blocks, one
  for FAT sectors and one for directory and data sectors, are kept in order of last use; a
  record is looked up by drive, type and number, and the last invalid or the least recently
  used buffer is recycled, after writing it back when it is dirty (both FAT copies for a FAT
  sector). The lemmas show the cache transparent: an abstract disk that maps records to
  contents is implemented by the physical disk together with the buffers, whatever the
  recycling does, and a failing transfer loses at most the one record being transferred.
\<close>

text \<open>\<open>longjmp_rwabs\<close>, writing and reading one record through the buffer of \<open>b\<close>.\<close>

definition rwabs_write :: "driver \<Rightarrow> nat \<Rightarrow> nat \<Rightarrow> int \<Rightarrow> fsst \<Rightarrow> unit res" where
  "rwabs_write drv b rec dev s =
     (let rwerr = d_rwabs drv True 1 rec dev in
      if rwerr \<noteq> 0 then Some (Inl rwerr, s\<lparr>errdrv := dev, errcode := rwerr\<rparr>)
      else ret () (s\<lparr>disk := (disk s)(dev := (disk s dev)(rec := b_bufr s b))\<rparr>))"

definition rwabs_read :: "driver \<Rightarrow> nat \<Rightarrow> nat \<Rightarrow> int \<Rightarrow> fsst \<Rightarrow> unit res" where
  "rwabs_read drv b rec dev s =
     (let rwerr = d_rwabs drv False 1 rec dev in
      if rwerr \<noteq> 0 then Some (Inl rwerr, s\<lparr>errdrv := dev, errcode := rwerr\<rparr>)
      else ret () (s\<lparr>b_bufr := (b_bufr s)(b := disk s dev rec)\<rparr>))"

definition flush :: "driver \<Rightarrow> nat \<Rightarrow> fsst \<Rightarrow> unit res" where
  "flush drv b s =
     (let dm = dmds s (b_dm s b); n = b_buftyp s b; d = b_bufdrv s b; rec = b_bufrec s b;
          s = s\<lparr>b_bufdrv := (b_bufdrv s)(b := - 1)\<rparr>
      in bind_res (rwabs_write drv b (rec + m_recoff dm n) d s) (\<lambda>_ s.
         bind_res (if n = BT_FAT \<and> \<not> m_1fat dm
                   then rwabs_write drv b (rec + m_recoff dm BT_FAT - m_fsiz dm) d s
                   else ret () s) (\<lambda>_ s.
         ret () (s\<lparr>b_bufdrv := (b_bufdrv s)(b := d), b_dirty := (b_dirty s)(b := False)\<rparr>))))"

definition buf_head :: "nat \<Rightarrow> fsst \<Rightarrow> nat" where
  "buf_head buftype s = (if buftype = BT_FAT then bufl_fat s else bufl_data s)"

definition set_head :: "nat \<Rightarrow> nat \<Rightarrow> fsst \<Rightarrow> fsst" where
  "set_head buftype v s = (if buftype = BT_FAT then s\<lparr>bufl_fat := v\<rparr> else s\<lparr>bufl_data := v\<rparr>)"

text \<open>\<open>*q = b->b_link; b->b_link = *phdr; *phdr = b;\<close> with \<open>q\<close> the predecessor, 0 for the head.\<close>

definition to_front :: "nat \<Rightarrow> nat \<Rightarrow> nat \<Rightarrow> fsst \<Rightarrow> fsst" where
  "to_front buftype q b s =
     (case relink q (b_link s b) (buf_head buftype s, b_link s) of (h, nx) \<Rightarrow>
        set_head buftype b (s\<lparr>b_link := nx(b := h)\<rparr>))"

text \<open>Invalidate the buffer, read the record into it and make it current.\<close>

definition fill :: "driver \<Rightarrow> nat \<Rightarrow> nat \<Rightarrow> nat \<Rightarrow> nat \<Rightarrow> fsst \<Rightarrow> unit res" where
  "fill drv dmp buftype recnum b s =
     (let s = s\<lparr>b_bufdrv := (b_bufdrv s)(b := - 1)\<rparr>; dm = dmds s dmp in
      bind_res (rwabs_read drv b (recnum + m_recoff dm buftype) (m_drvnum dm) s) (\<lambda>_ s.
      ret () (s\<lparr>b_bufrec := (b_bufrec s)(b := recnum), b_dirty := (b_dirty s)(b := False),
        b_buftyp := (b_buftyp s)(b := buftype), b_bufdrv := (b_bufdrv s)(b := m_drvnum dm),
        b_dm := (b_dm s)(b := dmp)\<rparr>)))"

text \<open>From label \<open>doio\<close>: choose \<open>b\<close>, or the last buffer of the list for a null \<open>b\<close>, and read.\<close>

definition getbcb_doio :: "driver \<Rightarrow> nat \<Rightarrow> nat \<Rightarrow> nat \<Rightarrow> nat \<Rightarrow> fsst \<Rightarrow> (nat \<times> nat) res" where
  "getbcb_doio drv dmp buftype recnum b s =
     (case find_link (b_link s) (\<lambda>p. b_link s p = 0 \<or> p = b) 0 (buf_head buftype s) of
        None \<Rightarrow> None
      | Some (q, b) \<Rightarrow>
          if b = 0 then None
          else
          bind_res (if b_bufdrv s b \<noteq> - 1 \<and> b_dirty s b then flush drv b s else ret () s) (\<lambda>_ s.
          bind_res (fill drv dmp buftype recnum b s) (\<lambda>_ s. ret (q, b) s)))"

definition getbcb :: "driver \<Rightarrow> nat \<Rightarrow> nat \<Rightarrow> nat \<Rightarrow> fsst \<Rightarrow> nat res" where
  "getbcb drv dmp buftype recnum s =
     (let dm = dmds s dmp;
          hit = (\<lambda>b. b_bufdrv s b = m_drvnum dm \<and> b_buftyp s b = buftype \<and> b_bufrec s b = recnum)
      in case (find_link (b_link s) hit 0 (buf_head buftype s), nodes (b_link s) (buf_head buftype s)) of
        (Some (q, b), Some bs) \<Rightarrow>
          bind_res
            (if b = 0
             then getbcb_doio drv dmp buftype recnum (last0 (filter (\<lambda>b. b_bufdrv s b = - 1) bs)) s
             else
             let err = d_mediach drv (b_bufdrv s b) in
             if err = 1 then getbcb_doio drv dmp buftype recnum b s
             else if err = 2 then Some (Inl E_CHNG, s\<lparr>errdrv := b_bufdrv s b, errcode := E_CHNG\<rparr>)
             else ret (q, b) s)
            (\<lambda>(q, b) s. ret b (to_front buftype q b s))
      | _ \<Rightarrow> None)"

definition getrec :: "driver \<Rightarrow> nat \<Rightarrow> nat \<Rightarrow> bool \<Rightarrow> fsst \<Rightarrow> nat res" where
  "getrec drv recn f wrtflg s =
     (let dmp = o_dmd (ofds s f);
          n = (if m_fatofd (dmds s dmp) = f then BT_FAT
               else if o_dnode (ofds s f) = 0 then BT_ROOT else BT_DATA)
      in bind_res (getbcb drv dmp n recn s) (\<lambda>b s.
         ret b (if wrtflg then s\<lparr>b_dirty := (b_dirty s)(b := True)\<rparr> else s)))"


text \<open>
  \<open>create_chain\<close> lays out \<open>NUMBUFS\<close> blocks of \<open>n\<close> bytes from \<open>p\<close>, all invalid, and returns the
  address after them; \<open>bufl_init\<close> makes the two lists, its memory coming from \<open>balloc_stram\<close>
  (a parameter: null panics).
\<close>

definition NUMBUFS :: nat where "NUMBUFS = 2"

definition sizeof_BCB :: nat where "sizeof_BCB = 20"

primrec create_chain_loop :: "nat \<Rightarrow> nat \<Rightarrow> nat \<Rightarrow> nat \<Rightarrow> fsst \<Rightarrow> fsst" where
  "create_chain_loop 0 i p n s = s"
| "create_chain_loop (Suc k) i p n s = create_chain_loop k (i + 1) (p + n) n (s\<lparr>
     b_link := (b_link s)(p := if i < NUMBUFS - 1 then p + n else 0),
     b_bufdrv := (b_bufdrv s)(p := - 1), b_bufrec := (b_bufrec s)(p := 0), b_buftyp := (b_buftyp s)(p := 0),
     b_dirty := (b_dirty s)(p := False), b_dm := (b_dm s)(p := 0)\<rparr>)"

definition create_chain :: "nat \<Rightarrow> nat \<Rightarrow> fsst \<Rightarrow> nat \<times> fsst" where
  "create_chain p n s = (p + NUMBUFS * n, create_chain_loop NUMBUFS 0 p n s)"

definition bufl_init :: "(nat \<Rightarrow> nat) \<Rightarrow> nat \<Rightarrow> fsst \<Rightarrow> fsst option" where
  "bufl_init balloc_stram max_sect_siz s =
     (let n = sizeof_BCB + max_sect_siz; p = balloc_stram (2 * NUMBUFS * n) in
      if p = 0 then None
      else case create_chain p n (s\<lparr>bufl_fat := p\<rparr>) of (p, s) \<Rightarrow>
        Some (snd (create_chain p n (s\<lparr>bufl_data := p\<rparr>))))"

section \<open>What the cache stands for\<close>

text \<open>The buffer test of \<open>getbcb\<close>: drive, type and record agree.\<close>

definition cached :: "fsst \<Rightarrow> nat \<Rightarrow> nat \<Rightarrow> nat \<Rightarrow> nat \<Rightarrow> bool" where
  "cached s b dmp n rec \<longleftrightarrow>
     b_bufdrv s b = m_drvnum (dmds s dmp) \<and> b_buftyp s b = n \<and> b_bufrec s b = rec"

text \<open>A valid buffer belongs to a mounted drive, and when it is clean it equals the disk.\<close>

definition buf_ok :: "fsst \<Rightarrow> nat \<Rightarrow> bool" where
  "buf_ok s b \<longleftrightarrow> (b_bufdrv s b \<noteq> - 1 \<longrightarrow>
     (let dm = dmds s (b_dm s b) in
        mounted s (b_dm s b) \<and> m_drvnum dm = b_bufdrv s b \<and> rec_ok dm (b_buftyp s b) (b_bufrec s b)
        \<and> (\<not> b_dirty s b \<longrightarrow> b_bufr s b = disk s (b_bufdrv s b) (b_bufrec s b + m_recoff dm (b_buftyp s b)))))"

definition lists_ok :: "nat list \<Rightarrow> nat list \<Rightarrow> fsst \<Rightarrow> bool" where
  "lists_ok F D s \<longleftrightarrow> chain (b_link s) (bufl_fat s) F \<and> chain (b_link s) (bufl_data s) D
     \<and> F \<noteq> [] \<and> D \<noteq> [] \<and> set F \<inter> set D = {}"

definition bufs_ok :: "nat set \<Rightarrow> nat set \<Rightarrow> fsst \<Rightarrow> bool" where
  "bufs_ok F D s \<longleftrightarrow> (\<forall>dmp. mounted s dmp \<longrightarrow> layout_ok (dmds s dmp))
     \<and> (\<forall>b \<in> F \<union> D. buf_ok s b)
     \<and> (\<forall>b \<in> F \<union> D. b_bufdrv s b \<noteq> - 1 \<longrightarrow> (b_buftyp s b = BT_FAT \<longleftrightarrow> b \<in> F))
     \<and> (\<forall>b \<in> F \<union> D. \<forall>c \<in> F \<union> D. b_bufdrv s b \<noteq> - 1 \<longrightarrow> b_bufdrv s b = b_bufdrv s c
          \<longrightarrow> b_buftyp s b = b_buftyp s c \<longrightarrow> b_bufrec s b = b_bufrec s c \<longrightarrow> b = c)"

text \<open>The record has content \<open>v\<close>: in the buffer that caches it, or else on the disk.\<close>

definition has_rec :: "nat set \<Rightarrow> fsst \<Rightarrow> nat \<Rightarrow> nat \<Rightarrow> nat \<Rightarrow> sector \<Rightarrow> bool" where
  "has_rec B s dmp n rec v \<longleftrightarrow>
     (\<forall>b \<in> B. cached s b dmp n rec \<longrightarrow> b_bufr s b = v)
     \<and> ((\<forall>b \<in> B. \<not> cached s b dmp n rec) \<longrightarrow>
          disk s (m_drvnum (dmds s dmp)) (rec + m_recoff (dmds s dmp) n) = v)"

type_synonym adisk = "nat \<Rightarrow> nat \<Rightarrow> nat \<Rightarrow> sector"

definition has_all :: "nat set \<Rightarrow> fsst \<Rightarrow> adisk \<Rightarrow> bool" where
  "has_all B s V \<longleftrightarrow>
     (\<forall>dmp n rec. mounted s dmp \<longrightarrow> rec_ok (dmds s dmp) n rec \<longrightarrow> has_rec B s dmp n rec (V dmp n rec))"

text \<open>The state shows the abstract disk \<open>V\<close> (drive, type, record to content).\<close>

definition sees_on :: "nat list \<Rightarrow> nat list \<Rightarrow> fsst \<Rightarrow> adisk \<Rightarrow> bool" where
  "sees_on F D s V \<longleftrightarrow> lists_ok F D s \<and> bufs_ok (set F) (set D) s \<and> has_all (set F \<union> set D) s V"

definition sees :: "fsst \<Rightarrow> adisk \<Rightarrow> bool" where
  "sees s V \<longleftrightarrow> (\<exists>F D. sees_on F D s V)"

text \<open>Everything but the buffers and the disk.\<close>

definition rest :: "fsst \<Rightarrow> fsst" where
  "rest s = s\<lparr>bufl_fat := 0, bufl_data := 0, b_link := \<lambda>_. 0, b_bufdrv := \<lambda>_. 0, b_bufrec := \<lambda>_. 0,
     b_buftyp := \<lambda>_. 0, b_dirty := \<lambda>_. False, b_dm := \<lambda>_. 0, b_bufr := \<lambda>_ _. 0, disk := \<lambda>_ _ _. 0,
     errdrv := 0, errcode := 0\<rparr>"

definition upd3 :: "adisk \<Rightarrow> nat \<Rightarrow> nat \<Rightarrow> nat \<Rightarrow> sector \<Rightarrow> adisk" where
  "upd3 V dmp n rec v = (\<lambda>dmp' n' rec'. if dmp' = dmp \<and> n' = n \<and> rec' = rec then v else V dmp' n' rec')"


section \<open>Moves that keep the abstract disk\<close>

lemmas cache_defs = bufs_ok_def has_all_def has_rec_def cached_def buf_ok_def Let_def

lemma mounted_cong:
  "drvtbl s' = drvtbl s \<Longrightarrow> dmds s' = dmds s \<Longrightarrow> mounted s' = mounted s"
  by (rule ext) (simp add: mounted_def)

lemma bufs_okI:
  assumes "\<And>dmp. mounted s dmp \<Longrightarrow> layout_ok (dmds s dmp)" and "\<And>b. b \<in> F \<union> D \<Longrightarrow> buf_ok s b"
    and "\<And>b. b \<in> F \<union> D \<Longrightarrow> b_bufdrv s b \<noteq> - 1 \<Longrightarrow> b_buftyp s b = BT_FAT \<longleftrightarrow> b \<in> F"
    and "\<And>b c. b \<in> F \<union> D \<Longrightarrow> c \<in> F \<union> D \<Longrightarrow> b_bufdrv s b \<noteq> - 1 \<Longrightarrow> b_bufdrv s b = b_bufdrv s c
      \<Longrightarrow> b_buftyp s b = b_buftyp s c \<Longrightarrow> b_bufrec s b = b_bufrec s c \<Longrightarrow> b = c"
  shows "bufs_ok F D s"
  unfolding bufs_ok_def using assms by (intro conjI ballI allI impI) assumption+

lemma bufs_layout: "bufs_ok F D s \<Longrightarrow> mounted s dmp \<Longrightarrow> layout_ok (dmds s dmp)"
  by (simp add: bufs_ok_def)

lemma bufs_drvnum: "bufs_ok F D s \<Longrightarrow> mounted s dmp \<Longrightarrow> 0 \<le> m_drvnum (dmds s dmp)"
  by (simp add: bufs_ok_def layout_ok_def)

lemma bufs_buf: "bufs_ok F D s \<Longrightarrow> b \<in> F \<union> D \<Longrightarrow> buf_ok s b"
  by (simp add: bufs_ok_def)

lemma bufs_typ: "bufs_ok F D s \<Longrightarrow> b \<in> F \<union> D \<Longrightarrow> b_bufdrv s b \<noteq> - 1 \<Longrightarrow> b_buftyp s b = BT_FAT \<longleftrightarrow> b \<in> F"
  unfolding bufs_ok_def by blast

lemma bufs_unique:
  "bufs_ok F D s \<Longrightarrow> b \<in> F \<union> D \<Longrightarrow> c \<in> F \<union> D \<Longrightarrow> b_bufdrv s b \<noteq> - 1 \<Longrightarrow> b_bufdrv s b = b_bufdrv s c
    \<Longrightarrow> b_buftyp s b = b_buftyp s c \<Longrightarrow> b_bufrec s b = b_bufrec s c \<Longrightarrow> b = c"
  unfolding bufs_ok_def by blast

lemma cached_unique:
  assumes "bufs_ok F D s" "mounted s dmp" "b \<in> F \<union> D" "c \<in> F \<union> D" "cached s b dmp n rec" "cached s c dmp n rec"
  shows "b = c"
  using bufs_unique [OF assms(1,3,4)] bufs_drvnum [OF assms(1,2)] assms(5,6) by (simp add: cached_def)

text \<open>A buffer whose dirty contents have been written, to both FAT copies or to one.\<close>

definition written :: "bool \<Rightarrow> nat \<Rightarrow> fsst \<Rightarrow> fsst" where
  "written both b s =
     (let dm = dmds s (b_dm s b); n = b_buftyp s b; d = b_bufdrv s b; rec = b_bufrec s b;
          dk = (disk s d)(rec + m_recoff dm n := b_bufr s b);
          dk = (if both \<and> n = BT_FAT \<and> \<not> m_1fat dm
                then dk(rec + m_recoff dm BT_FAT - m_fsiz dm := b_bufr s b) else dk)
      in s\<lparr>disk := (disk s)(d := dk), b_dirty := (b_dirty s)(b := False)\<rparr>)"

lemma written_sel [simp]:
  "bufl_fat (written both b s) = bufl_fat s" "bufl_data (written both b s) = bufl_data s"
  "b_link (written both b s) = b_link s" "b_bufdrv (written both b s) = b_bufdrv s"
  "b_bufrec (written both b s) = b_bufrec s" "b_buftyp (written both b s) = b_buftyp s"
  "b_dm (written both b s) = b_dm s" "b_bufr (written both b s) = b_bufr s"
  "b_dirty (written both b s) = (b_dirty s)(b := False)"
  "drvtbl (written both b s) = drvtbl s" "dmds (written both b s) = dmds s" "rest (written both b s) = rest s"
  by (simp_all add: written_def Let_def rest_def)

text \<open>The write reaches the buffer's own record and, of the records, no other.\<close>

lemma written_disk:
  assumes "bufs_ok F D s" and "b \<in> F \<union> D" "b_bufdrv s b \<noteq> - 1"
    and "mounted s dmp" "rec_ok (dmds s dmp) n rec"
  shows "disk (written both b s) (m_drvnum (dmds s dmp)) (rec + m_recoff (dmds s dmp) n)
    = (if cached s b dmp n rec then b_bufr s b
       else disk s (m_drvnum (dmds s dmp)) (rec + m_recoff (dmds s dmp) n))"
proof -
  let ?dm = "dmds s (b_dm s b)"
  have b: "mounted s (b_dm s b)" "m_drvnum ?dm = b_bufdrv s b" "rec_ok ?dm (b_buftyp s b) (b_bufrec s b)"
    and l: "layout_ok ?dm"
    using assms(1-3) by (auto simp: bufs_ok_def buf_ok_def Let_def)
  show ?thesis
  proof (cases "m_drvnum (dmds s dmp) = b_bufdrv s b")
    case True
    then have e: "dmp = b_dm s b" using mounted_unique [of s dmp "b_dm s b"] assms(4) b by simp
    have "rec + m_recoff ?dm n \<noteq> b_bufrec s b + m_recoff ?dm BT_FAT - m_fsiz ?dm"
      if "b_buftyp s b = BT_FAT" "\<not> m_1fat ?dm"
      using phys_not_copy [OF l, of n rec "b_bufrec s b"] that b assms(5) e by simp
    moreover have "rec + m_recoff ?dm n = b_bufrec s b + m_recoff ?dm (b_buftyp s b)
      \<longleftrightarrow> n = b_buftyp s b \<and> rec = b_bufrec s b"
      using phys_unique [OF l, of n rec "b_buftyp s b" "b_bufrec s b"] b assms(5) e by auto
    ultimately show ?thesis using b e by (auto simp: written_def Let_def cached_def)
  next
    case False
    then show ?thesis by (auto simp: written_def Let_def cached_def)
  qed
qed

lemma written_bufs:
  assumes "bufs_ok F D s" and "b \<in> F \<union> D" "b_bufdrv s b \<noteq> - 1"
  shows "bufs_ok F D (written both b s)"
proof -
  have m: "mounted (written both b s) = mounted s" by (rule mounted_cong) simp_all
  have "buf_ok (written both b s) c" if c: "c \<in> F \<union> D" for c
  proof -
    have "cached s b (b_dm s c) (b_buftyp s c) (b_bufrec s c) \<longleftrightarrow> b = c" if "b_bufdrv s c \<noteq> - 1"
      using assms c that by (auto simp: bufs_ok_def buf_ok_def cached_def Let_def)
    then show ?thesis
      using assms c written_disk [OF assms, of "b_dm s c" "b_buftyp s c" "b_bufrec s c"]
      by (auto simp: bufs_ok_def buf_ok_def m Let_def)
  qed
  with assms show ?thesis by (auto simp: bufs_ok_def m)
qed

lemma written_has_all:
  assumes "bufs_ok F D s" and b: "b \<in> F \<union> D" "b_bufdrv s b \<noteq> - 1" and "has_all (F \<union> D) s V"
  shows "has_all (F \<union> D) (written both b s) V"
  unfolding has_all_def
proof (intro allI impI)
  fix dmp n rec
  have m: "mounted (written both b s) = mounted s" by (rule mounted_cong) simp_all
  assume "mounted (written both b s) dmp" "rec_ok (dmds (written both b s) dmp) n rec"
  then have "mounted s dmp" "rec_ok (dmds s dmp) n rec" by (simp_all add: m)
  with written_disk [OF assms(1-3) this] assms(4) b show "has_rec (F \<union> D) (written both b s) dmp n rec (V dmp n rec)"
    by (auto simp: has_all_def has_rec_def cached_def)
qed

text \<open>Dropping a buffer that is clean or invalid.\<close>

definition dropped :: "nat \<Rightarrow> fsst \<Rightarrow> fsst" where
  "dropped b s = s\<lparr>b_bufdrv := (b_bufdrv s)(b := - 1)\<rparr>"

lemma dropped_sel [simp]:
  "bufl_fat (dropped b s) = bufl_fat s" "bufl_data (dropped b s) = bufl_data s"
  "b_link (dropped b s) = b_link s" "b_bufdrv (dropped b s) = (b_bufdrv s)(b := - 1)"
  "b_bufrec (dropped b s) = b_bufrec s" "b_buftyp (dropped b s) = b_buftyp s"
  "b_dm (dropped b s) = b_dm s" "b_bufr (dropped b s) = b_bufr s" "disk (dropped b s) = disk s"
  "b_dirty (dropped b s) = b_dirty s"
  "drvtbl (dropped b s) = drvtbl s" "dmds (dropped b s) = dmds s" "rest (dropped b s) = rest s"
  by (simp_all add: dropped_def rest_def)

lemma dropped_bufs: "bufs_ok F D s \<Longrightarrow> bufs_ok F D (dropped b s)"
proof -
  assume a: "bufs_ok F D s"
  have m: "mounted (dropped b s) = mounted s" by (rule mounted_cong) simp_all
  show ?thesis using a by (auto simp: bufs_ok_def buf_ok_def m Let_def)
qed

text \<open>The content a record falls back to when its buffer is dropped.\<close>

definition on_disk :: "nat \<Rightarrow> fsst \<Rightarrow> sector" where
  "on_disk b s = disk s (b_bufdrv s b) (b_bufrec s b + m_recoff (dmds s (b_dm s b)) (b_buftyp s b))"

lemma dropped_lossy:
  assumes "bufs_ok F D s" and b: "b \<in> F \<union> D" "b_bufdrv s b \<noteq> - 1" and "has_all (F \<union> D) s V"
  shows "has_all (F \<union> D) (dropped b s) (upd3 V (b_dm s b) (b_buftyp s b) (b_bufrec s b) (on_disk b s))"
  unfolding has_all_def
proof (intro allI impI)
  fix dmp n rec
  let ?V = "upd3 V (b_dm s b) (b_buftyp s b) (b_bufrec s b) (on_disk b s)"
  have m: "mounted (dropped b s) = mounted s" by (rule mounted_cong) simp_all
  assume "mounted (dropped b s) dmp" "rec_ok (dmds (dropped b s) dmp) n rec"
  then have k: "mounted s dmp" "rec_ok (dmds s dmp) n rec" by (simp_all add: m)
  then have h: "has_rec (F \<union> D) s dmp n rec (V dmp n rec)" using assms(4) by (simp add: has_all_def)
  note nn = bufs_drvnum [OF assms(1) k(1)]
  have bm: "mounted s (b_dm s b)" "m_drvnum (dmds s (b_dm s b)) = b_bufdrv s b"
    using bufs_buf [OF assms(1) b(1)] b(2) by (simp_all add: buf_ok_def Let_def)
  have cb: "cached s b dmp n rec \<longleftrightarrow> dmp = b_dm s b \<and> n = b_buftyp s b \<and> rec = b_bufrec s b"
    using mounted_unique [OF bm(1) k(1)] bm(2) by (auto simp: cached_def)
  show "has_rec (F \<union> D) (dropped b s) dmp n rec (?V dmp n rec)"
  proof (cases "cached s b dmp n rec")
    case True
    have "\<not> cached (dropped b s) c dmp n rec" if c: "c \<in> F \<union> D" for c
    proof (cases "c = b")
      case True
      then show ?thesis using nn by (simp add: cached_def)
    next
      case False
      then have "\<not> cached s c dmp n rec" using cached_unique [OF assms(1) k(1) b(1) c True] by blast
      with False show ?thesis by (simp add: cached_def)
    qed
    moreover have "disk s (m_drvnum (dmds s dmp)) (rec + m_recoff (dmds s dmp) n) = ?V dmp n rec"
      using True cb bm by (simp add: upd3_def on_disk_def)
    ultimately show ?thesis by (simp add: has_rec_def)
  next
    case False
    then have "cached (dropped b s) c dmp n rec = cached s c dmp n rec" for c
      using nn by (auto simp: cached_def)
    moreover have "?V dmp n rec = V dmp n rec" using False cb by (auto simp: upd3_def)
    ultimately show ?thesis using h by (simp add: has_rec_def)
  qed
qed

lemma upd3_same: "V dmp n rec = v \<Longrightarrow> upd3 V dmp n rec v = V"
  by (auto simp: upd3_def fun_eq_iff)

text \<open>A valid buffer holds its record's content.\<close>

lemma buffer_content:
  assumes "bufs_ok F D s" and "b \<in> F \<union> D" "b_bufdrv s b \<noteq> - 1" and "has_all (F \<union> D) s V"
  shows "b_bufr s b = V (b_dm s b) (b_buftyp s b) (b_bufrec s b)"
  using bufs_buf [OF assms(1,2)] assms by (auto simp: buf_ok_def has_all_def has_rec_def cached_def Let_def)

lemma dropped_has_all:
  assumes "bufs_ok F D s" and b: "b \<in> F \<union> D" "b_bufdrv s b = - 1 \<or> \<not> b_dirty s b"
    and "has_all (F \<union> D) s V"
  shows "has_all (F \<union> D) (dropped b s) V"
proof (cases "b_bufdrv s b = - 1")
  case True
  then have "dropped b s = s" by (simp add: dropped_def fun_upd_idem)
  with assms show ?thesis by simp
next
  case False
  with bufs_buf [OF assms(1) b(1)] b(2) have "b_bufr s b = on_disk b s"
    by (simp add: buf_ok_def on_disk_def Let_def)
  with buffer_content [OF assms(1) b(1) False assms(4)] dropped_lossy [OF assms(1) b(1) False assms(4)]
  show ?thesis by (simp add: upd3_same)
qed

text \<open>Filling an invalid buffer with a record that no buffer caches.\<close>

definition loaded :: "nat \<Rightarrow> nat \<Rightarrow> nat \<Rightarrow> nat \<Rightarrow> fsst \<Rightarrow> fsst" where
  "loaded dmp n rec b s = s\<lparr>
     b_bufr := (b_bufr s)(b := disk s (m_drvnum (dmds s dmp)) (rec + m_recoff (dmds s dmp) n)),
     b_bufrec := (b_bufrec s)(b := rec), b_dirty := (b_dirty s)(b := False),
     b_buftyp := (b_buftyp s)(b := n), b_bufdrv := (b_bufdrv s)(b := m_drvnum (dmds s dmp)),
     b_dm := (b_dm s)(b := dmp)\<rparr>"

lemma loaded_sel [simp]:
  "bufl_fat (loaded dmp n rec b s) = bufl_fat s" "bufl_data (loaded dmp n rec b s) = bufl_data s"
  "b_link (loaded dmp n rec b s) = b_link s" "disk (loaded dmp n rec b s) = disk s"
  "drvtbl (loaded dmp n rec b s) = drvtbl s" "dmds (loaded dmp n rec b s) = dmds s"
  "rest (loaded dmp n rec b s) = rest s"
  by (simp_all add: loaded_def rest_def)

lemma loaded_bufs:
  assumes "bufs_ok F D s" "b \<in> F \<union> D" "b_bufdrv s b = - 1" "n = BT_FAT \<longleftrightarrow> b \<in> F"
    and "mounted s dmp" "rec_ok (dmds s dmp) n rec"
    and "\<forall>c \<in> F \<union> D. \<not> cached s c dmp n rec"
  shows "bufs_ok F D (loaded dmp n rec b s)"
proof -
  have m: "mounted (loaded dmp n rec b s) = mounted s" by (rule mounted_cong) simp_all
  have o: "buf_ok (loaded dmp n rec b s) c" if c: "c \<in> F \<union> D" for c
  proof (cases "c = b")
    case True
    then show ?thesis using assms(5,6) by (simp add: buf_ok_def m Let_def) (simp add: loaded_def)
  next
    case False
    then show ?thesis using bufs_buf [OF assms(1) c] by (simp add: buf_ok_def m Let_def) (simp add: loaded_def)
  qed
  have y: "b_buftyp (loaded dmp n rec b s) c = BT_FAT \<longleftrightarrow> c \<in> F"
    if "c \<in> F \<union> D" "b_bufdrv (loaded dmp n rec b s) c \<noteq> - 1" for c
    using bufs_typ [OF assms(1) that(1)] that(2) assms(4) by (cases "c = b") (simp_all add: loaded_def)
  have u: "c = e"
    if "c \<in> F \<union> D" "e \<in> F \<union> D" "b_bufdrv (loaded dmp n rec b s) c \<noteq> - 1"
      "b_bufdrv (loaded dmp n rec b s) c = b_bufdrv (loaded dmp n rec b s) e"
      "b_buftyp (loaded dmp n rec b s) c = b_buftyp (loaded dmp n rec b s) e"
      "b_bufrec (loaded dmp n rec b s) c = b_bufrec (loaded dmp n rec b s) e" for c e
  proof (cases "c = b \<or> e = b")
    case True
    show ?thesis
    proof (rule ccontr)
      assume "c \<noteq> e"
      with True that(4-6) have "cached s c dmp n rec \<or> cached s e dmp n rec"
        by (auto simp: loaded_def cached_def)
      with True assms(7) that(1,2) show False by blast
    qed
  next
    case False
    then show ?thesis using bufs_unique [OF assms(1) that(1,2)] that(3-6) by (simp add: loaded_def)
  qed
  show ?thesis by (rule bufs_okI) (use bufs_layout [OF assms(1)] m o y u in \<open>simp_all only: loaded_sel\<close>)
qed

lemma loaded_has_all:
  assumes "bufs_ok F D s" "b \<in> F \<union> D" "b_bufdrv s b = - 1"
    and "mounted s dmp" "rec_ok (dmds s dmp) n rec"
    and "\<forall>c \<in> F \<union> D. \<not> cached s c dmp n rec" and "has_all (F \<union> D) s V"
  shows "has_all (F \<union> D) (loaded dmp n rec b s) V"
  unfolding has_all_def
proof (intro allI impI)
  fix dmp' n' rec'
  let ?s = "loaded dmp n rec b s"
  have m: "mounted ?s = mounted s" by (rule mounted_cong) simp_all
  assume "mounted ?s dmp'" "rec_ok (dmds ?s dmp') n' rec'"
  then have k: "mounted s dmp'" "rec_ok (dmds s dmp') n' rec'" by (simp_all add: m)
  then have h: "has_rec (F \<union> D) s dmp' n' rec' (V dmp' n' rec')" using assms(7) by (simp add: has_all_def)
  have nb: "\<not> cached s b dmp' n' rec'"
    using assms(3) bufs_drvnum [OF assms(1) k(1)] by (simp add: cached_def)
  have cb: "cached ?s b dmp' n' rec' \<longleftrightarrow> dmp' = dmp \<and> n' = n \<and> rec' = rec"
    using mounted_unique [OF assms(4) k(1)] by (auto simp: cached_def loaded_def)
  have co: "cached ?s c dmp' n' rec' = cached s c dmp' n' rec'" if "c \<noteq> b" for c
    using that by (simp add: cached_def loaded_def)
  show "has_rec (F \<union> D) ?s dmp' n' rec' (V dmp' n' rec')"
  proof (cases "dmp' = dmp \<and> n' = n \<and> rec' = rec")
    case True
    with assms(6) h have "disk s (m_drvnum (dmds s dmp)) (rec + m_recoff (dmds s dmp) n) = V dmp' n' rec'"
      by (auto simp: has_rec_def)
    then have "b_bufr ?s b = V dmp' n' rec'" by (simp add: loaded_def)
    moreover have "c = b" if "c \<in> F \<union> D" "cached ?s c dmp' n' rec'" for c
      using that assms(6) True co [of c] by auto
    ultimately show ?thesis using True cb assms(2) unfolding has_rec_def by blast
  next
    case False
    then have "cached ?s c dmp' n' rec' = cached s c dmp' n' rec'" for c
      using cb nb co by (cases "c = b") auto
    moreover have "b_bufr ?s c = b_bufr s c" if "cached s c dmp' n' rec'" for c
      using that nb by (auto simp: loaded_def)
    ultimately show ?thesis using h by (simp add: has_rec_def)
  qed
qed

text \<open>Overwriting a buffer that caches a record, once it is marked dirty.\<close>

definition stored :: "nat \<Rightarrow> sector \<Rightarrow> fsst \<Rightarrow> fsst" where
  "stored b f s = s\<lparr>b_bufr := (b_bufr s)(b := f)\<rparr>"

lemma stored_sel [simp]:
  "bufl_fat (stored b f s) = bufl_fat s" "bufl_data (stored b f s) = bufl_data s"
  "b_link (stored b f s) = b_link s" "b_bufdrv (stored b f s) = b_bufdrv s"
  "b_bufrec (stored b f s) = b_bufrec s" "b_buftyp (stored b f s) = b_buftyp s"
  "b_dm (stored b f s) = b_dm s" "b_bufr (stored b f s) = (b_bufr s)(b := f)" "disk (stored b f s) = disk s"
  "b_dirty (stored b f s) = b_dirty s"
  "drvtbl (stored b f s) = drvtbl s" "dmds (stored b f s) = dmds s" "rest (stored b f s) = rest s"
  by (simp_all add: stored_def rest_def)

lemma stored_bufs:
  assumes "bufs_ok F D s" and "b_dirty s b"
  shows "bufs_ok F D (stored b f s)"
proof -
  have m: "mounted (stored b f s) = mounted s" by (rule mounted_cong) simp_all
  show ?thesis using assms by (auto simp: bufs_ok_def buf_ok_def m Let_def)
qed

lemma stored_has_all:
  assumes "bufs_ok F D s" and b: "b \<in> F \<union> D" "cached s b dmp n rec" and "mounted s dmp"
    and "has_all (F \<union> D) s V"
  shows "has_all (F \<union> D) (stored b f s) (upd3 V dmp n rec f)"
  unfolding has_all_def
proof (intro allI impI)
  fix dmp' n' rec'
  have m: "mounted (stored b f s) = mounted s" by (rule mounted_cong) simp_all
  assume "mounted (stored b f s) dmp'" "rec_ok (dmds (stored b f s) dmp') n' rec'"
  then have k: "mounted s dmp'" "rec_ok (dmds s dmp') n' rec'" by (simp_all add: m)
  then have h: "has_rec (F \<union> D) s dmp' n' rec' (V dmp' n' rec')" using assms(5) by (simp add: has_all_def)
  have u: "c = b" if "c \<in> F \<union> D" "cached s c dmp n rec" for c
    using cached_unique [OF assms(1,4) that(1) b(1) that(2) b(2)] .
  have cb: "cached s b dmp' n' rec' \<longleftrightarrow> dmp' = dmp \<and> n' = n \<and> rec' = rec"
    using mounted_unique [OF assms(4) k(1)] b by (auto simp: cached_def)
  have c: "cached (stored b f s) = cached s" by (intro ext) (simp add: cached_def)
  show "has_rec (F \<union> D) (stored b f s) dmp' n' rec' (upd3 V dmp n rec f dmp' n' rec')"
  proof (cases "dmp' = dmp \<and> n' = n \<and> rec' = rec")
    case True
    have "\<forall>c \<in> F \<union> D. cached s c dmp n rec \<longrightarrow> ((b_bufr s)(b := f)) c = f"
      using u by (metis fun_upd_same)
    moreover have "\<not> (\<forall>c \<in> F \<union> D. \<not> cached s c dmp n rec)" using b by blast
    ultimately show ?thesis using True by (simp only: has_rec_def c upd3_def stored_sel) simp
  next
    case False
    with cb have "\<not> cached s b dmp' n' rec'" by simp
    with h False show ?thesis unfolding has_rec_def c upd3_def by fastforce
  qed
qed

text \<open>Marking dirty changes nothing.\<close>

definition soiled :: "nat \<Rightarrow> fsst \<Rightarrow> fsst" where
  "soiled b s = s\<lparr>b_dirty := (b_dirty s)(b := True)\<rparr>"

lemma soiled_sel [simp]:
  "bufl_fat (soiled b s) = bufl_fat s" "bufl_data (soiled b s) = bufl_data s"
  "b_link (soiled b s) = b_link s" "b_bufdrv (soiled b s) = b_bufdrv s"
  "b_bufrec (soiled b s) = b_bufrec s" "b_buftyp (soiled b s) = b_buftyp s"
  "b_dm (soiled b s) = b_dm s" "b_bufr (soiled b s) = b_bufr s" "disk (soiled b s) = disk s"
  "b_dirty (soiled b s) = (b_dirty s)(b := True)"
  "drvtbl (soiled b s) = drvtbl s" "dmds (soiled b s) = dmds s" "rest (soiled b s) = rest s"
  by (simp_all add: soiled_def rest_def)

lemma soiled_sees: "sees_on F D s V \<Longrightarrow> sees_on F D (soiled b s) V"
proof -
  have m: "mounted (soiled b s) = mounted s" by (rule mounted_cong) simp_all
  have c: "cached (soiled b s) = cached s" by (intro ext) (simp add: cached_def)
  assume "sees_on F D s V"
  then show ?thesis
    by (simp add: sees_on_def lists_ok_def bufs_ok_def buf_ok_def has_all_def has_rec_def m c Let_def)
qed

section \<open>Moving to the front\<close>

lemma to_front_sel [simp]:
  "b_bufdrv (to_front n q b s) = b_bufdrv s"
  "b_bufrec (to_front n q b s) = b_bufrec s" "b_buftyp (to_front n q b s) = b_buftyp s"
  "b_dm (to_front n q b s) = b_dm s" "b_bufr (to_front n q b s) = b_bufr s" "disk (to_front n q b s) = disk s"
  "b_dirty (to_front n q b s) = b_dirty s"
  "drvtbl (to_front n q b s) = drvtbl s" "dmds (to_front n q b s) = dmds s" "rest (to_front n q b s) = rest s"
  by (simp_all add: to_front_def set_head_def rest_def split: prod.splits)

lemma to_front_list:
  assumes "chain nx h (as @ b # bs)" and "relink (last0 as) (nx b) (h, nx) = (h', nx')"
  shows "chain (nx'(b := h')) b (b # as @ bs)"
proof -
  have c: "chain nx' h' (as @ bs)" using assms by (rule relink_snip)
  have "b \<notin> set (as @ bs)" "b \<noteq> 0"
    using chain_distinct [OF assms(1)] seg_nonzero [OF assms(1)] by auto
  with c show ?thesis by (simp add: seg_frame)
qed

text \<open>The order of the two lists after a move to the front of \<open>b\<close>.\<close>

definition fronted :: "nat \<Rightarrow> nat list \<Rightarrow> nat list" where
  "fronted b xs = b # remove1 b xs"

lemma fronted_split: "distinct (as @ b # bs) \<Longrightarrow> fronted b (as @ b # bs) = b # as @ bs"
  by (simp add: fronted_def remove1_append)

lemma to_front_lists:
  assumes "lists_ok F D s"
  shows "n = BT_FAT \<Longrightarrow> F = as @ b # bs \<Longrightarrow> lists_ok (fronted b F) D (to_front n (last0 as) b s)"
    and "n \<noteq> BT_FAT \<Longrightarrow> D = as @ b # bs \<Longrightarrow> lists_ok F (fronted b D) (to_front n (last0 as) b s)"
proof -
  show "lists_ok (fronted b F) D (to_front n (last0 as) b s)" if n: "n = BT_FAT" and F: "F = as @ b # bs"
  proof -
    obtain h' nx' where r: "relink (last0 as) (b_link s b) (bufl_fat s, b_link s) = (h', nx')" by fastforce
    have c: "chain (b_link s) (bufl_fat s) (as @ b # bs)" using assms F by (simp add: lists_ok_def)
    have "chain (nx'(b := h')) (bufl_data s) D"
      using assms r F by (cases as rule: rev_cases) (auto simp: lists_ok_def relink_def seg_frame split: if_splits)
    with to_front_list [OF c r] assms r n F show ?thesis
      by (auto simp: lists_ok_def to_front_def buf_head_def set_head_def fronted_split [OF chain_distinct [OF c]])
  qed
  show "lists_ok F (fronted b D) (to_front n (last0 as) b s)" if n: "n \<noteq> BT_FAT" and F: "D = as @ b # bs"
  proof -
    obtain h' nx' where r: "relink (last0 as) (b_link s b) (bufl_data s, b_link s) = (h', nx')" by fastforce
    have c: "chain (b_link s) (bufl_data s) (as @ b # bs)" using assms F by (simp add: lists_ok_def)
    have "chain (nx'(b := h')) (bufl_fat s) F"
      using assms r F by (cases as rule: rev_cases) (auto simp: lists_ok_def relink_def seg_frame split: if_splits)
    with to_front_list [OF c r] assms r n F show ?thesis
      by (auto simp: lists_ok_def to_front_def buf_head_def set_head_def fronted_split [OF chain_distinct [OF c]])
  qed
qed


section \<open>The rest of the state\<close>

lemma sees_on_cong:
  assumes "bufl_fat s' = bufl_fat s" "bufl_data s' = bufl_data s" "b_link s' = b_link s"
    "b_bufdrv s' = b_bufdrv s" "b_bufrec s' = b_bufrec s" "b_buftyp s' = b_buftyp s"
    "b_dirty s' = b_dirty s" "b_dm s' = b_dm s" "b_bufr s' = b_bufr s" "disk s' = disk s"
    "drvtbl s' = drvtbl s" "dmds s' = dmds s"
  shows "sees_on F D s' V = sees_on F D s V"
proof -
  have m: "mounted s' = mounted s" by (rule mounted_cong) (use assms in simp_all)
  have c: "cached s' = cached s" by (intro ext) (simp add: cached_def assms)
  have b: "buf_ok s' = buf_ok s" by (intro ext) (simp add: buf_ok_def assms m)
  show ?thesis
    by (simp add: sees_on_def lists_ok_def bufs_ok_def has_all_def has_rec_def m c b assms)
qed

lemma sees_on_frame [simp, fs_frame]:
  "sees_on F D (s\<lparr>errdrv := e, errcode := c\<rparr>) V = sees_on F D s V"
  "sees_on F D (s\<lparr>ofds := v1\<rparr>) V = sees_on F D s V" "sees_on F D (s\<lparr>dfds := v2\<rparr>) V = sees_on F D s V"
  "sees_on F D (s\<lparr>dnds := v3\<rparr>) V = sees_on F D s V" "sees_on F D (s\<lparr>sft := v4\<rparr>) V = sees_on F D s V"
  "sees_on F D (s\<lparr>p_uft := v5\<rparr>) V = sees_on F D s V" "sees_on F D (s\<lparr>run := v6\<rparr>) V = sees_on F D s V"
  "sees_on F D (s\<lparr>umem := v7\<rparr>) V = sees_on F D s V" "sees_on F D (s\<lparr>pool := v8\<rparr>) V = sees_on F D s V"
  by (rule sees_on_cong; simp)+

lemma sees_frame [simp, fs_frame]:
  "sees (s\<lparr>ofds := v1\<rparr>) V = sees s V" "sees (s\<lparr>dfds := v2\<rparr>) V = sees s V"
  "sees (s\<lparr>dnds := v3\<rparr>) V = sees s V" "sees (s\<lparr>sft := v4\<rparr>) V = sees s V"
  "sees (s\<lparr>p_uft := v5\<rparr>) V = sees s V" "sees (s\<lparr>run := v6\<rparr>) V = sees s V"
  "sees (s\<lparr>umem := v7\<rparr>) V = sees s V" "sees (s\<lparr>pool := v8\<rparr>) V = sees s V"
  by (simp_all add: sees_def)

lemma rest_sel:
  assumes "rest s' = rest s"
  shows "drvtbl s' = drvtbl s" "dmds s' = dmds s" "ofds s' = ofds s" "dfds s' = dfds s" "dnds s' = dnds s"
    "sft s' = sft s" "p_uft s' = p_uft s" "run s' = run s" "umem s' = umem s" "pool s' = pool s"
    "mounted s' = mounted s"
proof -
  note e = arg_cong [OF assms]
  show "drvtbl s' = drvtbl s" using e [of drvtbl] by (simp add: rest_def)
  moreover show "dmds s' = dmds s" using e [of dmds] by (simp add: rest_def)
  ultimately show "mounted s' = mounted s" by (rule mounted_cong)
  show "ofds s' = ofds s" "dfds s' = dfds s" "dnds s' = dnds s" "sft s' = sft s" "p_uft s' = p_uft s"
    "run s' = run s" "umem s' = umem s" "pool s' = pool s"
    using e [of ofds] e [of dfds] e [of dnds] e [of sft] e [of p_uft] e [of run] e [of umem] e [of pool]
    by (simp_all add: rest_def)
qed

section \<open>Flushing a buffer\<close>

lemma sees_written:
  "sees_on F D s V \<Longrightarrow> b \<in> set F \<union> set D \<Longrightarrow> b_bufdrv s b \<noteq> - 1 \<Longrightarrow> sees_on F D (written both b s) V"
  by (simp add: sees_on_def written_bufs written_has_all lists_ok_def)

lemma sees_dropped:
  "sees_on F D s V \<Longrightarrow> b \<in> set F \<union> set D \<Longrightarrow> b_bufdrv s b = - 1 \<or> \<not> b_dirty s b \<Longrightarrow> sees_on F D (dropped b s) V"
  by (simp add: sees_on_def dropped_bufs dropped_has_all lists_ok_def)

text \<open>A record of the abstract disk is lost: its content is no longer known.\<close>

definition loses :: "adisk \<Rightarrow> adisk \<Rightarrow> nat \<Rightarrow> nat \<Rightarrow> nat \<Rightarrow> bool" where
  "loses V V' dmp n rec \<longleftrightarrow> (\<exists>v. V' = upd3 V dmp n rec v)"

lemma loses_refl: "loses V V dmp n rec"
  unfolding loses_def by (metis upd3_same)

text \<open>
  Whatever the driver answers, \<open>flush\<close> returns; on success the buffer is clean and the
  abstract disk the same, and on failure the buffer is invalid and only its own record
  may have been lost.
\<close>

lemma flush_cases:
  assumes "sees_on F D s V" and b: "b \<in> set F \<union> set D" "b_bufdrv s b \<noteq> - 1" and dirty: "b_dirty s b"
  obtains (ok) "flush drv b s = Some (Inr (), written True b s)"
  | (failed) e s' V' where "flush drv b s = Some (Inl e, s')" "e \<noteq> 0" "sees_on F D s' V'"
      "loses V V' (b_dm s b) (b_buftyp s b) (b_bufrec s b)" "b_bufdrv s' b = - 1" "rest s' = rest s"
      "\<exists>w r. d_rwabs drv w 1 r (b_bufdrv s b) = e"
proof -
  let ?dm = "dmds s (b_dm s b)" and ?n = "b_buftyp s b" and ?rec = "b_bufrec s b" and ?d = "b_bufdrv s b"
  let ?e1 = "d_rwabs drv True 1 (?rec + m_recoff ?dm ?n) ?d"
  let ?e2 = "d_rwabs drv True 1 (?rec + m_recoff ?dm BT_FAT - m_fsiz ?dm) ?d"
  let ?two = "?n = BT_FAT \<and> \<not> m_1fat ?dm"
  have l: "lists_ok F D s" and k: "bufs_ok (set F) (set D) s" and h: "has_all (set F \<union> set D) s V"
    using assms(1) by (simp_all add: sees_on_def)
  consider "?e1 \<noteq> 0" | "?e1 = 0" "?two" "?e2 \<noteq> 0" | "?e1 = 0" "?two \<longrightarrow> ?e2 = 0" by blast
  then show thesis
  proof cases
    case 1
    let ?s = "(dropped b s)\<lparr>errdrv := ?d, errcode := ?e1\<rparr>"
    have "sees_on F D (dropped b s) (upd3 V (b_dm s b) ?n ?rec (on_disk b s))"
      using dropped_lossy [OF k b h] dropped_bufs [OF k] l by (simp add: sees_on_def lists_ok_def)
    moreover have "flush drv b s = Some (Inl ?e1, ?s)"
      using 1 by (simp add: flush_def rwabs_write_def Let_def dropped_def)
    ultimately show thesis
      using 1 by (intro failed [of ?e1 ?s]) (auto simp: loses_def rest_def dropped_def)
  next
    case 2
    let ?w = "s\<lparr>disk := (disk s)(?d := (disk s ?d)(?rec + m_recoff ?dm ?n := b_bufr s b))\<rparr>"
    let ?s = "(dropped b ?w)\<lparr>errdrv := ?d, errcode := ?e2\<rparr>"
    have "flush drv b s = Some (Inl ?e2, ?s)"
      using 2 by (simp add: flush_def rwabs_write_def Let_def dropped_def ret_def)
    moreover have "soiled b (dropped b (written False b s)) = dropped b ?w"
      using dirty by (simp add: soiled_def dropped_def written_def Let_def fun_upd_idem)
    moreover have "sees_on F D (soiled b (dropped b (written False b s))) V"
      by (intro soiled_sees sees_dropped sees_written assms(1) b) simp
    ultimately show thesis
      using 2 by (intro failed [of ?e2 ?s V]) (auto simp: loses_refl rest_def dropped_def)
  next
    case 3
    then have "flush drv b s = Some (Inr (), written True b s)"
      by (auto simp: flush_def rwabs_write_def written_def ret_def Let_def fun_upd_idem)
    then show thesis by (rule ok)
  qed
qed


section \<open>Recycling a buffer\<close>

definition blist :: "nat \<Rightarrow> nat list \<Rightarrow> nat list \<Rightarrow> nat list" where
  "blist n F D = (if n = BT_FAT then F else D)"

lemma blist_chain:
  "lists_ok F D s \<Longrightarrow> chain (b_link s) (buf_head n s) (blist n F D)"
  "lists_ok F D s \<Longrightarrow> blist n F D \<noteq> []" "set (blist n F D) \<subseteq> set F \<union> set D"
  by (auto simp: lists_ok_def blist_def buf_head_def)

lemma blist_typ: "lists_ok F D s \<Longrightarrow> b \<in> set (blist n F D) \<Longrightarrow> n = BT_FAT \<longleftrightarrow> b \<in> set F"
  by (auto simp: lists_ok_def blist_def split: if_splits)

lemma doio_pick:
  assumes "chain nx h L" "L \<noteq> []"
  obtains as x bs where "L = as @ x # bs" "b \<in> set L \<Longrightarrow> x = b"
    "find_link nx (\<lambda>p. nx p = 0 \<or> p = b) 0 h = Some (last0 as, x)"
  using assms(1)
proof (cases rule: find_link_total [where P = "\<lambda>p. nx p = 0 \<or> p = b"])
  case (hit as x bs)
  have "x = b" if "b \<in> set L"
  proof -
    from that hit(1,2) have "b \<in> set (x # bs)" by auto
    moreover have "bs = []" if "nx x = 0"
      using chain_next [of nx h as x bs] seg_nonzero [OF assms(1)] assms(1) hit(1) that by (cases bs) auto
    ultimately show ?thesis using hit(3) by auto
  qed
  with hit that show thesis by blast
next
  case miss
  from assms(2) obtain ys y where L: "L = ys @ [y]" by (cases L rule: rev_cases) auto
  with chain_next [of nx h ys y "[]"] assms(1) have "nx y = 0" by simp
  with miss(1) L show thesis by auto
qed

lemma not_cached_dropped:
  "sees_on F D s V \<Longrightarrow> mounted s dmp \<Longrightarrow> \<not> cached (dropped b s) b dmp n rec"
  using bufs_drvnum [of "set F" "set D" s dmp] by (auto simp: cached_def sees_on_def)

lemma sees_loaded:
  assumes "sees_on F D s V" "b \<in> set (blist n F D)" "b_bufdrv s b = - 1"
    and "mounted s dmp" "rec_ok (dmds s dmp) n rec"
    and "\<forall>c \<in> set F \<union> set D. \<not> cached s c dmp n rec"
  shows "sees_on F D (loaded dmp n rec b s) V"
proof -
  have s: "lists_ok F D s" "bufs_ok (set F) (set D) s" "has_all (set F \<union> set D) s V"
    using assms(1) by (simp_all add: sees_on_def)
  have b: "b \<in> set F \<union> set D" using assms(2) blist_chain(3) by blast
  show ?thesis
    using loaded_bufs [OF s(2) b assms(3) blist_typ [OF s(1) assms(2)] assms(4-6)]
      loaded_has_all [OF s(2) b assms(3-6) s(3)] s(1)
    by (simp add: sees_on_def lists_ok_def)
qed

text \<open>The read into a victim \<open>x\<close> that is clean, and its failure.\<close>

lemma fill_cases:
  assumes "sees_on F D s V" "x \<in> set (blist n F D)" "b_bufdrv s x = - 1 \<or> \<not> b_dirty s x"
    and m: "mounted s dmp" "rec_ok (dmds s dmp) n rec"
    and c: "\<forall>c \<in> set F \<union> set D. cached s c dmp n rec \<longrightarrow> c = x"
  obtains (ok) s' where "fill drv dmp n rec x s = Some (Inr (), s')"
      "sees_on F D s' V" "cached s' x dmp n rec" "b_dm s' x = dmp" "rest s' = rest s"
  | (failed) e s' where "fill drv dmp n rec x s = Some (Inl e, s')"
      "e \<noteq> 0" "sees_on F D s' V" "rest s' = rest s" "\<exists>w r d. d_rwabs drv w 1 r d = e"
proof -
  let ?e = "d_rwabs drv False 1 (rec + m_recoff (dmds s dmp) n) (m_drvnum (dmds s dmp))"
  have x: "x \<in> set F \<union> set D" using assms(2) blist_chain(3) by blast
  have d: "sees_on F D (dropped x s) V" by (rule sees_dropped [OF assms(1) x assms(3)])
  have m': "mounted (dropped x s) dmp" using m(1) by (simp add: mounted_def)
  have "\<not> cached (dropped x s) c dmp n rec" if "c \<in> set F \<union> set D" for c
  proof (cases "c = x")
    case True
    then show ?thesis using not_cached_dropped [OF assms(1) m(1)] by simp
  next
    case False
    then show ?thesis using c that by (auto simp: cached_def)
  qed
  then have l: "sees_on F D (loaded dmp n rec x (dropped x s)) V"
    using sees_loaded [OF d assms(2) _ m'] m(2) by simp
  show thesis
  proof (cases "?e = 0")
    case True
    then have f: "fill drv dmp n rec x s = Some (Inr (), loaded dmp n rec x (dropped x s))"
      by (simp add: fill_def rwabs_read_def Let_def ret_def loaded_def dropped_def)
    show thesis by (rule ok [OF f l]) (simp_all add: loaded_def cached_def rest_def dropped_def)
  next
    case False
    then have f: "fill drv dmp n rec x s
        = Some (Inl ?e, (dropped x s)\<lparr>errdrv := m_drvnum (dmds s dmp), errcode := ?e\<rparr>)"
      by (simp add: fill_def rwabs_read_def Let_def dropped_def)
    show thesis by (rule failed [OF f False]) (use d in \<open>auto simp: rest_def dropped_def\<close>)
  qed
qed

lemma getbcb_doio_cases:
  assumes "sees_on F D s V" and m: "mounted s dmp" "rec_ok (dmds s dmp) n rec"
    and c: "\<forall>c \<in> set F \<union> set D. cached s c dmp n rec \<longrightarrow> c = b \<and> b \<in> set (blist n F D)"
  obtains (ok) as x bs s' where "blist n F D = as @ x # bs"
      "getbcb_doio drv dmp n rec b s = Some (Inr (last0 as, x), s')" "sees_on F D s' V"
      "cached s' x dmp n rec" "b_dm s' x = dmp" "rest s' = rest s"
  | (failed) e s' V' dmp' n' rec' where "getbcb_doio drv dmp n rec b s = Some (Inl e, s')" "e \<noteq> 0"
      "sees_on F D s' V'" "loses V V' dmp' n' rec'" "rest s' = rest s" "\<exists>w r d. d_rwabs drv w 1 r d = e"
proof -
  note good = ok and bad = failed
  have l: "lists_ok F D s" using assms(1) by (simp add: sees_on_def)
  obtain as x bs where L: "blist n F D = as @ x # bs" and xb: "b \<in> set (blist n F D) \<Longrightarrow> x = b"
    and f: "find_link (b_link s) (\<lambda>p. b_link s p = 0 \<or> p = b) 0 (buf_head n s) = Some (last0 as, x)"
    using doio_pick [OF blist_chain(1) [OF l, of n] blist_chain(2) [OF l, of n], of b] by metis
  have x: "x \<in> set (blist n F D)" "x \<noteq> 0" using L seg_nonzero [OF blist_chain(1) [OF l, of n]] by auto
  have c': "\<forall>c \<in> set F \<union> set D. cached s c dmp n rec \<longrightarrow> c = x" using c xb by blast
  have xFD: "x \<in> set F \<union> set D" using x(1) blist_chain(3) by blast
  have after: thesis
    if d: "getbcb_doio drv dmp n rec b s = bind_res (fill drv dmp n rec x s1) (\<lambda>_ s. ret (last0 as, x) s)"
      and s1: "sees_on F D s1 V" "b_bufdrv s1 x = - 1 \<or> \<not> b_dirty s1 x" "mounted s1 dmp"
        "rec_ok (dmds s1 dmp) n rec" "\<forall>c \<in> set F \<union> set D. cached s1 c dmp n rec \<longrightarrow> c = x" "rest s1 = rest s"
    for s1
    using s1(1) x(1) s1(2-5)
  proof (cases rule: fill_cases [where drv = drv])
    case (ok s')
    with d have "getbcb_doio drv dmp n rec b s = Some (Inr (last0 as, x), s')" by (simp add: ret_def)
    then show thesis using good [OF L _ ok(2-4)] ok(5) s1(6) by simp
  next
    case (failed e s')
    with d have "getbcb_doio drv dmp n rec b s = Some (Inl e, s')" by simp
    then show thesis using bad [OF _ failed(2,3) loses_refl] failed(4,5) s1(6) by simp
  qed
  show thesis
  proof (cases "b_bufdrv s x \<noteq> - 1 \<and> b_dirty s x")
    case True
    then have v: "b_bufdrv s x \<noteq> - 1" "b_dirty s x" by simp_all
    from assms(1) xFD v show thesis
    proof (cases rule: flush_cases [where drv = drv])
      case ok
      have cc: "cached (written True x s) = cached s" by (intro ext) (simp add: cached_def)
      have mm: "mounted (written True x s) dmp" using m(1) by (simp add: mounted_def)
      show thesis
        by (rule after [OF _ sees_written [OF assms(1) xFD v(1)] _ mm])
           (use ok f x v cc c' m in \<open>simp_all add: getbcb_doio_def\<close>)
    next
      case (failed e s' V')
      then have "getbcb_doio drv dmp n rec b s = Some (Inl e, s')" using f x v by (simp add: getbcb_doio_def)
      then show thesis using bad [OF _ failed(2-4,6)] failed(7) by blast
    qed
  next
    case False
    show thesis
      by (rule after [OF _ assms(1) _ m c']) (use False f x in \<open>auto simp: getbcb_doio_def\<close>)
  qed
qed


section \<open>Looking a record up\<close>

text \<open>The lists after \<open>b\<close> has been moved to the front of its own.\<close>

definition fat_list :: "nat \<Rightarrow> nat \<Rightarrow> nat list \<Rightarrow> nat list" where
  "fat_list n b F = (if n = BT_FAT then fronted b F else F)"

definition data_list :: "nat \<Rightarrow> nat \<Rightarrow> nat list \<Rightarrow> nat list" where
  "data_list n b D = (if n = BT_FAT then D else fronted b D)"

lemma front_sets:
  assumes "b \<in> set (blist n F D)"
  shows "set (fat_list n b F) = set F" "set (data_list n b D) = set D"
  using assms by (auto simp: fat_list_def data_list_def blist_def fronted_def notin_set_remove1
      dest: in_set_remove1 notin_set_remove1 split: if_splits)
     (metis in_set_remove1)+

lemma sees_to_front:
  assumes "sees_on F D s V" and L: "blist n F D = as @ b # bs"
  shows "sees_on (fat_list n b F) (data_list n b D) (to_front n (last0 as) b s) V"
proof -
  have l: "lists_ok F D s" using assms by (simp add: sees_on_def)
  have m: "mounted (to_front n (last0 as) b s) = mounted s" by (rule mounted_cong) simp_all
  have c: "cached (to_front n (last0 as) b s) = cached s" by (intro ext) (simp add: cached_def)
  have "lists_ok (fat_list n b F) (data_list n b D) (to_front n (last0 as) b s)"
    using to_front_lists [OF l, of n as b bs] L by (simp add: fat_list_def data_list_def blist_def split: if_splits)
  moreover have "b \<in> set (blist n F D)" using L by simp
  ultimately show ?thesis using assms(1)
    by (simp add: sees_on_def front_sets bufs_ok_def has_all_def has_rec_def buf_ok_def m c)
qed

lemma cached_in_list:
  assumes "sees_on F D s V" "mounted s dmp" "c \<in> set F \<union> set D" "cached s c dmp n rec"
  shows "c \<in> set (blist n F D)"
proof -
  have k: "bufs_ok (set F) (set D) s" using assms(1) by (simp add: sees_on_def)
  have "b_bufdrv s c \<noteq> - 1" "b_buftyp s c = n" using bufs_drvnum [OF k assms(2)] assms(4) by (auto simp: cached_def)
  with bufs_typ [OF k assms(3)] assms(3) show ?thesis by (auto simp: blist_def)
qed

lemma getbcb_cases:
  assumes s: "sees_on F D s V" and m: "mounted s dmp" "rec_ok (dmds s dmp) n rec"
  obtains (ok) b s' where "getbcb drv dmp n rec s = Some (Inr b, s')" "b \<in> set (blist n F D)"
      "sees_on (fat_list n b F) (data_list n b D) s' V" "cached s' b dmp n rec" "rest s' = rest s"
  | (failed) e s' V' dmp' n' rec' where "getbcb drv dmp n rec s = Some (Inl e, s')" "e \<noteq> 0"
      "sees_on F D s' V'" "loses V V' dmp' n' rec'" "rest s' = rest s"
      "(\<exists>w r d. d_rwabs drv w 1 r d = e) \<or> e = E_CHNG \<and> d_mediach drv (m_drvnum (dmds s dmp)) = 2"
proof -
  note good = ok and bad = failed
  let ?L = "blist n F D"
  have l: "lists_ok F D s" using s by (simp add: sees_on_def)
  have k: "bufs_ok (set F) (set D) s" using s by (simp add: sees_on_def)
  note ch = blist_chain(1) [OF l, of n]
  note nod = nodes_chain [OF ch]
  let ?hit = "\<lambda>b. b_bufdrv s b = m_drvnum (dmds s dmp) \<and> b_buftyp s b = n \<and> b_bufrec s b = rec"
  have hc: "?hit b \<longleftrightarrow> cached s b dmp n rec" for b by (simp add: cached_def)
  have front: thesis
    if g: "getbcb drv dmp n rec s = Some (Inr b, to_front n (last0 as) b s1)"
      and L: "?L = as @ b # bs" and s1: "sees_on F D s1 V" "cached s1 b dmp n rec" "rest s1 = rest s"
    for b as bs s1
  proof (rule good [OF g _ sees_to_front [OF s1(1) L]])
    show "cached (to_front n (last0 as) b s1) b dmp n rec" using s1(2) by (simp add: cached_def)
  qed (use L s1 in simp_all)
  have doio: thesis
    if g: "getbcb drv dmp n rec s = bind_res (getbcb_doio drv dmp n rec b0 s) (\<lambda>(q, b) s. ret b (to_front n q b s))"
      and c0: "\<forall>c \<in> set F \<union> set D. cached s c dmp n rec \<longrightarrow> c = b0 \<and> b0 \<in> set ?L" for b0
    using s m c0
  proof (cases rule: getbcb_doio_cases [where drv = drv])
    case (ok as x bs s')
    then show thesis using front [of x as s' bs] g by (simp add: ret_def)
  next
    case (failed e s' V' dmp' n' rec')
    then show thesis using bad [of e s' V' dmp' n' rec'] g by auto
  qed
  from ch show thesis
  proof (cases rule: find_link_total [where P = ?hit])
    case (hit as b bs)
    have b: "b \<noteq> 0" "b \<in> set ?L" "cached s b dmp n rec"
      using hit seg_nonzero [OF ch] hc by auto
    have u: "\<forall>c \<in> set F \<union> set D. cached s c dmp n rec \<longrightarrow> c = b \<and> b \<in> set ?L"
      using cached_unique [OF k m(1)] b blist_chain(3) by blast
    have d: "b_bufdrv s b = m_drvnum (dmds s dmp)" using b(3) by (simp add: cached_def)
    consider "d_mediach drv (b_bufdrv s b) = 1" | "d_mediach drv (b_bufdrv s b) = 2"
      | "d_mediach drv (b_bufdrv s b) \<noteq> 1" "d_mediach drv (b_bufdrv s b) \<noteq> 2" by blast
    then show thesis
    proof cases
      case 1
      then show thesis using doio [OF _ u] hit(4) nod b by (simp add: getbcb_def Let_def)
    next
      case 2
      then have "getbcb drv dmp n rec s = Some (Inl E_CHNG, s\<lparr>errdrv := b_bufdrv s b, errcode := E_CHNG\<rparr>)"
        using hit(4) nod b by (simp add: getbcb_def Let_def)
      then show thesis
        by (rule bad [OF _ _ _ loses_refl]) (use 2 d s in \<open>simp_all add: E_CHNG_def rest_def\<close>)
    next
      case 3
      then show thesis using front [OF _ hit(1) s b(3)] hit(4) nod b by (simp add: getbcb_def Let_def ret_def)
    qed
  next
    case miss
    have "\<not> cached s c dmp n rec" if "c \<in> set F \<union> set D" for c
      using cached_in_list [OF s m(1) that] miss(1) hc by blast
    then show thesis using doio [of "last0 (filter (\<lambda>b. b_bufdrv s b = - 1) ?L)"] miss(2) nod
      by (simp add: getbcb_def Let_def)
  qed
qed


section \<open>The interface of the cache\<close>

text \<open>The type of record that \<open>getrec\<close> takes a descriptor to mean.\<close>

definition ofd_typ :: "fsst \<Rightarrow> nat \<Rightarrow> nat" where
  "ofd_typ s f = (if m_fatofd (dmds s (o_dmd (ofds s f))) = f then BT_FAT
     else if o_dnode (ofds s f) = 0 then BT_ROOT else BT_DATA)"

lemma getrec_alt:
  "getrec drv rec f w s = bind_res (getbcb drv (o_dmd (ofds s f)) (ofd_typ s f) rec s)
     (\<lambda>b s. ret b (if w then soiled b s else s))"
  unfolding getrec_def ofd_typ_def soiled_def Let_def by simp

text \<open>A driver none of whose transfers fails and that reports no certain media change.\<close>

definition driver_ok :: "driver \<Rightarrow> bool" where
  "driver_ok drv \<longleftrightarrow> (\<forall>w c r d. d_rwabs drv w c r d = 0) \<and> (\<forall>d. d_mediach drv d \<noteq> 2)"

lemma sees_stored:
  assumes s: "sees_on F D s V" and b: "b \<in> set F \<union> set D" "cached s b dmp n rec" "b_dirty s b" and "mounted s dmp"
  shows "sees_on F D (stored b g s) (upd3 V dmp n rec g)"
  using assms stored_bufs [of "set F" "set D" s b g] stored_has_all [of "set F" "set D" s b dmp n rec V g]
  by (simp add: sees_on_def lists_ok_def)

lemma getrec_cases:
  assumes s: "sees_on F D s V" and m: "mounted s dmp" "rec_ok (dmds s dmp) n rec"
    and f: "o_dmd (ofds s f) = dmp" "ofd_typ s f = n"
  obtains (ok) b s' where "getrec drv rec f w s = Some (Inr b, s')" "b \<in> set (blist n F D)"
      "sees_on (fat_list n b F) (data_list n b D) s' V" "b_bufr s' b = V dmp n rec" "rest s' = rest s"
      "\<forall>g. w \<longrightarrow> sees_on (fat_list n b F) (data_list n b D) (stored b g s') (upd3 V dmp n rec g)"
  | (failed) e s' V' dmp' n' rec' where "getrec drv rec f w s = Some (Inl e, s')" "e \<noteq> 0"
      "sees_on F D s' V'" "loses V V' dmp' n' rec'" "rest s' = rest s"
      "(\<exists>w r d. d_rwabs drv w 1 r d = e) \<or> e = E_CHNG \<and> d_mediach drv (m_drvnum (dmds s dmp)) = 2"
  using s m
proof (cases rule: getbcb_cases [where drv = drv])
  case (ok b s')
  let ?s = "if w then soiled b s' else s'" and ?F = "fat_list n b F" and ?D = "data_list n b D"
  have m': "mounted s' dmp" "dmds s' = dmds s" using m(1) rest_sel [OF ok(5)] by simp_all
  have b: "b \<in> set ?F \<union> set ?D" using front_sets [OF ok(2)] ok(2) blist_chain(3) by blast
  have k: "bufs_ok (set ?F) (set ?D) s'" "has_all (set ?F \<union> set ?D) s' V"
    using ok(3) by (simp_all add: sees_on_def)
  have "b_bufr s' b = V dmp n rec"
    using k(2) b ok(4) m m' by (auto simp: has_all_def has_rec_def)
  moreover have sees': "sees_on ?F ?D ?s V" using ok(3) by (simp add: soiled_sees)
  moreover have "sees_on ?F ?D (stored b g ?s) (upd3 V dmp n rec g)" if w for g
    by (rule sees_stored [OF sees' b]) (use that ok(4) m' in \<open>simp_all add: cached_def mounted_def\<close>)
  ultimately show thesis
    using ok f by (intro that(1) [of b ?s]) (auto simp: getrec_alt ret_def)
next
  case (failed e s' V' dmp' n' rec')
  then show thesis using f by (intro that(2) [of e s' V' dmp' n' rec']) (simp_all add: getrec_alt)
qed

text \<open>The form the clients use: a driver that does not fail.\<close>

lemma getrec_ok:
  assumes s: "sees s V" and d: "driver_ok drv" and m: "mounted s dmp" "rec_ok (dmds s dmp) n rec"
    and f: "o_dmd (ofds s f) = dmp" "ofd_typ s f = n"
  obtains b s' where "getrec drv rec f w s = Some (Inr b, s')" "sees s' V"
    "b_bufr s' b = V dmp n rec" "rest s' = rest s" "\<forall>g. w \<longrightarrow> sees (stored b g s') (upd3 V dmp n rec g)"
proof -
  obtain F D where "sees_on F D s V" using s by (auto simp: sees_def)
  then show thesis using m f
  proof (cases rule: getrec_cases [where drv = drv and w = w])
    case (ok b s')
    then show thesis by (intro that [of b s']) (auto simp: sees_def)
  next
    case (failed e s' V' dmp' n' rec')
    then show thesis using d by (auto simp: driver_ok_def)
  qed
qed

section \<open>The cache after initialisation\<close>

definition raw_disk :: "fsst \<Rightarrow> adisk" where
  "raw_disk s dmp n rec = disk s (m_drvnum (dmds s dmp)) (rec + m_recoff (dmds s dmp) n)"

lemma bufl_init_sees:
  assumes "\<forall>dmp. mounted s dmp \<longrightarrow> layout_ok (dmds s dmp)"
    and p: "p = balloc_stram (4 * (20 + m))" "p \<noteq> 0"
  shows "\<exists>s'. bufl_init balloc_stram m s = Some s' \<and> rest s' = rest s
    \<and> sees_on [p, p + (20 + m)] [p + 2 * (20 + m), p + 3 * (20 + m)] s' (raw_disk s)"
proof -
  define n where "n = 20 + m"
  have n: "n > 0" by (simp add: n_def)
  obtain s' where s': "bufl_init balloc_stram m s = Some s'"
    and l: "bufl_fat s' = p" "bufl_data s' = p + 2 * n"
      "b_link s' = (b_link s)(p := p + n, p + n := 0, p + 2 * n := p + 2 * n + n, p + 2 * n + n := 0)"
    and d: "b_bufdrv s' = (b_bufdrv s)(p := - 1, p + n := - 1, p + 2 * n := - 1, p + 2 * n + n := - 1)"
    and e: "disk s' = disk s" "dmds s' = dmds s" "drvtbl s' = drvtbl s" "rest s' = rest s"
    using p by (simp add: bufl_init_def create_chain_def NUMBUFS_def sizeof_BCB_def Let_def numeral_2_eq_2
        eval_nat_numeral n_def rest_def)
  have m: "mounted s' = mounted s" using e by (intro mounted_cong)
  have a: "p + 3 * n = p + 2 * n + n" by simp
  have "lists_ok [p, p + n] [p + 2 * n, p + 3 * n] s'" unfolding a using n p l by (simp add: lists_ok_def)
  moreover have dd: "\<forall>b \<in> set [p, p + n] \<union> set [p + 2 * n, p + 3 * n]. b_bufdrv s' b = - 1" unfolding a d using n by auto
  then have "bufs_ok (set [p, p + n]) (set [p + 2 * n, p + 3 * n]) s'"
    by (intro bufs_okI) (use assms(1) m e in \<open>auto simp: buf_ok_def\<close>)
  moreover have "has_all (set [p, p + n] \<union> set [p + 2 * n, p + 3 * n]) s' (raw_disk s)"
    unfolding has_all_def
  proof (intro allI impI)
    fix dmp t rec
    assume "mounted s' dmp"
    then have "0 \<le> m_drvnum (dmds s dmp)" using assms(1) by (simp add: m layout_ok_def)
    with dd show "has_rec (set [p, p + n] \<union> set [p + 2 * n, p + 3 * n]) s' dmp t rec (raw_disk s dmp t rec)"
      by (auto simp: has_rec_def cached_def raw_disk_def e)
  qed
  ultimately show ?thesis using s' e(4) unfolding n_def by (auto simp: sees_on_def)
qed

text \<open>
  A small FAT12 floppy in drive A: one FAT record, kept twice, seven root directory records,
  clusters of two 512-byte records; the FAT descriptor is at 2000, the root directory's at
  3000 and that of a file starting at cluster 2, of 1500 bytes, at 4000.
\<close>

definition floppy_dmd :: dmd where
  "floppy_dmd = \<lparr>m_recoff = (\<lambda>n. if n = BT_FAT then 2 else if n = BT_ROOT then 3 else 10), m_drvnum = 0,
     m_fsiz = 1, m_clsiz = 2, m_clsizb = 1024, m_recsiz = 512, m_numcl = 100, m_clrlog = 1, m_clrm = 1,
     m_rblog = 9, m_rbm = 511, m_clblog = 10, m_clbm = 1023, m_fatofd = 2000, m_dtl = 5000,
     m_16 = False, m_1fat = False\<rparr>"

lemma floppy_dmd_sel [simp]:
  "m_recoff floppy_dmd n = (if n = BT_FAT then 2 else if n = BT_ROOT then 3 else 10)"
  "m_drvnum floppy_dmd = 0" "m_fsiz floppy_dmd = 1" "m_clsiz floppy_dmd = 2" "m_clsizb floppy_dmd = 1024"
  "m_recsiz floppy_dmd = 512" "m_numcl floppy_dmd = 100" "m_clrlog floppy_dmd = 1" "m_clrm floppy_dmd = 1"
  "m_rblog floppy_dmd = 9" "m_rbm floppy_dmd = 511" "m_clblog floppy_dmd = 10" "m_clbm floppy_dmd = 1023"
  "m_fatofd floppy_dmd = 2000" "m_dtl floppy_dmd = 5000" "\<not> m_16 floppy_dmd" "\<not> m_1fat floppy_dmd"
  by (simp_all add: floppy_dmd_def)

definition zero_ofd :: ofd where
  "zero_ofd = \<lparr>o_link = 0, o_dfd = 0, o_dmd = 0, o_dnode = 0, o_dirfil = 0, o_dirbyt = 0, o_bytnum = 0,
     o_curcl = 0, o_currec = 0, o_curbyt = 0, o_thread = 0, o_mod = 0\<rparr>"

definition zero_dfd :: dfd where
  "zero_dfd = \<lparr>o_flag = 0, o_usecnt = 0, o_date = 0, o_time = 0, o_strtcl = 0, o_fileln = 0\<rparr>"

definition floppy_fs :: "(nat \<Rightarrow> sector) \<Rightarrow> fsst" where
  "floppy_fs dk = \<lparr>bufl_fat = 0, bufl_data = 0, b_link = (\<lambda>_. 0), b_bufdrv = (\<lambda>_. 0), b_bufrec = (\<lambda>_. 0),
     b_buftyp = (\<lambda>_. 0), b_dirty = (\<lambda>_. False), b_dm = (\<lambda>_. 0), b_bufr = (\<lambda>_ _. 0), disk = (\<lambda>_. dk),
     errdrv = 0, errcode = 0, drvtbl = (\<lambda>d. if d = 0 then 1000 else 0), dmds = (\<lambda>_. floppy_dmd),
     ofds = (\<lambda>p. zero_ofd\<lparr>o_dfd := p, o_dmd := 1000, o_dnode := if p = 4000 then 5000 else 0\<rparr>),
     dfds = (\<lambda>p. zero_dfd\<lparr>o_strtcl := 2, o_fileln := 1500\<rparr>),
     dnds = (\<lambda>_. \<lparr>d_strtcl = 2, d_ofd = 3000, d_drv = 1000, d_files = 0\<rparr>),
     sft = (\<lambda>_. \<lparr>f_ofd = 0, f_own = 0, f_use = 0\<rparr>), p_uft = (\<lambda>_ _. 0), run = 1, umem = (\<lambda>_. 0),
     pool = boot_osm 4096\<rparr>"

definition floppy :: "(nat \<Rightarrow> sector) \<Rightarrow> fsst" where
  "floppy dk = the (bufl_init (\<lambda>_. 100) 512 (floppy_fs dk))"

definition quiet :: driver where
  "quiet = \<lparr>d_rwabs = (\<lambda>_ _ _ _. 0), d_mediach = (\<lambda>_. 0)\<rparr>"

definition bad_reads :: driver where
  "bad_reads = \<lparr>d_rwabs = (\<lambda>w c r d. if w then 0 else - 11), d_mediach = (\<lambda>_. 0)\<rparr>"

definition count_disk :: "nat \<Rightarrow> sector" where
  "count_disk r i = of_nat (r + i)"

lemma quiet_ok [simp]: "driver_ok quiet"
  by (simp add: driver_ok_def quiet_def)

lemma floppy_mounted [simp]: "mounted (floppy_fs dk) dmp \<longleftrightarrow> dmp = 1000"
  by (auto simp: mounted_def floppy_fs_def floppy_dmd_def)

lemma floppy_sees:
  "sees_on [100, 632] [1164, 1696] (floppy dk) (raw_disk (floppy_fs dk)) \<and> rest (floppy dk) = rest (floppy_fs dk)"
proof -
  have "layout_ok (dmds (floppy_fs dk) 1000)"
    by (simp add: floppy_fs_def floppy_dmd_def layout_ok_def bt_defs)
  then show ?thesis
    using bufl_init_sees [of "floppy_fs dk" 100 "\<lambda>_. 100" 512] by (auto simp: floppy_def)
qed

lemma floppy_sel [simp]:
  "ofds (floppy dk) = ofds (floppy_fs dk)" "dmds (floppy dk) = dmds (floppy_fs dk)"
  "dfds (floppy dk) = dfds (floppy_fs dk)" "mounted (floppy dk) dmp \<longleftrightarrow> dmp = 1000"
  using rest_sel [OF conjunct2 [OF floppy_sees]] by auto

lemma floppy_file:
  "o_dmd (ofds (floppy dk) 4000) = 1000" "ofd_typ (floppy dk) 4000 = BT_DATA"
  "o_dmd (ofds (floppy_fs dk) 4000) = 1000" "dmds (floppy_fs dk) 1000 = floppy_dmd"
  "disk (floppy_fs dk) 0 = dk"
  by (simp_all add: ofd_typ_def floppy_fs_def floppy_dmd_def zero_ofd_def)

section \<open>Properties of the cache\<close>

text \<open>
  C2. The sector cache is transparent. While the driver reports no error, \<open>getrec\<close> always
  returns a buffer holding the current content of the record asked for, whether it was
  cached, an invalid buffer was free, or the least recently used buffer had to be written
  back and recycled; no record of any mounted drive changes; the buffer is at the front of
  its list and the other buffers keep their order; and what the caller then stores into
  a buffer obtained for writing becomes the content of that record and of no other.
\<close>

theorem getrec_transparent:
  assumes "sees_on F D s V" and "driver_ok drv"
    and "mounted s (o_dmd (ofds s f))" "rec_ok (dmds s (o_dmd (ofds s f))) (ofd_typ s f) rec"
  shows "\<exists>b s' F' D'. getrec drv rec f w s = Some (Inr b, s') \<and> sees_on F' D' s' V
    \<and> b_bufr s' b = V (o_dmd (ofds s f)) (ofd_typ s f) rec \<and> rest s' = rest s
    \<and> blist (ofd_typ s f) F' D' = b # remove1 b (blist (ofd_typ s f) F D)
    \<and> set F' = set F \<and> set D' = set D
    \<and> (w \<longrightarrow> (\<forall>g. sees_on F' D' (stored b g s') (upd3 V (o_dmd (ofds s f)) (ofd_typ s f) rec g)))"
  using assms(1,3,4) refl refl
proof (cases rule: getrec_cases [where drv = drv and w = w])
  case (ok b s')
  show ?thesis
    by (intro exI [of _ b] exI [of _ s'] exI [of _ "fat_list (ofd_typ s f) b F"]
        exI [of _ "data_list (ofd_typ s f) b D"])
       (use ok front_sets [OF ok(2)] in \<open>simp add: blist_def fat_list_def data_list_def fronted_def\<close>)
next
  case (failed e s' V' dmp' n' rec')
  with assms(2) show ?thesis by (auto simp: driver_ok_def)
qed

theorem getrec_transparent_witness:
  "\<exists>b s'. getrec quiet 3 4000 True (floppy count_disk) = Some (Inr b, s')
     \<and> b_bufr s' b 5 = 18"
  using getrec_transparent [OF conjunct1 [OF floppy_sees] quiet_ok, of count_disk 4000 3 True]
  by (auto simp: rec_ok_def raw_disk_def floppy_file count_disk_def bt_defs)



end
