(* ===== verification/FsFat.thy ===== *)
theory FsFat
  imports BufCache
begin

text \<open>
  bdos/fsfat.c: the file allocation table. An entry is found at a byte position of the FAT,
  two bytes per cluster for a 16-bit table, one and a half for a 12-bit one, whose entries
  may span two records. The lemmas relate the operations, which go through the sector
  cache, to the table as a map from clusters to entries: reading gives the entry, writing
  changes one entry, the searches find a free cluster exactly when there is one, and
  \<open>nextcl\<close> follows or extends a file's chain.
\<close>

definition FREECLUSTER :: nat where "FREECLUSTER = 0x0000"
definition ENDOFCHAIN :: nat where "ENDOFCHAIN = 0xffff"

definition endofchain :: "nat \<Rightarrow> bool" where
  "endofchain a \<longleftrightarrow> a AND 0xfff8 = 0xfff8"

definition cl2rec :: "nat \<Rightarrow> dmd \<Rightarrow> nat" where
  "cl2rec cl dm = push_bit (m_clrlog dm) ((cl + 65534) mod 65536) mod 2 ^ 32"

text \<open>Byte position of an entry in the FAT.\<close>

definition fat_offset :: "nat \<Rightarrow> dmd \<Rightarrow> nat" where
  "fat_offset cl dm = (if m_16 dm then push_bit 1 cl else cl + drop_bit 1 cl)"

definition clfix :: "driver \<Rightarrow> nat \<Rightarrow> nat \<Rightarrow> nat \<Rightarrow> fsst \<Rightarrow> unit res" where
  "clfix drv cl link dmp s =
     (let dm = dmds s dmp; f = m_fatofd dm;
          recnum = drop_bit (m_rblog dm) (fat_offset cl dm);
          offset = fat_offset cl dm AND m_rbm dm
      in if m_16 dm then
           bind_res (getrec drv recnum f True s) (\<lambda>b s.
           ret () (stored b ((b_bufr s b)(offset := of_nat link, offset + 1 := of_nat (drop_bit 8 link))) s))
         else
         let mask = (if odd cl then 0x000f else 0xf000);
             link = (if odd cl then push_bit 4 link mod 65536 else link AND 0x0fff);
             spans = (int (m_recsiz dm) - int offset = 1)
         in bind_res (getrec drv recnum f False s) (\<lambda>b s.
            let lo = unat (b_bufr s b offset) in
            bind_res (if spans then bind_res (getrec drv (recnum + 1) f False s) (\<lambda>b s. ret (b_bufr s b 0) s)
                      else ret (b_bufr s b (offset + 1)) s) (\<lambda>hi s.
            let fx = (lo OR push_bit 8 (unat hi)) AND mask OR link in
            bind_res (getrec drv recnum f True s) (\<lambda>b s.
            let s = stored b ((b_bufr s b)(offset := of_nat fx)) s in
            if spans then bind_res (getrec drv (recnum + 1) f True s) (\<lambda>b s.
              ret () (stored b ((b_bufr s b)(0 := of_nat (drop_bit 8 fx))) s))
            else ret () (stored b ((b_bufr s b)(offset + 1 := of_nat (drop_bit 8 fx))) s)))))"

definition getrealcl :: "driver \<Rightarrow> nat \<Rightarrow> nat \<Rightarrow> fsst \<Rightarrow> nat res" where
  "getrealcl drv cl dmp s =
     (let dm = dmds s dmp; f = m_fatofd dm;
          recnum = drop_bit (m_rblog dm) (fat_offset cl dm);
          offset = fat_offset cl dm AND m_rbm dm
      in bind_res (getrec drv recnum f False s) (\<lambda>b s.
         if m_16 dm then ret (unat (b_bufr s b offset) + 256 * unat (b_bufr s b (offset + 1))) s
         else
         let lo = unat (b_bufr s b offset) in
         bind_res (if int (m_recsiz dm) - int offset = 1
                   then bind_res (getrec drv (recnum + 1) f False s) (\<lambda>b s. ret (b_bufr s b 0) s)
                   else ret (b_bufr s b (offset + 1)) s) (\<lambda>hi s.
         let fx = lo OR push_bit 8 (unat hi);
             cl = (if odd cl then drop_bit 4 fx else fx AND 0x0fff)
         in ret (if cl AND 0x0ff8 = 0x0ff8 then ENDOFCHAIN else cl) s)))"

definition getclnum :: "driver \<Rightarrow> nat \<Rightarrow> nat \<Rightarrow> fsst \<Rightarrow> nat res" where
  "getclnum drv cl p s =
     (if o_dnode (ofds s p) = 0 then ret ((cl + 1) mod 65536) s
      else getrealcl drv cl (o_dmd (ofds s p)) s)"

text \<open>The inner loop of \<open>findfree16\<close>, over one record: the free cluster, or where to go on.\<close>

function scan16 :: "sector \<Rightarrow> nat \<Rightarrow> nat \<Rightarrow> nat \<Rightarrow> nat \<Rightarrow> bool \<times> nat" where
  "scan16 buf recsiz lim offset clnum =
     (if offset < recsiz \<and> clnum < lim
      then if buf offset = 0 \<and> buf (offset + 1) = 0 then (True, clnum)
           else scan16 buf recsiz lim (offset + 2) (clnum + 1)
      else (False, clnum))"
  by pat_completeness auto

termination
  by (relation "measure (\<lambda>(b, r, lim, off, cl). lim - cl)") auto

declare scan16.simps [simp del]

lemma bind_res_cong [fundef_cong]:
  "m = m' \<Longrightarrow> (\<And>a s. m' = Some (Inr a, s) \<Longrightarrow> f a s = g a s) \<Longrightarrow> bind_res m f = bind_res m' g"
  by (auto simp: bind_res_def split: option.splits sum.splits)

text \<open>The outer loop; \<open>None\<close> stands for an iteration that makes no progress.\<close>

function findfree16_loop :: "driver \<Rightarrow> nat \<Rightarrow> nat \<Rightarrow> nat \<Rightarrow> fsst \<Rightarrow> nat res" where
  "findfree16_loop drv dmp lim clnum s =
     (if clnum < lim then
        let dm = dmds s dmp;
            recnum = drop_bit (m_rblog dm) (clnum * 2);
            offset = (clnum * 2) AND m_rbm dm
        in bind_res (getrec drv recnum (m_fatofd dm) False s) (\<lambda>b s.
           case scan16 (b_bufr s b) (m_recsiz dm) lim offset clnum of
             (True, cl) \<Rightarrow> ret cl s
           | (False, cl) \<Rightarrow> if cl \<le> clnum then None else findfree16_loop drv dmp lim cl s)
      else ret 0 s)"
  by pat_completeness auto

termination
  by (relation "measure (\<lambda>(drv, dmp, lim, cl, s). lim - cl)") auto

declare findfree16_loop.simps [simp del]

definition findfree16 :: "driver \<Rightarrow> nat \<Rightarrow> fsst \<Rightarrow> nat res" where
  "findfree16 drv dmp s = findfree16_loop drv dmp (m_numcl (dmds s dmp) + 2) 2 s"

primrec findfree_loop :: "driver \<Rightarrow> nat \<Rightarrow> nat \<Rightarrow> nat \<Rightarrow> fsst \<Rightarrow> nat res" where
  "findfree_loop drv dmp 0 cl s = ret 0 s"
| "findfree_loop drv dmp (Suc k) cl s =
     bind_res (getrealcl drv cl dmp s) (\<lambda>v s.
     if v = 0 then ret cl s
     else findfree_loop drv dmp k ((if cl = m_numcl (dmds s dmp) + 1 then 1 else cl) + 1) s)"

definition findfree :: "driver \<Rightarrow> nat \<Rightarrow> nat \<Rightarrow> fsst \<Rightarrow> nat res" where
  "findfree drv cl dmp s =
     (if cl = 0 \<and> m_16 (dmds s dmp) then findfree16 drv dmp s
      else findfree_loop drv dmp (m_numcl (dmds s dmp)) (if cl < 2 then 2 else cl) s)"

definition set_ofd :: "nat \<Rightarrow> (ofd \<Rightarrow> ofd) \<Rightarrow> fsst \<Rightarrow> fsst" where
  "set_ofd p f s = s\<lparr>ofds := (ofds s)(p := f (ofds s p))\<rparr>"

definition set_dfd :: "nat \<Rightarrow> (dfd \<Rightarrow> dfd) \<Rightarrow> fsst \<Rightarrow> fsst" where
  "set_dfd p f s = s\<lparr>dfds := (dfds s)(p := f (dfds s p))\<rparr>"

text \<open>The allocation branch of \<open>nextcl\<close>: \<open>None\<close> when the disk is full.\<close>

definition nextcl_alloc :: "driver \<Rightarrow> nat \<Rightarrow> nat \<Rightarrow> fsst \<Rightarrow> nat option res" where
  "nextcl_alloc drv p cl s =
     (let dmp = o_dmd (ofds s p); dfd = o_dfd (ofds s p) in
      bind_res (findfree drv cl dmp s) (\<lambda>cl2 s.
      if cl2 = 0 then ret None s
      else bind_res (clfix drv cl2 ENDOFCHAIN dmp s) (\<lambda>_ s.
           bind_res (if cl \<noteq> 0 then clfix drv cl cl2 dmp s
                     else ret () (set_dfd dfd (\<lambda>d. d\<lparr>o_strtcl := cl2, o_flag := o_flag d OR O_DIRTY\<rparr>) s)) (\<lambda>_ s.
           ret (Some cl2) s))))"

definition nextcl :: "driver \<Rightarrow> nat \<Rightarrow> bool \<Rightarrow> fsst \<Rightarrow> int res" where
  "nextcl drv p wrtflg s =
     (let cl = o_curcl (ofds s p); dmp = o_dmd (ofds s p); strtcl = o_strtcl (dfds s (o_dfd (ofds s p))) in
      bind_res (if cl = 0 then ret (if strtcl \<noteq> 0 then strtcl else ENDOFCHAIN) s
                else if o_dnode (ofds s p) = 0 then ret ((cl + 1) mod 65536) s
                else getrealcl drv cl dmp s) (\<lambda>cl2 s.
      bind_res (if wrtflg \<and> endofchain cl2 then nextcl_alloc drv p cl s else ret (Some cl2) s) (\<lambda>r s.
      case r of
        None \<Rightarrow> ret (- 1) s
      | Some cl2 \<Rightarrow>
          if endofchain cl2 then ret (- 1) s
          else ret E_OK (set_ofd p (\<lambda>f. f\<lparr>o_curcl := cl2, o_currec := cl2rec cl2 (dmds s dmp), o_curbyt := 0\<rparr>) s))))"

section \<open>The table as a map\<close>

text \<open>What \<open>log_media\<close> and a valid boot sector establish of a volume.\<close>

definition dmd_ok :: "dmd \<Rightarrow> bool" where
  "dmd_ok dm \<longleftrightarrow> layout_ok dm \<and> 1 \<le> m_rblog dm \<and> m_recsiz dm = 2 ^ m_rblog dm \<and> m_rbm dm = mask (m_rblog dm)
     \<and> m_clsiz dm = 2 ^ m_clrlog dm \<and> m_clrm dm = mask (m_clrlog dm)
     \<and> m_clblog dm = m_clrlog dm + m_rblog dm \<and> m_clblog dm \<le> 15
     \<and> m_clsizb dm = 2 ^ m_clblog dm \<and> m_clbm dm = mask (m_clblog dm)
     \<and> m_numcl dm + 2 \<le> (if m_16 dm then 0xfff0 else 0xff0)
     \<and> fat_offset (m_numcl dm + 1) dm + 1 < m_fsiz dm * m_recsiz dm"

definition vol_ok :: "fsst \<Rightarrow> nat \<Rightarrow> bool" where
  "vol_ok s dmp \<longleftrightarrow> mounted s dmp \<and> dmd_ok (dmds s dmp) \<and> o_dmd (ofds s (m_fatofd (dmds s dmp))) = dmp"

text \<open>A cluster number that names a cluster of the volume.\<close>

definition is_cl :: "dmd \<Rightarrow> nat \<Rightarrow> bool" where
  "is_cl dm c \<longleftrightarrow> 2 \<le> c \<and> c < m_numcl dm + 2"

text \<open>The FAT as one run of bytes, and the byte at a position changed.\<close>

definition fat_byte :: "dmd \<Rightarrow> nat \<Rightarrow> adisk \<Rightarrow> nat \<Rightarrow> byte" where
  "fat_byte dm dmp V i = V dmp BT_FAT (i div m_recsiz dm) (i mod m_recsiz dm)"

definition fat_put :: "dmd \<Rightarrow> nat \<Rightarrow> nat \<Rightarrow> byte \<Rightarrow> adisk \<Rightarrow> adisk" where
  "fat_put dm dmp i v V =
     upd3 V dmp BT_FAT (i div m_recsiz dm) ((V dmp BT_FAT (i div m_recsiz dm))(i mod m_recsiz dm := v))"

text \<open>The entry as stored, and as \<open>getrealcl\<close> reports it.\<close>

definition raw_entry :: "dmd \<Rightarrow> (nat \<Rightarrow> byte) \<Rightarrow> nat \<Rightarrow> nat" where
  "raw_entry dm fb cl =
     (let i = fat_offset cl dm; w = unat (fb i) + 256 * unat (fb (i + 1)) in
      if m_16 dm then w else if odd cl then w div 16 else w mod 4096)"

definition entry :: "dmd \<Rightarrow> nat \<Rightarrow> adisk \<Rightarrow> nat \<Rightarrow> nat" where
  "entry dm dmp V cl =
     (let e = raw_entry dm (fat_byte dm dmp V) cl in
      if \<not> m_16 dm \<and> e AND 0x0ff8 = 0x0ff8 then ENDOFCHAIN else e)"

lemma fat_byte_put: "fat_byte dm dmp (fat_put dm dmp i v V) = (fat_byte dm dmp V)(i := v)"
proof
  fix j
  have "j div m_recsiz dm = i div m_recsiz dm \<Longrightarrow> j mod m_recsiz dm = i mod m_recsiz dm \<Longrightarrow> j = i"
    by (metis div_mult_mod_eq)
  then show "fat_byte dm dmp (fat_put dm dmp i v V) j = ((fat_byte dm dmp V)(i := v)) j"
    by (auto simp: fat_byte_def fat_put_def upd3_def)
qed

lemma fat_put_other:
  "n \<noteq> BT_FAT \<or> dmp' \<noteq> dmp \<Longrightarrow> fat_put dm dmp i v V dmp' n rec = V dmp' n rec"
  by (auto simp: fat_put_def upd3_def)

lemma fat_offset_mono: "c \<le> c' \<Longrightarrow> fat_offset c dm \<le> fat_offset c' dm"
  by (simp add: fat_offset_def push_bit_eq_mult drop_bit_eq_div add_le_mono div_le_mono)

text \<open>The positions of a cluster's entry are in the FAT.\<close>

lemma fat_pos_ok:
  assumes "dmd_ok dm" "c < m_numcl dm + 2" "i \<le> fat_offset c dm + 1"
  shows "rec_ok dm BT_FAT (i div m_recsiz dm)"
proof -
  have "fat_offset (m_numcl dm + 1) dm + 1 < m_fsiz dm * m_recsiz dm" using assms(1) unfolding dmd_ok_def by blast
  moreover have "fat_offset c dm \<le> fat_offset (m_numcl dm + 1) dm" using assms(2) by (intro fat_offset_mono) simp
  ultimately have "i < m_fsiz dm * m_recsiz dm" using assms(3) by linarith
  then show ?thesis by (simp add: rec_ok_def less_mult_imp_div_less)
qed

lemma rec_split:
  assumes "dmd_ok dm"
  shows "drop_bit (m_rblog dm) i = i div m_recsiz dm" "i AND m_rbm dm = i mod m_recsiz dm" "2 \<le> m_recsiz dm"
proof -
  show "drop_bit (m_rblog dm) i = i div m_recsiz dm" "i AND m_rbm dm = i mod m_recsiz dm"
    using assms by (simp_all add: dmd_ok_def drop_bit_eq_div take_bit_eq_mask [symmetric] take_bit_eq_mod)
  show "2 \<le> m_recsiz dm" using assms self_le_power [of 2 "m_rblog dm"] by (simp add: dmd_ok_def)
qed

text \<open>Stepping to the next byte: in the same record, or at the start of the next one.\<close>

lemma next_byte:
  assumes "(2 :: nat) \<le> n"
  shows "int n - int (i mod n) = 1 \<Longrightarrow> (i + 1) div n = i div n + 1 \<and> (i + 1) mod n = 0"
    and "int n - int (i mod n) \<noteq> 1 \<Longrightarrow> (i + 1) div n = i div n \<and> (i + 1) mod n = i mod n + 1"
proof -
  show "(i + 1) div n = i div n + 1 \<and> (i + 1) mod n = 0" if "int n - int (i mod n) = 1"
  proof -
    from that have "Suc (i mod n) = n" by linarith
    then show ?thesis by (simp add: mod_Suc div_Suc)
  qed
  show "(i + 1) div n = i div n \<and> (i + 1) mod n = i mod n + 1" if "int n - int (i mod n) \<noteq> 1"
  proof -
    from that have "Suc (i mod n) \<noteq> n" by linarith
    then show ?thesis by (simp add: mod_Suc div_Suc)
  qed
qed


section \<open>Packing\<close>

lemma or_is_add: "(a :: nat) < 2 ^ k \<Longrightarrow> a OR push_bit k b = a + 2 ^ k * b"
proof -
  assume a: "a < 2 ^ k"
  then have "take_bit k a = a" by (simp add: take_bit_nat_eq_self)
  then have "\<not> bit a n" if "k \<le> n" for n using bit_take_bit_iff [of k a n] that by simp
  then have "a AND push_bit k b = 0" by (intro bit_eqI) (auto simp: bit_and_iff bit_push_bit_iff)
  then have "a + push_bit k b = a OR push_bit k b" by (rule disjunctive_add_eq_or)
  then show ?thesis by (simp add: push_bit_eq_mult mult.commute)
qed

lemma unat_byte: "unat (of_nat n :: byte) = n mod 256"
  by (simp add: unat_of_nat)

lemma byte_less: "unat (b :: byte) < 256"
  using unsigned_less [of b] by simp

lemma low_bits: "(x :: nat) AND 0x0fff = x mod 4096" "x AND 0x000f = x mod 16"
  using take_bit_eq_mask [of 12 x] take_bit_eq_mask [of 4 x]
  by (simp_all add: take_bit_eq_mod mask_eq_exp_minus_1)

lemma drop_bit_8: "drop_bit 8 (x :: nat) = x div 256"
  by (simp add: drop_bit_eq_div)

lemma high_nibble: "(x :: nat) < 65536 \<Longrightarrow> x AND 0xf000 = x div 4096 * 4096"
proof -
  assume x: "x < 65536"
  have "(0xf000 :: nat) = push_bit 12 (mask 4)" by (simp add: mask_eq_exp_minus_1 push_bit_eq_mult)
  moreover have "x AND push_bit 12 (mask 4) = push_bit 12 (take_bit 4 (drop_bit 12 x))"
    by (rule bit_eqI) (auto simp: bit_and_iff bit_push_bit_iff bit_mask_iff bit_take_bit_iff bit_drop_bit_eq)
  ultimately have "x AND 0xf000 = push_bit 12 (take_bit 4 (drop_bit 12 x))" by simp
  also have "take_bit 4 (drop_bit 12 x) = x div 4096"
    using x by (simp add: take_bit_eq_mod drop_bit_eq_div less_mult_imp_div_less)
  finally show ?thesis by (simp add: push_bit_eq_mult)
qed

text \<open>The word that \<open>clfix\<close> writes back to a 12-bit table.\<close>

definition pack12 :: "nat \<Rightarrow> nat \<Rightarrow> nat \<Rightarrow> nat" where
  "pack12 cl w link = (if odd cl then w mod 16 + 16 * (link mod 4096) else link mod 4096 + 4096 * (w div 4096))"

lemma pack12_less: "w < 65536 \<Longrightarrow> pack12 cl w link < 65536"
proof -
  assume w: "w < 65536"
  have "link mod 4096 < 4096" "w mod 16 < 16" by simp_all
  moreover have "w div 4096 < 16" using w by (simp add: less_mult_imp_div_less)
  ultimately have "w mod 16 + 16 * (link mod 4096) < 65536" "link mod 4096 + 4096 * (w div 4096) < 65536"
    by linarith+
  then show ?thesis by (simp add: pack12_def)
qed

lemma pack12_bits:
  assumes "w < 65536"
  shows "w AND (if odd cl then 0x000f else 0xf000) OR (if odd cl then push_bit 4 link mod 65536 else link AND 0x0fff)
    = pack12 cl w link"
proof (cases "odd cl")
  case True
  have "push_bit 4 link mod 65536 = push_bit 4 (link mod 4096)"
    using mod_mult_mult2 [of link 16 4096] by (simp add: push_bit_eq_mult)
  then show ?thesis using True or_is_add [of "w mod 16" 4 "link mod 4096"]
    by (simp add: pack12_def low_bits)
next
  case False
  have "w div 4096 * 4096 = push_bit 12 (w div 4096)" by (simp add: push_bit_eq_mult)
  then show ?thesis using False or_is_add [of "link mod 4096" 12 "w div 4096"] high_nibble [OF assms]
    by (simp add: pack12_def low_bits or.commute)
qed

definition put2 :: "nat \<Rightarrow> nat \<Rightarrow> (nat \<Rightarrow> byte) \<Rightarrow> nat \<Rightarrow> byte" where
  "put2 i w fb = fb(i := of_nat w, i + 1 := of_nat (w div 256))"

text \<open>Writing the packed word sets the entry and no other.\<close>

lemma two_bytes: "(x :: nat) mod 256 + 256 * (x div 256 mod 256) = x mod 65536"
  using mod_mult2_eq [of x 256 256] by simp

lemma pack12_neighbours:
  assumes "a < 256" "b < 256" "w = a + 256 * (b :: nat)"
  shows "even cl \<Longrightarrow> pack12 cl w link div 256 mod 256 div 16 = b div 16"
    and "odd cl \<Longrightarrow> pack12 cl w link mod 256 mod 16 = a mod 16"
proof -
  show "pack12 cl w link div 256 mod 256 div 16 = b div 16" if "even cl"
  proof -
    have "w div 4096 = b div 16" using assms div_mult2_eq [of w 256 16] by simp
    then have "pack12 cl w link div 256 = link mod 4096 div 256 + 16 * (b div 16)"
      using that div_mult_self2 [of 256 "link mod 4096" "16 * (b div 16)"] by (simp add: pack12_def)
    moreover have "link mod 4096 div 256 < 16" by (simp add: less_mult_imp_div_less)
    moreover have "b div 16 < 16" using assms(2) by (simp add: less_mult_imp_div_less)
    ultimately show ?thesis by simp
  qed
  show "pack12 cl w link mod 256 mod 16 = a mod 16" if "odd cl"
  proof -
    have "pack12 cl w link mod 16 = w mod 16" using that by (simp add: pack12_def)
    also have "\<dots> = a mod 16" using assms(3) mod_mult_self2 [of a 16 "16 * b"] by simp
    finally show ?thesis by (simp add: mod_mod_cancel)
  qed
qed

lemma pack12_self:
  "pack12 cl w link mod 65536 = pack12 cl w link \<Longrightarrow>
   (if odd cl then pack12 cl w link div 16 else pack12 cl w link mod 4096) = link mod 4096"
  by (simp add: pack12_def)

lemma byte_word_div16: "(a :: nat) div 16 = a' div 16 \<Longrightarrow> (a + 256 * b) div 16 = (a' + 256 * b) div 16"
  using div_mult_self2 [of 16 a "16 * b"] div_mult_self2 [of 16 a' "16 * b"] by simp

lemma byte_word_mod4096:
  assumes "(b :: nat) mod 16 = b' mod 16"
  shows "(a + 256 * b) mod 4096 = (a + 256 * b') mod 4096"
proof -
  have "256 * b mod 4096 = 256 * b' mod 4096" using assms mod_mult_mult1 [of 256 b 16] mod_mult_mult1 [of 256 b' 16] by simp
  then show ?thesis by (metis mod_add_cong)
qed

lemma raw_entry_12:
  assumes "\<not> m_16 dm" and w: "w = unat (fb (fat_offset cl dm)) + 256 * unat (fb (fat_offset cl dm + 1))"
  shows "raw_entry dm (put2 (fat_offset cl dm) (pack12 cl w link) fb) c
    = (if c = cl then link mod 4096 else raw_entry dm fb c)"
proof -
  let ?P = "pack12 cl w link" and ?o = "fat_offset cl dm"
  have "w < 65536" using w byte_less [of "fb ?o"] byte_less [of "fb (?o + 1)"] by linarith
  then have P: "?P mod 65536 = ?P" using pack12_less [of w cl link] by simp
  have off: "fat_offset x dm = (if even x then 3 * (x div 2) else 3 * (x div 2) + 1)" for x
    using assms(1) by (auto simp: fat_offset_def drop_bit_eq_div elim!: evenE oddE)
  note nb = pack12_neighbours [OF byte_less byte_less w]
  consider "c = cl" | "c \<noteq> cl" "c div 2 = cl div 2" | "c div 2 \<noteq> cl div 2" by blast
  then show ?thesis
  proof cases
    case 1
    then show ?thesis using assms(1) pack12_self [OF P] two_bytes [of ?P] P
      by (auto simp: raw_entry_def put2_def unat_byte)
  next
    case 2
    then have par: "even c \<noteq> even cl" by (metis dvd_mult_div_cancel odd_two_times_div_two_succ)
    show ?thesis
    proof (cases "even cl")
      case True
      then have o: "fat_offset c dm = ?o + 1" using off par 2(2) by simp
      show ?thesis using True par 2(1) assms(1) nb(1) byte_word_div16 [of "?P div 256 mod 256" "unat (fb (?o + 1))"]
        by (simp add: raw_entry_def o put2_def unat_byte)
    next
      case False
      then have o: "?o = fat_offset c dm + 1" using off par 2(2) by simp
      show ?thesis using False par 2(1) assms(1) nb(2) byte_word_mod4096 [of "?P mod 256" "unat (fb ?o)" "unat (fb (fat_offset c dm))"]
        by (simp add: raw_entry_def o put2_def unat_byte)
    qed
  next
    case 3
    then have "fat_offset c dm + 1 < ?o \<or> ?o + 1 < fat_offset c dm"
      using off [of c] off [of cl] by (auto split: if_splits)
    with 3 show ?thesis by (auto simp: raw_entry_def put2_def)
  qed
qed

lemma raw_entry_16:
  assumes "m_16 dm"
  shows "raw_entry dm (put2 (fat_offset cl dm) link fb) c
    = (if c = cl then link mod 65536 else raw_entry dm fb c)"
proof -
  have "unat (of_nat link :: byte) + 256 * unat (of_nat (link div 256) :: byte) = link mod 65536"
    unfolding unat_byte using mod_mult2_eq [of link 256 256] by simp
  moreover have "2 * c \<noteq> 2 * cl + 1" "2 * cl \<noteq> 2 * c + 1" by presburger+
  ultimately show ?thesis using assms
    by (auto simp: raw_entry_def fat_offset_def put2_def push_bit_eq_mult)
qed


section \<open>Reading and writing entries through the cache\<close>

lemma vol_ok_rest:
  assumes "rest s' = rest s"
  shows "vol_ok s' = vol_ok s"
  by (rule ext) (simp add: vol_ok_def rest_sel [OF assms])

lemma getrec_fat:
  assumes s: "sees s V" "driver_ok drv" and v: "vol_ok s dmp" "rec_ok (dmds s dmp) BT_FAT rec"
  obtains b s' where "getrec drv rec (m_fatofd (dmds s dmp)) w s = Some (Inr b, s')" "sees s' V"
    "b_bufr s' b = V dmp BT_FAT rec" "rest s' = rest s"
    "\<forall>g. w \<longrightarrow> sees (stored b g s') (upd3 V dmp BT_FAT rec g)"
proof -
  have "mounted s dmp" "o_dmd (ofds s (m_fatofd (dmds s dmp))) = dmp"
    "ofd_typ s (m_fatofd (dmds s dmp)) = BT_FAT"
    using v(1) by (simp_all add: vol_ok_def ofd_typ_def)
  with getrec_ok [OF s, of dmp BT_FAT rec "m_fatofd (dmds s dmp)" w] v(2) that show thesis by blast
qed

text \<open>One byte of the FAT, fetched and changed.\<close>

lemma fetch_byte:
  assumes s: "sees s V" "driver_ok drv" and v: "vol_ok s dmp" "c < m_numcl dm + 2" and d: "dmds s dmp = dm"
    and i: "i \<le> fat_offset c dm + 1"
  obtains b s' where "getrec drv (i div m_recsiz dm) (m_fatofd dm) w s = Some (Inr b, s')"
    "sees s' V" "rest s' = rest s"
    "\<forall>j. j div m_recsiz dm = i div m_recsiz dm \<longrightarrow> b_bufr s' b (j mod m_recsiz dm) = fat_byte dm dmp V j"
    "b_bufr s' b = V dmp BT_FAT (i div m_recsiz dm)"
    "\<forall>g. w \<longrightarrow> sees (stored b g s') (upd3 V dmp BT_FAT (i div m_recsiz dm) g)"
proof -
  have "dmd_ok dm" using v(1) d by (simp add: vol_ok_def)
  then have "rec_ok (dmds s dmp) BT_FAT (i div m_recsiz dm)" using v(2) i unfolding d by (rule fat_pos_ok)
  with s v(1) obtain b s' where
    "getrec drv (i div m_recsiz dm) (m_fatofd (dmds s dmp)) w s = Some (Inr b, s')" "sees s' V"
    "b_bufr s' b = V dmp BT_FAT (i div m_recsiz dm)" "rest s' = rest s"
    "\<forall>g. w \<longrightarrow> sees (stored b g s') (upd3 V dmp BT_FAT (i div m_recsiz dm) g)"
    by (rule getrec_fat)
  then show thesis by (intro that [of b s']) (simp_all add: fat_byte_def d)
qed

lemma even_offset:
  assumes "dmd_ok dm" "m_16 dm"
  shows "(fat_offset c dm + 1) div m_recsiz dm = fat_offset c dm div m_recsiz dm"
    "(fat_offset c dm + 1) mod m_recsiz dm = fat_offset c dm mod m_recsiz dm + 1"
proof -
  have "even (m_recsiz dm)" using assms by (simp add: dmd_ok_def)
  then have "even (fat_offset c dm mod m_recsiz dm)"
    using assms(2) by (simp add: fat_offset_def push_bit_eq_mult dvd_mod)
  then have "m_recsiz dm \<noteq> fat_offset c dm mod m_recsiz dm + 1"
    using \<open>even (m_recsiz dm)\<close> by (metis even_plus_one_iff)
  then have "int (m_recsiz dm) - int (fat_offset c dm mod m_recsiz dm) \<noteq> 1" by linarith
  with next_byte(2) [OF rec_split(3) [OF assms(1)]] show
    "(fat_offset c dm + 1) div m_recsiz dm = fat_offset c dm div m_recsiz dm"
    "(fat_offset c dm + 1) mod m_recsiz dm = fat_offset c dm mod m_recsiz dm + 1" by auto
qed

text \<open>The second byte of an entry, in the same record or at the start of the next.\<close>

lemma fetch_second:
  assumes s: "sees s1 V" "driver_ok drv" and v: "vol_ok s1 dmp" "c < m_numcl dm + 2"
    and d: "dmds s1 dmp = dm" and i: "i = fat_offset c dm"
    and b: "\<forall>j. j div m_recsiz dm = i div m_recsiz dm \<longrightarrow> b_bufr s1 b (j mod m_recsiz dm) = fat_byte dm dmp V j"
  obtains s2 where "(if int (m_recsiz dm) - int (i mod m_recsiz dm) = 1
      then bind_res (getrec drv (i div m_recsiz dm + 1) (m_fatofd dm) False s1) (\<lambda>b s. ret (b_bufr s b 0) s)
      else ret (b_bufr s1 b (i mod m_recsiz dm + 1)) s1) = Some (Inr (fat_byte dm dmp V (i + 1)), s2)"
    "sees s2 V" "rest s2 = rest s1"
proof (cases "int (m_recsiz dm) - int (i mod m_recsiz dm) = 1")
  have R: "2 \<le> m_recsiz dm" using v(1) d rec_split(3) [of dm] by (simp add: vol_ok_def)
  {
    case True
    obtain b' s2 where "getrec drv ((i + 1) div m_recsiz dm) (m_fatofd dm) False s1 = Some (Inr b', s2)"
      "sees s2 V" "rest s2 = rest s1" "b_bufr s2 b' ((i + 1) mod m_recsiz dm) = fat_byte dm dmp V (i + 1)"
      by (rule fetch_byte [OF s v d, of "i + 1" False]) (use i in simp, blast)
    with True next_byte(1) [OF R True] show thesis by (intro that [of s2]) (simp_all add: ret_def)
  next
    case False
    from next_byte(2) [OF R False] b have "b_bufr s1 b (i mod m_recsiz dm + 1) = fat_byte dm dmp V (i + 1)" by metis
    with False s show thesis by (intro that [of s1]) (simp_all add: ret_def)
  }
qed

lemma getrealcl_ok:
  assumes s: "sees s V" "driver_ok drv" and v: "vol_ok s dmp" "c < m_numcl (dmds s dmp) + 2"
  obtains s' where "getrealcl drv c dmp s = Some (Inr (entry (dmds s dmp) dmp V c), s')" "sees s' V" "rest s' = rest s"
proof -
  define dm where "dm = dmds s dmp"
  define i where "i = fat_offset c dm"
  have k: "dmd_ok dm" and c: "c < m_numcl dm + 2" using v by (simp_all add: vol_ok_def dm_def)
  note R = rec_split [OF k]
  let ?B = "fat_byte dm dmp V"
  obtain b s1 where g1: "getrec drv (i div m_recsiz dm) (m_fatofd dm) False s = Some (Inr b, s1)"
    and s1: "sees s1 V" "rest s1 = rest s"
    and b1: "\<forall>j. j div m_recsiz dm = i div m_recsiz dm \<longrightarrow> b_bufr s1 b (j mod m_recsiz dm) = ?B j"
    by (rule fetch_byte [OF s v(1) c dm_def [symmetric], of i False]) (simp add: i_def, blast)
  have lo: "b_bufr s1 b (i mod m_recsiz dm) = ?B i" using b1 by simp
  show thesis
  proof (cases "m_16 dm")
    case True
    then have "b_bufr s1 b (i mod m_recsiz dm + 1) = ?B (i + 1)"
      using b1 even_offset [OF k True, of c] by (metis i_def)
    with True g1 lo have "getrealcl drv c dmp s = Some (Inr (entry dm dmp V c), s1)"
      by (simp add: getrealcl_def Let_def R ret_def entry_def raw_entry_def i_def [symmetric] dm_def [symmetric])
    with s1 that show thesis by (simp add: dm_def)
  next
    case f12: False
    have d1: "dmds s1 dmp = dm" "vol_ok s1 dmp" "c < m_numcl dm + 2"
      using rest_sel(2) [OF s1(2)] vol_ok_rest [OF s1(2)] v by (simp_all add: dm_def)
    obtain s2 where s2: "(if int (m_recsiz dm) - int (i mod m_recsiz dm) = 1
        then bind_res (getrec drv (i div m_recsiz dm + 1) (m_fatofd dm) False s1) (\<lambda>b s. ret (b_bufr s b 0) s)
        else ret (b_bufr s1 b (i mod m_recsiz dm + 1)) s1) = Some (Inr (?B (i + 1)), s2)" "sees s2 V" "rest s2 = rest s1"
      by (rule fetch_second [OF s1(1) s(2) d1(2,3,1) i_def b1])
    have "unat (?B i) OR push_bit 8 (unat (?B (i + 1))) = unat (?B i) + 256 * unat (?B (i + 1))"
      using or_is_add [of "unat (?B i)" 8] byte_less [of "?B i"] by simp
    with f12 g1 lo s2(1) have "getrealcl drv c dmp s = Some (Inr (entry dm dmp V c), s2)"
      unfolding getrealcl_def Let_def dm_def [symmetric] i_def [symmetric] R(1,2)
      by (simp add: ret_def entry_def raw_entry_def Let_def i_def [symmetric] low_bits drop_bit_eq_div [of 4]
          del: One_nat_def)
    with s2 s1(2) that show thesis by (simp add: dm_def)
  qed
qed


text \<open>The abstract disk after \<open>clfix\<close>: the two bytes of the entry are put.\<close>

definition fat_set :: "dmd \<Rightarrow> nat \<Rightarrow> nat \<Rightarrow> nat \<Rightarrow> adisk \<Rightarrow> adisk" where
  "fat_set dm dmp cl link V =
     (let i = fat_offset cl dm; fb = fat_byte dm dmp V;
          w = (if m_16 dm then link else pack12 cl (unat (fb i) + 256 * unat (fb (i + 1))) link)
      in fat_put dm dmp (i + 1) (of_nat (w div 256)) (fat_put dm dmp i (of_nat w) V))"

lemma fat_set_other: "n \<noteq> BT_FAT \<or> dmp' \<noteq> dmp \<Longrightarrow> fat_set dm dmp cl link V dmp' n rec = V dmp' n rec"
  by (simp add: fat_set_def Let_def fat_put_other)

definition fat_link :: "dmd \<Rightarrow> nat \<Rightarrow> nat" where
  "fat_link dm link = (if m_16 dm then link mod 65536
     else if link mod 4096 AND 0x0ff8 = 0x0ff8 then ENDOFCHAIN else link mod 4096)"

lemma entry_fat_set:
  "entry dm dmp (fat_set dm dmp cl link V) c = (if c = cl then fat_link dm link else entry dm dmp V c)"
proof -
  let ?fb = "fat_byte dm dmp V" and ?i = "fat_offset cl dm"
  let ?w = "if m_16 dm then link else pack12 cl (unat (?fb ?i) + 256 * unat (?fb (?i + 1))) link"
  have "fat_byte dm dmp (fat_set dm dmp cl link V) = put2 ?i ?w ?fb"
    by (simp add: fat_set_def Let_def fat_byte_put put2_def)
  moreover have "raw_entry dm (put2 ?i ?w ?fb) c =
    (if c = cl then link mod (if m_16 dm then 65536 else 4096) else raw_entry dm ?fb c)"
    using raw_entry_12 [of dm _ ?fb cl link c] raw_entry_16 [of dm cl link ?fb c] by (cases "m_16 dm") simp_all
  ultimately show ?thesis by (auto simp: entry_def fat_link_def Let_def)
qed

lemma stored_stored [simp]: "stored b g (stored b f s) = stored b g s"
  by (simp add: stored_def)

lemma fat_put_twice:
  assumes "(i + 1) div m_recsiz dm = i div m_recsiz dm"
  shows "fat_put dm dmp (i + 1) h (fat_put dm dmp i l V) = upd3 V dmp BT_FAT (i div m_recsiz dm)
    ((V dmp BT_FAT (i div m_recsiz dm))(i mod m_recsiz dm := l, (i + 1) mod m_recsiz dm := h))"
  unfolding fat_put_def assms by (simp add: upd3_def fun_eq_iff)

text \<open>The two byte stores of \<open>clfix\<close> on a 12-bit table.\<close>

lemma put_second:
  assumes s: "sees s V" "driver_ok drv" and v: "vol_ok s dmp" "c < m_numcl dm + 2"
    and d: "dmds s dmp = dm" and i: "i = fat_offset c dm"
  obtains s' where "bind_res (getrec drv (i div m_recsiz dm) (m_fatofd dm) True s) (\<lambda>b s.
      let s = stored b ((b_bufr s b)(i mod m_recsiz dm := l)) s in
      if int (m_recsiz dm) - int (i mod m_recsiz dm) = 1
      then bind_res (getrec drv (i div m_recsiz dm + 1) (m_fatofd dm) True s) (\<lambda>b s.
        ret () (stored b ((b_bufr s b)(0 := h)) s))
      else ret () (stored b ((b_bufr s b)(i mod m_recsiz dm + 1 := h)) s)) = Some (Inr (), s')"
    "sees s' (fat_put dm dmp (i + 1) h (fat_put dm dmp i l V))" "rest s' = rest s"
proof -
  have R: "2 \<le> m_recsiz dm" using v(1) d rec_split(3) [of dm] by (simp add: vol_ok_def)
  obtain b s1 where g: "getrec drv (i div m_recsiz dm) (m_fatofd dm) True s = Some (Inr b, s1)"
    and s1: "rest s1 = rest s" "b_bufr s1 b = V dmp BT_FAT (i div m_recsiz dm)"
      "\<forall>g. sees (stored b g s1) (upd3 V dmp BT_FAT (i div m_recsiz dm) g)"
    by (rule fetch_byte [OF s v d, of i True]) (use i in simp, blast)
  let ?g = "(b_bufr s1 b)(i mod m_recsiz dm := l)"
  have p: "sees (stored b ?g s1) (fat_put dm dmp i l V)" using s1(2,3) by (simp add: fat_put_def)
  show thesis
  proof (cases "int (m_recsiz dm) - int (i mod m_recsiz dm) = 1")
    case True
    have r: "rest (stored b ?g s1) = rest s" using s1(1) by simp
    have d1: "dmds (stored b ?g s1) dmp = dm" "vol_ok (stored b ?g s1) dmp"
      using rest_sel(2) [OF r] vol_ok_rest [OF r] v(1) d by simp_all
    obtain b' s2 where g2: "getrec drv ((i + 1) div m_recsiz dm) (m_fatofd dm) True (stored b ?g s1) = Some (Inr b', s2)"
      and r2: "rest s2 = rest (stored b ?g s1)"
      and b2: "b_bufr s2 b' = fat_put dm dmp i l V dmp BT_FAT ((i + 1) div m_recsiz dm)"
      and p2: "\<forall>g. True \<longrightarrow> sees (stored b' g s2) (upd3 (fat_put dm dmp i l V) dmp BT_FAT ((i + 1) div m_recsiz dm) g)"
      by (rule fetch_byte [OF p s(2) d1(2) v(2) d1(1), of "i + 1" True]) (use i in simp, blast)
    note nb = next_byte(1) [OF R True]
    have "sees (stored b' ((b_bufr s2 b')(0 := h)) s2) (fat_put dm dmp (i + 1) h (fat_put dm dmp i l V))"
      unfolding fat_put_def [of _ _ "i + 1"] using p2 b2 nb by simp
    with True nb g g2 r2 s1(1) show thesis
      by (intro that [of "stored b' ((b_bufr s2 b')(0 := h)) s2"]) (simp_all add: ret_def)
  next
    case False
    have "sees (stored b (?g(i mod m_recsiz dm + 1 := h)) s1) (fat_put dm dmp (i + 1) h (fat_put dm dmp i l V))"
      using fat_put_twice [of i dm dmp h l V] next_byte(2) [OF R False] s1(2,3) by simp
    with False g s1(1) show thesis
      by (intro that [of "stored b (?g(i mod m_recsiz dm + 1 := h)) s1"]) (simp_all add: ret_def)
  qed
qed

lemma clfix_ok:
  assumes s: "sees s V" "driver_ok drv" and v: "vol_ok s dmp" "c < m_numcl (dmds s dmp) + 2"
  obtains s' where "clfix drv c link dmp s = Some (Inr (), s')" "sees s' (fat_set (dmds s dmp) dmp c link V)" "rest s' = rest s"
proof -
  define dm where "dm = dmds s dmp"
  define i where "i = fat_offset c dm"
  have k: "dmd_ok dm" and c: "c < m_numcl dm + 2" using v by (simp_all add: vol_ok_def dm_def)
  note R = rec_split [OF k]
  let ?B = "fat_byte dm dmp V"
  obtain b s1 where g1: "getrec drv (i div m_recsiz dm) (m_fatofd dm) (m_16 dm) s = Some (Inr b, s1)"
    and s1: "sees s1 V" "rest s1 = rest s"
    and b1: "\<forall>j. j div m_recsiz dm = i div m_recsiz dm \<longrightarrow> b_bufr s1 b (j mod m_recsiz dm) = ?B j"
      "b_bufr s1 b = V dmp BT_FAT (i div m_recsiz dm)"
      "\<forall>g. m_16 dm \<longrightarrow> sees (stored b g s1) (upd3 V dmp BT_FAT (i div m_recsiz dm) g)"
    by (rule fetch_byte [OF s v(1) c dm_def [symmetric], of i "m_16 dm"]) (simp add: i_def)
  have d1: "dmds s1 dmp = dm" "vol_ok s1 dmp"
    using rest_sel(2) [OF s1(2)] vol_ok_rest [OF s1(2)] v(1) by (simp_all add: dm_def)
  show thesis
  proof (cases "m_16 dm")
    case True
    let ?g = "(b_bufr s1 b)(i mod m_recsiz dm := of_nat link, i mod m_recsiz dm + 1 := of_nat (link div 256))"
    have "clfix drv c link dmp s = Some (Inr (), stored b ?g s1)"
      unfolding clfix_def Let_def dm_def [symmetric] i_def [symmetric] R(1,2)
      using g1 True by (simp add: ret_def drop_bit_eq_div)
    moreover have "sees (stored b ?g s1) (fat_set dm dmp c link V)"
      using b1(2,3) True fat_put_twice [of i dm dmp "of_nat (link div 256)" "of_nat link" V]
        even_offset [OF k True, of c] by (simp add: fat_set_def i_def [symmetric])
    ultimately show thesis using s1(2) that by (simp add: dm_def)
  next
    case f12: False
    obtain s2 where s2: "(if int (m_recsiz dm) - int (i mod m_recsiz dm) = 1
        then bind_res (getrec drv (i div m_recsiz dm + 1) (m_fatofd dm) False s1) (\<lambda>b s. ret (b_bufr s b 0) s)
        else ret (b_bufr s1 b (i mod m_recsiz dm + 1)) s1) = Some (Inr (?B (i + 1)), s2)" "sees s2 V" "rest s2 = rest s1"
      by (rule fetch_second [OF s1(1) s(2) d1(2) c d1(1) i_def b1(1)])
    have r2: "rest s2 = rest s" using s2(3) s1(2) by simp
    have d2: "dmds s2 dmp = dm" "vol_ok s2 dmp"
      using rest_sel(2) [OF r2] vol_ok_rest [OF r2] v(1) by (simp_all add: dm_def)
    let ?w = "unat (?B i) + 256 * unat (?B (i + 1))"
    have w: "unat (?B i) OR push_bit 8 (unat (?B (i + 1))) = ?w" "?w < 65536"
      using or_is_add [of "unat (?B i)" 8] byte_less [of "?B i"] byte_less [of "?B (i + 1)"] by simp_all
    have lo: "b_bufr s1 b (i mod m_recsiz dm) = ?B i" using b1(1) by simp
    obtain s3 where s3: "bind_res (getrec drv (i div m_recsiz dm) (m_fatofd dm) True s2) (\<lambda>b s.
        let s = stored b ((b_bufr s b)(i mod m_recsiz dm := of_nat (pack12 c ?w link))) s in
        if int (m_recsiz dm) - int (i mod m_recsiz dm) = 1
        then bind_res (getrec drv (i div m_recsiz dm + 1) (m_fatofd dm) True s) (\<lambda>b s.
          ret () (stored b ((b_bufr s b)(0 := of_nat (pack12 c ?w link div 256))) s))
        else ret () (stored b ((b_bufr s b)(i mod m_recsiz dm + 1 := of_nat (pack12 c ?w link div 256))) s))
          = Some (Inr (), s3)"
      "sees s3 (fat_put dm dmp (i + 1) (of_nat (pack12 c ?w link div 256)) (fat_put dm dmp i (of_nat (pack12 c ?w link)) V))"
      "rest s3 = rest s2"
      by (rule put_second [OF s2(2) s(2) d2(2) c d2(1) i_def])
    note bits = pack12_bits [OF w(2), of c link]
    have "clfix drv c link dmp s = Some (Inr (), s3)"
      unfolding clfix_def Let_def dm_def [symmetric] i_def [symmetric] R(1,2)
      using g1 f12
      by (simp only: if_False bind_res_simps lo s2(1) w(1) bits drop_bit_8 s3(1) [unfolded Let_def])
    moreover have "sees s3 (fat_set dm dmp c link V)" using s3(2) f12 by (simp add: fat_set_def i_def [symmetric] Let_def)
    ultimately show thesis using s3(3) r2 that by (simp add: dm_def)
  qed
qed


section \<open>Looking for a free cluster\<close>

lemma entry_16_zero:
  assumes "m_16 dm" and i: "2 * c = R * m_recsiz dm + i" "i + 1 < m_recsiz dm"
  shows "entry dm dmp V c = 0 \<longleftrightarrow> V dmp BT_FAT R i = 0 \<and> V dmp BT_FAT R (i + 1) = 0"
proof -
  have m: "(R * m_recsiz dm + j) div m_recsiz dm = R" "(R * m_recsiz dm + j) mod m_recsiz dm = j"
    if "j < m_recsiz dm" for j using that by simp_all
  have "(2 * c) div m_recsiz dm = R" "(2 * c) mod m_recsiz dm = i"
    "(2 * c + 1) div m_recsiz dm = R" "(2 * c + 1) mod m_recsiz dm = i + 1"
    using m [of i] m [of "i + 1"] i by (simp_all add: add.assoc)
  then show ?thesis using assms(1)
    by (simp add: entry_def raw_entry_def fat_offset_def fat_byte_def push_bit_eq_mult unat_eq_0 Let_def mult.commute [of c 2])
qed

lemma scan16_ok:
  assumes dm: "m_16 dm" "even (m_recsiz dm)"
  shows "2 * cl = R * m_recsiz dm + i \<Longrightarrow> i \<le> m_recsiz dm \<Longrightarrow>
    (case scan16 (V dmp BT_FAT R) (m_recsiz dm) lim i cl of
       (True, c) \<Rightarrow> cl \<le> c \<and> c < lim \<and> entry dm dmp V c = 0 \<and> (\<forall>x. cl \<le> x \<and> x < c \<longrightarrow> entry dm dmp V x \<noteq> 0)
     | (False, c) \<Rightarrow> cl \<le> c \<and> (i < m_recsiz dm \<and> cl < lim \<longrightarrow> cl < c)
         \<and> (\<forall>x. cl \<le> x \<and> x < c \<longrightarrow> entry dm dmp V x \<noteq> 0))"
proof (induction "V dmp BT_FAT R" "m_recsiz dm" lim i cl rule: scan16.induct)
  case (1 lim i cl)
  show ?case
  proof (cases "i < m_recsiz dm \<and> cl < lim")
    case True
    have "even i" using 1(2) dm(2) by (metis dvd_triv_left even_add even_mult_iff)
    then have i: "i + 1 < m_recsiz dm" using True dm(2) by (metis Suc_eq_plus1 Suc_lessI even_Suc)
    note z = entry_16_zero [OF dm(1) 1(2) i, of dmp V]
    show ?thesis
    proof (cases "entry dm dmp V cl = 0")
      case e0: True
      then show ?thesis using True z by (subst scan16.simps) simp
    next
      case e1: False
      have "2 * (cl + 1) = R * m_recsiz dm + (i + 2)" "i + 2 \<le> m_recsiz dm" using 1(2) i by simp_all
      with 1(1) True e1 z have "case scan16 (V dmp BT_FAT R) (m_recsiz dm) lim (i + 2) (cl + 1) of
         (True, c) \<Rightarrow> cl + 1 \<le> c \<and> c < lim \<and> entry dm dmp V c = 0 \<and> (\<forall>x. cl + 1 \<le> x \<and> x < c \<longrightarrow> entry dm dmp V x \<noteq> 0)
       | (False, c) \<Rightarrow> cl + 1 \<le> c \<and> (i + 2 < m_recsiz dm \<and> cl + 1 < lim \<longrightarrow> cl + 1 < c)
           \<and> (\<forall>x. cl + 1 \<le> x \<and> x < c \<longrightarrow> entry dm dmp V x \<noteq> 0)" by auto
      moreover have "scan16 (V dmp BT_FAT R) (m_recsiz dm) lim i cl
        = scan16 (V dmp BT_FAT R) (m_recsiz dm) lim (i + 2) (cl + 1)"
        using True e1 z by (subst scan16.simps) auto
      moreover have "(\<forall>x. cl \<le> x \<and> x < c \<longrightarrow> entry dm dmp V x \<noteq> 0)
        \<longleftrightarrow> (\<forall>x. cl + 1 \<le> x \<and> x < c \<longrightarrow> entry dm dmp V x \<noteq> 0)" for c
        using e1 by (metis Suc_eq_plus1 Suc_leD Suc_leI le_neq_implies_less)
      ultimately show ?thesis by (auto split: prod.splits bool.splits)
    qed
  next
    case False
    then show ?thesis by (subst scan16.simps) auto
  qed
qed

text \<open>The outcome of a search: the first free cluster of an order of visits, or 0 for none.\<close>

definition first_free :: "(nat \<Rightarrow> nat) \<Rightarrow> nat list \<Rightarrow> nat" where
  "first_free E cs = (case filter (\<lambda>c. E c = 0) cs of [] \<Rightarrow> 0 | c # _ \<Rightarrow> c)"

lemma first_free_Nil [simp]: "first_free E [] = 0"
  by (simp add: first_free_def)

lemma first_free_Cons: "first_free E (c # cs) = (if E c = 0 then c else first_free E cs)"
  by (simp add: first_free_def)

lemma first_free_append: "(\<forall>c \<in> set as. E c \<noteq> 0) \<Longrightarrow> first_free E (as @ cs) = first_free E cs"
  by (induction as) (simp_all add: first_free_Cons)

lemma first_free_cases:
  "0 \<notin> set cs \<Longrightarrow> first_free E cs \<noteq> 0 \<Longrightarrow> first_free E cs \<in> set cs \<and> E (first_free E cs) = 0"
  "0 \<notin> set cs \<Longrightarrow> first_free E cs = 0 \<longleftrightarrow> (\<forall>c \<in> set cs. E c \<noteq> 0)"
  by (induction cs) (auto simp: first_free_Cons)

lemma findfree16_loop_ok:
  assumes "sees s V" "driver_ok drv" and "vol_ok s dmp" "dmds s dmp = dm" "m_16 dm" "lim = m_numcl dm + 2"
  shows "\<exists>s'. findfree16_loop drv dmp lim cl s = Some (Inr (first_free (entry dm dmp V) [cl ..< lim]), s')
    \<and> sees s' V \<and> rest s' = rest s"
  using assms
proof (induction "lim - cl" arbitrary: cl s rule: less_induct)
  case less
  show ?case
  proof (cases "cl < lim")
    case True
    have k: "dmd_ok dm" using less.prems by (simp add: vol_ok_def)
    note R = rec_split [OF k]
    have ev: "even (m_recsiz dm)" using k by (simp add: dmd_ok_def)
    have pos: "2 * cl \<le> fat_offset cl dm + 1" using less.prems by (simp add: fat_offset_def push_bit_eq_mult)
    obtain b s1 where g: "getrec drv ((2 * cl) div m_recsiz dm) (m_fatofd dm) False s = Some (Inr b, s1)"
      and s1: "sees s1 V" "rest s1 = rest s" "b_bufr s1 b = V dmp BT_FAT ((2 * cl) div m_recsiz dm)"
      by (rule fetch_byte [OF less.prems(1-3) _ less.prems(4) pos, of False]) (use True less.prems(6) in simp, blast)
    let ?S = "scan16 (V dmp BT_FAT ((2 * cl) div m_recsiz dm)) (m_recsiz dm) lim ((2 * cl) mod m_recsiz dm) cl"
    have sc: "case ?S of
       (True, c) \<Rightarrow> cl \<le> c \<and> c < lim \<and> entry dm dmp V c = 0 \<and> (\<forall>x. cl \<le> x \<and> x < c \<longrightarrow> entry dm dmp V x \<noteq> 0)
     | (False, c) \<Rightarrow> cl \<le> c \<and> ((2 * cl) mod m_recsiz dm < m_recsiz dm \<and> cl < lim \<longrightarrow> cl < c)
         \<and> (\<forall>x. cl \<le> x \<and> x < c \<longrightarrow> entry dm dmp V x \<noteq> 0)"
      by (rule scan16_ok [OF less.prems(5) ev]) (use R(3) in \<open>simp_all add: mod_less_divisor less_imp_le\<close>)
    have un: "findfree16_loop drv dmp lim cl s = (case ?S of (True, c) \<Rightarrow> ret c s1
        | (False, c) \<Rightarrow> if c \<le> cl then None else findfree16_loop drv dmp lim c s1)"
      using True g s1(3) by (subst findfree16_loop.simps) (simp add: less.prems(4) R(1,2) mult.commute [of cl 2])
    have split: "[cl ..< lim] = [cl ..< c] @ [c ..< lim]" if "cl \<le> c" "c \<le> lim" for c
      using that upt_add_eq_append [of cl c "lim - c"] by simp
    obtain f c where S: "?S = (f, c)" by fastforce
    show ?thesis
    proof (cases f)
      case fT: True
      with sc S have c: "cl \<le> c" "c < lim" "entry dm dmp V c = 0" "\<forall>x \<in> set [cl ..< c]. entry dm dmp V x \<noteq> 0" by auto
      have "first_free (entry dm dmp V) [cl ..< lim] = c"
        using c split [of c] upt_conv_Cons [of c lim] by (simp add: first_free_append first_free_Cons)
      then show ?thesis using un S fT s1 by (simp add: ret_def)
    next
      case fF: False
      have "(2 * cl) mod m_recsiz dm < m_recsiz dm" using R(3) by simp
      with sc S fF True have c: "cl < c" "\<forall>x \<in> set [cl ..< c]. entry dm dmp V x \<noteq> 0" by auto
      have d1: "dmds s1 dmp = dm" "vol_ok s1 dmp"
        using rest_sel(2) [OF s1(2)] vol_ok_rest [OF s1(2)] less.prems by simp_all
      obtain s2 where s2: "findfree16_loop drv dmp lim c s1 = Some (Inr (first_free (entry dm dmp V) [c ..< lim]), s2)"
        "sees s2 V" "rest s2 = rest s1"
        using less.hyps [OF _ s1(1) less.prems(2) d1(2,1) less.prems(5,6), of c] c(1) True
        by (meson diff_less_mono2)
      have "first_free (entry dm dmp V) [cl ..< lim] = first_free (entry dm dmp V) [c ..< lim]"
      proof (cases "c \<le> lim")
        case True
        then show ?thesis using split [of c] c by (simp add: first_free_append)
      next
        case False
        then show ?thesis using c(2) first_free_append [of "[cl ..< lim]" "entry dm dmp V" "[]"] by (simp add: first_free_def)
      qed
      then show ?thesis using un S fF c(1) s2 s1(2) by simp
    qed
  next
    case False
    then show ?thesis using less.prems(1)
      by (subst findfree16_loop.simps) (auto simp: ret_def first_free_def)
  qed
qed


text \<open>\<open>findfree_loop\<close> visits \<open>k\<close> clusters from \<open>cl\<close> on, coming back to 2 after the last.\<close>

definition cyc :: "nat \<Rightarrow> nat \<Rightarrow> nat" where
  "cyc n c = (if c = n + 1 then 2 else c + 1)"

primrec visits :: "nat \<Rightarrow> nat \<Rightarrow> nat \<Rightarrow> nat list" where
  "visits n 0 c = []"
| "visits n (Suc k) c = c # visits n k (cyc n c)"

lemma visits_map: "visits n k c = map (\<lambda>j. (cyc n ^^ j) c) [0 ..< k]"
  by (induction k arbitrary: c) (simp_all add: map_upt_Suc funpow_swap1 del: upt_Suc)

lemma cyc_pow:
  assumes "2 \<le> c" "c < n + 2"
  shows "(cyc n ^^ j) c = 2 + (c - 2 + j) mod n"
proof (induction j)
  case 0
  then show ?case using assms by simp
next
  case (Suc j)
  have "n > 0" using assms by simp
  then have "(c - 2 + Suc j) mod n = (if (c - 2 + j) mod n = n - 1 then 0 else (c - 2 + j) mod n + 1)"
    using mod_Suc [of "c - 2 + j" n] by auto
  with Suc \<open>n > 0\<close> show ?case by (auto simp: cyc_def)
qed

lemma visits_all:
  assumes "2 \<le> c" "c < n + 2"
  shows "set (visits n n c) = {2 ..< n + 2}"
proof -
  have n: "n > 0" using assms by simp
  have "\<exists>j < n. (cyc n ^^ j) c = x" if x: "2 \<le> x" "x < n + 2" for x
  proof (intro exI conjI)
    show "(x + n - c) mod n < n" using n by simp
    have "c - 2 + (x + n - c) = x - 2 + n" using assms x by simp
    then have "(c - 2 + (x + n - c) mod n) mod n = (x - 2 + n) mod n" by (metis mod_add_right_eq)
    also have "\<dots> = x - 2" using x by (simp only: mod_add_self2) simp
    finally show "(cyc n ^^ ((x + n - c) mod n)) c = x" unfolding cyc_pow [OF assms] using x by simp
  qed
  moreover have "(cyc n ^^ j) c < n + 2" "2 \<le> (cyc n ^^ j) c" for j
    unfolding cyc_pow [OF assms] using n by simp_all
  ultimately show ?thesis by (auto simp: visits_map image_iff) (metis atLeastLessThan_iff le0)
qed

lemma findfree_loop_ok:
  assumes "sees s V" "driver_ok drv" and "vol_ok s dmp" "dmds s dmp = dm" and "2 \<le> cl" "cl < m_numcl dm + 2"
  shows "\<exists>s'. findfree_loop drv dmp k cl s = Some (Inr (first_free (entry dm dmp V) (visits (m_numcl dm) k cl)), s')
    \<and> sees s' V \<and> rest s' = rest s"
  using assms
proof (induction k arbitrary: cl s)
  case 0
  then show ?case by (auto simp: ret_def)
next
  case (Suc k)
  from Suc.prems(6) have "cl < m_numcl (dmds s dmp) + 2" using Suc.prems(4) by simp
  with Suc.prems(1-3) obtain s1 where g: "getrealcl drv cl dmp s = Some (Inr (entry (dmds s dmp) dmp V cl), s1)"
    and s1: "sees s1 V" "rest s1 = rest s"
    by (rule getrealcl_ok)
  have d1: "dmds s1 dmp = dm" "vol_ok s1 dmp"
    using rest_sel(2) [OF s1(2)] vol_ok_rest [OF s1(2)] Suc.prems by simp_all
  have c: "2 \<le> cyc (m_numcl dm) cl" "cyc (m_numcl dm) cl < m_numcl dm + 2"
    using Suc.prems(5,6) by (auto simp: cyc_def)
  obtain s2 where "findfree_loop drv dmp k (cyc (m_numcl dm) cl) s1
      = Some (Inr (first_free (entry dm dmp V) (visits (m_numcl dm) k (cyc (m_numcl dm) cl))), s2)"
    "sees s2 V" "rest s2 = rest s1"
    using Suc.IH [OF s1(1) Suc.prems(2) d1(2,1) c] by blast
  moreover have "(if cl = m_numcl (dmds s1 dmp) + 1 then 1 else cl) + 1 = cyc (m_numcl dm) cl"
    using d1(1) by (simp add: cyc_def)
  ultimately show ?case using g s1 Suc.prems(4) by (simp add: first_free_Cons ret_def)
qed

text \<open>
  The search of \<open>findfree\<close> over the whole volume: a free cluster, or 0 when there is none.
\<close>

lemma findfree_ok:
  assumes "sees s V" "driver_ok drv" and "vol_ok s dmp" "dmds s dmp = dm" and "cl < m_numcl dm + 2" "0 < m_numcl dm"
  obtains r s' where "findfree drv cl dmp s = Some (Inr r, s')" "sees s' V" "rest s' = rest s"
    "r \<noteq> 0 \<Longrightarrow> is_cl dm r \<and> entry dm dmp V r = 0"
    "r = 0 \<longleftrightarrow> (\<forall>c. is_cl dm c \<longrightarrow> entry dm dmp V c \<noteq> 0)"
proof -
  note goal = that
  have main: thesis if "findfree drv cl dmp s = Some (Inr (first_free (entry dm dmp V) cs), s')"
      "sees s' V" "rest s' = rest s" "set cs = {2 ..< m_numcl dm + 2}" for cs s'
  proof (rule goal [OF that(1-3)])
    have z: "0 \<notin> set cs" unfolding that(4) by simp
    show "is_cl dm (first_free (entry dm dmp V) cs) \<and> entry dm dmp V (first_free (entry dm dmp V) cs) = 0"
      if "first_free (entry dm dmp V) cs \<noteq> 0"
      using first_free_cases(1) [OF z that] unfolding \<open>set cs = _\<close> by (simp add: is_cl_def)
    show "first_free (entry dm dmp V) cs = 0 \<longleftrightarrow> (\<forall>c. is_cl dm c \<longrightarrow> entry dm dmp V c \<noteq> 0)"
      using first_free_cases(2) [OF z, of "entry dm dmp V"] unfolding \<open>set cs = _\<close> by (auto simp: is_cl_def)
  qed
  show thesis
  proof (cases "cl = 0 \<and> m_16 dm")
    case True
    with findfree16_loop_ok [OF assms(1-4) _ refl, of 2] main [of "[2 ..< m_numcl dm + 2]"] show thesis
      by (auto simp: findfree_def findfree16_def assms(4) simp del: upt_Suc)
  next
    case False
    let ?c = "if cl < 2 then 2 else cl"
    have c: "2 \<le> ?c" "?c < m_numcl dm + 2" using assms(5,6) by auto
    from findfree_loop_ok [OF assms(1-4) c, of "m_numcl dm"] False main [OF _ _ _ visits_all [OF c]] show thesis
      by (auto simp: findfree_def assms(4))
  qed
qed


section \<open>Following and extending a chain\<close>

lemma endofchain_ge: "endofchain c \<Longrightarrow> 0xfff8 \<le> c"
proof -
  assume "endofchain c"
  then have "int c AND 0xfff8 = 0xfff8" by (metis endofchain_def of_nat_and_eq of_nat_numeral)
  moreover have "int c AND 0xfff8 \<le> int c" by simp
  ultimately show ?thesis by linarith
qed

lemma cl_not_end: "dmd_ok dm \<Longrightarrow> c < m_numcl dm + 2 \<Longrightarrow> \<not> endofchain c"
  using endofchain_ge [of c] by (auto simp: dmd_ok_def split: if_splits)

lemma endofchain_END [simp]: "endofchain ENDOFCHAIN"
  by (simp add: endofchain_def ENDOFCHAIN_def)

lemma rest_sets [simp, fs_frame]:
  "rest (set_ofd p f s) = set_ofd p f (rest s)" "rest (set_dfd p g s) = set_dfd p g (rest s)"
  by (simp_all add: rest_def set_ofd_def set_dfd_def)

lemma sees_sets [simp, fs_frame]:
  "sees (set_ofd p f s) V = sees s V" "sees (set_dfd p g s) V = sees s V"
  by (simp_all add: set_ofd_def set_dfd_def)

text \<open>The cluster after the current one, as the FAT has it.\<close>

definition next_of :: "fsst \<Rightarrow> adisk \<Rightarrow> nat \<Rightarrow> nat" where
  "next_of s V p =
     (let f = ofds s p; st = o_strtcl (dfds s (o_dfd f)) in
      if o_curcl f = 0 then if st \<noteq> 0 then st else ENDOFCHAIN
      else entry (dmds s (o_dmd f)) (o_dmd f) V (o_curcl f))"

definition moved_to :: "nat \<Rightarrow> nat \<Rightarrow> fsst \<Rightarrow> fsst" where
  "moved_to p cl s =
     set_ofd p (\<lambda>f. f\<lparr>o_curcl := cl, o_currec := cl2rec cl (dmds s (o_dmd (ofds s p))), o_curbyt := 0\<rparr>) s"

text \<open>An open file (not the FAT or a root directory) with a valid current cluster.\<close>

definition file_ok :: "fsst \<Rightarrow> nat \<Rightarrow> bool" where
  "file_ok s p \<longleftrightarrow> vol_ok s (o_dmd (ofds s p)) \<and> o_dnode (ofds s p) \<noteq> 0
     \<and> m_fatofd (dmds s (o_dmd (ofds s p))) \<noteq> p
     \<and> (o_curcl (ofds s p) = 0 \<or> is_cl (dmds s (o_dmd (ofds s p))) (o_curcl (ofds s p)))"

lemma moved_to_rest:
  assumes "rest s' = rest s"
  shows "rest (moved_to p cl s') = rest (moved_to p cl s)"
  using assms rest_sel [OF assms] by (simp add: moved_to_def)

lemma nextcl_first:
  assumes "sees s V" "driver_ok drv" "file_ok s p"
  obtains s' where "(if o_curcl (ofds s p) = 0
      then ret (if o_strtcl (dfds s (o_dfd (ofds s p))) \<noteq> 0 then o_strtcl (dfds s (o_dfd (ofds s p))) else ENDOFCHAIN) s
      else if o_dnode (ofds s p) = 0 then ret ((o_curcl (ofds s p) + 1) mod 65536) s
      else getrealcl drv (o_curcl (ofds s p)) (o_dmd (ofds s p)) s) = Some (Inr (next_of s V p), s')"
    "sees s' V" "rest s' = rest s"
proof (cases "o_curcl (ofds s p) = 0")
  case True
  then show thesis using assms(1) by (intro that [of s]) (simp_all add: ret_def next_of_def Let_def)
next
  case False
  then have "vol_ok s (o_dmd (ofds s p))" "o_curcl (ofds s p) < m_numcl (dmds s (o_dmd (ofds s p))) + 2"
    using assms(3) by (auto simp: file_ok_def is_cl_def)
  with assms(1,2) obtain s' where "getrealcl drv (o_curcl (ofds s p)) (o_dmd (ofds s p)) s
      = Some (Inr (entry (dmds s (o_dmd (ofds s p))) (o_dmd (ofds s p)) V (o_curcl (ofds s p))), s')"
    "sees s' V" "rest s' = rest s"
    by (rule getrealcl_ok)
  then show thesis using False assms(3)
    by (intro that [of s']) (simp_all add: next_of_def Let_def file_ok_def)
qed

lemma nextcl_follow:
  assumes "sees s V" "driver_ok drv" "file_ok s p" and n: "\<not> w \<or> \<not> endofchain (next_of s V p)"
  obtains s' where "nextcl drv p w s = Some (Inr (if endofchain (next_of s V p) then - 1 else 0), s')" "sees s' V"
    "rest s' = rest (if endofchain (next_of s V p) then s else moved_to p (next_of s V p) s)"
proof -
  from assms(1-3) obtain s1 where f: "(if o_curcl (ofds s p) = 0
      then ret (if o_strtcl (dfds s (o_dfd (ofds s p))) \<noteq> 0 then o_strtcl (dfds s (o_dfd (ofds s p))) else ENDOFCHAIN) s
      else if o_dnode (ofds s p) = 0 then ret ((o_curcl (ofds s p) + 1) mod 65536) s
      else getrealcl drv (o_curcl (ofds s p)) (o_dmd (ofds s p)) s) = Some (Inr (next_of s V p), s1)"
    and s1: "sees s1 V" "rest s1 = rest s"
    by (rule nextcl_first)
  show thesis
  proof (cases "endofchain (next_of s V p)")
    case True
    then have "nextcl drv p w s = Some (Inr (- 1), s1)"
      unfolding nextcl_def Let_def f using n by (simp add: ret_def)
    with True s1 that show thesis by simp
  next
    case False
    then have "nextcl drv p w s = Some (Inr 0, moved_to p (next_of s V p) s1)"
      unfolding nextcl_def Let_def f
      by (simp add: ret_def moved_to_def E_OK_def rest_sel [OF s1(2)])
    moreover have "sees (moved_to p (next_of s V p) s1) V" using s1(1) by (simp add: moved_to_def)
    ultimately show thesis using False moved_to_rest [OF s1(2)] that by simp
  qed
qed


text \<open>A new cluster \<open>c2\<close> appended after the current one, in the FAT and in the file's data.\<close>

definition append_fat :: "dmd \<Rightarrow> nat \<Rightarrow> nat \<Rightarrow> nat \<Rightarrow> adisk \<Rightarrow> adisk" where
  "append_fat dm dmp cl c2 V =
     (let V' = fat_set dm dmp c2 ENDOFCHAIN V in if cl \<noteq> 0 then fat_set dm dmp cl c2 V' else V')"

definition started :: "nat \<Rightarrow> nat \<Rightarrow> fsst \<Rightarrow> fsst" where
  "started p c2 s = (if o_curcl (ofds s p) \<noteq> 0 then s
     else set_dfd (o_dfd (ofds s p)) (\<lambda>d. d\<lparr>o_strtcl := c2, o_flag := o_flag d OR O_DIRTY\<rparr>) s)"

lemma started_rest:
  assumes "rest s' = rest s"
  shows "rest (started p c2 s') = rest (started p c2 s)"
  using assms rest_sel [OF assms] by (simp add: started_def)

lemma append_other: "n \<noteq> BT_FAT \<or> dmp' \<noteq> dmp \<Longrightarrow> append_fat dm dmp cl c2 V dmp' n rec = V dmp' n rec"
  by (simp add: append_fat_def Let_def fat_set_other)

lemma fat_link_END: "fat_link dm ENDOFCHAIN = ENDOFCHAIN"
  by (simp add: fat_link_def ENDOFCHAIN_def)

lemma fat_link_cl:
  assumes "dmd_ok dm" "c < m_numcl dm + 2"
  shows "fat_link dm c = c"
proof (cases "m_16 dm")
  case True
  then show ?thesis using assms by (simp add: fat_link_def dmd_ok_def)
next
  case False
  then have c: "c < 0xff0" using assms by (simp add: dmd_ok_def)
  have "c AND 0xff8 \<noteq> 0xff8"
  proof
    assume "c AND 0xff8 = 0xff8"
    then have "int c AND 0xff8 = 0xff8" by (metis of_nat_and_eq of_nat_numeral)
    moreover have "int c AND 0xff8 \<le> int c" by simp
    ultimately show False using c by linarith
  qed
  with False c show ?thesis by (simp add: fat_link_def)
qed

lemma entry_append:
  assumes "dmd_ok dm" "c2 < m_numcl dm + 2"
  shows "entry dm dmp (append_fat dm dmp cl c2 V) c
    = (if cl \<noteq> 0 \<and> c = cl then c2 else if c = c2 then ENDOFCHAIN else entry dm dmp V c)"
  by (simp add: append_fat_def Let_def entry_fat_set fat_link_END fat_link_cl [OF assms])

lemma nextcl_alloc_ok:
  assumes s: "sees s V" "driver_ok drv" and v: "vol_ok s dmp" "dmds s dmp = dm" and n: "0 < m_numcl dm"
    and p: "o_dmd (ofds s p) = dmp" "o_curcl (ofds s p) < m_numcl dm + 2"
  obtains (full) s' where "nextcl_alloc drv p (o_curcl (ofds s p)) s = Some (Inr None, s')" "sees s' V" "rest s' = rest s"
      "\<forall>c. is_cl dm c \<longrightarrow> entry dm dmp V c \<noteq> 0"
  | (got) c2 s' where "nextcl_alloc drv p (o_curcl (ofds s p)) s = Some (Inr (Some c2), s')"
      "is_cl dm c2" "entry dm dmp V c2 = 0" "sees s' (append_fat dm dmp (o_curcl (ofds s p)) c2 V)"
      "rest s' = rest (started p c2 s)"
proof -
  let ?cl = "o_curcl (ofds s p)"
  obtain r s1 where f: "findfree drv ?cl dmp s = Some (Inr r, s1)" and s1: "sees s1 V" "rest s1 = rest s"
    and r: "r \<noteq> 0 \<Longrightarrow> is_cl dm r \<and> entry dm dmp V r = 0" "r = 0 \<longleftrightarrow> (\<forall>c. is_cl dm c \<longrightarrow> entry dm dmp V c \<noteq> 0)"
    by (rule findfree_ok [OF s v p(2) n]) blast
  show thesis
  proof (cases "r = 0")
    case True
    have "nextcl_alloc drv p ?cl s = Some (Inr None, s1)"
      unfolding nextcl_alloc_def Let_def p(1) f using True by (simp add: ret_def)
    then show thesis using full s1 r(2) True by blast
  next
    case False
    then have c2: "is_cl dm r" "entry dm dmp V r = 0" "r < m_numcl dm + 2" using r(1) by (auto simp: is_cl_def)
    have d1: "dmds s1 dmp = dm" "vol_ok s1 dmp"
      using rest_sel(2) [OF s1(2)] vol_ok_rest [OF s1(2)] v by simp_all
    from s1(1) s(2) d1(2) c2(3) obtain s2 where g2: "clfix drv r ENDOFCHAIN dmp s1 = Some (Inr (), s2)"
      and s2: "sees s2 (fat_set dm dmp r ENDOFCHAIN V)" "rest s2 = rest s1"
      using clfix_ok [of s1 V drv dmp r ENDOFCHAIN] unfolding d1(1) by metis
    have r2: "rest s2 = rest s" using s2(2) s1(2) by simp
    have d2: "dmds s2 dmp = dm" "vol_ok s2 dmp"
      using rest_sel(2) [OF r2] vol_ok_rest [OF r2] v by simp_all
    show thesis
    proof (cases "?cl = 0")
      case True
      let ?s = "set_dfd (o_dfd (ofds s p)) (\<lambda>d. d\<lparr>o_strtcl := r, o_flag := o_flag d OR O_DIRTY\<rparr>) s2"
      have "nextcl_alloc drv p ?cl s = Some (Inr (Some r), ?s)"
        unfolding nextcl_alloc_def Let_def p(1) f using False True g2 by (simp add: ret_def)
      then show thesis by (rule got) (use c2 s2(1) True r2 in \<open>simp_all add: append_fat_def started_def\<close>)
    next
      case cl: False
      from s2(1) s(2) d2(2) p(2) obtain s3 where g3: "clfix drv ?cl r dmp s2 = Some (Inr (), s3)"
        and s3: "sees s3 (fat_set dm dmp ?cl r (fat_set dm dmp r ENDOFCHAIN V))" "rest s3 = rest s2"
        using clfix_ok [of s2 "fat_set dm dmp r ENDOFCHAIN V" drv dmp ?cl r] unfolding d2(1) by metis
      have "nextcl_alloc drv p ?cl s = Some (Inr (Some r), s3)"
        unfolding nextcl_alloc_def Let_def p(1) f using False cl g2 g3 by (simp add: ret_def)
      then show thesis by (rule got) (use c2 s3 cl r2 in \<open>simp_all add: append_fat_def started_def\<close>)
    qed
  qed
qed

lemma nextcl_extend:
  assumes s: "sees s V" "driver_ok drv" "file_ok s p" and n: "w" "endofchain (next_of s V p)"
    and d: "o_dmd (ofds s p) = dmp" "dmds s dmp = dm" "0 < m_numcl dm"
  obtains (full) s' where "nextcl drv p w s = Some (Inr (- 1), s')" "sees s' V" "rest s' = rest s"
      "\<forall>c. is_cl dm c \<longrightarrow> entry dm dmp V c \<noteq> 0"
  | (got) c2 s' where "nextcl drv p w s = Some (Inr 0, s')" "is_cl dm c2" "entry dm dmp V c2 = 0"
      "sees s' (append_fat dm dmp (o_curcl (ofds s p)) c2 V)" "rest s' = rest (moved_to p c2 (started p c2 s))"
proof -
  note full' = full and got' = got
  from s obtain s1 where f: "(if o_curcl (ofds s p) = 0
      then ret (if o_strtcl (dfds s (o_dfd (ofds s p))) \<noteq> 0 then o_strtcl (dfds s (o_dfd (ofds s p))) else ENDOFCHAIN) s
      else if o_dnode (ofds s p) = 0 then ret ((o_curcl (ofds s p) + 1) mod 65536) s
      else getrealcl drv (o_curcl (ofds s p)) (o_dmd (ofds s p)) s) = Some (Inr (next_of s V p), s1)"
    and s1: "sees s1 V" "rest s1 = rest s"
    by (rule nextcl_first)
  note R = rest_sel [OF s1(2)]
  have d1: "vol_ok s1 dmp" "dmds s1 dmp = dm" "o_dmd (ofds s1 p) = dmp" "ofds s1 = ofds s"
    "o_curcl (ofds s1 p) < m_numcl dm + 2"
    using vol_ok_rest [OF s1(2)] s(3) d R by (auto simp: file_ok_def is_cl_def)
  from s1(1) s(2) d1(1,2) d(3) d1(3,5) show thesis
  proof (cases rule: nextcl_alloc_ok)
    case (full s')
    have "nextcl drv p w s = Some (Inr (- 1), s')"
      unfolding nextcl_def Let_def f using n full(1) by (simp add: d1 ret_def)
    then show thesis using full' full s1(2) by simp
  next
    case (got c2 s')
    have dk: "dmd_ok dm" using d1(1,2) by (simp add: vol_ok_def)
    have "\<not> endofchain c2" using cl_not_end [OF dk] got(2) by (simp add: is_cl_def)
    moreover have rs: "rest s' = rest (started p c2 s)" using got(5) started_rest [OF s1(2)] by simp
    moreover have "dmds s' dmp = dm" "ofds s' p = ofds s p"
      using rest_sel(2,3) [OF rs] d(2) by (simp_all add: started_def set_dfd_def)
    ultimately have "nextcl drv p w s = Some (Inr 0, moved_to p c2 s')"
      unfolding nextcl_def Let_def f using n got(1) d by (simp add: d1 ret_def moved_to_def E_OK_def)
    then show thesis
      using got' [OF _ got(2,3)] got(4) moved_to_rest [OF rs] d1(4) by (simp add: moved_to_def)
  qed
qed


section \<open>Cluster chains\<close>

text \<open>\<open>cl_seg dm E c cs d\<close>: from cluster \<open>c\<close> the table leads through \<open>cs\<close> to the entry \<open>d\<close>.\<close>

fun cl_seg :: "dmd \<Rightarrow> (nat \<Rightarrow> nat) \<Rightarrow> nat \<Rightarrow> nat list \<Rightarrow> nat \<Rightarrow> bool" where
  "cl_seg dm E c [] d \<longleftrightarrow> c = d"
| "cl_seg dm E c (x # xs) d \<longleftrightarrow> c = x \<and> is_cl dm x \<and> cl_seg dm E (E x) xs d"

definition cl_chain :: "dmd \<Rightarrow> (nat \<Rightarrow> nat) \<Rightarrow> nat \<Rightarrow> nat list \<Rightarrow> bool" where
  "cl_chain dm E c cs \<longleftrightarrow> (\<exists>d. endofchain d \<and> cl_seg dm E c cs d)"

lemma cl_seg_append: "cl_seg dm E c (as @ bs) d \<longleftrightarrow> (\<exists>q. cl_seg dm E c as q \<and> cl_seg dm E q bs d)"
  by (induction as arbitrary: c) auto

lemma cl_seg_cong: "(\<And>x. x \<in> set cs \<Longrightarrow> E x = E' x) \<Longrightarrow> cl_seg dm E c cs d = cl_seg dm E' c cs d"
  by (induction cs arbitrary: c) auto

lemma cl_seg_is_cl: "cl_seg dm E c cs d \<Longrightarrow> x \<in> set cs \<Longrightarrow> is_cl dm x"
  by (induction cs arbitrary: c) auto

lemma cl_seg_unique:
  assumes "dmd_ok dm" "endofchain d" "endofchain e"
  shows "cl_seg dm E c xs d \<Longrightarrow> cl_seg dm E c ys e \<Longrightarrow> xs = ys"
proof (induction xs arbitrary: c ys)
  case Nil
  with assms cl_not_end [OF assms(1)] show ?case by (cases ys) (auto simp: is_cl_def)
next
  case (Cons x xs)
  with assms cl_not_end [OF assms(1)] show ?case by (cases ys) (auto simp: is_cl_def)
qed

text \<open>A chain that ends does not visit a cluster twice, and none of its clusters is free.\<close>

lemma cl_chain_distinct:
  assumes "dmd_ok dm"
  shows "cl_chain dm E c cs \<Longrightarrow> distinct cs"
proof (induction cs arbitrary: c)
  case (Cons x xs)
  then obtain d where d: "endofchain d" "cl_seg dm E c (x # xs) d" by (auto simp: cl_chain_def)
  have "x \<notin> set xs"
  proof
    assume "x \<in> set xs"
    then obtain as bs where xs: "xs = as @ x # bs" by (metis split_list)
    with d have "cl_seg dm E x (x # bs) d" "cl_seg dm E x (x # as @ x # bs) d" by (auto simp: cl_seg_append)
    then have "x # bs = x # as @ x # bs" by (rule cl_seg_unique [OF assms d(1) d(1)])
    then show False by simp
  qed
  moreover have "distinct xs" using Cons.IH d by (auto simp: cl_chain_def)
  ultimately show ?case by simp
qed simp

lemma cl_seg_next:
  assumes "cl_seg dm E c cs d" "x \<in> set cs"
  shows "E x = d \<or> is_cl dm (E x)"
  using assms
proof (induction cs arbitrary: c)
  case (Cons y ys)
  then show ?case by (cases ys) auto
qed simp

lemma free_not_in_chain:
  assumes "cl_chain dm E c cs" "E x = 0"
  shows "x \<notin> set cs"
  using assms cl_seg_next [of dm E c cs _ x] endofchain_ge by (fastforce simp: cl_chain_def is_cl_def)

text \<open>Appending a free cluster to a chain, seen from this chain and from the others.\<close>

lemma chain_extend:
  assumes ok: "dmd_ok dm" "is_cl dm c2" "entry dm dmp V c2 = 0" and cs: "cl_chain dm (entry dm dmp V) c cs" "cs \<noteq> []"
  shows "cl_chain dm (entry dm dmp (append_fat dm dmp (last cs) c2 V)) c (cs @ [c2])"
proof -
  obtain as l where as: "cs = as @ [l]" using cs(2) by (cases cs rule: rev_cases) auto
  let ?E = "entry dm dmp V" and ?E' = "entry dm dmp (append_fat dm dmp l c2 V)"
  obtain d where d: "cl_seg dm ?E c cs d" using cs(1) by (auto simp: cl_chain_def)
  have e: "?E' x = (if x = l then c2 else if x = c2 then ENDOFCHAIN else ?E x)" for x
    using entry_append [OF ok(1), of c2 dmp l V x] ok(2) cl_seg_is_cl [OF d, of l] as by (auto simp: is_cl_def)
  have c2: "c2 \<notin> set cs" using free_not_in_chain [OF cs(1), of c2] ok(3) by simp
  have "l \<notin> set as" using cl_chain_distinct [OF ok(1) cs(1)] as by simp
  then have "?E x = ?E' x" if "x \<in> set as" for x using c2 as that by (auto simp: e)
  moreover have "cl_seg dm ?E c as l" using d as by (auto simp: cl_seg_append)
  ultimately have "cl_seg dm ?E' c as l" using cl_seg_cong [of as ?E ?E' dm c l] by simp
  then show ?thesis using d as ok(2) c2 by (auto simp: cl_chain_def cl_seg_append e)
qed

lemma chain_other:
  assumes ok: "dmd_ok dm" "is_cl dm c2" "entry dm dmp V c2 = 0" and ds: "cl_chain dm (entry dm dmp V) c ds" "l \<notin> set ds"
  shows "cl_chain dm (entry dm dmp (append_fat dm dmp l c2 V)) c ds"
proof -
  let ?E = "entry dm dmp V" and ?E' = "entry dm dmp (append_fat dm dmp l c2 V)"
  have "c2 \<notin> set ds" using free_not_in_chain [OF ds(1), of c2] ok(3) by simp
  then have "?E' x = ?E x" if "x \<in> set ds" for x
    using that ds(2) entry_append [OF ok(1), of c2 dmp l V x] ok(2) by (auto simp: is_cl_def)
  with cl_seg_cong [of ds ?E ?E' dm c] ds(1) show ?thesis by (auto simp: cl_chain_def)
qed

section \<open>The floppy with a file\<close>

text \<open>The FAT has the chain 2, 3 for the file; the data records are numbered bytes.\<close>

definition chain_disk :: "nat \<Rightarrow> sector" where
  "chain_disk r i = (if r = 1 \<or> r = 2
     then if i = 0 then 0xf9 else if i = 1 \<or> i = 2 \<or> i = 5 then 0xff else if i = 3 then 0x03
          else if i = 4 then 0xf0 else 0
     else of_nat (r + i))"

lemma floppy_ok: "dmd_ok floppy_dmd"
  by (simp add: dmd_ok_def layout_ok_def fat_offset_def bt_defs mask_eq_exp_minus_1)

lemma floppy_vol: "vol_ok (floppy dk) 1000"
  using floppy_ok by (simp add: vol_ok_def floppy_fs_def zero_ofd_def)

lemma floppy_sees': "sees (floppy dk) (raw_disk (floppy_fs dk))"
  using floppy_sees unfolding sees_def by blast

lemma floppy_entry:
  "entry floppy_dmd 1000 (raw_disk (floppy_fs chain_disk)) 2 = 3"
  "entry floppy_dmd 1000 (raw_disk (floppy_fs chain_disk)) 3 = ENDOFCHAIN"
  "entry floppy_dmd 1000 (raw_disk (floppy_fs chain_disk)) 4 = 0"
  by (simp_all add: entry_def raw_entry_def fat_offset_def fat_byte_def raw_disk_def floppy_fs_def
      chain_disk_def drop_bit_eq_div ENDOFCHAIN_def numeral_2_eq_2 [symmetric])

lemma floppy_chain: "cl_chain floppy_dmd (entry floppy_dmd 1000 (raw_disk (floppy_fs chain_disk))) 2 [2, 3]"
  by (simp add: cl_chain_def is_cl_def floppy_entry)

lemma floppy_free:
  "\<not> (\<forall>c. is_cl floppy_dmd c \<longrightarrow> entry floppy_dmd 1000 (raw_disk (floppy_fs chain_disk)) c \<noteq> 0)"
  using floppy_entry(3) by (auto simp: is_cl_def intro!: exI [of _ 4])

section \<open>Properties of the FAT\<close>

text \<open>
  C12. The table is a map. Reading an entry, writing one, and reading again: on a healthy
  volume the three calls return; the second read gives the value written (an end mark is
  reported as \<open>ENDOFCHAIN\<close>) if it is the entry written, and otherwise what the first read
  gave, for 12-bit tables, whose entries share bytes and span records, as for 16-bit ones;
  and no record outside this FAT changes.
\<close>

theorem clfix_getrealcl:
  assumes "sees s V" "driver_ok drv" "vol_ok s dmp" and "c < m_numcl (dmds s dmp) + 2" "d < m_numcl (dmds s dmp) + 2"
  shows "\<exists>e s0 s1 s2 V'. getrealcl drv d dmp s = Some (Inr e, s0) \<and> clfix drv c link dmp s0 = Some (Inr (), s1)
    \<and> getrealcl drv d dmp s1 = Some (Inr (if d = c then fat_link (dmds s dmp) link else e), s2)
    \<and> sees s2 V' \<and> rest s2 = rest s \<and> (\<forall>dmp' n rec. n \<noteq> BT_FAT \<or> dmp' \<noteq> dmp \<longrightarrow> V' dmp' n rec = V dmp' n rec)"
proof -
  let ?dm = "dmds s dmp"
  obtain s0 where g0: "getrealcl drv d dmp s = Some (Inr (entry ?dm dmp V d), s0)" and s0: "sees s0 V" "rest s0 = rest s"
    by (rule getrealcl_ok [OF assms(1-3,5)])
  have d0: "dmds s0 dmp = ?dm" "vol_ok s0 dmp" using rest_sel(2) [OF s0(2)] vol_ok_rest [OF s0(2)] assms(3) by simp_all
  obtain s1 where g1: "clfix drv c link dmp s0 = Some (Inr (), s1)" and s1: "sees s1 (fat_set ?dm dmp c link V)" "rest s1 = rest s"
    using clfix_ok [OF s0(1) assms(2) d0(2), of c link] assms(4) s0(2) unfolding d0(1) by metis
  have d1: "dmds s1 dmp = ?dm" "vol_ok s1 dmp" using rest_sel(2) [OF s1(2)] vol_ok_rest [OF s1(2)] assms(3) by simp_all
  obtain s2 where g2: "getrealcl drv d dmp s1 = Some (Inr (entry ?dm dmp (fat_set ?dm dmp c link V) d), s2)"
    "sees s2 (fat_set ?dm dmp c link V)" "rest s2 = rest s1"
    using getrealcl_ok [OF s1(1) assms(2) d1(2), of d] assms(5) unfolding d1(1) by metis
  show ?thesis
    using g0 g1 g2 s1(2) fat_set_other [of _ _ dmp ?dm c link V] by (auto simp: entry_fat_set)
qed

theorem clfix_getrealcl_witness:
  "\<exists>e s0 s1 s2. getrealcl quiet 3 1000 (floppy chain_disk) = Some (Inr e, s0)
     \<and> clfix quiet 3 7 1000 s0 = Some (Inr (), s1) \<and> getrealcl quiet 3 1000 s1 = Some (Inr 7, s2)"
  using clfix_getrealcl [OF floppy_sees' quiet_ok floppy_vol, of 3 chain_disk 3 7]
  by (auto simp: floppy_file fat_link_def)



text \<open>
  C10. Extending a file keeps every chain. When a writer at the last cluster of a file asks
  for the next one, \<open>nextcl\<close> either reports that the disk is full, which is then the case, and
  leaves everything as it was, or moves the file to a cluster that was free: the file's
  chain is the old one with this cluster appended, and every chain not containing the old
  last cluster is unchanged.
\<close>

theorem nextcl_extends:
  assumes "sees s V" "driver_ok drv" "file_ok s p" and "o_dmd (ofds s p) = dmp" "0 < m_numcl (dmds s dmp)"
    and "cl_chain (dmds s dmp) (entry (dmds s dmp) dmp V) c cs" "cs \<noteq> []" "o_curcl (ofds s p) = last cs"
  shows "\<exists>r s' V'. nextcl drv p True s = Some (Inr r, s') \<and> sees s' V' \<and>
    (if r = 0
     then is_cl (dmds s dmp) (o_curcl (ofds s' p)) \<and> entry (dmds s dmp) dmp V (o_curcl (ofds s' p)) = 0
       \<and> cl_chain (dmds s dmp) (entry (dmds s dmp) dmp V') c (cs @ [o_curcl (ofds s' p)])
       \<and> (\<forall>d ds. cl_chain (dmds s dmp) (entry (dmds s dmp) dmp V) d ds \<and> last cs \<notin> set ds
            \<longrightarrow> cl_chain (dmds s dmp) (entry (dmds s dmp) dmp V') d ds)
     else r = - 1 \<and> V' = V \<and> rest s' = rest s \<and> (\<forall>c. is_cl (dmds s dmp) c \<longrightarrow> entry (dmds s dmp) dmp V c \<noteq> 0))"
proof -
  let ?dm = "dmds s dmp"
  have ok: "dmd_ok ?dm" using assms(3,4) by (simp add: file_ok_def vol_ok_def)
  obtain e as where e: "endofchain e" "cl_seg ?dm (entry ?dm dmp V) c (as @ [last cs]) e"
    using assms(6,7) by (auto simp: cl_chain_def) (metis append_butlast_last_id)
  then have "is_cl ?dm (last cs)" "entry ?dm dmp V (last cs) = e" by (auto simp: cl_seg_append)
  then have n: "endofchain (next_of s V p)" using assms(4,8) e(1) by (simp add: next_of_def Let_def is_cl_def)
  from assms(1-3) TrueI n assms(4) refl assms(5) show ?thesis
  proof (cases rule: nextcl_extend)
    case (full s')
    then show ?thesis by auto
  next
    case (got c2 s')
    have c: "o_curcl (ofds s' p) = c2" using rest_sel(3) [OF got(5)] by (simp add: moved_to_def set_ofd_def)
    show ?thesis
      by (intro exI [of _ 0] exI [of _ s'] exI [of _ "append_fat ?dm dmp (last cs) c2 V"])
         (use got c assms(8) chain_extend [OF ok got(2,3) assms(6,7)] chain_other [OF ok got(2,3)] in simp)
  qed
qed

theorem nextcl_extends_witness:
  "\<exists>r s' V'. nextcl quiet 4000 True (set_ofd 4000 (\<lambda>f. f\<lparr>o_curcl := 3\<rparr>) (floppy chain_disk)) = Some (Inr r, s') \<and> r = 0
     \<and> cl_chain floppy_dmd (entry floppy_dmd 1000 V') 2 [2, 3, o_curcl (ofds s' 4000)]"
proof -
  let ?s = "set_ofd 4000 (\<lambda>f. f\<lparr>o_curcl := 3\<rparr>) (floppy chain_disk)" and ?V = "raw_disk (floppy_fs chain_disk)"
  have d: "dmds ?s 1000 = floppy_dmd" "o_dmd (ofds ?s 4000) = 1000" "o_curcl (ofds ?s 4000) = last [2, 3]"
    "ofds ?s 2000 = ofds (floppy chain_disk) 2000" "o_dnode (ofds ?s 4000) \<noteq> 0" "mounted ?s 1000"
    using floppy_vol [of chain_disk]
    by (simp_all add: set_ofd_def floppy_file vol_ok_def mounted_def) (simp add: floppy_fs_def zero_ofd_def)
  have "vol_ok ?s 1000" using floppy_vol [of chain_disk] by (simp add: vol_ok_def d floppy_file)
  then have f: "file_ok ?s 4000" unfolding file_ok_def using d by (simp add: is_cl_def)
  show ?thesis
    using nextcl_extends [of ?s ?V quiet 4000 1000 2 "[2, 3]"] f floppy_chain floppy_free floppy_sees' [of chain_disk]
    by (auto simp: d split: if_splits)
qed

end
