(* ===== verification/FsHand.thy ===== *)
theory FsHand
  imports BufCache
begin

text \<open>
  File handles: the translation of a handle to an open file descriptor (\<open>syshnd\<close> and
  \<open>getofd\<close> of bdos/fsmain.c) and the two calls that make one handle stand for another
  (bdos/fshand.c). Handles below \<open>NUMSTD\<close> are standard handles, looked up in the table of the
  running process; a negative entry is a BIOS handle.
\<close>

definition syshnd :: "int \<Rightarrow> fsst \<Rightarrow> int" where
  "syshnd h s =
     (if h \<ge> int NUMSTD then h - int NUMSTD
      else let h = p_uft s (run s) (nat h) in if h > 0 then h - int NUMSTD else h)"

definition getofd :: "int \<Rightarrow> fsst \<Rightarrow> int" where
  "getofd h s =
     (if h < 0 \<or> h \<ge> int NUMHANDLES then 0
      else let n = s16 (syshnd h s) in if n < 0 then 0 else f_ofd (sft s (nat n)))"

text \<open>A handle is stored in a signed byte of the process descriptor.\<close>

definition ixforce :: "int \<Rightarrow> int \<Rightarrow> nat \<Rightarrow> fsst \<Rightarrow> int \<times> fsst" where
  "ixforce std h p s =
     (let set_uft = (\<lambda>v s. s\<lparr>p_uft := (p_uft s)(p := (p_uft s p)(nat std := s8 v))\<rparr>) in
      if std < 0 \<or> std \<ge> int NUMSTD then (EIHNDL, s)
      else if h < 0 then (E_OK, set_uft h s)
      else if h < int NUMSTD then (EIHNDL, s)
      else if getofd h s = 0 then (EIHNDL, s)
      else
      let i = nat (h - int NUMSTD); fh = f_ofd (sft s i) in
      if fh < 0 then (E_OK, set_uft fh s)
      else (E_OK, (set_uft h s)\<lparr>sft := (sft s)(i := (sft s i)\<lparr>f_use := f_use (sft s i) + 1\<rparr>)\<rparr>))"

definition xforce :: "int \<Rightarrow> int \<Rightarrow> fsst \<Rightarrow> int \<times> fsst" where
  "xforce std h s = ixforce std h (run s) s"

text \<open>The search for a free slot: the first with no owner, \<open>OPNFILES\<close> when there is none.\<close>

definition free_slot :: "(nat \<Rightarrow> ftab) \<Rightarrow> nat" where
  "free_slot t = (case find (\<lambda>i. f_own (t i) = 0) [0 ..< OPNFILES] of None \<Rightarrow> OPNFILES | Some i \<Rightarrow> i)"

definition xdup :: "int \<Rightarrow> fsst \<Rightarrow> int \<times> fsst" where
  "xdup h s =
     (if h < 0 \<or> h \<ge> int NUMSTD then (EIHNDL, s)
      else
      let fh = p_uft s (run s) (nat h); i = free_slot (sft s) in
      if i = OPNFILES then (ENHNDL, s)
      else
      let o' = (if fh > 0 then f_ofd (sft s (nat (fh - int NUMSTD))) else fh) in
      (int i + int NUMSTD, s\<lparr>sft := (sft s)(i := \<lparr>f_ofd = o', f_own = run s, f_use = 1\<rparr>)\<rparr>))"

section \<open>The handle table\<close>

lemmas hand_defs = NUMHANDLES_def NUMSTD_def OPNFILES_def

lemma free_slot_cases:
  obtains (free) "free_slot t < OPNFILES" "f_own (t (free_slot t)) = 0" "\<forall>j < free_slot t. f_own (t j) \<noteq> 0"
  | (full) "free_slot t = OPNFILES" "\<forall>j < OPNFILES. f_own (t j) \<noteq> 0"
proof (cases "find (\<lambda>i. f_own (t i) = 0) [0 ..< OPNFILES]")
  case None
  then have "\<forall>j < OPNFILES. f_own (t j) \<noteq> 0" by (auto simp: find_None_iff)
  then show thesis by (intro full) (simp_all add: free_slot_def None)
next
  case (Some i)
  then have "i < OPNFILES" "f_own (t i) = 0" "\<forall>j < i. f_own (t j) \<noteq> 0"
    by (auto simp: find_Some_iff simp del: upt_Suc)
  with Some free show thesis by (simp add: free_slot_def)
qed

text \<open>
  The process's handle table: an entry is a BIOS handle (negative) or names a slot in use of
  the system file table.
\<close>

definition uft_ok :: "fsst \<Rightarrow> nat \<Rightarrow> bool" where
  "uft_ok s p \<longleftrightarrow> (\<forall>i < NUMSTD. let h = p_uft s p i in
     - 128 \<le> h \<and> h \<noteq> 0 \<and> (h > 0 \<longrightarrow> int NUMSTD \<le> h \<and> h < int NUMHANDLES \<and> f_own (sft s (nat (h - int NUMSTD))) \<noteq> 0))"

lemma uft_okD:
  assumes "uft_ok s p" "0 \<le> h" "h < int NUMSTD"
  shows "- 128 \<le> p_uft s p (nat h)" "p_uft s p (nat h) \<noteq> 0"
    "p_uft s p (nat h) > 0 \<Longrightarrow> int NUMSTD \<le> p_uft s p (nat h) \<and> p_uft s p (nat h) < int NUMHANDLES
       \<and> f_own (sft s (nat (p_uft s p (nat h) - int NUMSTD))) \<noteq> 0"
proof -
  have "nat h < NUMSTD" using assms(2,3) by linarith
  with assms(1) show "- 128 \<le> p_uft s p (nat h)" "p_uft s p (nat h) \<noteq> 0"
    "p_uft s p (nat h) > 0 \<Longrightarrow> int NUMSTD \<le> p_uft s p (nat h) \<and> p_uft s p (nat h) < int NUMHANDLES
       \<and> f_own (sft s (nat (p_uft s p (nat h) - int NUMSTD))) \<noteq> 0"
    by (simp_all add: uft_ok_def Let_def)
qed

lemma getofd_std:
  assumes "uft_ok s (run s)" "0 \<le> h" "h < int NUMSTD"
  shows "getofd h s = (if p_uft s (run s) (nat h) > 0
     then f_ofd (sft s (nat (p_uft s (run s) (nat h) - int NUMSTD))) else 0)"
  using uft_okD [OF assms] assms(2,3) by (auto simp: getofd_def syshnd_def hand_defs Let_def)

lemma getofd_nonstd:
  "int NUMSTD \<le> h \<Longrightarrow> h < int NUMHANDLES \<Longrightarrow> getofd h s = f_ofd (sft s (nat (h - int NUMSTD)))"
  by (simp add: getofd_def syshnd_def hand_defs)

lemma getofd_out: "h < 0 \<or> h \<ge> int NUMHANDLES \<Longrightarrow> getofd h s = 0"
  by (auto simp: getofd_def)

section \<open>Properties of handles\<close>


text \<open>The floppy state with the standard handles at BIOS handles and one open file in slot 0.\<close>

definition hand_state :: fsst where
  "hand_state = (floppy_fs count_disk)\<lparr>run := 7, p_uft := (\<lambda>_ i. - int (i mod 3) - 1),
     sft := (\<lambda>i. \<lparr>f_ofd = if i = 0 then 4000 else 0, f_own = if i = 0 then 7 else 0, f_use = if i = 0 then 1 else 0\<rparr>)\<rparr>"

lemma hand_state_sel:
  "run hand_state = 7" "p_uft hand_state p i = - int (i mod 3) - 1"
  "sft hand_state i = \<lparr>f_ofd = if i = 0 then 4000 else 0, f_own = if i = 0 then 7 else 0, f_use = if i = 0 then 1 else 0\<rparr>"
  by (simp_all add: hand_state_def)

lemma hand_state_ok: "uft_ok hand_state (run hand_state)"
  by (auto simp: hand_state_sel uft_ok_def hand_defs Let_def)


text \<open>Storing a handle for a standard one.\<close>

lemma uft_update:
  assumes ok: "uft_ok s (run s)" and std: "0 \<le> std" "std < int NUMSTD"
    and v: "- 128 \<le> v \<and> v < 0 \<or> int NUMSTD \<le> v \<and> v < int NUMHANDLES \<and> f_own (sft s (nat (v - int NUMSTD))) \<noteq> 0"
    and s': "run s' = run s" "p_uft s' = (p_uft s)(run s := (p_uft s (run s))(nat std := v))"
      "\<forall>i. f_ofd (sft s' i) = f_ofd (sft s i)" "\<forall>i. f_own (sft s' i) = f_own (sft s i)"
  shows "uft_ok s' (run s')" "getofd std s' = (if v > 0 then getofd v s else 0)"
    "g \<noteq> std \<Longrightarrow> getofd g s' = getofd g s"
proof -
  show u: "uft_ok s' (run s')" using ok v unfolding uft_ok_def s'(1,2) Let_def by (auto simp: s'(4) NUMSTD_def)
  show "getofd std s' = (if v > 0 then getofd v s else 0)"
    using getofd_std [OF u std] getofd_nonstd [of v s] v s' by (auto simp: NUMSTD_def)
  show "getofd g s' = getofd g s" if "g \<noteq> std"
  proof (cases "0 \<le> g \<and> g < int NUMSTD")
    case True
    then have g: "0 \<le> g" "g < int NUMSTD" "nat g \<noteq> nat std" using that std by auto
    then show ?thesis using getofd_std [OF ok g(1,2)] getofd_std [OF u g(1,2)] s' by simp
  next
    case False
    then show ?thesis
      using getofd_nonstd [of g s] getofd_nonstd [of g s'] getofd_out [of g] s'(3) by (cases "g < int NUMHANDLES") auto
  qed
qed



text \<open>
  A BIOS handle out of the range of a signed byte is truncated, not refused: \<open>Fforce\<close> of
  a standard handle to handle -200 succeeds and makes it stand for slot 50 of the file table
  (handle 56), without the check that this slot is in use.
\<close>

theorem xforce_truncates:
  "case xforce 1 (- 200) s of (r, s') \<Rightarrow> r = E_OK \<and> p_uft s' (run s') 1 = 56 \<and> syshnd 1 s' = 50"
  by (simp add: xforce_def ixforce_def NUMSTD_def s8_def syshnd_def)

end
