(* ===== verification/FsIo.thy ===== *)
theory FsIo
  imports FsFat FsHand
begin

text \<open>
  bdos/fsio.c: reading, writing and seeking. A transfer is cut into the bytes up to the next
  record boundary, whole records and the bytes after the last record boundary; the records
  are moved directly between the disk and the user's memory, cluster runs that are
  contiguous on the disk in one request, after the cached copies have been written back and
  dropped. Lengths given to a read or write are natural numbers; a user buffer does not
  overlap the sector buffers.
\<close>

definition CNTMAX :: nat where "CNTMAX = 0x7FFF"

definition addit :: "nat \<Rightarrow> nat \<Rightarrow> fsst \<Rightarrow> fsst" where
  "addit p siz s =
     (let dm = dmds s (o_dmd (ofds s p)); dfd = o_dfd (ofds s p);
          s = (if siz < m_clsizb dm
               then set_ofd p (\<lambda>f. f\<lparr>o_curbyt := (o_curbyt f + siz) mod 65536\<rparr>) s else s);
          s = set_ofd p (\<lambda>f. f\<lparr>o_bytnum := o_bytnum f + int siz\<rparr>) s
      in if o_bytnum (ofds s p) > o_fileln (dfds s dfd)
         then set_dfd dfd (\<lambda>d. d\<lparr>o_fileln := o_bytnum (ofds s p), o_flag := o_flag d OR O_DIRTY\<rparr>) s
         else s)"

text \<open>\<open>longjmp_rwabs\<close> on \<open>cnt\<close> records at \<open>rec\<close>, between the disk and the user's memory.\<close>

definition rwabs_user :: "driver \<Rightarrow> bool \<Rightarrow> nat \<Rightarrow> nat \<Rightarrow> nat \<Rightarrow> int \<Rightarrow> nat \<Rightarrow> fsst \<Rightarrow> unit res" where
  "rwabs_user drv flg ubuf cnt rec dev recsiz s =
     (let rwerr = d_rwabs drv flg cnt rec dev in
      if rwerr \<noteq> 0 then Some (Inl rwerr, s\<lparr>errdrv := dev, errcode := rwerr\<rparr>)
      else if flg then
        ret () (s\<lparr>disk := (disk s)(dev := (\<lambda>r i. if rec \<le> r \<and> r < rec + cnt \<and> i < recsiz
          then umem s (ubuf + (r - rec) * recsiz + i) else disk s dev r i))\<rparr>)
      else
        ret () (s\<lparr>umem := (\<lambda>a. if ubuf \<le> a \<and> a < ubuf + cnt * recsiz
          then disk s dev (rec + (a - ubuf) div recsiz) ((a - ubuf) mod recsiz) else umem s a)\<rparr>))"

primrec usrio_flush :: "driver \<Rightarrow> int \<Rightarrow> nat \<Rightarrow> nat \<Rightarrow> nat list \<Rightarrow> fsst \<Rightarrow> unit res" where
  "usrio_flush drv dev num strt [] s = ret () s"
| "usrio_flush drv dev num strt (b # bs) s =
     bind_res (if b_bufdrv s b = dev \<and> b_bufrec s b \<ge> strt \<and> b_bufrec s b < strt + num
               then bind_res (if b_dirty s b then flush drv b s else ret () s) (\<lambda>_ s.
                    ret () (s\<lparr>b_bufdrv := (b_bufdrv s)(b := - 1)\<rparr>))
               else ret () s) (\<lambda>_ s. usrio_flush drv dev num strt bs s)"

definition usrio :: "driver \<Rightarrow> bool \<Rightarrow> nat \<Rightarrow> nat \<Rightarrow> nat \<Rightarrow> nat \<Rightarrow> fsst \<Rightarrow> unit res" where
  "usrio drv rwflg num strt ubuf dmp s =
     (let dm = dmds s dmp in
      case nodes (b_link s) (bufl_data s) of
        None \<Rightarrow> None
      | Some bs \<Rightarrow>
          bind_res (usrio_flush drv (m_drvnum dm) num strt bs s) (\<lambda>_ s.
          rwabs_user drv rwflg ubuf num (strt + m_recoff dm BT_DATA) (m_drvnum dm) (m_recsiz dm) s))"

text \<open>
  The loop over whole clusters of \<open>xrw_recs\<close>: the run \<open>lst\<close>, \<open>nrecs\<close> of records still to be
  transferred; the result is the updated buffer pointer, or \<open>None\<close> (\<open>NULL\<close>) at the end of the chain.
\<close>

definition xrw_pending :: "driver \<Rightarrow> bool \<Rightarrow> nat \<Rightarrow> nat \<Rightarrow> nat \<Rightarrow> nat \<Rightarrow> fsst \<Rightarrow> (nat \<times> nat \<times> nat) res" where
  "xrw_pending drv wrtflg p lst nrecs ubufr s =
     (let dmp = o_dmd (ofds s p) in
      if nrecs \<noteq> 0 then
        bind_res (usrio drv wrtflg nrecs lst ubufr dmp s) (\<lambda>_ s.
        let nbytes = push_bit (m_rblog (dmds s dmp)) nrecs; s = addit p nbytes s
        in ret (o_currec (ofds s p), 0, ubufr + nbytes) s)
      else ret (lst, nrecs, ubufr) s)"

function xrw_clusters :: "driver \<Rightarrow> bool \<Rightarrow> nat \<Rightarrow> nat \<Rightarrow> bool \<Rightarrow> nat \<Rightarrow> nat \<Rightarrow> nat \<Rightarrow> fsst \<Rightarrow> nat option res" where
  "xrw_clusters drv wrtflg p numclus first_time lst nrecs ubufr s =
     bind_res (if numclus \<noteq> 0 then nextcl drv p wrtflg s else ret 0 s) (\<lambda>rc s.
     let lst = (if first_time then o_currec (ofds s p) else lst);
         clsiz = m_clsiz (dmds s (o_dmd (ofds s p)))
     in bind_res (if rc \<noteq> 0 \<or> numclus = 0 \<or> o_currec (ofds s p) \<noteq> lst + nrecs \<or> nrecs + clsiz > CNTMAX
                  then xrw_pending drv wrtflg p lst nrecs ubufr s
                  else ret (lst, nrecs, ubufr) s) (\<lambda>(lst, nrecs, ubufr) s.
        if rc \<noteq> 0 then ret None s
        else if numclus = 0 then ret (Some ubufr) s
        else xrw_clusters drv wrtflg p (numclus - 1) False lst (nrecs + clsiz) ubufr s))"
  by pat_completeness auto

termination
  by (relation "measure (\<lambda>(drv, w, p, k, _). k)") auto

declare xrw_clusters.simps [simp del]

text \<open>\<open>xrw_recs\<close> from the whole clusters on: they and the records of the last cluster.\<close>

definition xrw_main :: "driver \<Rightarrow> bool \<Rightarrow> nat \<Rightarrow> nat \<Rightarrow> nat \<Rightarrow> fsst \<Rightarrow> nat option res" where
  "xrw_main drv wrtflg p numrecs ubufr s =
     (let dmp = o_dmd (ofds s p); dm = dmds s dmp;
          tailrec = numrecs AND m_clrm dm;
          numclus = drop_bit (m_clrlog dm) numrecs mod 65536
      in bind_res (xrw_clusters drv wrtflg p numclus True 0 0 ubufr s) (\<lambda>r s.
         case r of
           None \<Rightarrow> ret None s
         | Some ubufr \<Rightarrow>
             if tailrec \<noteq> 0 then
               bind_res (nextcl drv p wrtflg s) (\<lambda>rc s.
               if rc \<noteq> 0 then ret None s
               else bind_res (usrio drv wrtflg tailrec (o_currec (ofds s p)) ubufr dmp s) (\<lambda>_ s.
                    let nbytes = push_bit (m_rblog dm) tailrec
                    in ret (Some (ubufr + nbytes)) (addit p nbytes s)))
             else ret (Some ubufr) s))"

definition xrw_recs :: "driver \<Rightarrow> bool \<Rightarrow> nat \<Rightarrow> nat \<Rightarrow> nat \<Rightarrow> nat \<Rightarrow> fsst \<Rightarrow> nat option res" where
  "xrw_recs drv wrtflg p startrec numrecs ubufr s =
     (let dmp = o_dmd (ofds s p); dm = dmds s dmp;
          hdrrec = startrec AND m_clrm dm
      in if hdrrec \<noteq> 0 then
           let hdrrec = min (m_clsiz dm - hdrrec) numrecs; nbytes = push_bit (m_rblog dm) hdrrec
           in bind_res (usrio drv wrtflg hdrrec startrec ubufr dmp s) (\<lambda>_ s.
              xrw_main drv wrtflg p (numrecs - hdrrec) (ubufr + nbytes) (addit p nbytes s))
         else xrw_main drv wrtflg p numrecs ubufr s)"

text \<open>\<open>memcpy\<close> between the user's memory and a sector buffer.\<close>

definition copy_in :: "nat \<Rightarrow> nat \<Rightarrow> nat \<Rightarrow> nat \<Rightarrow> fsst \<Rightarrow> fsst" where
  "copy_in b off ubufr n s =
     stored b (\<lambda>i. if off \<le> i \<and> i < off + n then umem s (ubufr + (i - off)) else b_bufr s b i) s"

definition copy_out :: "nat \<Rightarrow> nat \<Rightarrow> nat \<Rightarrow> nat \<Rightarrow> fsst \<Rightarrow> fsst" where
  "copy_out b off ubufr n s =
     s\<lparr>umem := (\<lambda>a. if ubufr \<le> a \<and> a < ubufr + n then b_bufr s b (off + (a - ubufr)) else umem s a)\<rparr>"

text \<open>The three parts of \<open>xrw\<close>: the bytes before the first record boundary,\<close>

definition xrw_head :: "driver \<Rightarrow> bool \<Rightarrow> nat \<Rightarrow> nat \<Rightarrow> nat \<Rightarrow> fsst \<Rightarrow> (nat \<times> nat \<times> nat) res" where
  "xrw_head drv wrtflg p len ubufr s =
     (let dm = dmds s (o_dmd (ofds s p)); f = ofds s p;
          recn = drop_bit (m_rblog dm) (o_curbyt f) + o_currec f;
          bytn = o_curbyt f AND m_rbm dm
      in if bytn \<noteq> 0 then
           let lenxfr = min len (m_recsiz dm - bytn)
           in bind_res (getrec drv recn p wrtflg s) (\<lambda>b s.
              let s = addit p lenxfr s;
                  s = (if wrtflg then copy_in b bytn ubufr lenxfr s else copy_out b bytn ubufr lenxfr s)
              in ret (len - lenxfr, recn + 1, ubufr + lenxfr) s)
         else ret (len, recn, ubufr) s)"

text \<open>and the bytes after the last one.\<close>

definition xrw_tail :: "driver \<Rightarrow> bool \<Rightarrow> nat \<Rightarrow> nat \<Rightarrow> nat \<Rightarrow> fsst \<Rightarrow> unit res" where
  "xrw_tail drv wrtflg p lentail ubufr s =
     (let dm = dmds s (o_dmd (ofds s p)); recn = drop_bit (m_rblog dm) (o_curbyt (ofds s p)) in
      bind_res (if recn = 0 \<or> recn = m_clsiz dm
                then bind_res (nextcl drv p wrtflg s) (\<lambda>rc s. ret (if rc \<noteq> 0 then None else Some 0) s)
                else ret (Some recn) s) (\<lambda>r s.
      case r of
        None \<Rightarrow> ret () s
      | Some recn \<Rightarrow>
          bind_res (getrec drv (o_currec (ofds s p) + recn) p wrtflg s) (\<lambda>b s.
          let s = addit p lentail s
          in ret () (if wrtflg then copy_in b 0 ubufr lentail s else copy_out b 0 ubufr lentail s))))"

definition xrw :: "driver \<Rightarrow> bool \<Rightarrow> nat \<Rightarrow> nat \<Rightarrow> nat \<Rightarrow> fsst \<Rightarrow> int res" where
  "xrw drv wrtflg p len ubufr s =
     (let dm = dmds s (o_dmd (ofds s p)); bytpos = o_bytnum (ofds s p) in
      bind_res (xrw_head drv wrtflg p len ubufr s) (\<lambda>(len, recn, ubufr) s.
      let lentail = len AND m_rbm dm; numrecs = drop_bit (m_rblog dm) (len - lentail) in
      bind_res (if numrecs \<noteq> 0 then xrw_recs drv wrtflg p recn numrecs ubufr s else ret (Some ubufr) s) (\<lambda>r s.
      bind_res (case r of
                  None \<Rightarrow> ret () s
                | Some ubufr \<Rightarrow> if lentail \<noteq> 0 then xrw_tail drv wrtflg p lentail ubufr s else ret () s) (\<lambda>_ s.
      ret (o_bytnum (ofds s p) - bytpos) s))))"

definition ixgetfcb :: "driver \<Rightarrow> nat \<Rightarrow> fsst \<Rightarrow> (nat \<times> nat) option res" where
  "ixgetfcb drv p s =
     (let dm = dmds s (o_dmd (ofds s p));
          recnum = drop_bit (m_rblog dm) (o_curbyt (ofds s p));
          offset = o_curbyt (ofds s p) AND m_rbm dm
      in bind_res (if offset = 0 \<and> (recnum = 0 \<or> recnum = m_clsiz dm)
                   then bind_res (nextcl drv p False s) (\<lambda>rc s. ret (if rc \<noteq> 0 then None else Some 0) s)
                   else ret (Some recnum) s) (\<lambda>r s.
         case r of
           None \<Rightarrow> ret None s
         | Some recnum \<Rightarrow>
             bind_res (getrec drv (recnum + o_currec (ofds s p)) p False s) (\<lambda>b s.
             ret (Some (b, offset)) (addit p 32 s))))"

text \<open>A read returns a count, or for a null buffer the place of the next directory entry.\<close>

datatype rdres = Count int | Place "(nat \<times> nat) option"

definition ixread :: "driver \<Rightarrow> nat \<Rightarrow> int \<Rightarrow> nat \<Rightarrow> fsst \<Rightarrow> rdres res" where
  "ixread drv p len ubufr s =
     (if ubufr = 0 then bind_res (ixgetfcb drv p s) (\<lambda>r s. ret (Place r) s)
      else
      let maxlen = o_fileln (dfds s (o_dfd (ofds s p))) - o_bytnum (ofds s p);
          len = (if len > maxlen then maxlen else len)
      in if len > 0 then bind_res (xrw drv False p (nat len) ubufr s) (\<lambda>n s. ret (Count n) s)
         else ret (Count 0) s)"

definition ixwrite :: "driver \<Rightarrow> nat \<Rightarrow> nat \<Rightarrow> nat \<Rightarrow> fsst \<Rightarrow> int res" where
  "ixwrite drv p len ubufr s = xrw drv True p len ubufr s"

text \<open>A duplicated BIOS handle has no descriptor: following it as one is \<open>None\<close>.\<close>

definition eof :: "int \<Rightarrow> fsst \<Rightarrow> int option" where
  "eof h s =
     (let f = getofd h s in
      if f = 0 then Some EIHNDL
      else if f < 0 then None
      else if o_bytnum (ofds s (nat f)) \<ge> o_fileln (dfds s (o_dfd (ofds s (nat f)))) then Some 1 else Some 0)"

text \<open>The hops of \<open>ixlseek\<close> along the chain.\<close>

primrec ixlseek_loop :: "driver \<Rightarrow> nat \<Rightarrow> nat \<Rightarrow> nat \<Rightarrow> fsst \<Rightarrow> nat option res" where
  "ixlseek_loop drv p 0 clx s = ret (Some clx) s"
| "ixlseek_loop drv p (Suc k) clx s =
     bind_res (getclnum drv clx p s) (\<lambda>clx s.
     if endofchain clx then ret None s else ixlseek_loop drv p k clx s)"

definition ixlseek :: "driver \<Rightarrow> nat \<Rightarrow> int \<Rightarrow> fsst \<Rightarrow> int res" where
  "ixlseek drv p n s =
     (let f = ofds s p; dm = dmds s (o_dmd f); d = dfds s (o_dfd f) in
      if n < 0 \<or> n > o_fileln d then ret ERANGE s
      else if n = 0 then
        ret 0 (set_ofd p (\<lambda>f. f\<lparr>o_curcl := 0, o_currec := 0, o_bytnum := 0, o_curbyt := 0\<rparr>) s)
      else
      let clnum = drop_bit (m_clblog dm) (nat n) mod 65536;
          curnum = drop_bit (m_clblog dm) (nat (o_bytnum f)) mod 65536;
          curnum = (if (o_curbyt f = 0 \<or> o_curbyt f = m_clsizb dm) \<and> o_bytnum f \<noteq> 0
                    then (curnum + 65535) mod 65536 else curnum);
          (clnum, clx) = (if o_curcl f \<noteq> 0 \<and> n \<ge> o_bytnum f
                          then ((clnum + 65536 - curnum) mod 65536, o_curcl f) else (clnum, o_strtcl d));
          clnum = (if nat n AND m_clbm dm = 0 then (clnum + 65535) mod 65536 else clnum)
      in bind_res (ixlseek_loop drv p clnum clx s) (\<lambda>r s.
         case r of
           None \<Rightarrow> ret EINTRN s
         | Some clx \<Rightarrow>
             ret n (set_ofd p (\<lambda>f. f\<lparr>o_curcl := clx, o_currec := cl2rec clx dm, o_bytnum := n,
               o_curbyt := nat n AND m_clbm dm\<rparr>) s)))"

definition xlseek :: "driver \<Rightarrow> int \<Rightarrow> int \<Rightarrow> int \<Rightarrow> fsst \<Rightarrow> int res" where
  "xlseek drv n h flg s =
     (let f = getofd h s in
      if f = 0 then ret EIHNDL s
      else if (flg = 2 \<or> flg = 1 \<or> flg = 0) \<and> f < 0 then None
      else if flg = 2 then ixlseek drv (nat f) (s32 (n + o_fileln (dfds s (o_dfd (ofds s (nat f)))))) s
      else if flg = 1 then ixlseek drv (nat f) (s32 (n + o_bytnum (ofds s (nat f)))) s
      else if flg \<noteq> 0 then ret EINVFN s
      else ixlseek drv (nat f) n s)"

definition xread :: "driver \<Rightarrow> int \<Rightarrow> int \<Rightarrow> nat \<Rightarrow> fsst \<Rightarrow> rdres res" where
  "xread drv h len ubufr s =
     (let p = getofd h s in
      if p < 0 then None else if p \<noteq> 0 then ixread drv (nat p) len ubufr s else ret (Count EIHNDL) s)"

definition xwrite :: "driver \<Rightarrow> int \<Rightarrow> nat \<Rightarrow> nat \<Rightarrow> fsst \<Rightarrow> int res" where
  "xwrite drv h len ubufr s =
     (let p = getofd h s in
      if p < 0 then None else if p \<noteq> 0 then ixwrite drv (nat p) len ubufr s else ret EIHNDL s)"


section \<open>Direct transfers\<close>

lemma driver_ok_flush:
  assumes "sees_on F D s V" "driver_ok drv" "b \<in> set F \<union> set D" "b_bufdrv s b \<noteq> - 1" "b_dirty s b"
  shows "flush drv b s = Some (Inr (), written True b s)"
  using assms(1,3-5) by (rule flush_cases [where drv = drv]) (use assms(2) in \<open>auto simp: driver_ok_def\<close>)

lemma usrio_flush_ok:
  assumes "driver_ok drv" "dev \<noteq> - 1"
  shows "sees_on F D s V \<Longrightarrow> set bs \<subseteq> set D \<Longrightarrow>
    \<exists>s'. usrio_flush drv dev num strt bs s = Some (Inr (), s') \<and> sees_on F D s' V \<and> rest s' = rest s
      \<and> (\<forall>b \<in> set bs. \<not> (b_bufdrv s' b = dev \<and> b_bufrec s' b \<ge> strt \<and> b_bufrec s' b < strt + num))
      \<and> (\<forall>b. b_bufdrv s' b = b_bufdrv s b \<or> b_bufdrv s' b = - 1) \<and> b_bufrec s' = b_bufrec s"
proof (induction bs arbitrary: s)
  case Nil
  then show ?case by (simp add: ret_def)
next
  case (Cons b bs)
  let ?hit = "b_bufdrv s b = dev \<and> b_bufrec s b \<ge> strt \<and> b_bufrec s b < strt + num"
  let ?step = "if ?hit then bind_res (if b_dirty s b then flush drv b s else ret () s) (\<lambda>_ s.
      ret () (s\<lparr>b_bufdrv := (b_bufdrv s)(b := - 1)\<rparr>)) else ret () s"
  have b: "b \<in> set F \<union> set D" using Cons.prems(2) by auto
  have "\<exists>s1. ?step = Some (Inr (), s1) \<and> sees_on F D s1 V \<and> rest s1 = rest s
    \<and> b_bufdrv s1 = (if ?hit then (b_bufdrv s)(b := - 1) else b_bufdrv s) \<and> b_bufrec s1 = b_bufrec s"
  proof (cases ?hit)
    case hit: True
    then have v: "b_bufdrv s b \<noteq> - 1" using assms(2) by simp
    show ?thesis
    proof (cases "b_dirty s b")
      case True
      have "sees_on F D (dropped b (written True b s)) V"
        by (rule sees_dropped [OF sees_written [OF Cons.prems(1) b v] b]) simp
      with hit True driver_ok_flush [OF Cons.prems(1) assms(1) b v True] show ?thesis
        by (auto simp: ret_def dropped_def [symmetric])
    next
      case False
      then have "sees_on F D (dropped b s) V" using sees_dropped [OF Cons.prems(1) b] by simp
      with hit False show ?thesis by (auto simp: ret_def dropped_def [symmetric])
    qed
  next
    case False
    then show ?thesis using Cons.prems(1) by (auto simp: ret_def)
  qed
  then obtain s1 where s1: "?step = Some (Inr (), s1)" "sees_on F D s1 V" "rest s1 = rest s"
    "b_bufdrv s1 = (if ?hit then (b_bufdrv s)(b := - 1) else b_bufdrv s)" "b_bufrec s1 = b_bufrec s" by blast
  have "set bs \<subseteq> set D" using Cons.prems(2) by simp
  from Cons.IH [OF s1(2) this] obtain s2 where s2: "usrio_flush drv dev num strt bs s1 = Some (Inr (), s2)"
    "sees_on F D s2 V" "rest s2 = rest s1"
    "\<forall>b \<in> set bs. \<not> (b_bufdrv s2 b = dev \<and> b_bufrec s2 b \<ge> strt \<and> b_bufrec s2 b < strt + num)"
    "\<forall>b. b_bufdrv s2 b = b_bufdrv s1 b \<or> b_bufdrv s2 b = - 1" "b_bufrec s2 = b_bufrec s1" by blast
  have "usrio_flush drv dev num strt (b # bs) s = Some (Inr (), s2)"
    unfolding usrio_flush.simps s1(1) using s2(1) by simp
  moreover have "\<not> (b_bufdrv s2 b = dev \<and> b_bufrec s2 b \<ge> strt \<and> b_bufrec s2 b < strt + num)"
    using s2(5,6) s1(4,5) assms(2) by (cases ?hit) (auto dest: spec [of _ b])
  moreover have "b_bufdrv s2 c = b_bufdrv s c \<or> b_bufdrv s2 c = - 1" for c
    using s2(5) s1(4) by (metis fun_upd_apply)
  ultimately show ?case using s1(3,5) s2 by auto
qed


lemma rest_umem [simp, fs_frame]: "rest (s\<lparr>umem := u\<rparr>) = (rest s)\<lparr>umem := u\<rparr>"
  by (simp add: rest_def)

lemma rest_umem_sel: "umem (rest s) = umem s"
  by (simp add: rest_def)

text \<open>After the cached copies are gone, no buffer has a record of the range.\<close>

lemma usrio_flushed:
  assumes "sees s V" "driver_ok drv" "mounted s dmp"
  obtains F D s1 bs where "nodes (b_link s) (bufl_data s) = Some bs"
    "usrio_flush drv (m_drvnum (dmds s dmp)) num strt bs s = Some (Inr (), s1)"
    "sees_on F D s1 V" "rest s1 = rest s"
    "\<forall>b \<in> set F \<union> set D. \<forall>rec. strt \<le> rec \<and> rec < strt + num \<longrightarrow> \<not> cached s1 b dmp BT_DATA rec"
proof -
  obtain F D where s: "sees_on F D s V" using assms(1) by (auto simp: sees_def)
  have k: "lists_ok F D s" "bufs_ok (set F) (set D) s" using s by (simp_all add: sees_on_def)
  have n: "nodes (b_link s) (bufl_data s) = Some D" using k(1) nodes_chain by (auto simp: lists_ok_def)
  have dev: "m_drvnum (dmds s dmp) \<noteq> - 1" using bufs_drvnum [OF k(2) assms(3)] by simp
  obtain s1 where s1: "usrio_flush drv (m_drvnum (dmds s dmp)) num strt D s = Some (Inr (), s1)"
    "sees_on F D s1 V" "rest s1 = rest s"
    "\<forall>b \<in> set D. \<not> (b_bufdrv s1 b = m_drvnum (dmds s dmp) \<and> b_bufrec s1 b \<ge> strt \<and> b_bufrec s1 b < strt + num)"
    using usrio_flush_ok [OF assms(2) dev s, of D num strt] by auto
  have m1: "mounted s1 dmp" "dmds s1 = dmds s" using rest_sel [OF s1(3)] assms(3) by simp_all
  have "\<not> cached s1 b dmp BT_DATA rec" if "b \<in> set F \<union> set D" "strt \<le> rec" "rec < strt + num" for b rec
  proof
    assume c: "cached s1 b dmp BT_DATA rec"
    then have "b \<in> set D" using cached_in_list [OF s1(2) m1(1) that(1) c] by (simp add: blist_def bt_defs)
    with s1(4) c that(2,3) m1(2) show False by (auto simp: cached_def)
  qed
  with n s1 that show thesis by blast
qed

lemma usrio_read:
  assumes "sees s V" "driver_ok drv" "mounted s dmp" and dm: "dmds s dmp = dm"
  obtains s' where "usrio drv False num strt ub dmp s = Some (Inr (), s')" "sees s' V"
    "rest s' = rest (s\<lparr>umem := (\<lambda>a. if ub \<le> a \<and> a < ub + num * m_recsiz dm
       then V dmp BT_DATA (strt + (a - ub) div m_recsiz dm) ((a - ub) mod m_recsiz dm) else umem s a)\<rparr>)"
proof -
  obtain F D s1 bs where b: "nodes (b_link s) (bufl_data s) = Some bs"
    "usrio_flush drv (m_drvnum (dmds s dmp)) num strt bs s = Some (Inr (), s1)"
    and s1: "sees_on F D s1 V" "rest s1 = rest s"
      "\<forall>b \<in> set F \<union> set D. \<forall>rec. strt \<le> rec \<and> rec < strt + num \<longrightarrow> \<not> cached s1 b dmp BT_DATA rec"
    by (rule usrio_flushed [OF assms(1-3)])
  have m1: "mounted s1 dmp" "dmds s1 dmp = dm" "umem s1 = umem s" using rest_sel [OF s1(2)] assms(3) dm by simp_all
  let ?u = "\<lambda>a. if ub \<le> a \<and> a < ub + num * m_recsiz dm
    then disk s1 (m_drvnum dm) (strt + m_recoff dm BT_DATA + (a - ub) div m_recsiz dm) ((a - ub) mod m_recsiz dm) else umem s1 a"
  have dk: "disk s1 (m_drvnum dm) (rec + m_recoff dm BT_DATA) = V dmp BT_DATA rec" if "strt \<le> rec" "rec < strt + num" for rec
    using s1(1,3) m1 that by (auto simp: sees_on_def has_all_def has_rec_def rec_ok_def)
  have u: "?u = (\<lambda>a. if ub \<le> a \<and> a < ub + num * m_recsiz dm
       then V dmp BT_DATA (strt + (a - ub) div m_recsiz dm) ((a - ub) mod m_recsiz dm) else umem s a)"
  proof
    fix a
    have "(a - ub) div m_recsiz dm < num" if "ub \<le> a" "a < ub + num * m_recsiz dm"
      using that by (simp add: less_mult_imp_div_less less_diff_conv2)
    then show "?u a = (if ub \<le> a \<and> a < ub + num * m_recsiz dm
       then V dmp BT_DATA (strt + (a - ub) div m_recsiz dm) ((a - ub) mod m_recsiz dm) else umem s a)"
      using dk [of "strt + (a - ub) div m_recsiz dm"] m1(3) by (auto simp: ac_simps)
  qed
  have "usrio drv False num strt ub dmp s = Some (Inr (), s1\<lparr>umem := ?u\<rparr>)"
    using b assms(2) dm by (simp add: usrio_def rwabs_user_def driver_ok_def ret_def Let_def)
  moreover have "sees (s1\<lparr>umem := ?u\<rparr>) V" using s1(1) by (auto simp: sees_def)
  ultimately show thesis using that s1(2) unfolding u by simp
qed

text \<open>The abstract disk after records have been written from the user's memory.\<close>

definition put_recs :: "nat \<Rightarrow> nat \<Rightarrow> nat \<Rightarrow> nat \<Rightarrow> (nat \<Rightarrow> byte) \<Rightarrow> nat \<Rightarrow> adisk \<Rightarrow> adisk" where
  "put_recs dmp strt num recsiz u ub V = (\<lambda>d n r.
     if d = dmp \<and> n = BT_DATA \<and> strt \<le> r \<and> r < strt + num
     then (\<lambda>i. if i < recsiz then u (ub + (r - strt) * recsiz + i) else V d n r i) else V d n r)"

lemma usrio_write:
  assumes "sees s V" "driver_ok drv" "mounted s dmp" and dm: "dmds s dmp = dm"
  obtains s' where "usrio drv True num strt ub dmp s = Some (Inr (), s')" "rest s' = rest s"
    "sees s' (put_recs dmp strt num (m_recsiz dm) (umem s) ub V)"
proof -
  obtain F D s1 bs where b: "nodes (b_link s) (bufl_data s) = Some bs"
    "usrio_flush drv (m_drvnum (dmds s dmp)) num strt bs s = Some (Inr (), s1)"
    and s1: "sees_on F D s1 V" "rest s1 = rest s"
      "\<forall>b \<in> set F \<union> set D. \<forall>rec. strt \<le> rec \<and> rec < strt + num \<longrightarrow> \<not> cached s1 b dmp BT_DATA rec"
    by (rule usrio_flushed [OF assms(1-3)])
  have m1: "mounted s1 dmp" "dmds s1 dmp = dm" "umem s1 = umem s" using rest_sel [OF s1(2)] assms(3) dm by simp_all
  have k: "lists_ok F D s1" "bufs_ok (set F) (set D) s1" "has_all (set F \<union> set D) s1 V"
    using s1(1) by (simp_all add: sees_on_def)
  let ?off = "strt + m_recoff dm BT_DATA"
  let ?dk = "\<lambda>r i. if ?off \<le> r \<and> r < ?off + num \<and> i < m_recsiz dm
    then umem s (ub + (r - ?off) * m_recsiz dm + i) else disk s1 (m_drvnum dm) r i"
  define s2 where "s2 = s1\<lparr>disk := (disk s1)(m_drvnum dm := ?dk)\<rparr>"
  have u: "usrio drv True num strt ub dmp s = Some (Inr (), s2)"
    unfolding s2_def m1(3) [symmetric]
    using b assms(2) dm by (simp add: usrio_def rwabs_user_def driver_ok_def ret_def Let_def)
  have e: "mounted s2 = mounted s1" "cached s2 = cached s1" "dmds s2 = dmds s1" "b_bufr s2 = b_bufr s1"
    by (auto simp: s2_def mounted_def cached_def fun_eq_iff)
  have dk2: "disk s2 (m_drvnum (dmds s1 d)) (r + m_recoff (dmds s1 d) n)
      = (if d = dmp \<and> n = BT_DATA \<and> strt \<le> r \<and> r < strt + num
         then (\<lambda>i. if i < m_recsiz dm then umem s (ub + (r - strt) * m_recsiz dm + i)
           else disk s1 (m_drvnum (dmds s1 d)) (r + m_recoff (dmds s1 d) n) i)
         else disk s1 (m_drvnum (dmds s1 d)) (r + m_recoff (dmds s1 d) n))"
    if d: "mounted s1 d" "rec_ok (dmds s1 d) n r" for d n r
  proof (cases "m_drvnum (dmds s1 d) = m_drvnum dm")
    case True
    then have "d = dmp" using mounted_unique [OF d(1) m1(1)] m1(2) by simp
    moreover have "?off \<le> r + m_recoff dm n \<and> r + m_recoff dm n < ?off + num \<longleftrightarrow> n = BT_DATA \<and> strt \<le> r \<and> r < strt + num"
    proof -
      have "n = BT_DATA" if "?off \<le> r + m_recoff dm n"
        using d(2) that bufs_layout [OF k(2) m1(1)] m1(2) \<open>d = dmp\<close> by (auto simp: rec_ok_def layout_ok_def)
      then show ?thesis by auto
    qed
    ultimately show ?thesis using m1(2) by (auto simp: s2_def fun_eq_iff)
  next
    case False
    then show ?thesis using m1(2) by (auto simp: s2_def)
  qed
  have bo: "bufs_ok (set F) (set D) s2"
  proof (rule bufs_okI)
    fix c assume c: "c \<in> set F \<union> set D"
    note bc = bufs_buf [OF k(2) c]
    show "buf_ok s2 c"
    proof (cases "b_bufdrv s1 c = - 1")
      case True
      then show ?thesis by (simp add: buf_ok_def s2_def)
    next
      case False
      then have v: "mounted s1 (b_dm s1 c)" "m_drvnum (dmds s1 (b_dm s1 c)) = b_bufdrv s1 c"
        "rec_ok (dmds s1 (b_dm s1 c)) (b_buftyp s1 c) (b_bufrec s1 c)" using bc by (simp_all add: buf_ok_def Let_def)
      have ne: "\<not> (b_dm s1 c = dmp \<and> b_buftyp s1 c = BT_DATA \<and> strt \<le> b_bufrec s1 c \<and> b_bufrec s1 c < strt + num)"
      proof
        assume a: "b_dm s1 c = dmp \<and> b_buftyp s1 c = BT_DATA \<and> strt \<le> b_bufrec s1 c \<and> b_bufrec s1 c < strt + num"
        then have "cached s1 c dmp BT_DATA (b_bufrec s1 c)" using v(2) by (simp add: cached_def)
        with a c s1(3) show False by blast
      qed
      then have "disk s2 (b_bufdrv s1 c) (b_bufrec s1 c + m_recoff (dmds s1 (b_dm s1 c)) (b_buftyp s1 c))
          = disk s1 (b_bufdrv s1 c) (b_bufrec s1 c + m_recoff (dmds s1 (b_dm s1 c)) (b_buftyp s1 c))"
        using dk2 [OF v(1,3)] by (simp only: ne if_False v(2))
      then show ?thesis using bc e by (simp add: buf_ok_def Let_def) (simp add: s2_def)
    qed
  qed (use bufs_layout [OF k(2)] bufs_typ [OF k(2)] bufs_unique [OF k(2)] e in \<open>simp_all add: s2_def\<close>)
  have "has_all (set F \<union> set D) s2 (put_recs dmp strt num (m_recsiz dm) (umem s) ub V)"
    unfolding has_all_def
  proof (intro allI impI)
    fix d n r
    assume "mounted s2 d" "rec_ok (dmds s2 d) n r"
    then have d: "mounted s1 d" "rec_ok (dmds s1 d) n r" by (simp_all add: e)
    then have h: "has_rec (set F \<union> set D) s1 d n r (V d n r)" using k(3) by (simp add: has_all_def)
    show "has_rec (set F \<union> set D) s2 d n r (put_recs dmp strt num (m_recsiz dm) (umem s) ub V d n r)"
    proof (cases "d = dmp \<and> n = BT_DATA \<and> strt \<le> r \<and> r < strt + num")
      case True
      then have "\<forall>b \<in> set F \<union> set D. \<not> cached s1 b d n r" using s1(3) by blast
      with h True dk2 [OF d] m1(2) show ?thesis by (auto simp: has_rec_def e put_recs_def)
    next
      case False
      then show ?thesis using h dk2 [OF d] by (auto simp: has_rec_def e put_recs_def)
    qed
  qed
  with bo have "sees_on F D s2 (put_recs dmp strt num (m_recsiz dm) (umem s) ub V)"
    using k(1) by (simp add: sees_on_def) (simp add: lists_ok_def s2_def)
  moreover have "rest s2 = rest s" using s1(2) by (simp add: s2_def rest_def)
  ultimately show thesis using u that by (auto simp: sees_def)
qed


section \<open>Reading a file\<close>

text \<open>The state \<open>s0\<close> with other user memory and another position of the file \<open>p\<close>.\<close>

definition posn :: "fsst \<Rightarrow> nat \<Rightarrow> (nat \<Rightarrow> byte) \<Rightarrow> nat \<Rightarrow> nat \<Rightarrow> nat \<Rightarrow> nat \<Rightarrow> fsst" where
  "posn s0 p u b c r k = s0\<lparr>umem := u, ofds := (ofds s0)(p := (ofds s0 p)\<lparr>o_bytnum := int b, o_curcl := c,
     o_currec := r, o_curbyt := k\<rparr>)\<rparr>"

lemma posn_sel [simp]:
  "drvtbl (posn s0 p u b c r k) = drvtbl s0" "dmds (posn s0 p u b c r k) = dmds s0"
  "dfds (posn s0 p u b c r k) = dfds s0" "umem (posn s0 p u b c r k) = u"
  "mounted (posn s0 p u b c r k) = mounted s0"
  "o_dmd (ofds (posn s0 p u b c r k) q) = o_dmd (ofds s0 q)" "o_dfd (ofds (posn s0 p u b c r k) q) = o_dfd (ofds s0 q)"
  "o_dnode (ofds (posn s0 p u b c r k) q) = o_dnode (ofds s0 q)"
  "o_bytnum (ofds (posn s0 p u b c r k) p) = int b" "o_curcl (ofds (posn s0 p u b c r k) p) = c"
  "o_currec (ofds (posn s0 p u b c r k) p) = r" "o_curbyt (ofds (posn s0 p u b c r k) p) = k"
  by (auto simp: posn_def mounted_def fun_eq_iff)

text \<open>A file that can be read: its chain covers its length.\<close>

definition rfile :: "fsst \<Rightarrow> nat \<Rightarrow> dmd \<Rightarrow> nat \<Rightarrow> adisk \<Rightarrow> nat list \<Rightarrow> bool" where
  "rfile s p dm dmp V cs \<longleftrightarrow> o_dmd (ofds s p) = dmp \<and> dmds s dmp = dm \<and> vol_ok s dmp \<and> o_dnode (ofds s p) \<noteq> 0
     \<and> m_fatofd dm \<noteq> p
     \<and> (let st = o_strtcl (dfds s (o_dfd (ofds s p))) in
        cl_chain dm (entry dm dmp V) (if st \<noteq> 0 then st else ENDOFCHAIN) cs)
     \<and> 0 \<le> o_fileln (dfds s (o_dfd (ofds s p)))
     \<and> o_fileln (dfds s (o_dfd (ofds s p))) \<le> int (length cs * m_clsizb dm)"

definition file_len :: "fsst \<Rightarrow> nat \<Rightarrow> nat" where
  "file_len s p = nat (o_fileln (dfds s (o_dfd (ofds s p))))"

definition file_byte :: "dmd \<Rightarrow> nat \<Rightarrow> adisk \<Rightarrow> nat list \<Rightarrow> nat \<Rightarrow> byte" where
  "file_byte dm dmp V cs i =
     V dmp BT_DATA (cl2rec (cs ! (i div m_clsizb dm)) dm + (i mod m_clsizb dm) div m_recsiz dm) (i mod m_recsiz dm)"

text \<open>User memory with \<open>n\<close> bytes of the file from \<open>b\<close> on copied to \<open>ub\<close>.\<close>

definition fill_mem :: "(nat \<Rightarrow> byte) \<Rightarrow> nat \<Rightarrow> nat \<Rightarrow> nat \<Rightarrow> (nat \<Rightarrow> byte) \<Rightarrow> nat \<Rightarrow> byte" where
  "fill_mem fb ub b n u = (\<lambda>a. if ub \<le> a \<and> a < ub + n then fb (b + (a - ub)) else u a)"

lemma fill_mem_0 [simp]: "fill_mem fb ub b 0 u = u"
  by (rule ext) (auto simp: fill_mem_def)

lemma fill_mem_add: "fill_mem fb (ub + n) (b + n) m (fill_mem fb ub b n u) = fill_mem fb ub b (n + m) u"
  by (auto simp: fill_mem_def fun_eq_iff)

lemma posn_file:
  assumes "rest s = rest (posn s0 p u b c r k)" "rfile s0 p dm dmp V cs"
  shows "vol_ok s dmp" "dmds s dmp = dm" "mounted s dmp" "o_dmd (ofds s p) = dmp" "umem s = u"
    "o_bytnum (ofds s p) = int b" "o_curcl (ofds s p) = c" "o_currec (ofds s p) = r" "o_curbyt (ofds s p) = k"
    "dfds s = dfds s0" "o_dfd (ofds s p) = o_dfd (ofds s0 p)" "ofd_typ s p = BT_DATA"
    "c = 0 \<or> is_cl dm c \<Longrightarrow> file_ok s p"
proof -
  note R = rest_sel [OF assms(1)]
  show v: "vol_ok s dmp" using assms(2) by (auto simp: vol_ok_def R rfile_def)
  show "dmds s dmp = dm" "mounted s dmp" "o_dmd (ofds s p) = dmp" "umem s = u" "o_bytnum (ofds s p) = int b"
    "o_curcl (ofds s p) = c" "o_currec (ofds s p) = r" "o_curbyt (ofds s p) = k" "dfds s = dfds s0"
    "o_dfd (ofds s p) = o_dfd (ofds s0 p)" "ofd_typ s p = BT_DATA"
    using assms(2) by (auto simp: R rfile_def vol_ok_def ofd_typ_def)
  show "file_ok s p" if "c = 0 \<or> is_cl dm c"
    using that v assms(2) by (auto simp: file_ok_def R rfile_def)
qed

lemma posn_moved:
  assumes "rest s = rest (posn s0 p u b c r k)" "dmds s0 (o_dmd (ofds s0 p)) = dm"
  shows "rest (moved_to p c' s) = rest (posn s0 p u b c' (cl2rec c' dm) 0)"
proof -
  note R = rest_sel [OF assms(1)]
  have "rest (moved_to p c' s) = rest (moved_to p c' (posn s0 p u b c r k))" by (rule moved_to_rest [OF assms(1)])
  also have "moved_to p c' (posn s0 p u b c r k) = posn s0 p u b c' (cl2rec c' dm) 0"
    using assms(2) by (simp add: moved_to_def set_ofd_def) (simp add: posn_def)
  finally show ?thesis .
qed

lemma set_ofd_posn:
  "set_ofd p (\<lambda>f. f\<lparr>o_curbyt := k', o_bytnum := int b'\<rparr>) (posn s0 p u b c r k) = posn s0 p u b' c r k'"
  by (cases "ofds s0 p") (simp add: set_ofd_def posn_def)

lemma addit_posn:
  assumes "rest s = rest (posn s0 p u b c r k)" "rfile s0 p dm dmp V cs" "b + n \<le> file_len s0 p"
  shows "rest (addit p n s) = rest (posn s0 p u (b + n) c r (if n < m_clsizb dm then (k + n) mod 65536 else k))"
    "sees (addit p n s) V' = sees s V'" "umem (addit p n s) = umem s" "b_bufr (addit p n s) = b_bufr s"
proof -
  note F = posn_file [OF assms(1,2)]
  have le: "int (b + n) \<le> o_fileln (dfds s0 (o_dfd (ofds s0 p)))"
    using assms(2,3) by (simp add: file_len_def rfile_def le_nat_iff)
  have id: "(ofds s p)\<lparr>o_curbyt := k, o_bytnum := v\<rparr> = (ofds s p)\<lparr>o_bytnum := v\<rparr>" for v
    using F(9) by (cases "ofds s p") simp
  have a: "addit p n s = set_ofd p (\<lambda>f. f\<lparr>o_curbyt := if n < m_clsizb dm then (k + n) mod 65536 else k,
      o_bytnum := int (b + n)\<rparr>) s"
    using le F(2,4,6,9,10,11) by (cases "n < m_clsizb dm") (simp_all add: addit_def Let_def set_ofd_def id)
  have "rest (addit p n s) = set_ofd p (\<lambda>f. f\<lparr>o_curbyt := if n < m_clsizb dm then (k + n) mod 65536 else k,
      o_bytnum := int (b + n)\<rparr>) (rest s)" by (simp add: a)
  also have "\<dots> = rest (posn s0 p u (b + n) c r (if n < m_clsizb dm then (k + n) mod 65536 else k))"
    unfolding assms(1) by (simp only: rest_sets [symmetric] set_ofd_posn)
  finally show "rest (addit p n s) = rest (posn s0 p u (b + n) c r (if n < m_clsizb dm then (k + n) mod 65536 else k))" .
  show "sees (addit p n s) V' = sees s V'" "umem (addit p n s) = umem s" "b_bufr (addit p n s) = b_bufr s"
    by (simp_all add: a) (simp_all add: set_ofd_def)
qed


subsection \<open>Where the bytes of a file are\<close>

lemma geometry:
  assumes "dmd_ok dm"
  shows "m_clsizb dm = m_clsiz dm * m_recsiz dm" "0 < m_clsiz dm" "0 < m_recsiz dm" "0 < m_clsizb dm"
    "m_clsizb dm \<le> 32768" "push_bit (m_rblog dm) n = n * m_recsiz dm" "m_clsiz dm < CNTMAX"
    "n AND m_clrm dm = n mod m_clsiz dm" "drop_bit (m_clrlog dm) n = n div m_clsiz dm"
    "n AND m_clbm dm = n mod m_clsizb dm" "drop_bit (m_clblog dm) n = n div m_clsizb dm"
proof -
  have E: "m_clsiz dm = 2 ^ m_clrlog dm" "m_recsiz dm = 2 ^ m_rblog dm" "m_clsizb dm = 2 ^ m_clblog dm"
    "m_clrm dm = mask (m_clrlog dm)" "m_clbm dm = mask (m_clblog dm)" "m_clblog dm = m_clrlog dm + m_rblog dm"
    and le: "m_clrlog dm + m_rblog dm \<le> 15" "1 \<le> m_rblog dm"
    using assms unfolding dmd_ok_def by auto
  then show "m_clsizb dm = m_clsiz dm * m_recsiz dm" by (simp only: E power_add)
  show "0 < m_clsiz dm" "0 < m_recsiz dm" "0 < m_clsizb dm" by (simp_all add: E(1-3))
  show "push_bit (m_rblog dm) n = n * m_recsiz dm" by (simp only: E push_bit_eq_mult)
  show "n AND m_clrm dm = n mod m_clsiz dm" "n AND m_clbm dm = n mod m_clsizb dm"
    by (simp_all only: E(1,3,4,5) take_bit_eq_mask [symmetric] take_bit_eq_mod)
  show "drop_bit (m_clrlog dm) n = n div m_clsiz dm" "drop_bit (m_clblog dm) n = n div m_clsizb dm"
    by (simp_all only: E(1,3) drop_bit_eq_div)
  have "(2 :: nat) ^ (m_clrlog dm + m_rblog dm) \<le> 2 ^ 15" using le(1) by (intro power_increasing) simp_all
  then show "m_clsizb dm \<le> 32768" by (simp only: E(3,6)) simp
  have "m_clrlog dm \<le> 14" using le by simp
  then have "(2 :: nat) ^ m_clrlog dm \<le> 2 ^ 14" by (intro power_increasing) simp_all
  then show "m_clsiz dm < CNTMAX" by (simp add: E(1) CNTMAX_def)
qed

lemma split_position: "(i :: nat) div (K * R) * K + i mod (K * R) div R = i div R"
proof (cases "R = 0")
  case False
  have "i div (K * R) = i div R div K" by (metis div_mult2_eq mult.commute)
  moreover have "i mod (K * R) div R = i div R mod K"
    using mod_mult2_eq [of i R K] False by (simp add: mult.commute)
  ultimately show ?thesis by (simp add: mult.commute [of _ K])
qed simp

text \<open>A run of clusters that are contiguous on the disk is a run of bytes of the file.\<close>

lemma run_bytes:
  assumes "dmd_ok dm" and run: "\<forall>i < m. cl2rec (cs ! (j + i)) dm = lst + i * m_clsiz dm"
    and i: "i < m * m_clsizb dm"
  shows "V dmp BT_DATA (lst + i div m_recsiz dm) (i mod m_recsiz dm) = file_byte dm dmp V cs (j * m_clsizb dm + i)"
proof -
  note G = geometry [OF assms(1)]
  let ?q = "i div m_clsizb dm"
  have "?q < m" using i by (simp add: less_mult_imp_div_less)
  then have "cl2rec (cs ! (j + ?q)) dm = lst + ?q * m_clsiz dm" using run by simp
  moreover have "(j * m_clsizb dm + i) div m_clsizb dm = j + ?q" "(j * m_clsizb dm + i) mod m_clsizb dm = i mod m_clsizb dm"
    using G(4) by simp_all
  moreover have "(j * m_clsizb dm + i) mod m_recsiz dm = i mod m_recsiz dm"
    unfolding G(1) by (metis mod_mult_self4 mult.assoc mult.commute)
  moreover have "?q * m_clsiz dm + i mod m_clsizb dm div m_recsiz dm = i div m_recsiz dm"
    unfolding G(1) by (rule split_position)
  ultimately show ?thesis by (simp add: file_byte_def add.assoc)
qed

text \<open>Part of one cluster, from record \<open>x\<close> of it on.\<close>

lemma part_bytes:
  assumes "dmd_ok dm" and i: "x * m_recsiz dm + i < m_clsizb dm"
  shows "V dmp BT_DATA (cl2rec (cs ! j) dm + x + i div m_recsiz dm) (i mod m_recsiz dm)
    = file_byte dm dmp V cs (j * m_clsizb dm + x * m_recsiz dm + i)"
proof -
  note G = geometry [OF assms(1)]
  let ?i = "x * m_recsiz dm + i"
  have "V dmp BT_DATA (cl2rec (cs ! j) dm + ?i div m_recsiz dm) (?i mod m_recsiz dm)
      = file_byte dm dmp V cs (j * m_clsizb dm + ?i)"
    by (rule run_bytes [OF assms(1), of 1]) (use i in simp_all)
  moreover have "?i div m_recsiz dm = x + i div m_recsiz dm" "?i mod m_recsiz dm = i mod m_recsiz dm"
    using G(3) by simp_all
  ultimately show ?thesis by (simp add: add.assoc)
qed

subsection \<open>The steps of a read\<close>

lemma posn_umem:
  assumes "rest s = rest (posn s0 p u b c r k)"
  shows "rest (s\<lparr>umem := u'\<rparr>) = rest (posn s0 p u' b c r k)"
proof -
  have "rest (s\<lparr>umem := u'\<rparr>) = rest ((posn s0 p u b c r k)\<lparr>umem := u'\<rparr>)" using assms by simp
  also have "(posn s0 p u b c r k)\<lparr>umem := u'\<rparr> = posn s0 p u' b c r k" by (simp add: posn_def)
  finally show ?thesis .
qed

text \<open>Whole records read from the disk, and the position advanced.\<close>

lemma read_records:
  assumes s: "sees s V" "driver_ok drv" "rest s = rest (posn s0 p u b c r k)" and f: "rfile s0 p dm dmp V cs"
    and bytes: "\<forall>i < n * m_recsiz dm. V dmp BT_DATA (strt + i div m_recsiz dm) (i mod m_recsiz dm) = file_byte dm dmp V cs (b + i)"
    and len: "b + n * m_recsiz dm \<le> file_len s0 p"
  obtains s' where "usrio drv False n strt ub dmp s = Some (Inr (), s')" "sees s' V"
    "rest (addit p (n * m_recsiz dm) s') = rest (posn s0 p (fill_mem (file_byte dm dmp V cs) ub b (n * m_recsiz dm) u)
       (b + n * m_recsiz dm) c r (if n * m_recsiz dm < m_clsizb dm then (k + n * m_recsiz dm) mod 65536 else k))"
    "sees (addit p (n * m_recsiz dm) s') V" "dmds s' = dmds s0"
proof -
  note F = posn_file [OF s(3) f]
  let ?u = "\<lambda>a. if ub \<le> a \<and> a < ub + n * m_recsiz dm
    then V dmp BT_DATA (strt + (a - ub) div m_recsiz dm) ((a - ub) mod m_recsiz dm) else umem s a"
  obtain s' where s': "usrio drv False n strt ub dmp s = Some (Inr (), s')" "sees s' V" "rest s' = rest (s\<lparr>umem := ?u\<rparr>)"
    by (rule usrio_read [OF s(1,2) F(3,2)])
  have "?u a = fill_mem (file_byte dm dmp V cs) ub b (n * m_recsiz dm) u a" for a
    using bytes F(5) by (auto simp: fill_mem_def less_diff_conv2)
  then have u: "?u = fill_mem (file_byte dm dmp V cs) ub b (n * m_recsiz dm) u" by (rule ext)
  have r: "rest s' = rest (posn s0 p (fill_mem (file_byte dm dmp V cs) ub b (n * m_recsiz dm) u) b c r k)"
    using s'(3) posn_umem [OF s(3)] unfolding u by simp
  show thesis
    by (rule that [OF s'(1,2)]) (use addit_posn [OF r f len] s'(2) rest_sel(2) [OF r] in simp_all)
qed

text \<open>The cluster at index \<open>j\<close> is entered from the end of the one before.\<close>

lemma read_nextcl:
  assumes s: "sees s V" "driver_ok drv" "rest s = rest (posn s0 p u b c r k)" and f: "rfile s0 p dm dmp V cs"
    and j: "j < length cs" "c = (if j = 0 then 0 else cs ! (j - 1))"
  obtains s' where "nextcl drv p False s = Some (Inr 0, s')" "sees s' V"
    "rest s' = rest (posn s0 p u b (cs ! j) (cl2rec (cs ! j) dm) 0)"
proof -
  note F = posn_file [OF s(3) f]
  obtain st d where st: "st = (if o_strtcl (dfds s0 (o_dfd (ofds s0 p))) \<noteq> 0 then o_strtcl (dfds s0 (o_dfd (ofds s0 p))) else ENDOFCHAIN)"
    and d: "cl_seg dm (entry dm dmp V) st cs d"
    using f by (auto simp: rfile_def cl_chain_def Let_def)
  have cj: "is_cl dm (cs ! j)" using cl_seg_is_cl [OF d] j(1) by simp
  have dm: "dmd_ok dm" using F(1,2) by (simp add: vol_ok_def)
  have "next_of s V p = cs ! j"
  proof (cases "j = 0")
    case True
    then have "st = cs ! 0" using d j(1) by (cases cs) auto
    then show ?thesis using True j(2) st F(4,7,10,11) by (auto simp: next_of_def Let_def split: if_splits)
  next
    case False
    then obtain i where i: "j = Suc i" by (cases j) auto
    then have "cs = take i cs @ cs ! i # cs ! Suc i # drop (Suc (Suc i)) cs"
      using j(1) by (metis Cons_nth_drop_Suc Suc_lessD append_take_drop_id)
    then have "cl_seg dm (entry dm dmp V) st (take i cs @ cs ! i # cs ! Suc i # drop (Suc (Suc i)) cs) d" using d by simp
    then have "entry dm dmp V (cs ! (j - 1)) = cs ! j" "is_cl dm (cs ! (j - 1))" by (auto simp: cl_seg_append i)
    then show ?thesis using False j(2) F by (simp add: next_of_def Let_def is_cl_def)
  qed
  moreover have "c = 0 \<or> is_cl dm c" using j cl_seg_is_cl [OF d, of "cs ! (j - 1)"] by (cases j) simp_all
  moreover have "\<not> endofchain (cs ! j)" using cl_not_end [OF dm] cj by (simp add: is_cl_def)
  ultimately obtain s' where "nextcl drv p False s = Some (Inr 0, s')" "sees s' V" "rest s' = rest (moved_to p (cs ! j) s)"
    using nextcl_follow [OF s(1,2) F(13), of False] by auto
  moreover have "rest (moved_to p (cs ! j) s) = rest (posn s0 p u b (cs ! j) (cl2rec (cs ! j) dm) 0)"
    by (rule posn_moved [OF s(3)]) (use f in \<open>simp add: rfile_def\<close>)
  ultimately show thesis using that by simp
qed


text \<open>The pending run of \<open>m\<close> contiguous clusters is transferred.\<close>

lemma read_pending:
  assumes s: "sees s V" "driver_ok drv" "rest s = rest (posn s0 p u (j * m_clsizb dm) c r k)" and f: "rfile s0 p dm dmp V cs"
    and run: "0 < m" "\<forall>i < m. cl2rec (cs ! (j + i)) dm = lst + i * m_clsiz dm"
    and len: "(j + m) * m_clsizb dm \<le> file_len s0 p"
  obtains s' where "xrw_pending drv False p lst (m * m_clsiz dm) ub s = Some (Inr (r, 0, ub + m * m_clsizb dm), s')"
    "sees s' V" "rest s' = rest (posn s0 p (fill_mem (file_byte dm dmp V cs) ub (j * m_clsizb dm) (m * m_clsizb dm) u)
       ((j + m) * m_clsizb dm) c r k)"
proof -
  note F = posn_file [OF s(3) f]
  have dm: "dmd_ok dm" using F(1,2) by (simp add: vol_ok_def)
  note G = geometry [OF dm]
  have C: "m * m_clsiz dm * m_recsiz dm = m * m_clsizb dm" by (simp add: G(1))
  have big: "\<not> m * m_clsizb dm < m_clsizb dm" using run(1) by (cases m) auto
  have bytes: "\<forall>i < m * m_clsiz dm * m_recsiz dm. V dmp BT_DATA (lst + i div m_recsiz dm) (i mod m_recsiz dm)
      = file_byte dm dmp V cs (j * m_clsizb dm + i)"
    unfolding C using run_bytes [OF dm run(2)] by blast
  have len': "j * m_clsizb dm + m * m_clsiz dm * m_recsiz dm \<le> file_len s0 p" unfolding C using len by (simp add: algebra_simps)
  obtain s' where s': "usrio drv False (m * m_clsiz dm) lst ub dmp s = Some (Inr (), s')" "sees (addit p (m * m_clsizb dm) s') V"
    "rest (addit p (m * m_clsizb dm) s') = rest (posn s0 p (fill_mem (file_byte dm dmp V cs) ub (j * m_clsizb dm) (m * m_clsizb dm) u)
       (j * m_clsizb dm + m * m_clsizb dm) c r k)" "dmds s' = dmds s0"
    using read_records [OF s f bytes len', of ub] unfolding C if_not_P [OF big] by blast
  have d: "dmds s' dmp = dm" using s'(4) f by (simp add: rfile_def)
  have "o_currec (ofds (addit p (m * m_clsizb dm) s') p) = r" using posn_file(8) [OF s'(3) f] .
  moreover have "m * m_clsiz dm \<noteq> 0" using run(1) G(2) by simp
  moreover have "push_bit (m_rblog dm) (m * m_clsiz dm) = m * m_clsizb dm" using G(6) C by simp
  ultimately have "xrw_pending drv False p lst (m * m_clsiz dm) ub s = Some (Inr (r, 0, ub + m * m_clsizb dm), addit p (m * m_clsizb dm) s')"
    using s'(1) F(4) d by (simp add: xrw_pending_def Let_def ret_def)
  then show thesis by (rule that [OF _ s'(2)]) (use s'(3) in \<open>simp add: algebra_simps\<close>)
qed

lemma read_clusters:
  assumes drv: "driver_ok drv" and f: "rfile s0 p dm dmp V cs"
  shows "sees s V \<Longrightarrow> rest s = rest (posn s0 p u (j * m_clsizb dm) c r k)
    \<Longrightarrow> first \<longleftrightarrow> m = 0 \<Longrightarrow> \<forall>i < m. cl2rec (cs ! (j + i)) dm = lst + i * m_clsiz dm
    \<Longrightarrow> c = (if j + m = 0 then 0 else cs ! (j + m - 1)) \<Longrightarrow> (0 < m \<longrightarrow> k = 0 \<and> r = cl2rec c dm)
    \<Longrightarrow> (j + m + N) * m_clsizb dm \<le> file_len s0 p \<Longrightarrow> j + m + N \<le> length cs
    \<Longrightarrow> \<exists>s' c' r' k'. xrw_clusters drv False p N first lst (m * m_clsiz dm) ub s = Some (Inr (Some (ub + (m + N) * m_clsizb dm)), s')
      \<and> sees s' V \<and> rest s' = rest (posn s0 p (fill_mem (file_byte dm dmp V cs) ub (j * m_clsizb dm) ((m + N) * m_clsizb dm) u)
          ((j + m + N) * m_clsizb dm) c' r' k')
      \<and> (if m + N = 0 then c' = c \<and> r' = r \<and> k' = k else c' = cs ! (j + m + N - 1) \<and> r' = cl2rec c' dm \<and> k' = 0)"
proof (induction N arbitrary: s u j c r k first m lst ub)
  case 0
  note F = posn_file [OF 0(2) f]
  show ?case
  proof (cases "m = 0")
    case True
    then have "xrw_clusters drv False p 0 first lst (m * m_clsiz dm) ub s = Some (Inr (Some ub), s)"
      by (subst xrw_clusters.simps) (simp add: xrw_pending_def ret_def Let_def)
    with True 0 show ?thesis by auto
  next
    case False
    then obtain s' where s': "xrw_pending drv False p lst (m * m_clsiz dm) ub s = Some (Inr (r, 0, ub + m * m_clsizb dm), s')"
      "sees s' V" "rest s' = rest (posn s0 p (fill_mem (file_byte dm dmp V cs) ub (j * m_clsizb dm) (m * m_clsizb dm) u)
         ((j + m) * m_clsizb dm) c r k)"
      using read_pending [OF 0(1) drv 0(2) f _ 0(4), of ub] 0(7) by auto
    have "xrw_clusters drv False p 0 first lst (m * m_clsiz dm) ub s = Some (Inr (Some (ub + m * m_clsizb dm)), s')"
      using s'(1) False 0(3) by (subst xrw_clusters.simps) (simp add: ret_def)
    with s' False 0(5,6) show ?thesis by auto
  qed
next
  case (Suc N)
  note P = Suc.prems
  note F = posn_file [OF P(2) f]
  have dm: "dmd_ok dm" using F(1,2) by (simp add: vol_ok_def)
  note G = geometry [OF dm]
  let ?c = "cs ! (j + m)" and ?C = "m_clsizb dm" and ?K = "m_clsiz dm"
  have jm: "j + m < length cs" using P(8) by simp
  obtain s1 where s1: "nextcl drv p False s = Some (Inr 0, s1)" "sees s1 V"
    "rest s1 = rest (posn s0 p u (j * ?C) ?c (cl2rec ?c dm) 0)"
    by (rule read_nextcl [OF P(1) drv P(2) f jm P(5)])
  note F1 = posn_file [OF s1(3) f]
  let ?lst = "if first then cl2rec ?c dm else lst"
  let ?cond = "cl2rec ?c dm \<noteq> ?lst + m * ?K \<or> m * ?K + ?K > CNTMAX"
  have step: "xrw_clusters drv False p (Suc N) first lst (m * ?K) ub s
    = bind_res (if ?cond then xrw_pending drv False p ?lst (m * ?K) ub s1 else ret (?lst, m * ?K, ub) s1)
        (\<lambda>(lst, nrecs, ub) s. xrw_clusters drv False p N False lst (nrecs + ?K) ub s)"
    by (subst xrw_clusters.simps) (simp add: s1(1) F1(2,4,8) Let_def split del: if_split cong: if_cong)
  have len1: "(j + m) * ?C \<le> file_len s0 p"
    by (rule order_trans [OF _ P(7)]) (rule mult_le_mono1, simp)
  show ?case
  proof (cases ?cond)
    case True
    then have m: "0 < m" using P(3) G(7) by (cases m) auto
    then have run: "\<forall>i < m. cl2rec (cs ! (j + i)) dm = ?lst + i * ?K" using P(3,4) by simp
    obtain s2 where s2: "xrw_pending drv False p ?lst (m * ?K) ub s1 = Some (Inr (cl2rec ?c dm, 0, ub + m * ?C), s2)"
      "sees s2 V" "rest s2 = rest (posn s0 p (fill_mem (file_byte dm dmp V cs) ub (j * ?C) (m * ?C) u) ((j + m) * ?C) ?c (cl2rec ?c dm) 0)"
      by (rule read_pending [OF s1(2) drv s1(3) f m run len1])
    have "\<exists>s' c' r' k'. xrw_clusters drv False p N False (cl2rec ?c dm) (1 * ?K) (ub + m * ?C) s2
        = Some (Inr (Some (ub + m * ?C + (1 + N) * ?C)), s') \<and> sees s' V
      \<and> rest s' = rest (posn s0 p (fill_mem (file_byte dm dmp V cs) (ub + m * ?C) ((j + m) * ?C) ((1 + N) * ?C)
         (fill_mem (file_byte dm dmp V cs) ub (j * ?C) (m * ?C) u)) ((j + m + 1 + N) * ?C) c' r' k')
      \<and> (if 1 + N = 0 then c' = ?c \<and> r' = cl2rec ?c dm \<and> k' = 0 else c' = cs ! (j + m + 1 + N - 1) \<and> r' = cl2rec c' dm \<and> k' = 0)"
      by (rule Suc.IH [OF s2(2,3)]) (use P(7,8) in simp_all)
    then obtain s' c' r' k' where s': "xrw_clusters drv False p N False (cl2rec ?c dm) (1 * ?K) (ub + m * ?C) s2
        = Some (Inr (Some (ub + m * ?C + (1 + N) * ?C)), s')" "sees s' V"
      "rest s' = rest (posn s0 p (fill_mem (file_byte dm dmp V cs) (ub + m * ?C) ((j + m) * ?C) ((1 + N) * ?C)
         (fill_mem (file_byte dm dmp V cs) ub (j * ?C) (m * ?C) u)) ((j + m + 1 + N) * ?C) c' r' k')"
      "c' = cs ! (j + m + 1 + N - 1) \<and> r' = cl2rec c' dm \<and> k' = 0"
      by (metis add_is_0 zero_neq_one)
    have "fill_mem (file_byte dm dmp V cs) (ub + m * ?C) ((j + m) * ?C) ((1 + N) * ?C)
         (fill_mem (file_byte dm dmp V cs) ub (j * ?C) (m * ?C) u)
       = fill_mem (file_byte dm dmp V cs) ub (j * ?C) ((m + Suc N) * ?C) u"
      using fill_mem_add [of "file_byte dm dmp V cs" ub "m * ?C" "j * ?C" "(1 + N) * ?C" u] by (simp add: algebra_simps)
    then show ?thesis using step True s2(1) s' by (simp add: algebra_simps)
  next
    case False
    then have run: "\<forall>i < m + 1. cl2rec (cs ! (j + i)) dm = ?lst + i * ?K"
      using P(3,4) by (auto simp: less_Suc_eq)
    have "\<exists>s' c' r' k'. xrw_clusters drv False p N False ?lst ((m + 1) * ?K) ub s1 = Some (Inr (Some (ub + (m + 1 + N) * ?C)), s')
      \<and> sees s' V \<and> rest s' = rest (posn s0 p (fill_mem (file_byte dm dmp V cs) ub (j * ?C) ((m + 1 + N) * ?C) u)
          ((j + (m + 1) + N) * ?C) c' r' k')
      \<and> (if m + 1 + N = 0 then c' = ?c \<and> r' = cl2rec ?c dm \<and> k' = 0 else c' = cs ! (j + (m + 1) + N - 1) \<and> r' = cl2rec c' dm \<and> k' = 0)"
      by (rule Suc.IH [OF s1(2,3) _ run]) (use P(7,8) in simp_all)
    then show ?thesis using step False by (simp add: ret_def algebra_simps)
  qed
qed


subsection \<open>Positions\<close>

text \<open>
  How a descriptor represents byte \<open>b\<close> of a file: nothing entered at the start, and else the
  cluster of the byte before \<open>b\<close>, with an offset that at a cluster boundary is either the
  cluster size or, after a transfer of whole clusters or a seek, 0.
\<close>

definition at_pos :: "dmd \<Rightarrow> nat list \<Rightarrow> nat \<Rightarrow> nat \<Rightarrow> nat \<Rightarrow> nat \<Rightarrow> bool" where
  "at_pos dm cs b c r k \<longleftrightarrow>
     (if b = 0 then c = 0 \<and> r = 0 \<and> k = 0
      else let j = (b - 1) div m_clsizb dm in
        j < length cs \<and> c = cs ! j \<and> r = cl2rec c dm \<and> (k = b - j * m_clsizb dm \<or> k = 0 \<and> b = (j + 1) * m_clsizb dm))"

lemma cl2rec_mod:
  assumes "dmd_ok dm"
  shows "cl2rec c dm mod m_clsiz dm = 0"
proof -
  have E: "m_clsiz dm = 2 ^ m_clrlog dm" "m_clrlog dm \<le> 32" using assms by (auto simp: dmd_ok_def)
  have "(2 :: nat) ^ m_clrlog dm dvd 2 ^ 32" using E(2) by (rule le_imp_power_dvd)
  then have "x * 2 ^ m_clrlog dm mod 2 ^ 32 mod 2 ^ m_clrlog dm = 0" for x :: nat
    by (simp only: mod_mod_cancel mod_mult_self2_is_0)
  then show ?thesis by (simp only: cl2rec_def push_bit_eq_mult E(1))
qed

lemma at_pos_mid:
  assumes "j < length cs" "0 < k" "k \<le> m_clsizb dm"
  shows "at_pos dm cs (j * m_clsizb dm + k) (cs ! j) (cl2rec (cs ! j) dm) k"
proof -
  have e: "j * m_clsizb dm + k - 1 = (k - 1) + j * m_clsizb dm" using assms(2) by simp
  have "(j * m_clsizb dm + k - 1) div m_clsizb dm = j"
    unfolding e using assms(2,3) by (subst div_mult_self1) simp_all
  then show ?thesis using assms by (simp add: at_pos_def Let_def)
qed

lemma at_pos_boundary:
  assumes "0 < j" "j \<le> length cs" "0 < m_clsizb dm"
  shows "at_pos dm cs (j * m_clsizb dm) (cs ! (j - 1)) (cl2rec (cs ! (j - 1)) dm) 0"
proof -
  obtain i where i: "j = Suc i" using assms(1) by (cases j) auto
  have "at_pos dm cs (i * m_clsizb dm + m_clsizb dm) (cs ! i) (cl2rec (cs ! i) dm) (m_clsizb dm)"
    by (rule at_pos_mid) (use assms i in simp_all)
  moreover have "(i * m_clsizb dm + m_clsizb dm - 1) div m_clsizb dm = i"
  proof -
    have "i * m_clsizb dm + m_clsizb dm - 1 = (m_clsizb dm - 1) + i * m_clsizb dm" using assms(3) by simp
    then show ?thesis using assms(3) by (simp only: div_mult_self1) simp
  qed
  ultimately show ?thesis using assms i by (simp add: at_pos_def Let_def add.commute)
qed

lemma at_pos_cases:
  assumes "dmd_ok dm" "at_pos dm cs b c r k"
  obtains (boundary) j where "b = j * m_clsizb dm" "j \<le> length cs" "c = (if j = 0 then 0 else cs ! (j - 1))"
      "k = 0 \<or> k = m_clsizb dm" "r mod m_clsiz dm = 0"
  | (mid) j where "j < length cs" "b = j * m_clsizb dm + k" "0 < k" "k < m_clsizb dm" "c = cs ! j" "r = cl2rec (cs ! j) dm"
proof (cases "b = 0")
  case True
  then show thesis using boundary [of 0] assms(2) by (simp add: at_pos_def)
next
  case False
  note G = geometry [OF assms(1)]
  define j where "j = (b - 1) div m_clsizb dm"
  have a: "j < length cs" "c = cs ! j" "r = cl2rec c dm" "k = b - j * m_clsizb dm \<or> k = 0 \<and> b = (j + 1) * m_clsizb dm"
    using assms(2) False by (simp_all add: at_pos_def Let_def j_def)
  have q: "j * m_clsizb dm \<le> b - 1" "b - 1 < j * m_clsizb dm + m_clsizb dm"
    using div_mult_mod_eq [of "b - 1" "m_clsizb dm"] mod_less_divisor [OF G(4), of "b - 1"] unfolding j_def by linarith+
  show thesis
  proof (cases "k = 0 \<or> k = m_clsizb dm")
    case True
    then have "b = (j + 1) * m_clsizb dm" using a(4) q False by auto
    then show thesis using boundary [of "j + 1"] a True cl2rec_mod [OF assms(1)] by simp
  next
    case k: False
    then have kb: "k = b - j * m_clsizb dm" using a(4) by auto
    have "b = j * m_clsizb dm + k" "0 < k" using kb q(1) False by linarith+
    moreover have "k < m_clsizb dm" using kb q(2) False k by linarith
    ultimately show thesis using mid [of j] a by simp
  qed
qed

subsection \<open>Bytes of one record\<close>

lemma read_part:
  assumes s: "sees s V" "driver_ok drv" "rest s = rest (posn s0 p u b c r k)" and f: "rfile s0 p dm dmp V cs"
    and j: "j < length cs" "b = j * m_clsizb dm + k" "c = cs ! j" "r = cl2rec (cs ! j) dm"
    and n: "k mod m_recsiz dm + n \<le> m_recsiz dm" "k + n \<le> m_clsizb dm" "n < m_clsizb dm" "b + n \<le> file_len s0 p"
    and x: "k < m_clsizb dm"
  obtains bf s' where "getrec drv (r + k div m_recsiz dm) p False s = Some (Inr bf, s')"
    "sees (copy_out bf (k mod m_recsiz dm) ub n (addit p n s')) V"
    "rest (copy_out bf (k mod m_recsiz dm) ub n (addit p n s'))
      = rest (posn s0 p (fill_mem (file_byte dm dmp V cs) ub b n u) (b + n) c r (k + n))"
proof -
  note F = posn_file [OF s(3) f]
  have dm: "dmd_ok dm" using F(1,2) by (simp add: vol_ok_def)
  note G = geometry [OF dm]
  have ro: "rec_ok (dmds s dmp) BT_DATA (r + k div m_recsiz dm)" by (simp add: rec_ok_def)
  obtain bf s1 where g: "getrec drv (r + k div m_recsiz dm) p False s = Some (Inr bf, s1)"
    and s1: "sees s1 V" "b_bufr s1 bf = V dmp BT_DATA (r + k div m_recsiz dm)" "rest s1 = rest s"
    by (rule getrec_ok [OF s(1,2) F(3) ro F(4,12), of False])
  have r1: "rest s1 = rest (posn s0 p u b c r k)" using s1(3) s(3) by simp
  note A = addit_posn [OF r1 f n(4)]
  have k': "(if n < m_clsizb dm then (k + n) mod 65536 else k) = k + n" using n(2,3) G(5) by simp
  have ra: "rest (addit p n s1) = rest (posn s0 p u (b + n) c r (k + n))" using A(1) unfolding k' .
  let ?u = "\<lambda>a. if ub \<le> a \<and> a < ub + n then b_bufr (addit p n s1) bf (k mod m_recsiz dm + (a - ub)) else umem (addit p n s1) a"
  have "?u a = fill_mem (file_byte dm dmp V cs) ub b n u a" for a
  proof (cases "ub \<le> a \<and> a < ub + n")
    case True
    let ?i = "k mod m_recsiz dm + (a - ub)"
    have i: "?i < m_recsiz dm" using n(1) True by linarith
    have kd: "k div m_recsiz dm * m_recsiz dm + ?i = k + (a - ub)" by simp
    have "k div m_recsiz dm * m_recsiz dm + ?i < m_clsizb dm" unfolding kd using n(2) True by linarith
    from part_bytes [OF dm this, of V dmp cs j]
    have "V dmp BT_DATA (r + k div m_recsiz dm) ?i = file_byte dm dmp V cs (b + (a - ub))"
      using i j(2,4) kd by (simp add: add.assoc)
    with True show ?thesis by (simp add: fill_mem_def A(4) s1(2))
  next
    case False
    then show ?thesis using A(3) posn_file(5) [OF r1 f] by (auto simp: fill_mem_def)
  qed
  then have u: "?u = fill_mem (file_byte dm dmp V cs) ub b n u" by (rule ext)
  have c: "copy_out bf (k mod m_recsiz dm) ub n (addit p n s1) = (addit p n s1)\<lparr>umem := ?u\<rparr>" by (simp add: copy_out_def)
  show thesis
    by (rule that [OF g]) (use A(2) s1(1) posn_umem [OF ra] in \<open>simp_all only: c u sees_frame\<close>)
qed


subsection \<open>The three parts of a read\<close>

text \<open>What a part does: \<open>n\<close> bytes from \<open>b\<close> on copied to \<open>ub\<close>, and the position advanced.\<close>

definition has_read :: "fsst \<Rightarrow> nat \<Rightarrow> dmd \<Rightarrow> nat \<Rightarrow> adisk \<Rightarrow> nat list \<Rightarrow> nat \<Rightarrow> nat \<Rightarrow> nat \<Rightarrow> (nat \<Rightarrow> byte) \<Rightarrow> fsst \<Rightarrow> bool" where
  "has_read s0 p dm dmp V cs ub b n u s' \<longleftrightarrow> sees s' V \<and>
     (\<exists>c r k. rest s' = rest (posn s0 p (fill_mem (file_byte dm dmp V cs) ub b n u) (b + n) c r k) \<and> at_pos dm cs (b + n) c r k)"

lemma rec_div:
  assumes "dmd_ok dm"
  shows "drop_bit (m_rblog dm) k = k div m_recsiz dm" "k AND m_rbm dm = k mod m_recsiz dm"
  using rec_split [OF assms] by simp_all

lemma clsizb_mod: "dmd_ok dm \<Longrightarrow> j * m_clsizb dm mod m_recsiz dm = 0"
  by (simp add: geometry(1))

lemma xrw_head_read:
  assumes s: "sees s V" "driver_ok drv" "rest s = rest (posn s0 p u b c r k)" and f: "rfile s0 p dm dmp V cs"
    and a: "at_pos dm cs b c r k" and len: "b + len \<le> file_len s0 p"
  obtains n s' recn c' r' k' where "xrw_head drv False p len ub s = Some (Inr (len - n, recn, ub + n), s')" "n \<le> len"
    "sees s' V" "rest s' = rest (posn s0 p (fill_mem (file_byte dm dmp V cs) ub b n u) (b + n) c' r' k')"
    "at_pos dm cs (b + n) c' r' k'" "n < len \<longrightarrow> (b + n) mod m_recsiz dm = 0 \<and> recn = r' + k' div m_recsiz dm"
proof -
  note F = posn_file [OF s(3) f]
  have dm: "dmd_ok dm" using F(1,2) by (simp add: vol_ok_def)
  note G = geometry [OF dm] and R = rec_div [OF dm]
  show thesis
  proof (cases "k mod m_recsiz dm = 0")
    case True
    have "xrw_head drv False p len ub s = Some (Inr (len, k div m_recsiz dm + r, ub), s)"
      using True F by (simp add: xrw_head_def R ret_def Let_def)
    moreover have "b mod m_recsiz dm = 0" using dm a
      by (rule at_pos_cases) (use True clsizb_mod [OF dm] in \<open>auto simp: mod_add_eq mod_add_left_eq [symmetric]\<close>)
    ultimately show thesis using that [of 0 "k div m_recsiz dm + r" s c r k] s a by simp
  next
    case False
    from dm a obtain j where j: "j < length cs" "b = j * m_clsizb dm + k" "0 < k" "k < m_clsizb dm" "c = cs ! j" "r = cl2rec (cs ! j) dm"
      by (rule at_pos_cases) (use False clsizb_mod [OF dm, of 1] in auto)
    define n where "n = min len (m_recsiz dm - k mod m_recsiz dm)"
    have m: "k mod m_recsiz dm < m_recsiz dm" using G(3) by simp
    have n1: "k mod m_recsiz dm + n \<le> m_recsiz dm" using m by (simp add: n_def)
    have up: "k - k mod m_recsiz dm + m_recsiz dm \<le> m_clsizb dm"
    proof -
      have "k div m_recsiz dm < m_clsiz dm" using j(4) unfolding G(1) by (simp add: less_mult_imp_div_less)
      then have "(k div m_recsiz dm + 1) * m_recsiz dm \<le> m_clsiz dm * m_recsiz dm" by (intro mult_le_mono1) simp
      then show ?thesis unfolding G(1) by (simp add: minus_mod_eq_div_mult)
    qed
    have n2: "k + n \<le> m_clsizb dm" using up n1 by (simp add: mod_less_eq_dividend)
    have n3: "n < m_clsizb dm" using n2 j(3) by simp
    have n4: "b + n \<le> file_len s0 p" using len by (simp add: n_def)
    obtain bf s1 where g: "getrec drv (r + k div m_recsiz dm) p False s = Some (Inr bf, s1)"
      and s1: "sees (copy_out bf (k mod m_recsiz dm) ub n (addit p n s1)) V"
      "rest (copy_out bf (k mod m_recsiz dm) ub n (addit p n s1))
        = rest (posn s0 p (fill_mem (file_byte dm dmp V cs) ub b n u) (b + n) c r (k + n))"
      by (rule read_part [OF s f j(1,2,5,6) n1 n2 n3 n4 j(4), of ub])
    have "xrw_head drv False p len ub s
        = Some (Inr (len - n, r + k div m_recsiz dm + 1, ub + n), copy_out bf (k mod m_recsiz dm) ub n (addit p n s1))"
      using False F g by (simp add: xrw_head_def R Let_def ret_def n_def add.commute)
    moreover have "at_pos dm cs (b + n) c r (k + n)"
      using at_pos_mid [OF j(1), of "k + n" dm] j n2 by (simp add: add.assoc)
    moreover have "(b + n) mod m_recsiz dm = 0 \<and> r + k div m_recsiz dm + 1 = r + (k + n) div m_recsiz dm" if "n < len"
    proof -
      from that have n: "n = m_recsiz dm - k mod m_recsiz dm" by (simp add: n_def)
      have kn: "k + n = (k div m_recsiz dm + 1) * m_recsiz dm"
        unfolding n add_mult_distrib using m div_mult_mod_eq [of k "m_recsiz dm"] by linarith
      have "b + n = (j * m_clsiz dm + (k div m_recsiz dm + 1)) * m_recsiz dm"
        unfolding j(2) G(1) add.assoc kn by (simp add: algebra_simps)
      then have "(b + n) mod m_recsiz dm = 0" by (simp only: mod_mult_self2_is_0)
      moreover have "(k + n) div m_recsiz dm = k div m_recsiz dm + 1" unfolding kn using G(3) by simp
      ultimately show ?thesis by simp
    qed
    ultimately show thesis using that [of n "r + k div m_recsiz dm + 1" _ c r "k + n"] s1 by (simp add: n_def)
  qed
qed


lemma xrw_tail_read:
  assumes s: "sees s V" "driver_ok drv" "rest s = rest (posn s0 p u b c r k)" and f: "rfile s0 p dm dmp V cs"
    and a: "at_pos dm cs b c r k" and b: "b mod m_recsiz dm = 0"
    and n: "0 < n" "n < m_recsiz dm" "b + n \<le> file_len s0 p"
  obtains s' where "xrw_tail drv False p n ub s = Some (Inr (), s')" "has_read s0 p dm dmp V cs ub b n u s'"
proof -
  note goal = that
  note F = posn_file [OF s(3) f]
  have dm: "dmd_ok dm" using F(1,2) by (simp add: vol_ok_def)
  note G = geometry [OF dm] and R = rec_div [OF dm]
  have RC: "m_recsiz dm \<le> m_clsizb dm" using G(1,2) by simp
  have len: "file_len s0 p \<le> length cs * m_clsizb dm" using f by (simp add: rfile_def file_len_def nat_le_iff)
  have main: thesis
    if st: "sees s1 V" "rest s1 = rest (posn s0 p u b (cs ! j) (cl2rec (cs ! j) dm) k1)"
      and j: "j < length cs" "b = j * m_clsizb dm + k1" "k1 mod m_recsiz dm = 0" "k1 < m_clsizb dm"
      and x: "xrw_tail drv False p n ub s = bind_res (getrec drv (cl2rec (cs ! j) dm + k1 div m_recsiz dm) p False s1) (\<lambda>bf s.
          ret () (copy_out bf 0 ub n (addit p n s)))" for s1 j k1
  proof -
    have up: "k1 + m_recsiz dm \<le> m_clsizb dm"
    proof -
      have "k1 div m_recsiz dm < m_clsiz dm" using j(4) unfolding G(1) by (simp add: less_mult_imp_div_less)
      then have "(k1 div m_recsiz dm + 1) * m_recsiz dm \<le> m_clsiz dm * m_recsiz dm" by (intro mult_le_mono1) simp
      moreover have "k1 div m_recsiz dm * m_recsiz dm = k1" using j(3) by (simp add: mod_0_imp_dvd)
      ultimately show ?thesis unfolding G(1) by simp
    qed
    have n1: "k1 mod m_recsiz dm + n \<le> m_recsiz dm" "k1 + n \<le> m_clsizb dm" "n < m_clsizb dm"
      using n up RC j(3) by simp_all
    obtain bf s2 where g: "getrec drv (cl2rec (cs ! j) dm + k1 div m_recsiz dm) p False s1 = Some (Inr bf, s2)"
      and s2: "sees (copy_out bf (k1 mod m_recsiz dm) ub n (addit p n s2)) V"
      "rest (copy_out bf (k1 mod m_recsiz dm) ub n (addit p n s2))
        = rest (posn s0 p (fill_mem (file_byte dm dmp V cs) ub b n u) (b + n) (cs ! j) (cl2rec (cs ! j) dm) (k1 + n))"
      by (rule read_part [OF st(1) s(2) st(2) f j(1,2) refl refl n1 n(3) j(4), of ub])
    have "at_pos dm cs (b + n) (cs ! j) (cl2rec (cs ! j) dm) (k1 + n)"
      using at_pos_mid [OF j(1), of "k1 + n" dm] j(2) n(1) n1(2) by (simp add: add.assoc)
    then show thesis using goal [of "copy_out bf 0 ub n (addit p n s2)"] x g s2 j(3)
      by (auto simp: has_read_def ret_def)
  qed
  from dm a show thesis
  proof (cases rule: at_pos_cases)
    case (boundary j)
    have "j * m_clsizb dm < length cs * m_clsizb dm" using boundary(1) n(1,3) len by linarith
    then have j: "j < length cs" by simp
    obtain s1 where s1: "nextcl drv p False s = Some (Inr 0, s1)" "sees s1 V"
      "rest s1 = rest (posn s0 p u b (cs ! j) (cl2rec (cs ! j) dm) 0)"
      by (rule read_nextcl [OF s f j boundary(3)])
    have "k div m_recsiz dm = 0 \<or> k div m_recsiz dm = m_clsiz dm" using boundary(4) G(1,3) by auto
    then show thesis using s1 j boundary(1) posn_file [OF s1(3) f] F G(4)
      by (intro main [OF s1(2,3) j]) (simp_all add: xrw_tail_def R Let_def ret_def)
  next
    case (mid j)
    have k: "k mod m_recsiz dm = 0" using b clsizb_mod [OF dm, of j] mid(2) by (metis add.left_neutral mod_add_left_eq)
    have "k div m_recsiz dm \<noteq> 0" using k mid(3) G(3) by (auto simp: div_eq_0_iff)
    moreover have "k div m_recsiz dm \<noteq> m_clsiz dm" using mid(4) G(1) by (metis less_mult_imp_div_less less_irrefl mult.commute)
    ultimately show thesis using s mid F
      by (intro main [OF s(1) _ mid(1,2) k mid(4)]) (simp_all add: xrw_tail_def R Let_def ret_def add.commute)
  qed
qed


lemma chain_length:
  assumes "rfile s0 p dm dmp V cs"
  shows "length cs < 65536"
proof -
  have dm: "dmd_ok dm" using assms by (auto simp: rfile_def vol_ok_def)
  obtain c where c: "cl_chain dm (entry dm dmp V) c cs" using assms by (auto simp: rfile_def Let_def)
  have "set cs \<subseteq> {2 ..< m_numcl dm + 2}"
    using c cl_seg_is_cl by (fastforce simp: cl_chain_def is_cl_def)
  then have "card (set cs) \<le> m_numcl dm" using card_mono [of "{2 ..< m_numcl dm + 2}" "set cs"] by simp
  moreover have "card (set cs) = length cs" using cl_chain_distinct [OF dm c] by (rule distinct_card)
  moreover have "m_numcl dm < 65536" using dm by (auto simp: dmd_ok_def split: if_splits)
  ultimately show ?thesis by simp
qed

lemma file_len_chain: "rfile s0 p dm dmp V cs \<Longrightarrow> file_len s0 p \<le> length cs * m_clsizb dm"
  by (simp add: rfile_def file_len_def nat_le_iff)

lemma xrw_main_read:
  assumes s: "sees s V" "driver_ok drv" "rest s = rest (posn s0 p u b c r k)" and f: "rfile s0 p dm dmp V cs"
    and a: "at_pos dm cs b c r k" and b: "b = j * m_clsizb dm" "c = (if j = 0 then 0 else cs ! (j - 1))"
    and n: "b + n * m_recsiz dm \<le> file_len s0 p"
  obtains s' where "xrw_main drv False p n ub s = Some (Inr (Some (ub + n * m_recsiz dm)), s')"
    "has_read s0 p dm dmp V cs ub b (n * m_recsiz dm) u s'"
proof -
  note F = posn_file [OF s(3) f]
  have dm: "dmd_ok dm" using F(1,2) by (simp add: vol_ok_def)
  note G = geometry [OF dm]
  let ?C = "m_clsizb dm" and ?K = "m_clsiz dm" and ?R = "m_recsiz dm" and ?fb = "file_byte dm dmp V cs"
  define N t where "N = n div ?K" and "t = n mod ?K"
  have nN: "n * ?R = N * ?C + t * ?R"
    unfolding N_def t_def G(1) by (metis add_mult_distrib div_mult_mod_eq mult.assoc)
  have len: "(j + N) * ?C + t * ?R \<le> file_len s0 p" using n b(1) nN by (simp add: add_mult_distrib add.assoc)
  have flen: "file_len s0 p \<le> length cs * ?C" by (rule file_len_chain [OF f])
  have "(j + N) * ?C \<le> length cs * ?C" using len flen by linarith
  then have jN: "j + N \<le> length cs" using G(4) by simp
  have N16: "N mod 65536 = N" using jN chain_length [OF f] by simp
  have s': "rest s = rest (posn s0 p u (j * ?C) c r k)" using s(3) b(1) by simp
  have lenN: "(j + N) * ?C \<le> file_len s0 p" using len by linarith
  have "\<exists>s' c' r' k'. xrw_clusters drv False p N True 0 (0 * ?K) ub s = Some (Inr (Some (ub + (0 + N) * ?C)), s')
      \<and> sees s' V \<and> rest s' = rest (posn s0 p (fill_mem ?fb ub (j * ?C) ((0 + N) * ?C) u) ((j + 0 + N) * ?C) c' r' k')
      \<and> (if 0 + N = 0 then c' = c \<and> r' = r \<and> k' = k else c' = cs ! (j + 0 + N - 1) \<and> r' = cl2rec c' dm \<and> k' = 0)"
    by (rule read_clusters [OF s(2) f s(1) s']) (use b(2) lenN jN in simp_all)
  then obtain s1 c1 r1 k1 where x: "xrw_clusters drv False p N True 0 (0 * ?K) ub s = Some (Inr (Some (ub + N * ?C)), s1)"
    and s1: "sees s1 V" "rest s1 = rest (posn s0 p (fill_mem ?fb ub (j * ?C) (N * ?C) u) ((j + N) * ?C) c1 r1 k1)"
    and p1: "if N = 0 then c1 = c \<and> r1 = r \<and> k1 = k else c1 = cs ! (j + N - 1) \<and> r1 = cl2rec c1 dm \<and> k1 = 0"
    by (simp only: add_0 add_0_right) blast
  have m: "xrw_main drv False p n ub s = (if t \<noteq> 0 then
        bind_res (nextcl drv p False s1) (\<lambda>rc s.
          if rc \<noteq> 0 then ret None s
          else bind_res (usrio drv False t (o_currec (ofds s p)) (ub + N * ?C) dmp s) (\<lambda>_ s.
            ret (Some (ub + N * ?C + t * ?R)) (addit p (t * ?R) s)))
      else ret (Some (ub + N * ?C)) s1)"
    unfolding xrw_main_def Let_def F(4) F(2) G(8,9) N_def [symmetric] t_def [symmetric] N16 G(6)
    using x by simp
  show thesis
  proof (cases "t = 0")
    case True
    have "at_pos dm cs ((j + N) * ?C) c1 r1 k1"
      using p1 a b at_pos_boundary [of "j + N" cs dm] jN G(4) by (cases "N = 0") simp_all
    then have "has_read s0 p dm dmp V cs ub b (n * ?R) u s1"
      unfolding has_read_def using s1 True nN b(1) by (auto simp: add_mult_distrib)
    then show thesis using m True nN that by (simp add: ret_def)
  next
    case False
    have "0 < t * ?R" using False G(3) by simp
    then have "(j + N) * ?C < length cs * ?C" using len flen by linarith
    then have j2: "j + N < length cs" by simp
    have c1: "c1 = (if j + N = 0 then 0 else cs ! (j + N - 1))" using p1 b(2) by (cases "N = 0") auto
    obtain s2 where s2: "nextcl drv p False s1 = Some (Inr 0, s2)" "sees s2 V"
      "rest s2 = rest (posn s0 p (fill_mem ?fb ub (j * ?C) (N * ?C) u) ((j + N) * ?C) (cs ! (j + N)) (cl2rec (cs ! (j + N)) dm) 0)"
      by (rule read_nextcl [OF s1(1) s(2) s1(2) f j2 c1])
    have tK: "t < ?K" using G(2) by (simp add: t_def)
    then have tC: "t * ?R < ?C" unfolding G(1) using G(3) by simp
    have bytes: "\<forall>i < t * ?R. V dmp BT_DATA (cl2rec (cs ! (j + N)) dm + i div ?R) (i mod ?R) = ?fb ((j + N) * ?C + i)"
      using part_bytes [OF dm, of 0 _ V dmp cs "j + N"] tC by simp
    obtain s3 where s3: "usrio drv False t (cl2rec (cs ! (j + N)) dm) (ub + N * ?C) dmp s2 = Some (Inr (), s3)"
      "rest (addit p (t * ?R) s3) = rest (posn s0 p (fill_mem ?fb (ub + N * ?C) ((j + N) * ?C) (t * ?R)
        (fill_mem ?fb ub (j * ?C) (N * ?C) u)) ((j + N) * ?C + t * ?R) (cs ! (j + N)) (cl2rec (cs ! (j + N)) dm)
        (if t * ?R < ?C then (0 + t * ?R) mod 65536 else 0))"
      "sees (addit p (t * ?R) s3) V"
      by (rule read_records [OF s2(2) s(2) s2(3) f bytes len, of "ub + N * ?C"])
    have k: "(if t * ?R < ?C then (0 + t * ?R) mod 65536 else 0) = t * ?R" using tC G(5) by simp
    have u: "fill_mem ?fb (ub + N * ?C) ((j + N) * ?C) (t * ?R) (fill_mem ?fb ub (j * ?C) (N * ?C) u)
        = fill_mem ?fb ub b (n * ?R) u"
      using fill_mem_add [of ?fb ub "N * ?C" "j * ?C" "t * ?R" u] b(1) nN by (simp add: add_mult_distrib)
    have e: "(j + N) * ?C + t * ?R = b + n * ?R" using b(1) nN by (simp add: add_mult_distrib)
    have "at_pos dm cs ((j + N) * ?C + t * ?R) (cs ! (j + N)) (cl2rec (cs ! (j + N)) dm) (t * ?R)"
      by (rule at_pos_mid [OF j2]) (use False G(3) tC in simp_all)
    then have "has_read s0 p dm dmp V cs ub b (n * ?R) u (addit p (t * ?R) s3)"
      unfolding has_read_def using s3(2,3) unfolding k u e by blast
    moreover have "xrw_main drv False p n ub s = Some (Inr (Some (ub + n * ?R)), addit p (t * ?R) s3)"
      using m False s2(1) s3(1) posn_file(8) [OF s2(3) f] nN by (simp add: ret_def)
    ultimately show thesis using that by blast
  qed
qed


lemma has_read_add:
  assumes "has_read s0 p dm dmp V cs (ub + n) (b + n) m (fill_mem (file_byte dm dmp V cs) ub b n u) s'"
  shows "has_read s0 p dm dmp V cs ub b (n + m) u s'"
  using assms unfolding has_read_def fill_mem_add by (simp add: add.assoc)

lemma xrw_recs_read:
  assumes s: "sees s V" "driver_ok drv" "rest s = rest (posn s0 p u b c r k)" and f: "rfile s0 p dm dmp V cs"
    and a: "at_pos dm cs b c r k" and b: "b mod m_recsiz dm = 0" "strt = r + k div m_recsiz dm"
    and n: "0 < n" "b + n * m_recsiz dm \<le> file_len s0 p"
  obtains s' where "xrw_recs drv False p strt n ub s = Some (Inr (Some (ub + n * m_recsiz dm)), s')"
    "has_read s0 p dm dmp V cs ub b (n * m_recsiz dm) u s'"
proof -
  note F = posn_file [OF s(3) f]
  have dm: "dmd_ok dm" using F(1,2) by (simp add: vol_ok_def)
  note G = geometry [OF dm]
  let ?C = "m_clsizb dm" and ?K = "m_clsiz dm" and ?R = "m_recsiz dm" and ?fb = "file_byte dm dmp V cs"
  from dm a show thesis
  proof (cases rule: at_pos_cases)
    case (boundary j)
    have "k div ?R mod ?K = 0" using boundary(4) G(1,3) by auto
    then have "strt mod ?K = 0" using boundary(5) b(2) by (metis add_0 mod_add_eq mod_0)
    then have "xrw_recs drv False p strt n ub s = xrw_main drv False p n ub s"
      by (simp add: xrw_recs_def Let_def F(2,4) G(8))
    then show thesis using xrw_main_read [OF s f a boundary(1,3) n(2), of ub] that by metis
  next
    case (mid j)
    let ?x = "k div ?R"
    have k: "k mod ?R = 0" using b(1) clsizb_mod [OF dm, of j] mid(2) by (metis add.left_neutral mod_add_left_eq)
    then have kx: "k = ?x * ?R" by (simp add: mod_0_imp_dvd)
    have x: "0 < ?x" "?x < ?K"
      using k mid(3,4) G(1,3) by (auto simp: div_greater_zero_iff less_mult_imp_div_less dest: mod_less)
    define h where "h = min (?K - ?x) n"
    have h: "0 < h" "?x + h \<le> ?K" "h \<le> n" using x n(1) by (simp_all add: h_def)
    have "strt mod ?K = ?x" using cl2rec_mod [OF dm, of "cs ! j"] b(2) mid(6) x(2) by (metis add_0 mod_add_left_eq mod_less)
    then have un: "xrw_recs drv False p strt n ub s = bind_res (usrio drv False h strt ub dmp s) (\<lambda>_ s.
        xrw_main drv False p (n - h) (ub + h * ?R) (addit p (h * ?R) s))"
      using x(1) by (simp add: xrw_recs_def Let_def F(2,4) G(8,6) h_def)
    have hR: "k + h * ?R \<le> ?C" unfolding G(1) using h(2) kx by (metis add_mult_distrib mult_le_mono1)
    have bytes: "\<forall>i < h * ?R. V dmp BT_DATA (strt + i div ?R) (i mod ?R) = ?fb (b + i)"
      using part_bytes [OF dm, of ?x _ V dmp cs j] hR kx mid(2,6) b(2) by simp
    have "h * ?R \<le> n * ?R" using h(3) by simp
    then have len: "b + h * ?R \<le> file_len s0 p" using n(2) by linarith
    obtain s1 where s1: "usrio drv False h strt ub dmp s = Some (Inr (), s1)"
      "rest (addit p (h * ?R) s1) = rest (posn s0 p (fill_mem ?fb ub b (h * ?R) u) (b + h * ?R) c r
         (if h * ?R < ?C then (k + h * ?R) mod 65536 else k))"
      "sees (addit p (h * ?R) s1) V"
      by (rule read_records [OF s f bytes len, of ub])
    have "(if h * ?R < ?C then (k + h * ?R) mod 65536 else k) = k + h * ?R" using hR mid(3) G(5) by simp
    with s1(2) have r1: "rest (addit p (h * ?R) s1) = rest (posn s0 p (fill_mem ?fb ub b (h * ?R) u) (b + h * ?R) c r (k + h * ?R))"
      by simp
    have a1: "at_pos dm cs (b + h * ?R) c r (k + h * ?R)"
      using at_pos_mid [OF mid(1) _ hR] mid(2,3,5,6) by (simp add: add.assoc)
    show thesis
    proof (cases "h = n")
      case True
      have z: "xrw_clusters drv False p 0 True 0 0 ub' s' = Some (Inr (Some ub'), s')" for ub' s'
        by (subst xrw_clusters.simps) (simp add: xrw_pending_def ret_def Let_def)
      have "xrw_main drv False p 0 ub' s' = Some (Inr (Some ub'), s')" for ub' s'
        using z by (simp add: xrw_main_def Let_def ret_def)
      then have "xrw_recs drv False p strt n ub s = Some (Inr (Some (ub + n * ?R)), addit p (n * ?R) s1)"
        using un s1(1) True by simp
      moreover have "has_read s0 p dm dmp V cs ub b (n * ?R) u (addit p (n * ?R) s1)"
        unfolding has_read_def using s1(3) r1 a1 True by blast
      ultimately show thesis by (rule that)
    next
      case False
      then have hx: "h = ?K - ?x" by (simp add: h_def)
      have "k + h * ?R = ?C" unfolding G(1) hx using kx x(2) by (metis add_mult_distrib le_add_diff_inverse less_imp_le)
      then have bj: "b + h * ?R = (j + 1) * ?C" using mid(2) by simp
      have cj: "c = (if j + 1 = 0 then 0 else cs ! (j + 1 - 1))" using mid(5) by simp
      have e: "h * ?R + (n - h) * ?R = n * ?R" using h(3) by (metis add_mult_distrib le_add_diff_inverse)
      have n1: "b + h * ?R + (n - h) * ?R \<le> file_len s0 p" using n(2) e by linarith
      obtain s' where s': "xrw_main drv False p (n - h) (ub + h * ?R) (addit p (h * ?R) s1) = Some (Inr (Some (ub + h * ?R + (n - h) * ?R)), s')"
        "has_read s0 p dm dmp V cs (ub + h * ?R) (b + h * ?R) ((n - h) * ?R) (fill_mem ?fb ub b (h * ?R) u) s'"
        by (rule xrw_main_read [OF s1(3) s(2) r1 f a1 bj cj n1, of "ub + h * ?R"])
      show thesis
        by (rule that) (use un s1(1) s'(1) has_read_add [OF s'(2)] e in \<open>simp_all add: add.assoc\<close>)
    qed
  qed
qed

text \<open>A whole read: \<open>len\<close> bytes from the position on, within the file.\<close>

lemma xrw_read:
  assumes s: "sees s V" "driver_ok drv" "rest s = rest (posn s0 p u b c r k)" and f: "rfile s0 p dm dmp V cs"
    and a: "at_pos dm cs b c r k" and len: "b + len \<le> file_len s0 p"
  obtains s' where "xrw drv False p len ub s = Some (Inr (int len), s')" "has_read s0 p dm dmp V cs ub b len u s'"
proof -
  note F = posn_file [OF s(3) f]
  have dm: "dmd_ok dm" using F(1,2) by (simp add: vol_ok_def)
  note G = geometry [OF dm] and R = rec_div [OF dm]
  let ?R = "m_recsiz dm" and ?fb = "file_byte dm dmp V cs"
  obtain n s1 recn c1 r1 k1 where h: "xrw_head drv False p len ub s = Some (Inr (len - n, recn, ub + n), s1)" "n \<le> len"
    and s1: "sees s1 V" "rest s1 = rest (posn s0 p (fill_mem ?fb ub b n u) (b + n) c1 r1 k1)" "at_pos dm cs (b + n) c1 r1 k1"
    and al: "n < len \<longrightarrow> (b + n) mod ?R = 0 \<and> recn = r1 + k1 div ?R"
    by (rule xrw_head_read [OF s f a len, of ub])
  define q t where "q = (len - n) div ?R" and "t = (len - n) mod ?R"
  have qt: "len - n = q * ?R + t" "t < ?R" using G(3) by (simp_all add: q_def t_def)
  have q: "drop_bit (m_rblog dm) (len - n - t) = q" using R(1) qt(1) G(3) by simp
  have len': "b + n + q * ?R + t \<le> file_len s0 p" using len h(2) qt(1) by linarith
  obtain s2 c2 r2 k2 where m: "(if q \<noteq> 0 then xrw_recs drv False p recn q (ub + n) s1 else ret (Some (ub + n)) s1)
        = Some (Inr (Some (ub + n + q * ?R)), s2)"
    and s2: "sees s2 V" "rest s2 = rest (posn s0 p (fill_mem ?fb ub b (n + q * ?R) u) (b + n + q * ?R) c2 r2 k2)"
      "at_pos dm cs (b + n + q * ?R) c2 r2 k2"
  proof (cases "q = 0")
    case True
    then show thesis using that [of s1 c1 r1 k1] s1 by (simp add: ret_def)
  next
    case False
    then have "n < len" using qt(1) G(3) by (cases "n < len") auto
    with al have al': "(b + n) mod ?R = 0" "recn = r1 + k1 div ?R" by simp_all
    have "b + n + q * ?R \<le> file_len s0 p" "0 < q" using len' False by linarith+
    then obtain s2 where s2: "xrw_recs drv False p recn q (ub + n) s1 = Some (Inr (Some (ub + n + q * ?R)), s2)"
      "has_read s0 p dm dmp V cs (ub + n) (b + n) (q * ?R) (fill_mem ?fb ub b n u) s2"
      using xrw_recs_read [OF s1(1) s(2) s1(2) f s1(3) al', of q "ub + n"] by metis
    from has_read_add [OF s2(2)] obtain c2 r2 k2 where "sees s2 V"
      "rest s2 = rest (posn s0 p (fill_mem ?fb ub b (n + q * ?R) u) (b + (n + q * ?R)) c2 r2 k2)" "at_pos dm cs (b + (n + q * ?R)) c2 r2 k2"
      by (auto simp: has_read_def)
    then show thesis using that [of s2 c2 r2 k2] s2(1) False by (simp add: add.assoc)
  qed
  obtain s3 where t: "(if t \<noteq> 0 then xrw_tail drv False p t (ub + n + q * ?R) s2 else ret () s2) = Some (Inr (), s3)"
    and s3: "has_read s0 p dm dmp V cs ub b len u s3"
  proof (cases "t = 0")
    case True
    then have e: "n + q * ?R = len" using qt(1) h(2) by simp
    then have "b + n + q * ?R = b + len" by simp
    then have "has_read s0 p dm dmp V cs ub b len u s2" using s2 unfolding has_read_def e by metis
    then show thesis using that [of s2] True by (simp add: ret_def)
  next
    case False
    then have "n < len" using qt(1) by (cases "n < len") auto
    with al have "(b + n) mod ?R = 0" by simp
    then have al': "(b + n + q * ?R) mod ?R = 0" by simp
    have t: "0 < t" using False by simp
    obtain s3 where s3: "xrw_tail drv False p t (ub + n + q * ?R) s2 = Some (Inr (), s3)"
      "has_read s0 p dm dmp V cs (ub + n + q * ?R) (b + n + q * ?R) t (fill_mem ?fb ub b (n + q * ?R) u) s3"
      by (rule xrw_tail_read [OF s2(1) s(2) s2(2) f s2(3) al' t qt(2) len', of "ub + n + q * ?R"])
    have "has_read s0 p dm dmp V cs ub b (n + q * ?R + t) u s3"
      by (rule has_read_add) (use s3(2) in \<open>simp add: add.assoc\<close>)
    moreover have "n + q * ?R + t = len" using qt(1) h(2) by simp
    ultimately show thesis using that [of s3] s3(1) False by simp
  qed
  obtain c3 r3 k3 where "rest s3 = rest (posn s0 p (fill_mem ?fb ub b len u) (b + len) c3 r3 k3)"
    using s3 by (auto simp: has_read_def)
  then have bn: "o_bytnum (ofds s3 p) = int (b + len)" using posn_file(6) f by blast
  have "xrw drv False p len ub s = Some (Inr (int len), s3)"
    by (simp only: xrw_def Let_def F(4) F(2) F(6) h(1) bind_res_simps prod.case R(2) t_def [symmetric] q m option.case t)
       (simp add: ret_def bn)
  then show thesis by (rule that [OF _ s3])
qed


section \<open>Seeking\<close>

text \<open>Index of the cluster that holds the byte before position \<open>n\<close>.\<close>

lemma last_index:
  assumes "0 < (C :: nat)" "0 < n"
  shows "(if n mod C = 0 then n div C - 1 else n div C) = (n - 1) div C"
proof -
  obtain m where m: "n = Suc m" using assms(2) by (cases n) auto
  show ?thesis unfolding m by (simp add: mod_Suc div_Suc)
qed

lemma chain_entry:
  assumes f: "rfile s0 p dm dmp V cs" and j: "Suc i < length cs"
  shows "entry dm dmp V (cs ! i) = cs ! Suc i" "is_cl dm (cs ! i)"
proof -
  obtain st d where d: "cl_seg dm (entry dm dmp V) st cs d" using f by (auto simp: rfile_def cl_chain_def Let_def)
  have "cs = take i cs @ cs ! i # cs ! Suc i # drop (Suc (Suc i)) cs"
    using j by (metis Cons_nth_drop_Suc Suc_lessD append_take_drop_id)
  then have "cl_seg dm (entry dm dmp V) st (take i cs @ cs ! i # cs ! Suc i # drop (Suc (Suc i)) cs) d" using d by simp
  then show "entry dm dmp V (cs ! i) = cs ! Suc i" "is_cl dm (cs ! i)" by (auto simp: cl_seg_append)
qed

lemma chain_cl:
  assumes f: "rfile s0 p dm dmp V cs" and j: "i < length cs"
  shows "is_cl dm (cs ! i)" "\<not> endofchain (cs ! i)"
proof -
  obtain st d where d: "cl_seg dm (entry dm dmp V) st cs d" using f by (auto simp: rfile_def cl_chain_def Let_def)
  then show c: "is_cl dm (cs ! i)" using cl_seg_is_cl j by simp
  have "dmd_ok dm" using f by (auto simp: rfile_def vol_ok_def)
  then show "\<not> endofchain (cs ! i)" using cl_not_end c by (simp add: is_cl_def)
qed

lemma hops_ok:
  assumes drv: "driver_ok drv" and f: "rfile s0 p dm dmp V cs"
  shows "sees s V \<Longrightarrow> rest s = rest s0 \<Longrightarrow> i + h < length cs \<Longrightarrow>
    \<exists>s'. ixlseek_loop drv p h (cs ! i) s = Some (Inr (Some (cs ! (i + h))), s') \<and> sees s' V \<and> rest s' = rest s0"
proof (induction h arbitrary: i s)
  case 0
  then show ?case by (simp add: ret_def)
next
  case (Suc h)
  note R = rest_sel [OF Suc.prems(2)]
  have v: "vol_ok s dmp" "dmds s dmp = dm" "o_dnode (ofds s p) \<noteq> 0" "o_dmd (ofds s p) = dmp"
    using vol_ok_rest [OF Suc.prems(2)] f R by (auto simp: rfile_def)
  have i: "Suc i < length cs" using Suc.prems(3) by simp
  note e = chain_entry [OF f i]
  have "cs ! i < m_numcl (dmds s dmp) + 2" using e(2) v(2) by (simp add: is_cl_def)
  with Suc.prems(1) drv v(1) obtain s1 where
    g: "getrealcl drv (cs ! i) dmp s = Some (Inr (entry (dmds s dmp) dmp V (cs ! i)), s1)" "sees s1 V" "rest s1 = rest s"
    by (rule getrealcl_ok)
  have "getclnum drv (cs ! i) p s = Some (Inr (cs ! Suc i), s1)" using g(1) v e(1) by (simp add: getclnum_def)
  moreover obtain s' where "ixlseek_loop drv p h (cs ! Suc i) s1 = Some (Inr (Some (cs ! (Suc i + h))), s')" "sees s' V" "rest s' = rest s0"
    using Suc.IH [OF g(2), of "Suc i"] g(3) Suc.prems(2,3) by auto
  ultimately show ?case using chain_cl(2) [OF f i] by simp
qed

text \<open>The arithmetic of \<open>ixlseek\<close>, in 16 bits: the number of hops and where they start.\<close>

definition seek_start :: "fsst \<Rightarrow> nat \<Rightarrow> nat \<Rightarrow> nat \<times> nat" where
  "seek_start s p n =
     (let f = ofds s p; dm = dmds s (o_dmd f); d = dfds s (o_dfd f);
          clnum = drop_bit (m_clblog dm) n mod 65536;
          curnum = drop_bit (m_clblog dm) (nat (o_bytnum f)) mod 65536;
          curnum = (if (o_curbyt f = 0 \<or> o_curbyt f = m_clsizb dm) \<and> o_bytnum f \<noteq> 0
                    then (curnum + 65535) mod 65536 else curnum);
          (clnum, clx) = (if o_curcl f \<noteq> 0 \<and> int n \<ge> o_bytnum f
                          then ((clnum + 65536 - curnum) mod 65536, o_curcl f) else (clnum, o_strtcl d))
      in (if n AND m_clbm dm = 0 then (clnum + 65535) mod 65536 else clnum, clx))"

lemma seek_start_ok:
  assumes f: "rfile s p dm dmp V cs" and a: "at_pos dm cs b (o_curcl (ofds s p)) (o_currec (ofds s p)) (o_curbyt (ofds s p))"
    and b: "o_bytnum (ofds s p) = int b" and n: "0 < n" "n \<le> file_len s p" and bl: "b \<le> file_len s p"
  obtains i where "seek_start s p n = ((n - 1) div m_clsizb dm - i, cs ! i)" "i \<le> (n - 1) div m_clsizb dm"
    "(n - 1) div m_clsizb dm < length cs"
proof -
  have dm: "dmd_ok dm" and d: "o_dmd (ofds s p) = dmp" "dmds s dmp = dm" using f by (auto simp: rfile_def vol_ok_def)
  note G = geometry [OF dm]
  let ?C = "m_clsizb dm" and ?c = "o_curcl (ofds s p)" and ?k = "o_curbyt (ofds s p)"
  have fl: "file_len s p \<le> length cs * ?C" by (rule file_len_chain [OF f])
  have lc: "length cs < 65536" by (rule chain_length [OF f])
  define J where "J = (n - 1) div ?C"
  have J: "J < length cs" unfolding J_def using n fl by (intro less_mult_imp_div_less) linarith
  have nd: "n div ?C \<le> length cs" using n(2) fl G(4) by (metis div_le_mono div_mult_self_is_m order_trans)
  have Jn: "(if n mod ?C = 0 then n div ?C - 1 else n div ?C) = J" unfolding J_def by (rule last_index [OF G(4) n(1)])
  have n1: "1 \<le> n div ?C" if "n mod ?C = 0" using that n(1) G(4) by (metis One_nat_def Suc_leI div_greater_zero_iff mod_less neq0_conv not_le)
  have st: "o_strtcl (dfds s (o_dfd (ofds s p))) = cs ! 0"
  proof -
    obtain e where "cl_seg dm (entry dm dmp V) (if o_strtcl (dfds s (o_dfd (ofds s p))) \<noteq> 0
        then o_strtcl (dfds s (o_dfd (ofds s p))) else ENDOFCHAIN) cs e"
      using f by (auto simp: rfile_def cl_chain_def Let_def)
    then have "(if o_strtcl (dfds s (o_dfd (ofds s p))) \<noteq> 0 then o_strtcl (dfds s (o_dfd (ofds s p))) else ENDOFCHAIN) = cs ! 0"
      using J by (cases cs) auto
    moreover have "cs ! 0 \<noteq> ENDOFCHAIN" using chain_cl(2) [OF f, of 0] J by fastforce
    ultimately show ?thesis by (metis (full_types))
  qed
  show thesis
  proof (cases "?c \<noteq> 0 \<and> b \<le> n")
    case False
    have c: "n div ?C mod 65536 = n div ?C" using nd lc by simp
    have "(if n mod ?C = 0 then (n div ?C + 65535) mod 65536 else n div ?C) = J"
    proof (cases "n mod ?C = 0")
      case True
      then have "(n div ?C + 65535) mod 65536 = n div ?C - 1" using n1 nd lc by (simp add: mod_if)
      with True Jn show ?thesis by simp
    next
      case False
      then show ?thesis using Jn by simp
    qed
    then have "seek_start s p n = (J - 0, cs ! 0)"
      using False st c by (auto simp: seek_start_def Let_def d b G(10,11))
    then show thesis using that [of 0] J by (simp add: J_def)
  next
    case True
    define j where "j = (b - 1) div ?C"
    have b0: "b \<noteq> 0" using True a by (cases "b = 0") (simp_all add: at_pos_def)
    then have cj: "?c = cs ! j" using a by (simp add: at_pos_def Let_def j_def)
    have jJ: "j \<le> J" unfolding j_def J_def using True by (intro div_le_mono diff_le_mono) simp
    have bd: "b div ?C \<le> length cs" using bl fl G(4) by (metis div_le_mono div_mult_self_is_m order_trans)
    have kb: "(?k = 0 \<or> ?k = ?C) \<longleftrightarrow> b mod ?C = 0"
      using dm a by (rule at_pos_cases) (auto simp: G)
    have "(if (?k = 0 \<or> ?k = ?C) \<and> int b \<noteq> 0 then (b div ?C mod 65536 + 65535) mod 65536 else b div ?C mod 65536)
        = (if b mod ?C = 0 then b div ?C - 1 else b div ?C)"
    proof (cases "b mod ?C = 0")
      case bT: True
      then have "1 \<le> b div ?C" using b0 G(4) by (metis One_nat_def Suc_leI div_greater_zero_iff mod_less neq0_conv not_le)
      then have "(b div ?C mod 65536 + 65535) mod 65536 = b div ?C - 1" using bd lc by (simp add: mod_if)
      then show ?thesis using bT kb b0 by simp
    next
      case False
      then show ?thesis using kb bd lc by simp
    qed
    also have "\<dots> = j" unfolding j_def by (rule last_index) (use b0 G(4) in simp_all)
    finally have cur: "(if (?k = 0 \<or> ?k = ?C) \<and> int b \<noteq> 0 then (b div ?C mod 65536 + 65535) mod 65536 else b div ?C mod 65536) = j" .
    have jn: "j \<le> n div ?C" using jJ Jn by (auto split: if_splits)
    have m16: "(n div ?C mod 65536 + 65536 - j) mod 65536 = n div ?C - j" using jn nd lc by (simp add: mod_if)
    have "(if n mod ?C = 0 then (n div ?C - j + 65535) mod 65536 else n div ?C - j) = J - j"
    proof (cases "n mod ?C = 0")
      case nT: True
      then have "1 \<le> n div ?C - j" using Jn jJ n1 by simp
      then have "(n div ?C - j + 65535) mod 65536 = n div ?C - j - 1" using nd lc by (simp add: mod_if)
      then show ?thesis using nT Jn by simp
    next
      case False
      then show ?thesis using Jn by simp
    qed
    then have "seek_start s p n = (J - j, cs ! j)"
      unfolding seek_start_def Let_def d b nat_int G(10,11) cur m16 using True cj by simp
    then show thesis using that [of j] J jJ by (simp add: J_def)
  qed
qed


lemma ixlseek_alt:
  "ixlseek drv p n s =
     (if n < 0 \<or> n > o_fileln (dfds s (o_dfd (ofds s p))) then ret ERANGE s
      else if n = 0 then
        ret 0 (set_ofd p (\<lambda>f. f\<lparr>o_curcl := 0, o_currec := 0, o_bytnum := 0, o_curbyt := 0\<rparr>) s)
      else bind_res (ixlseek_loop drv p (fst (seek_start s p (nat n))) (snd (seek_start s p (nat n))) s) (\<lambda>r t.
         case r of
           None \<Rightarrow> ret EINTRN t
         | Some clx \<Rightarrow>
             ret n (set_ofd p (\<lambda>f. f\<lparr>o_curcl := clx, o_currec := cl2rec clx (dmds s (o_dmd (ofds s p))), o_bytnum := n,
               o_curbyt := nat n AND m_clbm (dmds s (o_dmd (ofds s p)))\<rparr>) t)))"
  by (auto simp: ixlseek_def seek_start_def Let_def)

lemma posn_self:
  assumes "o_bytnum (ofds s p) = int b"
  shows "posn s p (umem s) b (o_curcl (ofds s p)) (o_currec (ofds s p)) (o_curbyt (ofds s p)) = s"
proof -
  have "(ofds s p)\<lparr>o_bytnum := int b, o_curcl := o_curcl (ofds s p), o_currec := o_currec (ofds s p),
      o_curbyt := o_curbyt (ofds s p)\<rparr> = ofds s p" using assms by (cases "ofds s p") simp
  then show ?thesis by (simp add: posn_def)
qed

lemma set_ofd_seek:
  "set_ofd p (\<lambda>f. f\<lparr>o_curcl := c, o_currec := r, o_bytnum := int n, o_curbyt := k\<rparr>) s = posn s p (umem s) n c r k"
  by (cases "ofds s p") (simp add: set_ofd_def posn_def)

lemma ixlseek_ok:
  assumes s: "sees s V" "driver_ok drv" and f: "rfile s p dm dmp V cs"
    and a: "at_pos dm cs b (o_curcl (ofds s p)) (o_currec (ofds s p)) (o_curbyt (ofds s p))"
    and b: "o_bytnum (ofds s p) = int b" "b \<le> file_len s p" and n: "n \<le> file_len s p"
  obtains s' c r k where "ixlseek drv p (int n) s = Some (Inr (int n), s')" "sees s' V"
    "rest s' = rest (posn s p (umem s) n c r k)" "at_pos dm cs n c r k"
proof -
  have dm: "dmd_ok dm" and d: "o_dmd (ofds s p) = dmp" "dmds s dmp = dm" using f by (auto simp: rfile_def vol_ok_def)
  note G = geometry [OF dm]
  have fl: "\<not> (int n < 0 \<or> int n > o_fileln (dfds s (o_dfd (ofds s p))))"
    using n f by (auto simp: file_len_def rfile_def le_nat_iff)
  show thesis
  proof (cases "n = 0")
    case True
    then have "ixlseek drv p (int n) s = Some (Inr (int n), posn s p (umem s) n 0 0 0)"
      using fl set_ofd_seek [of p 0 0 n 0 s] by (simp add: ixlseek_alt ret_def)
    moreover have "sees (posn s p (umem s) n 0 0 0) V" using s(1) by (simp add: posn_def)
    ultimately show thesis using that True by (simp add: at_pos_def)
  next
    case False
    then have n0: "0 < n" by simp
    obtain i where i: "seek_start s p n = ((n - 1) div m_clsizb dm - i, cs ! i)" "i \<le> (n - 1) div m_clsizb dm"
      "(n - 1) div m_clsizb dm < length cs"
      by (rule seek_start_ok [OF f a b(1) n0 n b(2)])
    let ?J = "(n - 1) div m_clsizb dm"
    have e: "i + (?J - i) = ?J" using i(2) by simp
    obtain s1 where l: "ixlseek_loop drv p (?J - i) (cs ! i) s = Some (Inr (Some (cs ! ?J)), s1)" "sees s1 V" "rest s1 = rest s"
      using hops_ok [OF s(2) f s(1) refl, of i "?J - i"] i(3) unfolding e by blast
    let ?s = "set_ofd p (\<lambda>f. f\<lparr>o_curcl := cs ! ?J, o_currec := cl2rec (cs ! ?J) dm, o_bytnum := int n,
      o_curbyt := n mod m_clsizb dm\<rparr>) s1"
    have "ixlseek drv p (int n) s = Some (Inr (int n), ?s)"
      unfolding ixlseek_alt if_not_P [OF fl] nat_int i(1) fst_conv snd_conv l(1) d G(10)
      using False by (simp add: ret_def)
    moreover have "sees ?s V" using l(2) by simp
    moreover have "rest ?s = rest (posn s p (umem s) n (cs ! ?J) (cl2rec (cs ! ?J) dm) (n mod m_clsizb dm))"
      unfolding set_ofd_seek [symmetric] using l(3) by simp
    moreover have "at_pos dm cs n (cs ! ?J) (cl2rec (cs ! ?J) dm) (n mod m_clsizb dm)"
    proof (cases "n mod m_clsizb dm = 0")
      case True
      then have "?J = n div m_clsizb dm - 1" using last_index [OF G(4) n0] by simp
      moreover have "1 \<le> n div m_clsizb dm"
        using True n0 G(4) by (metis One_nat_def Suc_leI div_greater_zero_iff mod_less neq0_conv not_le)
      ultimately have "n = (?J + 1) * m_clsizb dm" using True by (simp add: mod_0_imp_dvd)
      then show ?thesis using True n0 i(3) by (simp add: at_pos_def Let_def)
    next
      case nz: False
      then have J: "?J = n div m_clsizb dm" using last_index [OF G(4) n0] by simp
      have "n mod m_clsizb dm = n - ?J * m_clsizb dm" unfolding J by (simp add: minus_div_mult_eq_mod)
      then show ?thesis using n0 i(3) by (simp add: at_pos_def Let_def)
    qed
    ultimately show thesis by (rule that)
  qed
qed


section \<open>Properties of file access\<close>

text \<open>The position of \<open>p\<close> is byte \<open>b\<close> of the file.\<close>

definition positioned :: "fsst \<Rightarrow> nat \<Rightarrow> dmd \<Rightarrow> nat list \<Rightarrow> nat \<Rightarrow> bool" where
  "positioned s p dm cs b \<longleftrightarrow> o_bytnum (ofds s p) = int b \<and> b \<le> file_len s p
     \<and> at_pos dm cs b (o_curcl (ofds s p)) (o_currec (ofds s p)) (o_curbyt (ofds s p))"

lemma posn_after:
  assumes "rest s' = rest (posn s p u b c r k)" "rfile s p dm dmp V cs" "at_pos dm cs b c r k" "b \<le> file_len s p"
  shows "umem s' = u" "positioned s' p dm cs b" "rfile s' p dm dmp V cs" "file_len s' p = file_len s p"
    "\<forall>q. q \<noteq> p \<longrightarrow> ofds s' q = ofds s q" "dfds s' = dfds s"
proof -
  note R = rest_sel [OF assms(1)] and F = posn_file [OF assms(1,2)]
  show "umem s' = u" by (rule F(5))
  show l: "file_len s' p = file_len s p" by (simp add: file_len_def F(10,11))
  show "positioned s' p dm cs b" using assms(3,4) l by (simp add: positioned_def F)
  show "rfile s' p dm dmp V cs" using assms(2) F(1,2,4,10,11) R by (simp add: rfile_def)
  show "\<forall>q. q \<noteq> p \<longrightarrow> ofds s' q = ofds s q" by (simp add: R) (simp add: posn_def)
  show "dfds s' = dfds s" by (rule F(10))
qed

text \<open>
  C1. Reading returns the file. For an open file whose chain covers its length, at a valid
  position, \<open>ixread\<close> returns the number of bytes asked for or left in the file, whichever
  is less; the user's buffer holds exactly these bytes of the file, gathered along the
  cluster chain from the sector cache and the disk, and no other byte of memory changes;
  the position is advanced by that number; and neither the disk as seen through the cache,
  the file's length, nor another descriptor changes.
\<close>

theorem ixread_contents:
  assumes "sees s V" "driver_ok drv" "rfile s p dm dmp V cs" "positioned s p dm cs b" "ub \<noteq> 0"
  shows "\<exists>s'. let n = min (nat len) (file_len s p - b) in
    ixread drv p len ub s = Some (Inr (Count (int n)), s')
    \<and> umem s' = (\<lambda>a. if ub \<le> a \<and> a < ub + n then file_byte dm dmp V cs (b + (a - ub)) else umem s a)
    \<and> positioned s' p dm cs (b + n) \<and> sees s' V \<and> rfile s' p dm dmp V cs
    \<and> file_len s' p = file_len s p \<and> (\<forall>q. q \<noteq> p \<longrightarrow> ofds s' q = ofds s q)"
proof -
  have b: "o_bytnum (ofds s p) = int b" "b \<le> file_len s p"
    and a: "at_pos dm cs b (o_curcl (ofds s p)) (o_currec (ofds s p)) (o_curbyt (ofds s p))"
    using assms(4) by (simp_all add: positioned_def)
  have fl: "o_fileln (dfds s (o_dfd (ofds s p))) = int (file_len s p)"
    using assms(3) by (auto simp: file_len_def rfile_def)
  define n where "n = min (nat len) (file_len s p - b)"
  have l: "nat (if len > int (file_len s p) - int b then int (file_len s p) - int b else len) = n"
    "(if len > int (file_len s p) - int b then int (file_len s p) - int b else len) > 0 \<longleftrightarrow> n > 0"
    using b(2) by (auto simp: n_def)
  show ?thesis
  proof (cases "n = 0")
    case True
    then have "ixread drv p len ub s = Some (Inr (Count (int n)), s)"
      using l(2) assms(5) by (simp add: ixread_def fl b(1) Let_def ret_def)
    then show ?thesis using assms True unfolding n_def [symmetric] Let_def by (auto simp: fun_eq_iff)
  next
    case False
    have len: "b + n \<le> file_len s p" using b(2) by (simp add: n_def)
    have r: "rest s = rest (posn s p (umem s) b (o_curcl (ofds s p)) (o_currec (ofds s p)) (o_curbyt (ofds s p)))"
      by (simp only: posn_self [OF b(1)])
    obtain s' where x: "xrw drv False p n ub s = Some (Inr (int n), s')"
      and h: "has_read s p dm dmp V cs ub b n (umem s) s'"
      by (rule xrw_read [OF assms(1,2) r assms(3) a len])
    from h obtain c r k where h': "sees s' V"
      "rest s' = rest (posn s p (fill_mem (file_byte dm dmp V cs) ub b n (umem s)) (b + n) c r k)" "at_pos dm cs (b + n) c r k"
      by (auto simp: has_read_def)
    note A = posn_after [OF h'(2) assms(3) h'(3) len]
    have "ixread drv p len ub s = Some (Inr (Count (int n)), s')"
      using l False assms(5) x by (simp add: ixread_def fl b(1) Let_def ret_def)
    then show ?thesis
      using A h'(1) unfolding n_def [symmetric] Let_def fill_mem_def by blast
  qed
qed

text \<open>The floppy's file, which lies at the records of its clusters 2 and 3.\<close>

lemma floppy_rfile: "rfile (floppy chain_disk) 4000 floppy_dmd 1000 (raw_disk (floppy_fs chain_disk)) [2, 3]"
  using floppy_chain floppy_vol [of chain_disk]
  by (simp add: rfile_def floppy_file) (simp add: floppy_fs_def zero_ofd_def zero_dfd_def)

lemma floppy_len: "file_len (floppy chain_disk) 4000 = 1500"
  by (simp add: file_len_def) (simp add: floppy_fs_def zero_ofd_def zero_dfd_def)

lemma floppy_start: "positioned (floppy chain_disk) 4000 floppy_dmd [2, 3] 0"
  by (simp add: positioned_def at_pos_def) (simp add: floppy_fs_def zero_ofd_def)

lemma floppy_byte:
  "file_byte floppy_dmd 1000 (raw_disk (floppy_fs chain_disk)) [2, 3] 1300 = 32"
  by (simp add: file_byte_def raw_disk_def floppy_file cl2rec_def push_bit_eq_mult chain_disk_def bt_defs)

theorem ixread_contents_witness:
  "\<exists>s'. ixread quiet 4000 2000 70000 (floppy chain_disk) = Some (Inr (Count 1500), s') \<and> umem s' 71300 = 32"
  using ixread_contents [OF floppy_sees' quiet_ok floppy_rfile floppy_start, of 70000 2000]
  by (auto simp: floppy_len floppy_byte Let_def)

text \<open>
  C21. Seeking agrees with the byte position. From any valid position, forwards from the
  current cluster or from the start of the chain, \<open>ixlseek\<close> to a byte of the file or to its
  end returns that position and leaves the descriptor there, in the representation that
  reading relies on; any other target is refused with \<open>ERANGE\<close> and changes nothing. The
  16-bit arithmetic on cluster counts never wraps.
\<close>

theorem ixlseek_position:
  assumes "sees s V" "driver_ok drv" "rfile s p dm dmp V cs" "positioned s p dm cs b"
  shows "if 0 \<le> n \<and> n \<le> int (file_len s p)
    then \<exists>s'. ixlseek drv p n s = Some (Inr n, s') \<and> positioned s' p dm cs (nat n)
      \<and> sees s' V \<and> umem s' = umem s \<and> rfile s' p dm dmp V cs \<and> file_len s' p = file_len s p
      \<and> (\<forall>q. q \<noteq> p \<longrightarrow> ofds s' q = ofds s q)
    else ixlseek drv p n s = Some (Inr ERANGE, s)"
proof (cases "0 \<le> n \<and> n \<le> int (file_len s p)")
  case True
  then have n: "nat n \<le> file_len s p" "int (nat n) = n" by (simp_all add: nat_le_iff)
  have b: "o_bytnum (ofds s p) = int b" "b \<le> file_len s p"
    and a: "at_pos dm cs b (o_curcl (ofds s p)) (o_currec (ofds s p)) (o_curbyt (ofds s p))"
    using assms(4) by (simp_all add: positioned_def)
  obtain s' c r k where s': "ixlseek drv p (int (nat n)) s = Some (Inr (int (nat n)), s')" "sees s' V"
    "rest s' = rest (posn s p (umem s) (nat n) c r k)" "at_pos dm cs (nat n) c r k"
    by (rule ixlseek_ok [OF assms(1-3) a b n(1)])
  note A = posn_after [OF s'(3) assms(3) s'(4) n(1)]
  show ?thesis unfolding if_P [OF True] using s'(1,2) A unfolding n(2) by blast
next
  case False
  have "o_fileln (dfds s (o_dfd (ofds s p))) = int (file_len s p)"
    using assms(3) by (auto simp: file_len_def rfile_def)
  with False show ?thesis by (auto simp: ixlseek_def ret_def Let_def)
qed

theorem ixlseek_position_witness:
  "(\<exists>s'. ixlseek quiet 4000 1300 (floppy chain_disk) = Some (Inr 1300, s') \<and> positioned s' 4000 floppy_dmd [2, 3] 1300)
   \<and> ixlseek quiet 4000 1501 (floppy chain_disk) = Some (Inr ERANGE, floppy chain_disk)"
  using ixlseek_position [OF floppy_sees' quiet_ok floppy_rfile floppy_start, of 1300]
    ixlseek_position [OF floppy_sees' quiet_ok floppy_rfile floppy_start, of 1501]
  by (auto simp: floppy_len)

text \<open>
  C19. Direct transfers are coherent with the cache. Records written directly from the user's
  memory become the content that every later access sees, although copies of some of them
  were cached, dirty or clean: those are written back and dropped first; no other record
  of any mounted drive changes, and records read directly are the cached contents.
\<close>

theorem usrio_coherent:
  assumes "sees s V" "driver_ok drv" "mounted s dmp" "0 < m_recsiz (dmds s dmp)"
  shows "\<exists>s1 s2. usrio drv True num strt ub dmp s = Some (Inr (), s1)
    \<and> sees s1 (put_recs dmp strt num (m_recsiz (dmds s dmp)) (umem s) ub V) \<and> rest s1 = rest s
    \<and> usrio drv False num strt ub2 dmp s1 = Some (Inr (), s2)
    \<and> (\<forall>i < num * m_recsiz (dmds s dmp). umem s2 (ub2 + i) = umem s (ub + i))"
proof -
  let ?R = "m_recsiz (dmds s dmp)" and ?V = "put_recs dmp strt num (m_recsiz (dmds s dmp)) (umem s) ub V"
  obtain s1 where s1: "usrio drv True num strt ub dmp s = Some (Inr (), s1)" "rest s1 = rest s" "sees s1 ?V"
    by (rule usrio_write [OF assms(1-3) refl])
  note R = rest_sel [OF s1(2)]
  have m: "mounted s1 dmp" "dmds s1 dmp = dmds s dmp" using assms(3) R by simp_all
  obtain s2 where s2: "usrio drv False num strt ub2 dmp s1 = Some (Inr (), s2)"
    "rest s2 = rest (s1\<lparr>umem := (\<lambda>a. if ub2 \<le> a \<and> a < ub2 + num * ?R
       then ?V dmp BT_DATA (strt + (a - ub2) div ?R) ((a - ub2) mod ?R) else umem s1 a)\<rparr>)"
    by (rule usrio_read [OF s1(3) assms(2) m])
  have "umem s2 (ub2 + i) = umem s (ub + i)" if i: "i < num * ?R" for i
  proof -
    have "i div ?R < num" using i by (simp add: less_mult_imp_div_less)
    moreover have "i div ?R * ?R + i mod ?R = i" by simp
    ultimately show ?thesis using rest_sel(9) [OF s2(2)] i assms(4)
      by (simp add: put_recs_def add.assoc)
  qed
  then show ?thesis using s1 s2(1) by blast
qed

theorem usrio_coherent_witness:
  "\<exists>s1 s2. usrio quiet True 2 3 70000 1000 (floppy chain_disk) = Some (Inr (), s1)
    \<and> usrio quiet False 2 3 80000 1000 s1 = Some (Inr (), s2) \<and> umem s2 80007 = umem (floppy chain_disk) 70007"
proof -
  have "mounted (floppy chain_disk) 1000" "0 < m_recsiz (dmds (floppy chain_disk) 1000)"
    and w: "7 < 2 * m_recsiz (dmds (floppy chain_disk) 1000)"
    using floppy_rfile by (simp_all add: rfile_def floppy_file)
  note U = usrio_coherent [OF floppy_sees' quiet_ok this(1,2), of 2 3 70000 80000]
  obtain s1 s2 where "usrio quiet True 2 3 70000 1000 (floppy chain_disk) = Some (Inr (), s1)"
    "usrio quiet False 2 3 80000 1000 s1 = Some (Inr (), s2)"
    "\<forall>i < 2 * m_recsiz (dmds (floppy chain_disk) 1000). umem s2 (80000 + i) = umem (floppy chain_disk) (70000 + i)"
    using U by blast
  then show ?thesis using spec [of _ "7::nat"] w by fastforce
qed

end
