(* ===== verification/CStrings.thy ===== *)
theory CStrings
  imports Prelude
begin

text \<open>
  The C string routines of util/string.c on a byte-addressed memory. A pointer is a natural
  number; a loop that runs until it meets a NUL byte is \<open>None\<close> when there is none. The
  lemmas relate each routine to the list of bytes that a NUL-terminated string holds.
\<close>

type_synonym cmem = "nat \<Rightarrow> 8 word"

section \<open>The routines\<close>

partial_function (option) strcpy_loop :: "nat \<Rightarrow> nat \<Rightarrow> cmem \<Rightarrow> (nat \<times> cmem) option" where
  "strcpy_loop d s m =
     (let m' = m(d := m s) in if m s = 0 then Some (d, m') else strcpy_loop (d + 1) (s + 1) m')"

definition strcpy :: "nat \<Rightarrow> nat \<Rightarrow> cmem \<Rightarrow> cmem option" where
  "strcpy dest src m = map_option snd (strcpy_loop dest src m)"

partial_function (option) scan_nul :: "nat \<Rightarrow> cmem \<Rightarrow> nat option" where
  "scan_nul s m = (if m s = 0 then Some s else scan_nul (s + 1) m)"

definition strcat :: "nat \<Rightarrow> nat \<Rightarrow> cmem \<Rightarrow> cmem option" where
  "strcat dest src m =
     (case scan_nul dest m of None \<Rightarrow> None | Some tmp \<Rightarrow> map_option snd (strcpy_loop tmp src m))"

text \<open>The copying loop of \<open>strlcpy\<close>: at most \<open>n\<close> bytes.\<close>

primrec strlcpy_loop :: "nat \<Rightarrow> nat \<Rightarrow> nat \<Rightarrow> cmem \<Rightarrow> nat \<times> nat \<times> cmem" where
  "strlcpy_loop 0 d s m = (d, s, m)"
| "strlcpy_loop (Suc n) d s m =
     (if m s \<noteq> 0 then strlcpy_loop n (d + 1) (s + 1) (m(d := m s)) else (d, s, m))"

definition strlcpy :: "nat \<Rightarrow> nat \<Rightarrow> nat \<Rightarrow> cmem \<Rightarrow> (nat \<times> cmem) option" where
  "strlcpy dest src count m =
     (let (s, m) = (if count > 0
                    then case strlcpy_loop (count - 1) dest src m of (d, s, m) \<Rightarrow> (s, m(d := 0))
                    else (src, m))
      in case scan_nul s m of None \<Rightarrow> None | Some s \<Rightarrow> Some (s + 1 - src - 1, m))"

definition strlen :: "nat \<Rightarrow> cmem \<Rightarrow> nat option" where
  "strlen s m = (case scan_nul s m of None \<Rightarrow> None | Some e \<Rightarrow> Some (e - s))"

partial_function (option) strcmp :: "nat \<Rightarrow> nat \<Rightarrow> cmem \<Rightarrow> int option" where
  "strcmp a b m =
     (if m a \<noteq> m b then Some (uint (m a) - uint (m b))
      else if m a = 0 then Some 0
      else strcmp (a + 1) (b + 1) m)"

primrec memcmp :: "nat \<Rightarrow> nat \<Rightarrow> nat \<Rightarrow> cmem \<Rightarrow> int" where
  "memcmp 0 a b m = 0"
| "memcmp (Suc n) a b m =
     (if m a \<noteq> m b then uint (m a) - uint (m b) else memcmp n (a + 1) (b + 1) m)"

primrec strncmp :: "nat \<Rightarrow> nat \<Rightarrow> nat \<Rightarrow> cmem \<Rightarrow> int" where
  "strncmp 0 a b m = 0"
| "strncmp (Suc n) a b m =
     (if m a \<noteq> m b then uint (m a) - uint (m b)
      else if m a = 0 then 0
      else strncmp n (a + 1) (b + 1) m)"

definition toupper :: "int \<Rightarrow> int" where
  "toupper c = (if c \<ge> 97 \<and> c \<le> 122 then c - 97 + 65 else c)"

primrec strncasecmp :: "nat \<Rightarrow> nat \<Rightarrow> nat \<Rightarrow> cmem \<Rightarrow> int" where
  "strncasecmp 0 a b m = 0"
| "strncasecmp (Suc n) a b m =
     (let s1 = toupper (uint (m a)); s2 = toupper (uint (m b)) in
      if s1 \<noteq> s2 then s1 - s2
      else if s1 = 0 then 0
      else strncasecmp n (a + 1) (b + 1) m)"

text \<open>The Arm build's \<open>strlencpy\<close> copies up to the NUL and returns the length as a \<open>short\<close>.\<close>

partial_function (option) strlencpy_loop :: "nat \<Rightarrow> nat \<Rightarrow> int \<Rightarrow> cmem \<Rightarrow> (int \<times> cmem) option" where
  "strlencpy_loop dest src len m =
     (let p = nat (int src + len) in
      if m p \<noteq> 0 then strlencpy_loop (dest + 1) src (s16 (len + 1)) (m(dest := m p)) else Some (len, m))"

definition strlencpy :: "nat \<Rightarrow> nat \<Rightarrow> cmem \<Rightarrow> (int \<times> cmem) option" where
  "strlencpy dest src m = strlencpy_loop dest src 0 m"

partial_function (option) scasb :: "nat \<Rightarrow> 8 word \<Rightarrow> cmem \<Rightarrow> nat option" where
  "scasb s c m = (if m s \<noteq> 0 \<and> m s \<noteq> c then scasb (s + 1) c m else Some s)"

text \<open>\<open>strchr\<close> returns the null pointer when the character does not occur, NUL included.\<close>

definition strchr :: "nat \<Rightarrow> 8 word \<Rightarrow> cmem \<Rightarrow> nat option" where
  "strchr s c m = (case scasb s c m of None \<Rightarrow> None | Some p \<Rightarrow> Some (if m p = 0 then 0 else p))"


section \<open>Strings in memory\<close>

definition cstr :: "cmem \<Rightarrow> nat \<Rightarrow> 8 word list \<Rightarrow> bool" where
  "cstr m a xs \<longleftrightarrow> (\<forall>i < length xs. m (a + i) = xs ! i) \<and> m (a + length xs) = 0 \<and> 0 \<notin> set xs"

lemma cstr_Nil [simp]: "cstr m a [] \<longleftrightarrow> m a = 0"
  by (simp add: cstr_def)

lemma cstr_Cons [simp]: "cstr m a (x # xs) \<longleftrightarrow> m a = x \<and> x \<noteq> 0 \<and> cstr m (a + 1) xs"
  by (auto simp: cstr_def nth_Cons less_Suc_eq_0_disj)

lemma cstr_unique: "cstr m a xs \<Longrightarrow> cstr m a ys \<Longrightarrow> xs = ys"
proof (induction xs arbitrary: a ys)
  case Nil
  then show ?case by (cases ys) auto
next
  case (Cons x xs)
  then show ?case by (cases ys) auto
qed

lemma cstr_frame: "d < a \<or> a + length xs < d \<Longrightarrow> cstr (m(d := v)) a xs = cstr m a xs"
  by (induction xs arbitrary: a) auto

lemma scan_nul_cstr: "cstr m a xs \<Longrightarrow> scan_nul a m = Some (a + length xs)"
proof (induction xs arbitrary: a)
  case Nil
  then show ?case by (simp add: scan_nul.simps)
next
  case (Cons x xs)
  then show ?case by (subst scan_nul.simps) simp
qed

lemma strlen_cstr: "cstr m a xs \<Longrightarrow> strlen a m = Some (length xs)"
  by (simp add: strlen_def scan_nul_cstr)

text \<open>Writing a list of bytes into memory.\<close>

definition put :: "nat \<Rightarrow> 8 word list \<Rightarrow> cmem \<Rightarrow> cmem" where
  "put a xs m = (\<lambda>i. if a \<le> i \<and> i < a + length xs then xs ! (i - a) else m i)"

lemma put_Nil [simp]: "put a [] m = m"
  by (rule ext) (auto simp: put_def)

lemma put_Cons: "put a (x # xs) m = put (a + 1) xs (m(a := x))"
  by (rule ext) (auto simp: put_def nth_Cons Suc_diff_Suc split: nat.splits intro: arg_cong [of _ _ "(!) xs"])

lemma put_step: "put (Suc a) xs (m(a := x)) = put a (x # xs) m"
  by (simp add: put_Cons)

lemma cstr_put:
  assumes "0 \<notin> set xs"
  shows "cstr (put a (xs @ [0]) m) a xs"
  using assms by (auto simp: cstr_def put_def nth_append)

text \<open>The source lies apart from the part of the destination that is written.\<close>

lemma strcpy_loop_put:
  assumes "cstr m s xs" "d + length xs < s \<or> s + length xs < d"
  shows "strcpy_loop d s m = Some (d + length xs, put d (xs @ [0]) m)"
  using assms
proof (induction xs arbitrary: d s m)
  case Nil
  then show ?case by (subst strcpy_loop.simps) (simp add: put_Cons)
next
  case (Cons x xs)
  have c: "cstr (m(d := x)) (s + 1) xs" using Cons.prems by (subst cstr_frame) auto
  have "strcpy_loop d s m = strcpy_loop (d + 1) (s + 1) (m(d := x))"
    using Cons.prems by (subst strcpy_loop.simps) (simp add: Let_def)
  also have "\<dots> = Some (d + 1 + length xs, put (d + 1) (xs @ [0]) (m(d := x)))"
    using Cons.prems by (intro Cons.IH [OF c]) auto
  finally show ?case by (simp add: put_Cons)
qed

lemma strcpy_cstr:
  assumes "cstr m src xs" "dest + length xs < src \<or> src + length xs < dest"
  shows "strcpy dest src m = Some (put dest (xs @ [0]) m)"
  by (simp add: strcpy_def strcpy_loop_put [OF assms])

lemma strcat_cstr:
  assumes "cstr m dest xs" "cstr m src ys"
    and "dest + length xs + length ys < src \<or> src + length ys < dest + length xs"
  shows "strcat dest src m = Some (put (dest + length xs) (ys @ [0]) m)"
  using assms(3) by (simp add: strcat_def scan_nul_cstr [OF assms(1)] strcpy_loop_put [OF assms(2)])

lemma strlcpy_loop_put:
  assumes "cstr m s xs" "d + min n (length xs) \<le> s \<or> s + length xs < d"
  shows "strlcpy_loop n d s m = (d + min n (length xs), s + min n (length xs), put d (take n xs) m)"
  using assms
proof (induction n arbitrary: d s m xs)
  case (Suc n)
  show ?case
  proof (cases xs)
    case (Cons x ys)
    have c: "cstr (m(d := x)) (s + 1) ys" using Suc.prems Cons by (subst cstr_frame) auto
    have "strlcpy_loop (Suc n) d s m = strlcpy_loop n (d + 1) (s + 1) (m(d := x))"
      using Suc.prems Cons by simp
    also have "\<dots> = (d + 1 + min n (length ys), s + 1 + min n (length ys), put (d + 1) (take n ys) (m(d := x)))"
      using Suc.prems Cons by (intro Suc.IH [OF c]) auto
    finally show ?thesis using Cons by (simp add: put_step del: strlcpy_loop.simps)
  qed (use Suc.prems in simp)
qed simp

lemma put_snoc: "(put a xs m)(a + length xs := x) = put a (xs @ [x]) m"
  by (rule ext) (auto simp: put_def nth_append)

lemma cstr_drop: "cstr m a xs \<Longrightarrow> k \<le> length xs \<Longrightarrow> cstr m (a + k) (drop k xs)"
  by (auto simp: cstr_def add.assoc dest: in_set_dropD)

lemma cstr_put_apart:
  "a + length ys \<le> b \<or> b + length xs < a \<Longrightarrow> cstr (put a ys m) b xs = cstr m b xs"
proof (induction ys arbitrary: a m)
  case (Cons y ys)
  have "cstr (put (a + 1) ys (m(a := y))) b xs = cstr (m(a := y)) b xs"
    using Cons.prems by (intro Cons.IH) auto
  also have "\<dots> = cstr m b xs" using Cons.prems by (intro cstr_frame) auto
  finally show ?case by (simp add: put_Cons)
qed simp

lemma strlcpy_cstr:
  assumes c: "cstr m src xs" and n: "0 < count" and apart: "dest + count \<le> src \<or> src + length xs < dest"
  shows "strlcpy dest src count m = Some (length xs, put dest (take (count - 1) xs @ [0]) m)"
proof -
  let ?k = "min (count - 1) (length xs)" and ?m = "put dest (take (count - 1) xs @ [0]) m"
  have "strlcpy_loop (count - 1) dest src m = (dest + ?k, src + ?k, put dest (take (count - 1) xs) m)"
    using n apart by (intro strlcpy_loop_put [OF c]) auto
  moreover have "(put dest (take (count - 1) xs) m)(dest + ?k := 0) = ?m"
    using put_snoc [of dest "take (count - 1) xs" m 0] by (simp add: min.commute)
  moreover have "cstr ?m src xs"
    using n apart c by (subst cstr_put_apart) auto
  then have "scan_nul (src + ?k) ?m = Some (src + ?k + length (drop ?k xs))"
    by (intro scan_nul_cstr cstr_drop) auto
  ultimately show ?thesis using n by (auto simp: strlcpy_def)
qed


section \<open>Comparison\<close>

text \<open>The sign of a comparison is the lexicographic order of the bytes.\<close>

lemma strcmp_cstr:
  assumes "cstr m a xs" "cstr m b ys"
  shows "\<exists>r. strcmp a b m = Some r \<and> (r = 0 \<longleftrightarrow> xs = ys) \<and> (r < 0 \<longleftrightarrow> (xs, ys) \<in> lexord {(u, v). u < v})"
  using assms
proof (induction xs arbitrary: a b ys)
  case Nil
  then show ?case by (cases ys) (subst strcmp.simps, auto simp: uint_0_iff order_less_le)+
next
  case (Cons x xs)
  show ?case
  proof (cases ys)
    case Nil
    with Cons.prems show ?thesis
      by (subst strcmp.simps) (auto simp: uint_0_iff not_less)
  next
    case ys: (Cons y zs)
    show ?thesis
    proof (cases "x = y")
      case True
      with Cons.prems ys have "strcmp a b m = strcmp (a + 1) (b + 1) m"
        by (subst strcmp.simps) simp
      moreover from Cons.prems ys have "cstr m (a + 1) xs" "cstr m (b + 1) zs" by simp_all
      ultimately show ?thesis using Cons.IH [of "a + 1" "b + 1" zs] True ys by auto
    next
      case False
      with Cons.prems ys have "strcmp a b m = Some (uint x - uint y)"
        by (subst strcmp.simps) simp
      moreover have "uint x - uint y = 0 \<longleftrightarrow> x = y" "uint x - uint y < 0 \<longleftrightarrow> x < y"
        by (auto simp: word_less_def word_uint_eq_iff)
      ultimately show ?thesis using False ys by auto
    qed
  qed
qed

lemma toupper_nul: "toupper (uint x) = 0 \<longleftrightarrow> x = 0" "0 = toupper (uint x) \<longleftrightarrow> x = 0" for x :: "8 word"
  by (auto simp: toupper_def uint_0_iff)

lemma toupper_0 [simp]: "toupper 0 = 0"
  by (simp add: toupper_def)

lemma strncasecmp_eq:
  assumes "cstr m a xs" "cstr m b ys"
  shows "strncasecmp n a b m = 0
    \<longleftrightarrow> map (toupper \<circ> uint) (take n xs) = map (toupper \<circ> uint) (take n ys)"
  using assms
proof (induction n arbitrary: a b xs ys)
  case (Suc n)
  show ?case
  proof (cases xs)
    case Nil
    with Suc.prems show ?thesis by (cases ys) (simp_all add: Let_def toupper_nul)
  next
    case xs: (Cons x xs')
    with Suc.prems show ?thesis
      using Suc.IH [of "a + 1" xs' "b + 1" "tl ys"] by (cases ys) (simp_all add: Let_def toupper_nul)
  qed
qed simp


section \<open>Properties\<close>

text \<open>
  C37. \<open>strlcpy\<close> is safe and complete. For a terminated source that does not overlap the
  destination and a count above zero, it returns the length of the source, so that a result
  of \<open>count\<close> or more means truncation; the destination then holds the source cut to
  \<open>count - 1\<close> bytes, terminated, and no byte outside the \<open>count\<close> bytes of the destination
  changes. With a count of zero nothing is written.
\<close>

theorem strlcpy_bounded:
  assumes "cstr m src xs" "dest + count \<le> src \<or> src + length xs < dest"
  shows "\<exists>m'. strlcpy dest src count m = Some (length xs, m')
    \<and> (\<forall>a. a < dest \<or> dest + count \<le> a \<longrightarrow> m' a = m a)
    \<and> (count > 0 \<longrightarrow> cstr m' dest (take (count - 1) xs))"
proof (cases "count = 0")
  case True
  then show ?thesis by (simp add: strlcpy_def scan_nul_cstr [OF assms(1)])
next
  case False
  have "0 \<notin> set (take (count - 1) xs)"
    using assms(1) by (auto simp: cstr_def dest: in_set_takeD)
  then have "cstr (put dest (take (count - 1) xs @ [0]) m) dest (take (count - 1) xs)"
    by (rule cstr_put)
  with False show ?thesis
    by (simp add: strlcpy_cstr [OF assms(1) _ assms(2)]) (auto simp: put_def)
qed

text \<open>The bytes \<open>HELLO\<close> at 100.\<close>

definition hello :: cmem where
  "hello = (\<lambda>a. if 100 \<le> a \<and> a < 105 then [72, 69, 76, 76, 79] ! (a - 100) else 0)"

lemma hello_cstr: "cstr hello 100 [72, 69, 76, 76, 79]"
  by (simp add: hello_def)

theorem strlcpy_bounded_witness:
  "\<exists>m'. strlcpy 10 100 4 hello = Some (5, m') \<and> cstr m' 10 [72, 69, 76] \<and> m' 14 = hello 14"
  using strlcpy_bounded [OF hello_cstr, of 10 4] by auto

text \<open>The Arm version of \<open>strlencpy\<close> copies the bytes but not the terminator.\<close>

lemma strlencpy_loop_put:
  assumes "cstr m (src + k) xs" "k + length xs < 32768" "d + length xs \<le> src + k \<or> src + k + length xs < d"
  shows "strlencpy_loop d src (int k) m = Some (int (k + length xs), put d xs m)"
  using assms
proof (induction xs arbitrary: k d m)
  case Nil
  then show ?case by (subst strlencpy_loop.simps) (simp add: nat_int_add)
next
  case (Cons x xs)
  have c: "cstr (m(d := x)) (src + Suc k) xs" using Cons.prems by (subst cstr_frame) auto
  have e: "nat (int src + int k) = src + k" "s16 (int k + 1) = int (Suc k)" using Cons.prems by simp_all
  have "strlencpy_loop d src (int k) m = strlencpy_loop (d + 1) src (int (Suc k)) (m(d := x))"
    using Cons.prems by (subst strlencpy_loop.simps) (simp only: e Let_def, simp)
  also have "\<dots> = Some (int (Suc k + length xs), put (d + 1) xs (m(d := x)))"
    using Cons.prems by (intro Cons.IH [OF c]) auto
  finally show ?case by (simp add: put_Cons)
qed

text \<open>
  On Arm \<open>strlencpy\<close> does not terminate the copy. It returns the length and copies
  exactly the bytes before the NUL; the byte after them keeps its old value, whereas \<open>strcpy\<close>,
  which its comment names as the model, and the m68k version store the NUL there.
\<close>

theorem strlencpy_unterminated:
  assumes "cstr m src xs" "length xs < 32768" "dest + length xs < src \<or> src + length xs < dest"
  shows "\<exists>m' m''. strlencpy dest src m = Some (int (length xs), m') \<and> strcpy dest src m = Some m''
    \<and> m'' = m'(dest + length xs := 0) \<and> m' (dest + length xs) = m (dest + length xs)"
proof -
  have "strlencpy dest src m = Some (int (length xs), put dest xs m)"
    using strlencpy_loop_put [of m src 0 xs dest] assms(1,2) less_imp_le [of "dest + length xs" src] assms(3)
    by (auto simp: strlencpy_def)
  then show ?thesis using strcpy_cstr [OF assms(1,3)] by (simp add: put_snoc) (simp add: put_def)
qed

theorem strlencpy_unterminated_witness:
  "\<exists>m' m''. strlencpy 10 100 (hello(15 := 33)) = Some (5, m') \<and> strcpy 10 100 (hello(15 := 33)) = Some m''
    \<and> m' 15 = 33 \<and> m'' 15 = 0"
proof -
  have "cstr (hello(15 := 33)) 100 [72, 69, 76, 76, 79]" using hello_cstr by (subst cstr_frame) auto
  from strlencpy_unterminated [OF this, of 10] show ?thesis by auto
qed

end
