(* ===== verification/FsNames.thy ===== *)
theory FsNames
  imports FsTypes CStrings
begin

text \<open>
  File names in the BDOS: cracking a path element into the 11-character form of a directory
  entry and back (\<open>builds\<close>, \<open>packit\<close>, \<open>getpath\<close>, \<open>match\<close> of bdos/fsdir.c, \<open>unpackit\<close> and
  \<open>namlen\<close> of fs/fatfs_pfs.c, the character check of bdos/fsopnclo.c) and the table of
  current directories. A C string is the list of its characters, its end standing for the
  NUL; a directory name is the list of its 11 characters.
\<close>

definition SLASH :: char where "SLASH = CHR 0x5C"
definition ERASE_MARKER :: char where "ERASE_MARKER = CHR 0xE5"
definition NUL :: char where "NUL = CHR 0x00"
definition LEN_ZNODE :: nat where "LEN_ZNODE = 8"
definition LEN_ZEXT :: nat where "LEN_ZEXT = 3"
definition FA_VOL :: nat where "FA_VOL = 8"
definition FA_SUBDIR :: nat where "FA_SUBDIR = 16"
definition FA_LFN :: nat where "FA_LFN = 15"
definition NCURDIR :: nat where "NCURDIR = 40"

lemmas name_defs = SLASH_def ERASE_MARKER_def NUL_def LEN_ZNODE_def LEN_ZEXT_def

text \<open>\<open>toupper\<close> on a plain \<open>char\<close>.\<close>

definition upc :: "char \<Rightarrow> char" where
  "upc c = char_of (toupper (of_char c))"

section \<open>Path elements\<close>

definition isnotdelim :: "char \<Rightarrow> bool" where
  "isnotdelim x \<longleftrightarrow> x \<noteq> NUL \<and> x \<noteq> CHR ''*'' \<and> x \<noteq> SLASH \<and> x \<noteq> CHR ''.'' \<and> x \<noteq> CHR '' ''"

text \<open>The copying loops of \<open>builds\<close>: at most \<open>n\<close> characters; what is copied and what is left.\<close>

fun copy_name :: "nat \<Rightarrow> string \<Rightarrow> string \<times> string" where
  "copy_name (Suc n) (c # s1) =
     (if isnotdelim c then (case copy_name n s1 of (d, s1) \<Rightarrow> (upc c # d, s1)) else ([], c # s1))"
| "copy_name n s1 = ([], s1)"

definition starts :: "char \<Rightarrow> string \<Rightarrow> bool" where
  "starts c s \<longleftrightarrow> (case s of [] \<Rightarrow> False | x # _ \<Rightarrow> x = c)"

definition builds :: "string \<Rightarrow> string" where
  "builds s1 =
     (let (d, s1) = copy_name LEN_ZNODE s1;
          s1 = (if length d = LEN_ZNODE then dropWhile (\<lambda>c. c \<noteq> CHR ''.'' \<and> c \<noteq> SLASH) s1 else s1);
          c = (if starts (CHR ''*'') s1 then CHR ''?'' else CHR '' '');
          s1 = (if starts (CHR ''*'') s1 then tl s1 else s1);
          s1 = (if starts (CHR ''.'') s1 then tl s1 else s1);
          d = d @ replicate (LEN_ZNODE - length d) c;
          (e, s1) = copy_name LEN_ZEXT s1;
          c = (if starts (CHR ''*'') s1 then CHR ''?'' else CHR '' '')
      in d @ e @ replicate (LEN_ZEXT - length e) c)"

text \<open>Copy up to a NUL or a blank, the loops of \<open>packit\<close>.\<close>

definition word_of :: "string \<Rightarrow> string" where
  "word_of s = takeWhile (\<lambda>c. c \<noteq> NUL \<and> c \<noteq> CHR '' '') s"

definition packit :: "string \<Rightarrow> string" where
  "packit s =
     (if s ! 0 = NUL then []
      else word_of (take 8 s) @
        (if s ! 0 = CHR ''.'' then []
         else if s ! 8 = CHR '' '' then [] else CHR ''.'' # word_of (take 3 (drop 8 s))))"

definition unpackit :: "string \<Rightarrow> string" where
  "unpackit src =
     (let d = takeWhile (\<lambda>c. c \<noteq> CHR ''.'') (take 8 src);
          s = drop 1 (dropWhile (\<lambda>c. c \<noteq> CHR ''.'') (drop (length d) src));
          e = take 3 s
      in d @ replicate (8 - length d) (CHR '' '') @ e @ replicate (3 - length e) (CHR '' ''))"

text \<open>The characters are counted wherever they stand; reaching the ninth adds one for the dot.\<close>

primrec namlen_loop :: "nat \<Rightarrow> nat \<Rightarrow> string \<Rightarrow> nat" where
  "namlen_loop i n [] = n"
| "namlen_loop i n (c # s) =
     namlen_loop (i + 1) (if c \<noteq> NUL \<and> c \<noteq> CHR '' '' then (if i = 9 then n + 2 else n + 1) else n) s"

definition namlen :: "string \<Rightarrow> nat" where
  "namlen s11 = namlen_loop 1 1 (take 11 s11)"

text \<open>The result and what the destination buffer is given, if anything.\<close>

definition getpath :: "string \<Rightarrow> bool \<Rightarrow> int \<times> string option" where
  "getpath p dirspec =
     (let el = takeWhile (\<lambda>c. c \<noteq> SLASH) p; i = length el in
      if i < length p \<or> dirspec then
        if starts (CHR ''.'') p then ((if starts (CHR ''.'') (tl p) then - 2 else - 1), None)
        else (int i, if i \<noteq> 0 then Some (builds p) else None)
      else (0, None))"

text \<open>The names with the attribute bytes that follow them, \<open>s1[11]\<close> and \<open>s2[11]\<close>.\<close>

definition match_name :: "string \<Rightarrow> string \<Rightarrow> bool" where
  "match_name s1 s2 \<longleftrightarrow> (\<forall>i < 11. s1 ! i = CHR ''?'' \<or> upc (s1 ! i) = upc (s2 ! i))"

definition match :: "string \<Rightarrow> nat \<Rightarrow> string \<Rightarrow> nat \<Rightarrow> bool" where
  "match s1 a1 s2 a2 =
     (if a2 = FA_LFN then False
      else if s2 ! 0 = ERASE_MARKER \<and> s1 ! 0 = CHR ''?'' then False
      else if s2 ! 0 = ERASE_MARKER \<and> s1 ! 0 = ERASE_MARKER then True
      else if \<not> match_name s1 s2 then False
      else if a1 \<noteq> FA_VOL \<and> a1 \<noteq> FA_SUBDIR \<and> a2 = 0 then True
      else a1 AND a2 \<noteq> 0)"

definition ILLEGAL_FNAME_CHARACTERS :: string where
  "ILLEGAL_FNAME_CHARACTERS = '' *,:;<=>?[]|''"

definition contains_illegal_characters :: "string \<Rightarrow> bool" where
  "contains_illegal_characters test \<longleftrightarrow>
     list_ex (\<lambda>ref. list_ex (\<lambda>t. t = ref) test) ILLEGAL_FNAME_CHARACTERS"

section \<open>Current directories\<close>

record dirtbl_entry =
  dt_dnd :: nat
  dt_use :: int

definition incr_curdir_usage :: "nat \<Rightarrow> (nat \<Rightarrow> dirtbl_entry) \<Rightarrow> int \<times> (nat \<Rightarrow> dirtbl_entry)" where
  "incr_curdir_usage dnd dirtbl =
     (if dnd = 0 then (EINTRN, dirtbl)
      else
      let slot = (case find (\<lambda>i. dt_dnd (dirtbl i) = dnd) [1 ..< NCURDIR] of
                    Some i \<Rightarrow> Some i
                  | None \<Rightarrow> find (\<lambda>i. dt_use (dirtbl i) = 0) [1 ..< NCURDIR])
      in case slot of
           None \<Rightarrow> (EINTRN, dirtbl)
         | Some i \<Rightarrow> (int i, dirtbl(i := \<lparr>dt_dnd = dnd, dt_use = s16 (dt_use (dirtbl i) + 1)\<rparr>)))"

definition decr_curdir_usage :: "int \<Rightarrow> (nat \<Rightarrow> dirtbl_entry) \<Rightarrow> nat \<Rightarrow> dirtbl_entry" where
  "decr_curdir_usage n dirtbl =
     (if n \<le> 0 \<or> n \<ge> int NCURDIR then dirtbl
      else
      let i = nat n; use = s16 (dt_use (dirtbl i) - 1); use = (if use < 0 then 0 else use)
      in dirtbl(i := \<lparr>dt_dnd = (if use = 0 then 0 else dt_dnd (dirtbl i)), dt_use = use\<rparr>))"


section \<open>Directory names\<close>

text \<open>Characters a stored name consists of: none that ends a part, none that changes case.\<close>

definition name_char :: "char \<Rightarrow> bool" where
  "name_char c \<longleftrightarrow> isnotdelim c \<and> upc c = c"

definition dir_name :: "string \<Rightarrow> string \<Rightarrow> string" where
  "dir_name f e = f @ replicate (8 - length f) (CHR '' '') @ e @ replicate (3 - length e) (CHR '' '')"

definition name_ok :: "string \<Rightarrow> string \<Rightarrow> bool" where
  "name_ok f e \<longleftrightarrow> f \<noteq> [] \<and> length f \<le> 8 \<and> length e \<le> 3 \<and> list_all isnotdelim f \<and> list_all isnotdelim e"

lemma copy_name_stop:
  "length d \<le> n \<Longrightarrow> list_all isnotdelim d \<Longrightarrow> r = [] \<or> \<not> isnotdelim (hd r) \<Longrightarrow>
   copy_name n (d @ r) = (map upc d, r)"
proof (induction d arbitrary: n)
  case Nil
  then show ?case by (cases n; cases r) auto
next
  case (Cons c d)
  then show ?case by (cases n) auto
qed

lemma copy_name_full:
  "length d = n \<Longrightarrow> list_all isnotdelim d \<Longrightarrow> copy_name n (d @ r) = (map upc d, r)"
proof (induction d arbitrary: n)
  case (Cons c d)
  then show ?case by (cases n) auto
qed simp

lemma isnotdelim_simps [simp]:
  "\<not> isnotdelim (CHR ''.'')" "\<not> isnotdelim (CHR '' '')" "\<not> isnotdelim (CHR ''*'')" "\<not> isnotdelim SLASH"
  by (simp_all add: isnotdelim_def name_defs)

lemma isnotdelimD: "isnotdelim c \<Longrightarrow> c \<noteq> CHR ''.'' \<and> c \<noteq> SLASH \<and> c \<noteq> NUL \<and> c \<noteq> CHR '' '' \<and> c \<noteq> CHR ''*''"
  by (simp add: isnotdelim_def)

lemma starts_simps [simp]: "starts c [] = False" "starts c (x # xs) = (x = c)"
  by (simp_all add: starts_def)

lemma dot_slash [simp]: "CHR ''.'' \<noteq> SLASH" "SLASH \<noteq> CHR ''.''" "SLASH \<noteq> CHR ''*''" "CHR ''*'' \<noteq> SLASH"
  by (simp_all add: name_defs)

text \<open>
  A path element \<open>f.e\<close>, of any length: the name is cut to 8 and the extension to 3
  characters, in upper case.
\<close>

lemma list_all_take: "list_all P xs \<Longrightarrow> list_all P (take n xs)"
  by (auto simp: list_all_iff dest: in_set_takeD)

lemma list_all_drop: "list_all P xs \<Longrightarrow> list_all P (drop n xs)"
  by (auto simp: list_all_iff dest: in_set_dropD)

lemma not_star: "list_all isnotdelim r \<Longrightarrow> \<not> starts (CHR ''*'') r"
  by (cases r) (auto dest: isnotdelimD)

lemma dropWhile_ext:
  "list_all isnotdelim r \<Longrightarrow> dropWhile (\<lambda>c. c \<noteq> CHR ''.'' \<and> c \<noteq> SLASH) (r @ CHR ''.'' # e) = CHR ''.'' # e"
  by (induction r) (auto dest: isnotdelimD)

lemma dropWhile_end:
  "list_all isnotdelim r \<Longrightarrow> dropWhile (\<lambda>c. c \<noteq> CHR ''.'' \<and> c \<noteq> SLASH) r = []"
  by (induction r) (auto dest: isnotdelimD)

lemma builds_name:
  assumes "list_all isnotdelim f" "list_all isnotdelim e"
  shows "builds (f @ CHR ''.'' # e) = dir_name (map upc (take 8 f)) (map upc (take 3 e))"
    and "builds f = dir_name (map upc (take 8 f)) []"
proof -
  have e: "\<exists>r. copy_name 3 e = (map upc (take 3 e), r) \<and> \<not> starts (CHR ''*'') r"
  proof (cases "length e \<le> 3")
    case True
    then show ?thesis using copy_name_stop [of e 3 "[]"] assms(2) by simp
  next
    case False
    have "\<not> starts (CHR ''*'') (drop 3 e)"
      by (rule not_star [OF list_all_drop [OF assms(2)]])
    moreover have "copy_name 3 (take 3 e @ drop 3 e) = (map upc (take 3 e), drop 3 e)"
      using False by (intro copy_name_full list_all_take [OF assms(2)]) simp
    ultimately show ?thesis by simp
  qed
  then obtain r where r: "copy_name 3 e = (map upc (take 3 e), r)" "\<not> starts (CHR ''*'') r" by blast
  have d: "list_all isnotdelim (drop 8 f)" by (rule list_all_drop [OF assms(1)])
  have f: "copy_name 8 (take 8 f @ drop 8 f @ x) = (map upc (take 8 f), drop 8 f @ x)"
    if "x = [] \<or> \<not> isnotdelim (hd x)" for x
  proof (cases "length f < 8")
    case True
    then show ?thesis using copy_name_stop [of f 8 x] assms(1) that by simp
  next
    case False
    then show ?thesis by (intro copy_name_full list_all_take [OF assms(1)]) simp
  qed
  have p: "\<And>x. take 8 f @ drop 8 f @ x = f @ x" by simp
  have "copy_name 8 (f @ CHR ''.'' # e) = (map upc (take 8 f), drop 8 f @ CHR ''.'' # e)"
    using f [of "CHR ''.'' # e"] unfolding p by simp
  then show "builds (f @ CHR ''.'' # e) = dir_name (map upc (take 8 f)) (map upc (take 3 e))"
    using r by (auto simp: builds_def LEN_ZNODE_def LEN_ZEXT_def dir_name_def dropWhile_ext [OF d] min_def)
  have "copy_name 8 f = (map upc (take 8 f), drop 8 f)"
    using f [of "[]"] unfolding p by simp
  then show "builds f = dir_name (map upc (take 8 f)) []"
    by (auto simp: builds_def LEN_ZNODE_def LEN_ZEXT_def dir_name_def dropWhile_end [OF d] min_def
      copy_name.simps split: nat.splits)
qed


lemma word_of_pad: "list_all isnotdelim f \<Longrightarrow> word_of (f @ replicate k (CHR '' '')) = f"
proof (induction f)
  case Nil
  then show ?case by (cases k) (auto simp: word_of_def)
qed (auto simp: word_of_def dest: isnotdelimD)

lemma dir_name_split:
  assumes "length f \<le> 8" "length e \<le> 3"
  shows "take 8 (dir_name f e) = f @ replicate (8 - length f) (CHR '' '')"
    "take 3 (drop 8 (dir_name f e)) = e @ replicate (3 - length e) (CHR '' '')"
    "length (dir_name f e) = 11"
  using assms by (simp_all add: dir_name_def)

lemma packit_dir_name:
  assumes "name_ok f e"
  shows "packit (dir_name f e) = f @ (if e = [] then [] else CHR ''.'' # e)"
proof -
  from assms have ok: "f \<noteq> []" "length f \<le> 8" "length e \<le> 3" "list_all isnotdelim f" "list_all isnotdelim e"
    by (simp_all add: name_ok_def)
  then obtain c f' where f: "f = c # f'" "isnotdelim c" by (cases f) auto
  have h: "dir_name f e ! 0 = c" using f by (simp add: dir_name_def)
  have x: "dir_name f e ! 8 = (if e = [] then CHR '' '' else hd e)"
    using ok by (cases e) (simp_all add: dir_name_def nth_append)
  have "e \<noteq> [] \<Longrightarrow> hd e \<noteq> CHR '' ''" using ok(5) by (cases e) (auto dest: isnotdelimD)
  then show ?thesis
    using isnotdelimD [OF f(2)] by (simp add: packit_def h x dir_name_split [OF ok(2,3)] word_of_pad ok)
qed

section \<open>Properties of file names\<close>

text \<open>
  C15. Names survive the way to the user and back. \<open>packit\<close> prints a stored 8.3 name as
  \<open>NAME.EXT\<close>, without blanks and without a dot when there is no extension, and cracking that
  string with \<open>builds\<close>, or placing it with \<open>unpackit\<close>, gives back the 11 characters of the
  directory entry.
\<close>

theorem builds_packit:
  assumes "name_ok f e" "list_all (\<lambda>c. upc c = c) (f @ e)"
  shows "packit (dir_name f e) = f @ (if e = [] then [] else CHR ''.'' # e)
    \<and> builds (packit (dir_name f e)) = dir_name f e \<and> unpackit (packit (dir_name f e)) = dir_name f e"
proof (intro conjI)
  from assms have ok: "length f \<le> 8" "length e \<le> 3" "list_all isnotdelim f" "list_all isnotdelim e"
    and up: "map upc f = f" "map upc e = e"
    by (auto simp: name_ok_def list_all_iff map_idI)
  show p: "packit (dir_name f e) = f @ (if e = [] then [] else CHR ''.'' # e)"
    by (rule packit_dir_name [OF assms(1)])
  show "builds (packit (dir_name f e)) = dir_name f e"
    using builds_name [OF ok(3,4)] ok(1,2) up by (simp add: p)
  have d: "\<forall>c \<in> set f. c \<noteq> CHR ''.''" using ok(3) by (auto simp: list_all_iff dest: isnotdelimD)
  have t: "takeWhile (\<lambda>c. c \<noteq> CHR ''.'') (take 8 (f @ CHR ''.'' # e)) = f"
    "takeWhile (\<lambda>c. c \<noteq> CHR ''.'') (take 8 f) = f"
    using d ok(1) by (cases "8 - length f"; simp add: takeWhile_append2 takeWhile_eq_all_conv)+
  show "unpackit (packit (dir_name f e)) = dir_name f e"
    using ok(1,2) t unfolding p by (simp add: unpackit_def dir_name_def Let_def)
qed

theorem builds_packit_witness:
  "packit ''README  C  '' = ''README.C'' \<and> builds ''README.C'' = ''README  C  ''
   \<and> unpackit ''README.C'' = ''README  C  ''"
proof -
  have "name_ok ''README'' ''C''" "list_all (\<lambda>c. upc c = c) (''README'' @ ''C'')"
    by code_simp+
  note b = builds_packit [OF this]
  have "dir_name ''README'' ''C'' = ''README  C  ''" by code_simp
  note b = b [unfolded this]
  then have p: "packit ''README  C  '' = ''README.C''" by simp
  from b [unfolded p] show ?thesis by (simp add: p)
qed

text \<open>Case conversion of characters.\<close>

lemma of_char_upc: "(of_char (upc c) :: int) = toupper (of_char c)"
proof -
  have "of_char c mod 256 = (of_char c :: int)" by simp
  then have "(of_char c :: int) < 256" "0 \<le> (of_char c :: int)" by presburger+
  then have "0 \<le> toupper (of_char c)" "toupper (of_char c) < 256" by (auto simp: toupper_def)
  then show ?thesis by (simp add: upc_def)
qed

lemma char_eq_int: "c = d \<longleftrightarrow> (of_char c :: int) = of_char d"
  by simp

lemma upc_idem [simp]: "upc (upc c) = upc c"
  unfolding char_eq_int of_char_upc by (simp add: toupper_def)

lemma upc_fixed:
  "upc c = CHR '' '' \<longleftrightarrow> c = CHR '' ''" "upc c = CHR ''.'' \<longleftrightarrow> c = CHR ''.''" "upc c = CHR ''*'' \<longleftrightarrow> c = CHR ''*''"
  "upc c = CHR ''?'' \<longleftrightarrow> c = CHR ''?''" "upc c = NUL \<longleftrightarrow> c = NUL" "upc c = SLASH \<longleftrightarrow> c = SLASH"
  unfolding char_eq_int of_char_upc by (auto simp: toupper_def name_defs)

lemma isnotdelim_upc [simp]: "isnotdelim (upc c) = isnotdelim c"
  by (simp add: isnotdelim_def upc_fixed)

lemma map_upc_dir_name: "map upc (dir_name f e) = dir_name (map upc f) (map upc e)"
  by (simp add: dir_name_def upc_fixed)

lemma dir_name_parts:
  assumes "length f \<le> 8" "length e \<le> 3" "list_all isnotdelim f" "list_all isnotdelim e"
  shows "word_of (take 8 (dir_name f e)) = f" "word_of (take 3 (drop 8 (dir_name f e))) = e"
  by (simp_all only: dir_name_split [OF assms(1,2)] word_of_pad assms(3,4))

lemma dir_name_inject:
  assumes "length f \<le> 8" "length e \<le> 3" "length f' \<le> 8" "length e' \<le> 3"
    and "list_all isnotdelim f" "list_all isnotdelim e" "list_all isnotdelim f'" "list_all isnotdelim e'"
  shows "dir_name f e = dir_name f' e' \<longleftrightarrow> f = f' \<and> e = e'"
proof
  assume "dir_name f e = dir_name f' e'"
  with dir_name_parts [OF assms(1,2,5,6)] dir_name_parts [OF assms(3,4,7,8)]
  show "f = f' \<and> e = e'" by metis
qed simp

lemma match_name_map:
  "length a = 11 \<Longrightarrow> length b = 11 \<Longrightarrow> CHR ''?'' \<notin> set a \<Longrightarrow> match_name a b \<longleftrightarrow> map upc a = map upc b"
  by (auto simp: match_name_def list_eq_iff_nth_eq in_set_conv_nth)

definition attr_ok :: "nat \<Rightarrow> nat \<Rightarrow> bool" where
  "attr_ok a1 a2 \<longleftrightarrow> (a2 = 0 \<and> a1 \<noteq> FA_VOL \<and> a1 \<noteq> FA_SUBDIR) \<or> a1 AND a2 \<noteq> 0"



section \<open>The use counts of current directories\<close>

text \<open>Every directory has at most one slot, a slot in use names a directory.\<close>

definition dirtbl_ok :: "(nat \<Rightarrow> dirtbl_entry) \<Rightarrow> bool" where
  "dirtbl_ok t \<longleftrightarrow> (\<forall>i \<in> {1 ..< NCURDIR}. 0 \<le> dt_use (t i) \<and> dt_use (t i) < 32767 \<and> (dt_use (t i) = 0 \<longleftrightarrow> dt_dnd (t i) = 0))
     \<and> inj_on (\<lambda>i. dt_dnd (t i)) {i \<in> {1 ..< NCURDIR}. dt_dnd (t i) \<noteq> 0}"

text \<open>How often a directory is used.\<close>

definition uses :: "(nat \<Rightarrow> dirtbl_entry) \<Rightarrow> nat \<Rightarrow> int" where
  "uses t d = (\<Sum>i \<leftarrow> [1 ..< NCURDIR]. if dt_dnd (t i) = d then dt_use (t i) else 0)"

lemma find_upt_Some:
  assumes "find P [a ..< b] = Some i"
  shows "a \<le> i \<and> i < b \<and> P i"
proof -
  from assms obtain k where "k < length [a ..< b]" "P ([a ..< b] ! k)" "i = [a ..< b] ! k"
    by (auto simp: find_Some_iff)
  then show ?thesis by auto
qed

lemma find_upt_None: "find P [a ..< b] = None \<longleftrightarrow> (\<forall>i \<in> {a ..< b}. \<not> P i)"
  by (auto simp: find_None_iff)

lemma uses_sum: "uses t d = (\<Sum>i \<in> {1 ..< NCURDIR}. if dt_dnd (t i) = d then dt_use (t i) else 0)"
  by (simp add: uses_def sum_list_distinct_conv_sum_set)

text \<open>Changing the entry of one slot.\<close>

lemma uses_slot:
  assumes "i \<in> {1 ..< NCURDIR}"
  shows "uses (t(i := e)) d = uses t d - (if dt_dnd (t i) = d then dt_use (t i) else 0)
    + (if dt_dnd e = d then dt_use e else 0)"
proof -
  have "uses t' d = (if dt_dnd (t' i) = d then dt_use (t' i) else 0)
      + (\<Sum>j \<in> {1 ..< NCURDIR} - {i}. if dt_dnd (t' j) = d then dt_use (t' j) else 0)" for t'
    using assms unfolding uses_sum by (intro sum.remove) simp_all
  note S = this
  have "(\<Sum>j \<in> {1 ..< NCURDIR} - {i}. if dt_dnd ((t(i := e)) j) = d then dt_use ((t(i := e)) j) else 0)
      = (\<Sum>j \<in> {1 ..< NCURDIR} - {i}. if dt_dnd (t j) = d then dt_use (t j) else 0)"
    by (intro sum.cong) auto
  with S [of t] S [of "t(i := e)"] show ?thesis by (simp only: fun_upd_same)
qed

text \<open>
  C33. The table of current directories counts users. \<open>incr_curdir_usage\<close> on a directory finds
  its slot or takes a free one: the count of that directory grows by one, no other changes, and
  \<open>decr_curdir_usage\<close> of the slot returned undoes it; it fails, changing nothing, exactly when
  the directory has no slot and none is free. Both keep the table well-formed.
\<close>

theorem curdir_counts:
  assumes "dirtbl_ok t" "dnd \<noteq> 0"
  shows "case incr_curdir_usage dnd t of (r, t') \<Rightarrow>
    if \<exists>i \<in> {1 ..< NCURDIR}. dt_dnd (t i) = dnd \<or> dt_use (t i) = 0
    then 0 < r \<and> r < int NCURDIR \<and> dt_dnd (t' (nat r)) = dnd
      \<and> (\<forall>d. d \<noteq> 0 \<longrightarrow> uses t' d = uses t d + (if d = dnd then 1 else 0))
      \<and> (\<forall>d. d \<noteq> 0 \<longrightarrow> uses (decr_curdir_usage r t') d = uses t d) \<and> dirtbl_ok (decr_curdir_usage r t')
    else r = EINTRN \<and> t' = t"
proof -
  have P: "0 \<le> dt_use (t i)" "dt_use (t i) < 32767" "dt_use (t i) = 0 \<longleftrightarrow> dt_dnd (t i) = 0"
    if "i \<in> {1 ..< NCURDIR}" for i
    using assms(1) that by (auto simp: dirtbl_ok_def)
  define slot where "slot = (case find (\<lambda>i. dt_dnd (t i) = dnd) [1 ..< NCURDIR] of
    Some i \<Rightarrow> Some i | None \<Rightarrow> find (\<lambda>i. dt_use (t i) = 0) [1 ..< NCURDIR])"
  have I: "incr_curdir_usage dnd t = (case slot of None \<Rightarrow> (EINTRN, t)
     | Some i \<Rightarrow> (int i, t(i := \<lparr>dt_dnd = dnd, dt_use = s16 (dt_use (t i) + 1)\<rparr>)))"
    using assms(2) by (simp add: incr_curdir_usage_def slot_def)
  show ?thesis
  proof (cases slot)
    case None
    then have "\<not> (\<exists>i \<in> {1 ..< NCURDIR}. dt_dnd (t i) = dnd \<or> dt_use (t i) = 0)"
      by (auto simp: slot_def find_upt_None split: option.splits)
    then show ?thesis using None by (simp add: I)
  next
    case (Some i)
    then have i: "i \<in> {1 ..< NCURDIR}" "dt_dnd (t i) = dnd \<or> dt_use (t i) = 0"
      by (auto simp: slot_def split: option.splits dest: find_upt_Some)
    define u where "u = dt_use (t i)"
    let ?t' = "t(i := \<lparr>dt_dnd = dnd, dt_use = u + 1\<rparr>)"
    have r: "incr_curdir_usage dnd t = (int i, ?t')" using Some P(1,2) [OF i(1)] by (simp add: I u_def)
    have d: "decr_curdir_usage (int i) ?t' = t(i := \<lparr>dt_dnd = (if u = 0 then 0 else dnd), dt_use = u\<rparr>)"
      using i(1) P(1,2) [OF i(1)] by (auto simp: decr_curdir_usage_def Let_def u_def)
    have same: "decr_curdir_usage (int i) ?t' = t"
      unfolding d using i(2) P(3) [OF i(1)] by (auto simp: u_def fun_eq_iff)
    show ?thesis
      using i P(3) [OF i(1)] assms unfolding r prod.case same
      by (auto simp: uses_slot [OF i(1)] u_def)
  qed
qed

definition some_dirs :: "nat \<Rightarrow> dirtbl_entry" where
  "some_dirs i = (if i = 1 then \<lparr>dt_dnd = 500, dt_use = 2\<rparr> else \<lparr>dt_dnd = 0, dt_use = 0\<rparr>)"

theorem curdir_counts_witness:
  "\<exists>r t'. incr_curdir_usage 700 some_dirs = (r, t') \<and> r > 0 \<and> uses t' 700 = uses some_dirs 700 + 1"
proof -
  have "dirtbl_ok some_dirs" by (auto simp: dirtbl_ok_def some_dirs_def inj_on_def split: if_splits)
  moreover have "\<exists>i \<in> {1 ..< NCURDIR}. dt_dnd (some_dirs i) = 700 \<or> dt_use (some_dirs i) = 0"
    by (rule bexI [of _ 2]) (simp_all add: some_dirs_def NCURDIR_def)
  ultimately show ?thesis using curdir_counts [of some_dirs 700]
    by (cases "incr_curdir_usage 700 some_dirs") auto
qed

end
