(* ===== verification/FsDrive.thy ===== *)
theory FsDrive
  imports FsFat FsNames
begin

text \<open>
  bdos/fsdrive.c: logging in a medium and selecting a drive. \<open>log_media\<close> builds the drive media
  block, the root directory and the descriptors of the root directory and of the FAT from the
  BIOS parameter block, in blocks of the internal pool; \<open>ckdrv\<close> logs a drive in on first use,
  signals changed media and gives the process a current directory on the drive. The lemmas
  show that a valid parameter block gives a volume with the well-formedness the FAT and file
  operations rely on. \<open>Getbpb\<close>, \<open>Mediach\<close> and \<open>free_available_dnds\<close> are parameters.
\<close>

section \<open>Operations\<close>

record bpb =
  recsiz :: nat
  clsiz :: nat
  clsizb :: nat
  rdlen :: nat
  fsiz :: nat
  fatrec :: nat
  datrec :: nat
  numcl :: nat
  b_flags :: nat

definition B_16 :: nat where "B_16 = 1"
definition B_1FAT :: nat where "B_1FAT = 2"

record drives =
  fs :: fsst
  drvsel :: nat
  drvrem :: nat
  dirtbl :: "nat \<Rightarrow> dirtbl_entry"
  p_curdir :: "nat \<Rightarrow> nat \<Rightarrow> nat"

type_synonym free_dnds = "osm \<Rightarrow> int \<times> osm"

definition MGET :: "free_dnds \<Rightarrow> int \<Rightarrow> fsst \<Rightarrow> (nat \<times> fsst) option" where
  "MGET fd memtype s =
     (case xmgetblk fd memtype (pool s) of None \<Rightarrow> None | Some (m, os) \<Rightarrow> Some (m, s\<lparr>pool := os\<rparr>))"

text \<open>What a block is as the structure it is used for, all its words being zero.\<close>

definition zero_dmd :: dmd where
  "zero_dmd = \<lparr>m_recoff = (\<lambda>_. 0), m_drvnum = 0, m_fsiz = 0, m_clsiz = 0, m_clsizb = 0, m_recsiz = 0,
     m_numcl = 0, m_clrlog = 0, m_clrm = 0, m_rblog = 0, m_rbm = 0, m_clblog = 0, m_clbm = 0,
     m_fatofd = 0, m_dtl = 0, m_16 = False, m_1fat = False\<rparr>"

definition new_ofd :: "nat \<Rightarrow> fsst \<Rightarrow> fsst" where
  "new_ofd f s = s\<lparr>ofds := (ofds s)(f := zero_ofd), dfds := (dfds s)(f := zero_dfd)\<rparr>"

definition new_dnd :: "nat \<Rightarrow> fsst \<Rightarrow> fsst" where
  "new_dnd d s = s\<lparr>dnds := (dnds s)(d := \<lparr>d_strtcl = 0, d_ofd = 0, d_drv = 0, d_files = 0\<rparr>)\<rparr>"

definition getdmd :: "free_dnds \<Rightarrow> int \<Rightarrow> fsst \<Rightarrow> (nat \<times> fsst) option" where
  "getdmd fd drv s =
     Option.bind (MGET fd MEMTYPE_DMD s) (\<lambda>(dm, s).
     let s = s\<lparr>drvtbl := (drvtbl s)(drv := dm)\<rparr> in
     if dm = 0 then Some (0, s)
     else
     Option.bind (MGET fd MEMTYPE_DND s) (\<lambda>(d, s).
     Option.bind (MGET fd MEMTYPE_OFD (new_dnd d s)) (\<lambda>(f, s).
     let s = new_ofd f s; s = s\<lparr>dnds := (dnds s)(d := (dnds s d)\<lparr>d_ofd := f\<rparr>)\<rparr> in
     Option.bind (MGET fd MEMTYPE_OFD s) (\<lambda>(fo, s).
     Some (dm, (new_ofd fo s)\<lparr>dmds := (dmds s)(dm := zero_dmd\<lparr>m_dtl := d, m_fatofd := fo\<rparr>)\<rparr>)))))"

function log2ul_loop :: "int \<Rightarrow> nat \<Rightarrow> int" where
  "log2ul_loop i n = (if n \<noteq> 0 then log2ul_loop (i + 1) (drop_bit 1 n) else i)"
  by pat_completeness auto

termination
  by (relation "measure snd") (auto simp: drop_bit_eq_div)

declare log2ul_loop.simps [simp del]

definition log2ul :: "nat \<Rightarrow> int" where
  "log2ul n = log2ul_loop 0 n - 1"

text \<open>The assignments to \<open>dm\<close>; a size of zero, with a logarithm of \<open>-1\<close> to shift by, is excluded by \<open>log_media\<close>.\<close>

definition set_dmd :: "bpb \<Rightarrow> int \<Rightarrow> dmd \<Rightarrow> dmd" where
  "set_dmd b drv dm =
     dm\<lparr>m_fsiz := fsiz b, m_drvnum := drv, m_16 := b_flags b AND B_16 \<noteq> 0, m_1fat := b_flags b AND B_1FAT \<noteq> 0,
       m_clsiz := clsiz b, m_clsizb := clsizb b, m_recsiz := recsiz b, m_numcl := numcl b,
       m_clrlog := nat (log2ul (clsiz b)), m_clrm := push_bit (nat (log2ul (clsiz b))) 1 - 1,
       m_rblog := nat (log2ul (recsiz b)), m_rbm := push_bit (nat (log2ul (recsiz b))) 1 - 1,
       m_clblog := nat (log2ul (clsizb b)), m_clbm := push_bit (nat (log2ul (clsizb b))) 1 - 1,
       m_recoff := (m_recoff dm)(BT_FAT := fatrec b, BT_ROOT := fatrec b + fsiz b, BT_DATA := datrec b)\<rparr>"

text \<open>
  \<open>None\<close>: the system is halted for want of memory, or a size is outside the model: zero,
  whose logarithm \<open>-1\<close> it would be undefined to shift by, or too big for the signed words
  \<open>m_fsiz\<close> and \<open>m_clsiz\<close>.
\<close>

definition log_media :: "free_dnds \<Rightarrow> bpb \<Rightarrow> int \<Rightarrow> fsst \<Rightarrow> (int \<times> fsst) option" where
  "log_media fd b drv s =
     (if fsiz b = 0 then Some (EDRIVE, s)
      else
      Option.bind (getdmd fd drv s) (\<lambda>(dm, s).
      if dm = 0 then Some (ENSMEM, s)
      else if clsiz b = 0 \<or> recsiz b = 0 \<or> clsizb b = 0 \<or> fsiz b \<ge> 32768 \<or> clsiz b \<ge> 32768 then None
      else
      let d = m_dtl (dmds s dm); f = d_ofd (dnds s d); fo = m_fatofd (dmds s dm);
          s = s\<lparr>dmds := (dmds s)(dm := set_dmd b drv (dmds s dm))\<rparr>;
          s = s\<lparr>ofds := (ofds s)(f := (ofds s f)\<lparr>o_dmd := dm, o_dfd := f\<rparr>)\<rparr>;
          s = s\<lparr>dnds := (dnds s)(d := (dnds s d)\<lparr>d_drv := dm, d_strtcl := 2\<rparr>)\<rparr>;
          s = s\<lparr>dfds := (dfds s)(f := (dfds s f)\<lparr>o_fileln := s32 (int (rdlen b * recsiz b)), o_strtcl := 2, o_usecnt := 1\<rparr>)\<rparr>;
          s = s\<lparr>ofds := (ofds s)(fo := (ofds s fo)\<lparr>o_dmd := dm, o_dfd := fo\<rparr>)\<rparr>;
          s = s\<lparr>dfds := (dfds s)(fo := (dfds s fo)\<lparr>o_fileln := s32 (int (fsiz b * recsiz b)), o_strtcl := 2, o_usecnt := 1\<rparr>)\<rparr>
      in Some (E_OK, s)))"

text \<open>
  The last part of \<open>ckdrv\<close>: a current directory for the process. The left summand of the
  result of \<open>ckdrv\<close> is the code of a \<open>longjmp\<close>.
\<close>

definition ck_curdir :: "int \<Rightarrow> drives \<Rightarrow> int \<times> drives" where
  "ck_curdir d st =
     (let r = run (fs st); curdir = p_curdir st r (nat d);
          curdir = (if curdir \<ge> NCURDIR then 0 else curdir)
      in if curdir = 0 \<or> dt_dnd (dirtbl st curdir) = 0 then
           case incr_curdir_usage (m_dtl (dmds (fs st) (drvtbl (fs st) d))) (dirtbl st) of (n, t) \<Rightarrow>
             if n < 0 then (ENSMEM, st\<lparr>dirtbl := t\<rparr>)
             else (d, st\<lparr>dirtbl := t, p_curdir := (p_curdir st)(r := (p_curdir st r)(nat d := nat n))\<rparr>)
         else (d, st))"

definition ckdrv ::
  "(int \<Rightarrow> bpb option) \<Rightarrow> driver \<Rightarrow> free_dnds \<Rightarrow> int \<Rightarrow> bool \<Rightarrow> drives \<Rightarrow> ((int + int) \<times> drives) option" where
  "ckdrv getbpb drv fd d checkrem st =
     (if d < 0 then Some (Inr EDRIVE, st)
      else
      let m = push_bit (nat d) 1 in
      if m AND drvsel st = 0 then
        case getbpb d of
          None \<Rightarrow> Some (Inr (if m AND drvrem st \<noteq> 0 then EPTHNF else EDRIVE), st)
        | Some b \<Rightarrow>
            Option.bind (log_media fd b d (fs st)) (\<lambda>(r, s).
            let st = st\<lparr>fs := s\<rparr> in
            if r \<noteq> 0 then Some (Inr ENSMEM, st)
            else Some (apfst Inr (ck_curdir d (st\<lparr>drvsel := drvsel st OR m\<rparr>))))
      else if checkrem \<and> m AND drvrem st \<noteq> 0 \<and> d_mediach drv d \<noteq> 0
      then Some (Inl E_CHNG, st\<lparr>fs := (fs st)\<lparr>errdrv := d, errcode := E_CHNG\<rparr>\<rparr>)
      else Some (apfst Inr (ck_curdir d st)))"

section \<open>Logging in a medium\<close>

lemma log2ul_loop_power: "log2ul_loop i (2 ^ k) = i + int k + 1"
proof (induction k arbitrary: i)
  case 0
  show ?case by (simp add: log2ul_loop.simps)
next
  case (Suc k)
  have "drop_bit 1 ((2 :: nat) ^ Suc k) = 2 ^ k" by (simp add: drop_bit_eq_div)
  then show ?case using Suc.IH [of "i + 1"] by (subst log2ul_loop.simps) simp
qed

lemma log2ul_power: "log2ul (2 ^ k) = int k"
  by (simp add: log2ul_def log2ul_loop_power)

text \<open>How many blocks the pool can still hand out.\<close>

definition blocks_left :: "osm \<Rightarrow> nat list \<Rightarrow> nat" where
  "blocks_left s F = length F + nat (osmlen s) div 65"

lemma xmgetblk_osmlen:
  assumes "osm_ok s F M D" "block_available s F" "MEMTYPE_MDBLOCK \<le> t" "t \<le> MEMTYPE_OFD"
    and "xmgetblk f t s = Some (m, s')"
  shows "osmlen s' = (if F = [] then osmlen s - 65 else osmlen s)"
proof (cases F)
  case Nil
  with assms(1,2) have "osm_ok s [] M D" "65 \<le> osmlen s" by (simp_all add: block_available_def)
  from loop_pool(1) [OF this, of f t 0] this show ?thesis
    using assms(3-5) Nil by (auto simp: xmgetblk_def carved_def zero_block_def Let_def osm_ok_def pool_ok_def osm_sizes)
next
  case (Cons a F')
  with assms(1) have "osm_ok s (a # F') M D" by simp
  from loop_free_list(1) [OF this, of f t 0] show ?thesis
    using assms(3-5) Cons by (auto simp: xmgetblk_def zero_block_def Let_def split: if_splits)
qed

text \<open>The pool of the file system with the blocks that are in use.\<close>

definition fs_pool :: "osm \<Rightarrow> nat set \<Rightarrow> nat \<Rightarrow> bool" where
  "fs_pool os C n \<longleftrightarrow> (\<exists>F M D. osm_ok os F M D \<and> clients os F M D = C \<and> n \<le> blocks_left os F)"

lemma MGET_gets:
  assumes "fs_pool (pool s) C (Suc n)" "MEMTYPE_MDBLOCK \<le> t" "t \<le> MEMTYPE_OFD"
  obtains m os where "MGET fd t s = Some (m, s\<lparr>pool := os\<rparr>)" "m \<noteq> 0" "m \<notin> C" "fs_pool os (insert m C) n"
proof -
  from assms(1) obtain F M D where ok: "osm_ok (pool s) F M D" and C: "clients (pool s) F M D = C"
    and l: "Suc n \<le> blocks_left (pool s) F" by (auto simp: fs_pool_def)
  have av: "block_available (pool s) F" using l by (cases F) (auto simp: block_available_def blocks_left_def)
  obtain m os where g: "xmgetblk fd t (pool s) = Some (m, os)" "osm_ok os (tl F) M D" "m \<noteq> 0"
    "m \<notin> clients (pool s) F M D" "clients os (tl F) M D = insert m (clients (pool s) F M D)"
    by (rule xmgetblk_gets [OF ok av assms(2,3)])
  have "osmlen os = (if F = [] then osmlen (pool s) - 65 else osmlen (pool s))"
    by (rule xmgetblk_osmlen [OF ok av assms(2,3) g(1)])
  then have "n \<le> blocks_left os (tl F)" using l by (cases F) (auto simp: blocks_left_def nat_diff_distrib')
  then show thesis using that [of m os] g C by (auto simp: MGET_def fs_pool_def)
qed

text \<open>What the BIOS guarantees of the parameter block of a FAT12 or FAT16 volume.\<close>

definition bpb_ok :: "bpb \<Rightarrow> bool" where
  "bpb_ok b \<longleftrightarrow> (\<exists>r c. 1 \<le> r \<and> r + c \<le> 15 \<and> recsiz b = 2 ^ r \<and> clsiz b = 2 ^ c \<and> clsizb b = 2 ^ (c + r))
     \<and> 0 < fsiz b \<and> fsiz b < 32768 \<and> rdlen b * recsiz b < 2 ^ 31
     \<and> (b_flags b AND B_1FAT \<noteq> 0 \<or> fsiz b \<le> fatrec b) \<and> fatrec b + fsiz b \<le> datrec b
     \<and> numcl b + 2 \<le> (if b_flags b AND B_16 \<noteq> 0 then 0xfff0 else 0xff0)
     \<and> fat_offset (numcl b + 1) (zero_dmd\<lparr>m_16 := b_flags b AND B_16 \<noteq> 0\<rparr>) + 1 < fsiz b * recsiz b"

lemma set_dmd_ok:
  assumes "bpb_ok b" "0 \<le> drv"
  shows "dmd_ok (set_dmd b drv dm)"
proof -
  from assms(1) obtain r c where rc: "1 \<le> r" "r + c \<le> 15" "recsiz b = 2 ^ r" "clsiz b = 2 ^ c" "clsizb b = 2 ^ (c + r)"
    by (auto simp: bpb_ok_def)
  have "fat_offset (numcl b + 1) (set_dmd b drv dm)
      = fat_offset (numcl b + 1) (zero_dmd\<lparr>m_16 := b_flags b AND B_16 \<noteq> 0\<rparr>)"
    by (simp add: fat_offset_def set_dmd_def)
  with assms rc show ?thesis
    by (simp add: dmd_ok_def layout_ok_def set_dmd_def bpb_ok_def log2ul_power mask_eq_exp_minus_1 push_bit_eq_mult bt_defs nat_int_add)
qed

text \<open>\<open>same_cache\<close>: the buffers and the disk are the same; \<open>log_media\<close> only builds structures.\<close>

definition same_cache :: "fsst \<Rightarrow> fsst \<Rightarrow> bool" where
  "same_cache s s' \<longleftrightarrow> bufl_fat s' = bufl_fat s \<and> bufl_data s' = bufl_data s \<and> b_link s' = b_link s
     \<and> b_bufdrv s' = b_bufdrv s \<and> b_bufrec s' = b_bufrec s \<and> b_buftyp s' = b_buftyp s \<and> b_dirty s' = b_dirty s
     \<and> b_dm s' = b_dm s \<and> b_bufr s' = b_bufr s \<and> disk s' = disk s"

lemma getdmd_gets:
  assumes "fs_pool (pool s) C 4"
  obtains dm d f fo s' where "getdmd fd drv s = Some (dm, s')"
    "dm \<noteq> 0" "distinct [dm, d, f, fo]" "set [dm, d, f, fo] \<inter> C = {}" "fs_pool (pool s') (set [dm, d, f, fo] \<union> C) 0"
    "same_cache s s'" "drvtbl s' = (drvtbl s)(drv := dm)"
    "dmds s' = (dmds s)(dm := zero_dmd\<lparr>m_dtl := d, m_fatofd := fo\<rparr>)"
    "\<And>x. x \<noteq> f \<Longrightarrow> x \<noteq> fo \<Longrightarrow> ofds s' x = ofds s x" "ofds s' f = zero_ofd" "ofds s' fo = zero_ofd"
    "d_ofd (dnds s' d) = f" "dfds s' f = zero_dfd" "dfds s' fo = zero_dfd"
proof -
  have ty: "MEMTYPE_MDBLOCK \<le> MEMTYPE_DMD" "MEMTYPE_DMD \<le> MEMTYPE_OFD" "MEMTYPE_MDBLOCK \<le> MEMTYPE_DND"
    "MEMTYPE_DND \<le> MEMTYPE_OFD" "MEMTYPE_MDBLOCK \<le> MEMTYPE_OFD" "MEMTYPE_OFD \<le> MEMTYPE_OFD"
    by (simp_all add: osm_sizes)
  have "fs_pool (pool s) C (Suc (Suc (Suc (Suc 0))))" using assms by (simp add: numeral_eq_Suc)
  then obtain dm os1 where 1: "MGET fd MEMTYPE_DMD s = Some (dm, s\<lparr>pool := os1\<rparr>)" "dm \<noteq> 0" "dm \<notin> C"
    "fs_pool os1 (insert dm C) (Suc (Suc (Suc 0)))" by (rule MGET_gets [OF _ ty(1,2)])
  let ?s1 = "s\<lparr>pool := os1, drvtbl := (drvtbl s)(drv := dm)\<rparr>"
  have "fs_pool (pool ?s1) (insert dm C) (Suc (Suc (Suc 0)))" using 1(4) by simp
  then obtain d os2 where 2: "MGET fd MEMTYPE_DND ?s1 = Some (d, ?s1\<lparr>pool := os2\<rparr>)" "d \<noteq> 0" "d \<notin> insert dm C"
    "fs_pool os2 (insert d (insert dm C)) (Suc (Suc 0))" by (rule MGET_gets [OF _ ty(3,4)])
  let ?s2 = "new_dnd d (?s1\<lparr>pool := os2\<rparr>)"
  have "fs_pool (pool ?s2) (insert d (insert dm C)) (Suc (Suc 0))" using 2(4) by (simp add: new_dnd_def)
  then obtain f os3 where 3: "MGET fd MEMTYPE_OFD ?s2 = Some (f, ?s2\<lparr>pool := os3\<rparr>)" "f \<noteq> 0" "f \<notin> insert d (insert dm C)"
    "fs_pool os3 (insert f (insert d (insert dm C))) (Suc 0)" by (rule MGET_gets [OF _ ty(5,6)])
  let ?s3 = "(new_ofd f (?s2\<lparr>pool := os3\<rparr>))\<lparr>dnds := (dnds ?s2)(d := (dnds ?s2 d)\<lparr>d_ofd := f\<rparr>)\<rparr>"
  have "fs_pool (pool ?s3) (insert f (insert d (insert dm C))) (Suc 0)" using 3(4) by (simp add: new_ofd_def)
  then obtain fo os4 where 4: "MGET fd MEMTYPE_OFD ?s3 = Some (fo, ?s3\<lparr>pool := os4\<rparr>)" "fo \<noteq> 0"
    "fo \<notin> insert f (insert d (insert dm C))" "fs_pool os4 (insert fo (insert f (insert d (insert dm C)))) 0"
    by (rule MGET_gets [OF _ ty(5,6)])
  let ?s4 = "(new_ofd fo (?s3\<lparr>pool := os4\<rparr>))\<lparr>dmds := (dmds s)(dm := zero_dmd\<lparr>m_dtl := d, m_fatofd := fo\<rparr>)\<rparr>"
  have g: "getdmd fd drv s = Some (dm, ?s4)"
    using 1(1,2) 2(1) 3(1) 4(1) by (simp add: getdmd_def new_dnd_def new_ofd_def)
  show thesis
    by (rule that [OF g])
      (use 1(2,3) 2(3) 3(3) 4(3,4) in \<open>auto simp: same_cache_def new_dnd_def new_ofd_def insert_commute\<close>)
qed

lemma sees_mount:
  assumes "same_cache s s'" "drvtbl s' = (drvtbl s)(drv := dm)" "drvtbl s drv = 0" "dmds s' = (dmds s)(dm := D)"
    and "layout_ok D" "m_drvnum D = drv" "dm \<noteq> 0" "\<not> mounted s dm" "\<forall>b. b_bufdrv s b \<noteq> drv" "sees s V"
  shows "sees s' (V(dm := raw_disk s' dm))"
proof -
  have m: "mounted s' dmp \<longleftrightarrow> dmp = dm \<or> mounted s dmp" for dmp
    using assms(2-4,6-8) by (auto simp: mounted_def)
  have d: "dmds s' dmp = dmds s dmp" if "mounted s dmp" for dmp using that assms(4,8) by auto
  have n: "m_drvnum (dmds s dmp) \<noteq> drv" if "mounted s dmp" for dmp using that assms(3) by (auto simp: mounted_def)
  note c = assms(1) [unfolded same_cache_def]
  from assms(10) obtain F B where F: "lists_ok F B s" "bufs_ok (set F) (set B) s" "has_all (set F \<union> set B) s V"
    by (auto simp: sees_def sees_on_def)
  have "lists_ok F B s'" using F(1) c by (simp add: lists_ok_def)
  moreover have "buf_ok s' b" if "buf_ok s b" for b
    using that c d m by (auto simp: buf_ok_def Let_def)
  then have "bufs_ok (set F) (set B) s'"
    using F(2) c d m assms(4,5) by (auto simp: bufs_ok_def)
  moreover have "has_rec (set F \<union> set B) s' dmp k rec ((V(dm := raw_disk s' dm)) dmp k rec)"
    if "mounted s' dmp" "rec_ok (dmds s' dmp) k rec" for dmp k rec
  proof (cases "dmp = dm")
    case True
    then show ?thesis using c assms(4,6,9) by (simp add: has_rec_def cached_def raw_disk_def)
  next
    case False
    with that m d have "mounted s dmp" "rec_ok (dmds s dmp) k rec" by auto
    with F(3) have "has_rec (set F \<union> set B) s dmp k rec (V dmp k rec)" by (auto simp: has_all_def)
    then show ?thesis using False c assms(4) by (simp add: has_rec_def cached_def)
  qed
  ultimately show ?thesis unfolding sees_def sees_on_def has_all_def by blast
qed

lemma set_dmd_sel:
  "m_drvnum (set_dmd b drv dm) = drv" "m_dtl (set_dmd b drv dm) = m_dtl dm" "m_fatofd (set_dmd b drv dm) = m_fatofd dm"
  by (simp_all add: set_dmd_def)

lemma bpb_sizes:
  assumes "bpb_ok b"
  shows "fsiz b \<noteq> 0" "clsiz b \<noteq> 0" "recsiz b \<noteq> 0" "clsizb b \<noteq> 0" "fsiz b < 32768" "clsiz b < 32768"
    "rdlen b * recsiz b < 2 ^ 31" "fsiz b * recsiz b < 2 ^ 31"
proof -
  from assms obtain r c where rc: "1 \<le> r" "r + c \<le> 15" "recsiz b = 2 ^ r" "clsiz b = 2 ^ c" "clsizb b = 2 ^ (c + r)"
    by (auto simp: bpb_ok_def)
  show "fsiz b \<noteq> 0" "clsiz b \<noteq> 0" "recsiz b \<noteq> 0" "clsizb b \<noteq> 0" "rdlen b * recsiz b < 2 ^ 31" and f: "fsiz b < 32768"
    using assms rc by (auto simp: bpb_ok_def)
  have "(2 :: nat) ^ c < 2 ^ 15" using rc by (intro power_strict_increasing) auto
  then show "clsiz b < 32768" using rc by simp
  have "(2 :: nat) ^ r \<le> 2 ^ 15" using rc by (intro power_increasing) auto
  then have "fsiz b * recsiz b \<le> 32767 * 2 ^ 15" using f rc by (intro mult_le_mono) auto
  then show "fsiz b * recsiz b < 2 ^ 31" by simp
qed

lemma log_media_gets:
  assumes "fs_pool (pool s) C 4" "bpb_ok b"
  obtains dm d f fo D s' where "log_media fd b drv s = Some (E_OK, s')" "dm \<noteq> 0" "distinct [dm, d, f, fo]"
    "set [dm, d, f, fo] \<inter> C = {}" "fs_pool (pool s') (set [dm, d, f, fo] \<union> C) 0" "same_cache s s'"
    "drvtbl s' = (drvtbl s)(drv := dm)" "dmds s' = (dmds s)(dm := D)"
    "D = set_dmd b drv (zero_dmd\<lparr>m_dtl := d, m_fatofd := fo\<rparr>)"
    "\<And>x. x \<noteq> f \<Longrightarrow> x \<noteq> fo \<Longrightarrow> ofds s' x = ofds s x"
    "o_dmd (ofds s' f) = dm" "o_dfd (ofds s' f) = f" "o_dmd (ofds s' fo) = dm" "o_dfd (ofds s' fo) = fo"
    "o_fileln (dfds s' f) = int (rdlen b * recsiz b)" "o_fileln (dfds s' fo) = int (fsiz b * recsiz b)"
    "d_ofd (dnds s' d) = f"
proof -
  obtain dm d f fo s1 where g: "getdmd fd drv s = Some (dm, s1)"
    "dm \<noteq> 0" "distinct [dm, d, f, fo]" "set [dm, d, f, fo] \<inter> C = {}" "fs_pool (pool s1) (set [dm, d, f, fo] \<union> C) 0"
    "same_cache s s1" "drvtbl s1 = (drvtbl s)(drv := dm)"
    "dmds s1 = (dmds s)(dm := zero_dmd\<lparr>m_dtl := d, m_fatofd := fo\<rparr>)"
    "\<And>x. x \<noteq> f \<Longrightarrow> x \<noteq> fo \<Longrightarrow> ofds s1 x = ofds s x" "ofds s1 f = zero_ofd" "ofds s1 fo = zero_ofd"
    "d_ofd (dnds s1 d) = f" "dfds s1 f = zero_dfd" "dfds s1 fo = zero_dfd"
    by (rule getdmd_gets [OF assms(1)]) blast
  let ?D = "set_dmd b drv (zero_dmd\<lparr>m_dtl := d, m_fatofd := fo\<rparr>)"
  have d: "m_dtl (dmds s1 dm) = d" "m_fatofd (dmds s1 dm) = fo" "d_ofd (dnds s1 d) = f" using g(8,12) by simp_all
  define t1 where "t1 = s1\<lparr>dmds := (dmds s1)(dm := set_dmd b drv (dmds s1 dm))\<rparr>"
  define t2 where "t2 = t1\<lparr>ofds := (ofds t1)(f := (ofds t1 f)\<lparr>o_dmd := dm, o_dfd := f\<rparr>)\<rparr>"
  define t3 where "t3 = t2\<lparr>dnds := (dnds t2)(d := (dnds t2 d)\<lparr>d_drv := dm, d_strtcl := 2\<rparr>)\<rparr>"
  define t4 where "t4 = t3\<lparr>dfds := (dfds t3)(f := (dfds t3 f)\<lparr>o_fileln := s32 (int (rdlen b * recsiz b)), o_strtcl := 2, o_usecnt := 1\<rparr>)\<rparr>"
  define t5 where "t5 = t4\<lparr>ofds := (ofds t4)(fo := (ofds t4 fo)\<lparr>o_dmd := dm, o_dfd := fo\<rparr>)\<rparr>"
  define s' where "s' = t5\<lparr>dfds := (dfds t5)(fo := (dfds t5 fo)\<lparr>o_fileln := s32 (int (fsiz b * recsiz b)), o_strtcl := 2, o_usecnt := 1\<rparr>)\<rparr>"
  note t = t1_def t2_def t3_def t4_def t5_def s'_def
  have s32: "s32 (int (rdlen b * recsiz b)) = int (rdlen b * recsiz b)" "s32 (int (fsiz b * recsiz b)) = int (fsiz b * recsiz b)"
    using bpb_sizes(7,8) [OF assms(2)] by (simp_all add: s32_id del: of_nat_mult)
  have sz: "(clsiz b = 0 \<or> recsiz b = 0 \<or> clsizb b = 0 \<or> fsiz b \<ge> 32768 \<or> clsiz b \<ge> 32768) = False"
    using bpb_sizes(1-6) [OF assms(2)] by simp
  have l: "log_media fd b drv s = Some (E_OK, s')"
    unfolding log_media_def g(1) Let_def Option.bind.bind_lunit prod.case d sz t [symmetric] using g(2) bpb_sizes(1) [OF assms(2)] by simp
  have f: "same_cache s1 s'" "drvtbl s' = drvtbl s1" "pool s' = pool s1" "dmds s' = (dmds s1)(dm := set_dmd b drv (dmds s1 dm))"
    "ofds s' = (ofds s1)(f := (ofds s1 f)\<lparr>o_dmd := dm, o_dfd := f\<rparr>, fo := (ofds s1 fo)\<lparr>o_dmd := dm, o_dfd := fo\<rparr>)"
    "d_ofd (dnds s' d) = f" "o_fileln (dfds s' f) = int (rdlen b * recsiz b)" "o_fileln (dfds s' fo) = int (fsiz b * recsiz b)"
    using g(3,12) s32 by (simp_all add: t same_cache_def del: of_nat_mult)
  show thesis
  proof (rule that [OF l g(2-4)])
    show "same_cache s s'" using f(1) g(6) by (simp add: same_cache_def)
    show "dmds s' = (dmds s)(dm := set_dmd b drv (zero_dmd\<lparr>m_dtl := d, m_fatofd := fo\<rparr>))" using f(4) g(8) by simp
  qed (use f g(3,5,7,9) in auto)
qed

section \<open>Properties of drives\<close>


text \<open>A 720 KB floppy disk in drive 1, before any drive has been used.\<close>

definition floppy_bpb :: bpb where
  "floppy_bpb = \<lparr>recsiz = 512, clsiz = 2, clsizb = 1024, rdlen = 7, fsiz = 3, fatrec = 4, datrec = 14,
     numcl = 713, b_flags = 0\<rparr>"

definition cold_fs :: fsst where
  "cold_fs = (floppy_fs count_disk)\<lparr>drvtbl := \<lambda>_. 0, bufl_fat := 1, bufl_data := 2, b_bufdrv := \<lambda>_. - 1\<rparr>"

lemma cold_fs_ok: "fs_pool (pool cold_fs) {} 4" "bpb_ok floppy_bpb" "sees cold_fs V" "\<not> mounted cold_fs dmp"
proof -
  have p: "pool cold_fs = boot_osm 4096" by (simp add: cold_fs_def floppy_fs_def)
  have "clients (boot_osm 4096) [] [] {} = {}" "osmlen (boot_osm 4096) = LENOSM"
    by (simp_all add: clients_def blocks_def boot_osm_def osmem_init_def)
  then show "fs_pool (pool cold_fs) {} 4"
    unfolding fs_pool_def p using boot_osm_ok [of 4096]
    by (intro exI [of _ "[]"] exI [of _ "{}"]) (simp add: blocks_left_def osm_sizes)
  show "bpb_ok floppy_bpb"
    unfolding bpb_ok_def
    by (intro conjI exI [of _ 9] exI [of _ 1]) (simp_all add: floppy_bpb_def fat_offset_def zero_dmd_def B_16_def B_1FAT_def)
  show m: "\<not> mounted cold_fs dmp" for dmp by (auto simp: mounted_def cold_fs_def)
  have "b_bufdrv cold_fs b = - 1" for b by (simp add: cold_fs_def)
  then have "bufs_ok {1} {2} cold_fs" "has_all ({1} \<union> {2}) cold_fs V"
    by (simp_all add: bufs_ok_def has_all_def buf_ok_def m)
  moreover have "lists_ok [1] [2] cold_fs" by (simp add: lists_ok_def cold_fs_def floppy_fs_def)
  ultimately have "sees_on [1] [2] cold_fs V" by (simp add: sees_on_def)
  then show "sees cold_fs V" by (auto simp: sees_def)
qed


text \<open>
  A drive that \<open>ckdrv\<close> accepts is ready for use: when it returns a drive number, it is the
  one asked for, the drive is marked as selected, and the process has a current directory on
  it, a slot of the table of current directories that is in range and names a directory.
\<close>

theorem ckdrv_ready:
  assumes "ckdrv getbpb drv fd d checkrem st = Some (Inr r, st')" "0 \<le> r"
  shows "r = d \<and> push_bit (nat d) 1 AND drvsel st' \<noteq> 0
    \<and> (let c = p_curdir st' (run (fs st')) (nat d) in 0 < c \<and> c < NCURDIR \<and> dt_dnd (dirtbl st' c) \<noteq> 0)"
proof -
  have neg: "EDRIVE < 0" "EPTHNF < 0" "ENSMEM < 0" "EINTRN < 0" by (simp_all add: error_defs)
  have incr: "0 < n \<and> nat n < NCURDIR \<and> dt_dnd (t' (nat n)) \<noteq> 0" if "incr_curdir_usage dnd t = (n, t')" "\<not> n < 0" for dnd t n t'
  proof -
    have "dnd \<noteq> 0" using that neg by (auto simp: incr_curdir_usage_def split: if_splits)
    with that neg obtain i where "i \<in> set [1 ..< NCURDIR]" "n = int i" "dt_dnd (t' i) = dnd"
      by (fastforce simp: incr_curdir_usage_def Let_def split: option.splits dest: find_upt_Some)
    with \<open>dnd \<noteq> 0\<close> show ?thesis by auto
  qed
  have ck: "d' = d \<and> drvsel st2 = drvsel st1 \<and> (let c = p_curdir st2 (run (fs st2)) (nat d) in 0 < c \<and> c < NCURDIR \<and> dt_dnd (dirtbl st2 c) \<noteq> 0)"
    if "ck_curdir d st1 = (d', st2)" "0 \<le> d'" for st1 d' st2
    using that neg incr by (auto simp: ck_curdir_def Let_def split: if_splits prod.splits)
  have ap: "ck_curdir d st1 = (r, st')" if "apfst Inr (ck_curdir d st1) = (Inr r :: int + int, st')" for st1
    using that by (cases "ck_curdir d st1") simp
  have m: "m AND (x OR m) = m" for m x :: nat by (auto intro: bit_eqI simp: bit_simps)
  from assms neg obtain st1 where "ck_curdir d st1 = (r, st')" "push_bit (nat d) 1 AND drvsel st1 \<noteq> 0"
    by (auto simp: ckdrv_def Let_def m dest!: ap split: if_splits option.splits Option.bind_splits prod.splits)
  then show ?thesis using ck [of st1 r st'] assms(2) by simp
qed

text \<open>Drive 1, selected before, and a process that has no current directory on it.\<close>

definition idle_drives :: drives where
  "idle_drives = \<lparr>fs = cold_fs, drvsel = 2, drvrem = 0, dirtbl = (\<lambda>_. \<lparr>dt_dnd = 0, dt_use = 0\<rparr>), p_curdir = (\<lambda>_ _. 0)\<rparr>"

theorem ckdrv_ready_witness:
  "\<exists>st'. ckdrv (\<lambda>_. None) quiet (\<lambda>s. (0, s)) 1 True idle_drives = Some (Inr 1, st')
     \<and> dt_dnd (dirtbl st' (p_curdir st' (run (fs st')) 1)) \<noteq> 0"
proof -
  have "[1 ..< NCURDIR] = 1 # [2 ..< 40]" by (simp add: NCURDIR_def upt_rec)
  moreover have "m_dtl (dmds cold_fs (drvtbl cold_fs 1)) = 5000" by (simp add: cold_fs_def floppy_fs_def)
  ultimately obtain st' where "ckdrv (\<lambda>_. None) quiet (\<lambda>s. (0, s)) 1 True idle_drives = Some (Inr 1, st')"
    by (simp add: ckdrv_def ck_curdir_def idle_drives_def incr_curdir_usage_def Let_def)
  with ckdrv_ready [OF this] show ?thesis by (simp add: Let_def)
qed

end
