(* ===== verification/ObTree.thy ===== *)
theory ObTree
  imports Prelude
begin

text \<open>
  AES object trees (aes/gemobjop.c, the tree operations of aes/gemoblib.c and of the window
  manager, aes/gemwmlib.c). An object tree is an array of objects that refer to each other by
  index: a parent to its first and last child, a child to its next sibling, the last one to
  the parent. The lemmas relate it to lists of children and to trees: the parent search, the
  traversal \<open>everyobj\<close>, insertion, deletion and reordering.
\<close>

definition ROOT :: int where "ROOT = 0"
definition NIL :: int where "NIL = - 1"
definition HIDETREE :: nat where "HIDETREE = 0x80"

record grect =
  g_x :: int
  g_y :: int
  g_w :: int
  g_h :: int

record object =
  ob_next :: int
  ob_head :: int
  ob_tail :: int
  ob_type :: nat
  ob_flags :: nat
  ob_state :: nat
  ob_spec :: nat
  ob_x :: int
  ob_y :: int
  ob_width :: int
  ob_height :: int

type_synonym obtree = "int \<Rightarrow> object"

definition put_next :: "int \<Rightarrow> int \<Rightarrow> obtree \<Rightarrow> obtree" where
  "put_next i v t = t(i := (t i)\<lparr>ob_next := v\<rparr>)"
definition put_head :: "int \<Rightarrow> int \<Rightarrow> obtree \<Rightarrow> obtree" where
  "put_head i v t = t(i := (t i)\<lparr>ob_head := v\<rparr>)"
definition put_tail :: "int \<Rightarrow> int \<Rightarrow> obtree \<Rightarrow> obtree" where
  "put_tail i v t = t(i := (t i)\<lparr>ob_tail := v\<rparr>)"

section \<open>Operations\<close>

partial_function (option) get_par_loop :: "obtree \<Rightarrow> int \<Rightarrow> int option" where
  "get_par_loop tree obj =
     (let next = ob_next (tree obj) in
      if ob_tail (tree next) = obj then Some next else get_par_loop tree next)"

definition get_par :: "obtree \<Rightarrow> int \<Rightarrow> int option" where
  "get_par tree obj = (if obj = ROOT then Some NIL else get_par_loop tree obj)"

text \<open>
  The traversal: where it stands is the label, \<open>child\<close> or \<open>sibling\<close>, the current object, its
  depth and the positions of the objects above; \<open>routine\<close> changes a state of its own and
  leaves the links of the tree alone.
\<close>

record walk =
  w_child :: bool
  w_this :: int
  w_depth :: nat
  w_x :: "nat \<Rightarrow> int"
  w_y :: "nat \<Rightarrow> int"

type_synonym 's routine = "int \<Rightarrow> int \<Rightarrow> int \<Rightarrow> 's \<Rightarrow> 's option"

definition enter :: "obtree \<Rightarrow> walk \<Rightarrow> walk" where
  "enter tree w =
     (let obj = tree (w_this w); depth = w_depth w in
      w\<lparr>w_x := (w_x w)(depth := s16 (w_x w (depth - 1) + ob_x obj)),
        w_y := (w_y w)(depth := s16 (w_y w (depth - 1) + ob_y obj))\<rparr>)"

definition descend :: "obtree \<Rightarrow> nat \<Rightarrow> walk \<Rightarrow> walk" where
  "descend tree maxdep w =
     (let obj = tree (w_this w); tmp1 = ob_head obj in
      if tmp1 \<noteq> NIL \<and> ob_flags obj AND HIDETREE = 0 \<and> w_depth w \<le> maxdep
      then w\<lparr>w_depth := w_depth w + 1, w_this := tmp1\<rparr>
      else w\<lparr>w_child := False\<rparr>)"

definition ascend :: "obtree \<Rightarrow> walk \<Rightarrow> walk" where
  "ascend tree w =
     (let tmp1 = ob_next (tree (w_this w)) in
      if ob_tail (tree tmp1) \<noteq> w_this w then w\<lparr>w_this := tmp1, w_child := True\<rparr>
      else w\<lparr>w_depth := w_depth w - 1, w_this := tmp1\<rparr>)"

partial_function (option) everyobj_run ::
  "'s routine \<Rightarrow> int \<Rightarrow> nat \<Rightarrow> obtree \<Rightarrow> walk \<Rightarrow> 's \<Rightarrow> 's option" where
  "everyobj_run routine stop maxdep tree w s =
     (if w_child w then
        if w_this w = stop then Some s
        else Option.bind (routine (w_this w) (w_x (enter tree w) (w_depth w)) (w_y (enter tree w) (w_depth w)) s)
          (\<lambda>s. everyobj_run routine stop maxdep tree (descend tree maxdep (enter tree w)) s)
      else if ob_next (tree (w_this w)) = stop \<or> w_this w = ROOT then Some s
      else everyobj_run routine stop maxdep tree (ascend tree w) s)"

definition everyobj ::
  "obtree \<Rightarrow> int \<Rightarrow> int \<Rightarrow> 's routine \<Rightarrow> int \<Rightarrow> int \<Rightarrow> nat \<Rightarrow> 's \<Rightarrow> 's option" where
  "everyobj tree this stop routine startx starty maxdep s =
     everyobj_run routine stop maxdep tree
       \<lparr>w_child = True, w_this = this, w_depth = 1, w_x = (\<lambda>_. startx), w_y = (\<lambda>_. starty)\<rparr> s"

partial_function (option) ob_offset_loop :: "obtree \<Rightarrow> int \<Rightarrow> int \<Rightarrow> int \<Rightarrow> (int \<times> int) option" where
  "ob_offset_loop tree obj xoff yoff =
     (let xoff = s16 (xoff + ob_x (tree obj)); yoff = s16 (yoff + ob_y (tree obj)) in
      Option.bind (get_par tree obj) (\<lambda>obj.
      if obj \<noteq> NIL then ob_offset_loop tree obj xoff yoff else Some (xoff, yoff)))"

definition ob_offset :: "obtree \<Rightarrow> int \<Rightarrow> (int \<times> int) option" where
  "ob_offset tree obj = ob_offset_loop tree obj 0 0"

definition ob_relxywh :: "obtree \<Rightarrow> int \<Rightarrow> grect" where
  "ob_relxywh tree obj = \<lparr>g_x = ob_x (tree obj), g_y = ob_y (tree obj),
     g_w = ob_width (tree obj), g_h = ob_height (tree obj)\<rparr>"

definition ob_setxywh :: "int \<Rightarrow> grect \<Rightarrow> obtree \<Rightarrow> obtree" where
  "ob_setxywh obj pt tree = tree(obj := (tree obj)\<lparr>ob_x := g_x pt, ob_y := g_y pt,
     ob_width := g_w pt, ob_height := g_h pt\<rparr>)"

partial_function (option) get_prev_loop :: "obtree \<Rightarrow> int \<Rightarrow> int \<Rightarrow> int \<Rightarrow> int option" where
  "get_prev_loop tree parent obj pobj =
     (let nobj = ob_next (tree pobj) in
      if nobj = obj then Some pobj
      else if nobj = parent then Some NIL
      else get_prev_loop tree parent obj nobj)"

definition get_prev :: "obtree \<Rightarrow> int \<Rightarrow> int \<Rightarrow> int option" where
  "get_prev tree parent obj =
     (let pobj = ob_head (tree parent) in
      if pobj = obj then Some NIL else get_prev_loop tree parent obj pobj)"

definition ob_add :: "int \<Rightarrow> int \<Rightarrow> obtree \<Rightarrow> obtree" where
  "ob_add parent child tree =
     (if parent \<noteq> NIL \<and> child \<noteq> NIL then
        let tree = put_next child parent tree;
            lastkid = ob_tail (tree parent);
            tree = (if lastkid = NIL then put_head parent child tree else put_next lastkid child tree)
        in put_tail parent child tree
      else tree)"

definition ob_delete :: "int \<Rightarrow> obtree \<Rightarrow> (int \<times> obtree) option" where
  "ob_delete obj tree =
     (if obj = ROOT then Some (0, tree)
      else
      let nextsib = ob_next (tree obj) in
      Option.bind (get_par tree obj) (\<lambda>parent.
      if ob_head (tree parent) = obj then
        if ob_tail (tree parent) = obj
        then Some (1, put_head parent NIL (put_tail parent NIL tree))
        else Some (1, put_head parent nextsib tree)
      else
        Option.bind (get_prev tree parent obj) (\<lambda>prev.
        if prev = NIL then Some (0, tree)
        else
        let tree = put_next prev nextsib tree
        in Some (1, if ob_tail (tree parent) = obj then put_tail parent prev tree else tree))))"

text \<open>\<open>new_pos - 1\<close> steps along the siblings, none for 1 or less.\<close>

primrec ob_order_walk :: "nat \<Rightarrow> obtree \<Rightarrow> int \<Rightarrow> int" where
  "ob_order_walk 0 tree chg_obj = chg_obj"
| "ob_order_walk (Suc k) tree chg_obj = ob_order_walk k tree (ob_next (tree chg_obj))"

definition ob_order :: "int \<Rightarrow> int \<Rightarrow> obtree \<Rightarrow> (bool \<times> obtree) option" where
  "ob_order mov_obj new_pos tree =
     (if mov_obj = ROOT then Some (False, tree)
      else
      Option.bind (get_par tree mov_obj) (\<lambda>parent.
      Option.bind (ob_delete mov_obj tree) (\<lambda>(_, tree).
      let chg_obj = ob_head (tree parent);
          tree = (if new_pos = 0 then put_head parent mov_obj (put_next mov_obj chg_obj tree)
                  else
                  let chg_obj = (if new_pos = NIL then ob_tail (tree parent)
                                 else ob_order_walk (nat (new_pos - 1)) tree chg_obj)
                  in put_next chg_obj mov_obj (put_next mov_obj (ob_next (tree chg_obj)) tree))
      in Some (True, if ob_next (tree mov_obj) = parent then put_tail parent mov_obj tree else tree))))"

text \<open>The window manager's initialisation and its own copy of \<open>ob_add\<close>.\<close>

primrec w_nilit :: "nat \<Rightarrow> obtree \<Rightarrow> obtree" where
  "w_nilit 0 olist = olist"
| "w_nilit (Suc num) olist =
     w_nilit num (put_next (int num) NIL (put_head (int num) NIL (put_tail (int num) NIL olist)))"

definition w_obadd :: "int \<Rightarrow> int \<Rightarrow> obtree \<Rightarrow> obtree" where
  "w_obadd parent child olist =
     (if parent \<noteq> NIL \<and> child \<noteq> NIL then
        let olist = put_next child parent olist;
            lastkid = ob_tail (olist parent);
            olist = (if lastkid = NIL then put_head parent child olist else put_next lastkid child olist)
        in put_tail parent child olist
      else olist)"

lemma w_obadd_ob_add: "w_obadd = ob_add"
  by (simp add: fun_eq_iff w_obadd_def ob_add_def)


section \<open>Children\<close>

fun links :: "obtree \<Rightarrow> int \<Rightarrow> int list \<Rightarrow> bool" where
  "links t p [] \<longleftrightarrow> True"
| "links t p [c] \<longleftrightarrow> ob_next (t c) = p"
| "links t p (c # d # cs) \<longleftrightarrow> ob_next (t c) = d \<and> links t p (d # cs)"

definition kids :: "obtree \<Rightarrow> int \<Rightarrow> int list \<Rightarrow> bool" where
  "kids t p cs \<longleftrightarrow> links t p cs \<and> ob_head (t p) = (if cs = [] then NIL else hd cs)
     \<and> ob_tail (t p) = (if cs = [] then NIL else last cs)"

lemma links_Cons: "links t p (c # cs) \<longleftrightarrow> ob_next (t c) = (if cs = [] then p else hd cs) \<and> links t p cs"
  by (cases cs) auto

lemma links_append:
  "links t p (xs @ ys) \<longleftrightarrow> (if ys = [] then links t p xs else links t (hd ys) xs \<and> links t p ys)"
  by (induction xs) (auto simp: links_Cons)

lemma links_cong: "(\<And>c. c \<in> set cs \<Longrightarrow> ob_next (t c) = ob_next (t' c)) \<Longrightarrow> links t p cs = links t' p cs"
  by (induction cs) (auto simp: links_Cons)

lemma put_next_sel [simp]:
  "ob_next (put_next i v t j) = (if j = i then v else ob_next (t j))"
  "ob_head (put_next i v t j) = ob_head (t j)" "ob_tail (put_next i v t j) = ob_tail (t j)"
  by (simp_all add: put_next_def)

lemma put_head_sel [simp]:
  "ob_head (put_head i v t j) = (if j = i then v else ob_head (t j))"
  "ob_next (put_head i v t j) = ob_next (t j)" "ob_tail (put_head i v t j) = ob_tail (t j)"
  by (simp_all add: put_head_def)

lemma put_tail_sel [simp]:
  "ob_tail (put_tail i v t j) = (if j = i then v else ob_tail (t j))"
  "ob_next (put_tail i v t j) = ob_next (t j)" "ob_head (put_tail i v t j) = ob_head (t j)"
  by (simp_all add: put_tail_def)

lemma links_set_head [simp]: "links (put_head i v t) p cs = links t p cs"
  by (rule links_cong) simp

lemma links_set_tail [simp]: "links (put_tail i v t) p cs = links t p cs"
  by (rule links_cong) simp

lemma links_put_next: "i \<notin> set cs \<Longrightarrow> links (put_next i v t) p cs = links t p cs"
  by (rule links_cong) auto

text \<open>
  A forest: the children \<open>K p\<close> of every object \<open>p\<close> of a set \<open>N\<close> are in \<open>N\<close>, no object has two
  parents or is its own parent, and object 0 has none.
\<close>

definition forest :: "obtree \<Rightarrow> int set \<Rightarrow> (int \<Rightarrow> int list) \<Rightarrow> bool" where
  "forest t N K \<longleftrightarrow> NIL \<notin> N
     \<and> (\<forall>p \<in> N. kids t p (K p) \<and> distinct (K p) \<and> set (K p) \<subseteq> N \<and> ROOT \<notin> set (K p) \<and> p \<notin> set (K p))
     \<and> (\<forall>p \<in> N. \<forall>q \<in> N. \<forall>c \<in> set (K p). c \<in> set (K q) \<longrightarrow> p = q)"

lemma forestD:
  assumes "forest t N K" "p \<in> N"
  shows "links t p (K p)" "ob_head (t p) = (if K p = [] then NIL else hd (K p))"
    "ob_tail (t p) = (if K p = [] then NIL else last (K p))"
    "distinct (K p)" "set (K p) \<subseteq> N" "ROOT \<notin> set (K p)" "p \<notin> set (K p)" "NIL \<notin> set (K p)"
  using assms by (auto simp: forest_def kids_def)

lemma forest_disjoint: "forest t N K \<Longrightarrow> p \<in> N \<Longrightarrow> q \<in> N \<Longrightarrow> c \<in> set (K p) \<Longrightarrow> c \<in> set (K q) \<Longrightarrow> p = q"
  unfolding forest_def by blast

text \<open>No sibling has a sibling for its last child.\<close>

lemma tail_not_sibling:
  assumes f: "forest t N K" and p: "p \<in> N" and c: "c \<in> set (K p)" "d \<in> set (K p)"
  shows "ob_tail (t d) \<noteq> c"
proof
  assume e: "ob_tail (t d) = c"
  have d: "d \<in> N" "d \<noteq> p" using forestD [OF f p] c by auto
  have "c \<in> set (K d)"
  proof (cases "K d = []")
    case True
    then have "c = NIL" using forestD(3) [OF f d(1)] e by simp
    then show ?thesis using forestD(8) [OF f p] c by simp
  next
    case False
    then show ?thesis using forestD(3) [OF f d(1)] e by (metis last_in_set)
  qed
  then show False using forest_disjoint [OF f p d(1) c(1)] d(2) by simp
qed

lemma get_par_loop_kids:
  assumes f: "forest t N K" and p: "p \<in> N" and s: "K p = xs @ cs" "cs \<noteq> []"
  shows "get_par_loop t (hd cs) = Some p"
  using s
proof (induction cs arbitrary: xs)
  case (Cons c cs)
  have l: "links t p (c # cs)" using forestD(1) [OF f p] Cons.prems by (auto simp: links_append split: if_splits)
  show ?case
  proof (cases cs)
    case Nil
    then have "ob_tail (t p) = c" using forestD(3) [OF f p] Cons.prems by simp
    then show ?thesis using l Nil by (subst get_par_loop.simps) (simp add: Let_def)
  next
    case (Cons d ds)
    have "ob_tail (t d) \<noteq> c"
      using Cons.prems Cons by (intro tail_not_sibling [OF f p]) auto
    moreover have "ob_next (t c) = d" using l Cons by simp
    ultimately show ?thesis
      using Cons.IH [of "xs @ [c]"] Cons.prems Cons by (subst get_par_loop.simps) (simp add: Let_def)
  qed
qed simp

lemma get_par_forest:
  assumes "forest t N K" "p \<in> N" "c \<in> set (K p)"
  shows "get_par t c = Some p"
proof -
  obtain xs ys where "K p = xs @ c # ys" using assms(3) by (metis split_list)
  then have "get_par_loop t c = Some p"
    using get_par_loop_kids [OF assms(1,2), of xs "c # ys"] by simp
  moreover have "c \<noteq> ROOT" using forestD(6) [OF assms(1,2)] assms(3) by auto
  ultimately show ?thesis by (simp add: get_par_def)
qed


section \<open>Changing the tree\<close>

text \<open>A change of the links that keeps all children lists but that of \<open>p\<close>.\<close>

lemma forest_change:
  assumes f: "forest t N K" and p: "p \<in> N"
    and same: "\<forall>q \<in> N. q \<noteq> p \<longrightarrow> ob_head (t' q) = ob_head (t q) \<and> ob_tail (t' q) = ob_tail (t q)"
    and nxt: "\<forall>c. (\<exists>q \<in> N. q \<noteq> p \<and> c \<in> set (K q)) \<longrightarrow> ob_next (t' c) = ob_next (t c)"
    and new: "kids t' p cs" "distinct cs" "set cs \<subseteq> N" "ROOT \<notin> set cs" "p \<notin> set cs"
    and apart: "\<forall>q \<in> N. q \<noteq> p \<longrightarrow> set cs \<inter> set (K q) = {}"
  shows "forest t' N (K(p := cs))"
proof -
  have "kids t' q (K q)" if q: "q \<in> N" "q \<noteq> p" for q
  proof -
    have "links t' q (K q) = links t q (K q)"
      using nxt q by (intro links_cong) auto
    moreover have "kids t q (K q)" using f q by (simp add: forest_def)
    ultimately show ?thesis using same q by (simp add: kids_def)
  qed
  moreover have "a = b" if "a \<in> N" "b \<in> N" "c \<in> set ((K(p := cs)) a)" "c \<in> set ((K(p := cs)) b)" for a b c
    using that apart forest_disjoint [OF f that(1,2), of c] by (auto split: if_splits)
  ultimately show ?thesis using f new unfolding forest_def by auto
qed

lemma ob_add_forest:
  assumes f: "forest t N K" and p: "p \<in> N" and c: "c \<in> N" "c \<noteq> ROOT" "c \<noteq> p" "\<forall>q \<in> N. c \<notin> set (K q)"
  shows "forest (ob_add p c t) N (K(p := K p @ [c]))"
proof -
  note P = forestD [OF f p]
  have n: "p \<noteq> NIL" "c \<noteq> NIL" using f p c(1) by (auto simp: forest_def)
  have l: "ob_tail (t p) = NIL \<longleftrightarrow> K p = []" using P(3,8) by (metis last_in_set)
  have last: "K p \<noteq> [] \<Longrightarrow> ob_tail (t p) = last (K p)" using P(3) by simp
  have L: "K p \<noteq> [] \<Longrightarrow> last (K p) \<in> set (K p)" "K p \<noteq> [] \<Longrightarrow> last (K p) \<noteq> c" using c(4) p by (auto dest: last_in_set)
  have D: "last (K p) \<notin> set (K q)" if "q \<in> N" "q \<noteq> p" "K p \<noteq> []" for q
    using forest_disjoint [OF f p that(1) L(1) [OF that(3)]] that(2) by auto
  have links: "links (put_next (last (K p)) c (put_next c p t)) p (K p @ [c])" if ne: "K p \<noteq> []"
  proof -
    obtain xs where K: "K p = xs @ [last (K p)]" using ne by (metis append_butlast_last_id)
    then have "last (K p) \<notin> set xs" "c \<notin> set xs" using P(4) c(4) p by (metis distinct_append not_distinct_conv_prefix, metis UnCI set_append)
    then have "links (put_next (last (K p)) c (put_next c p t)) (last (K p)) xs = links t (last (K p)) xs"
      by (simp add: links_put_next)
    moreover have "links t (last (K p)) xs" using P(1) by (subst (asm) K) (simp add: links_append split: if_splits)
    ultimately have "links (put_next (last (K p)) c (put_next c p t)) p (xs @ [last (K p)] @ [c])"
      using L(2) [OF ne] by (simp add: links_append links_Cons)
    then show ?thesis using K by (metis append.assoc)
  qed
  show ?thesis
  proof (rule forest_change [OF f p])
    show "kids (ob_add p c t) p (K p @ [c])"
      using n l P(1,2) last links c(3) by (auto simp: ob_add_def kids_def Let_def)
    show "\<forall>q \<in> N. q \<noteq> p \<longrightarrow> ob_head (ob_add p c t q) = ob_head (t q) \<and> ob_tail (ob_add p c t q) = ob_tail (t q)"
      using n by (auto simp: ob_add_def Let_def)
    show "\<forall>d. (\<exists>q \<in> N. q \<noteq> p \<and> d \<in> set (K q)) \<longrightarrow> ob_next (ob_add p c t d) = ob_next (t d)"
      using n c(4) l last D by (auto simp: ob_add_def Let_def)
  qed (use P c p forest_disjoint [OF f p] in auto)
qed

lemma get_prev_loop_kids:
  assumes f: "forest t N K" and p: "p \<in> N" and s: "K p = xs @ cs @ c # ys" "cs \<noteq> []"
  shows "get_prev_loop t p c (hd cs) = Some (last cs)"
  using s
proof (induction cs arbitrary: xs)
  case (Cons d cs)
  note P = forestD [OF f p]
  have l: "ob_next (t d) = hd (cs @ c # ys)"
    using P(1) Cons.prems(1) by (simp add: links_append links_Cons split: if_splits)
  show ?case
  proof (cases cs)
    case Nil
    then show ?thesis using l by (subst get_prev_loop.simps) simp
  next
    case (Cons e es)
    then have "hd cs \<noteq> c" "hd cs \<noteq> p" using P(4,7) Cons.prems(1) by auto
    then show ?thesis using l Cons Cons.IH [of "xs @ [d]"] Cons.prems(1) by (subst get_prev_loop.simps) (simp add: Let_def)
  qed
qed simp

lemma ob_delete_forest:
  assumes f: "forest t N K" and p: "p \<in> N" and s: "K p = as @ c # bs"
  obtains t' where "ob_delete c t = Some (1, t')" "forest t' N (K(p := as @ bs))"
proof -
  note P = forestD [OF f p]
  have c: "c \<in> set (K p)" "c \<noteq> ROOT" "c \<noteq> p" using s P by auto
  have par: "get_par t c = Some p" by (rule get_par_forest [OF f p c(1)])
  have nxt: "ob_next (t c) = (if bs = [] then p else hd bs)"
    using P(1) s by (simp add: links_append links_Cons split: if_splits)
  have K: "distinct (as @ bs)" "set (as @ bs) \<subseteq> N" "ROOT \<notin> set (as @ bs)" "p \<notin> set (as @ bs)" "c \<notin> set (as @ bs)"
    using P s by auto
  have apart: "\<forall>q \<in> N. q \<noteq> p \<longrightarrow> set (as @ bs) \<inter> set (K q) = {}"
  proof (intro ballI impI)
    fix q assume "q \<in> N" "q \<noteq> p"
    then have "\<forall>d \<in> set (K p). d \<notin> set (K q)" using forest_disjoint [OF f p] by blast
    then show "set (as @ bs) \<inter> set (K q) = {}" using s by auto
  qed
  show thesis
  proof (cases "as = []")
    case True
    let ?t = "if bs = [] then put_head p NIL (put_tail p NIL t) else put_head p (hd bs) t"
    have hd: "ob_head (t p) = c" using P(2) s True by simp
    have tl: "ob_tail (t p) = c \<longleftrightarrow> bs = []" using P(3) s True K(5) by (auto dest: last_in_set)
    have "links t p bs" using P(1) s True by (simp add: links_Cons)
    then have "kids ?t p (as @ bs)" using True P(3) s by (simp add: kids_def)
    then have "forest ?t N (K(p := as @ bs))" using K apart by (intro forest_change [OF f p]) auto
    moreover have "ob_delete c t = Some (1, ?t)" using c(2) par hd tl nxt by (simp add: ob_delete_def)
    ultimately show thesis by (rule that [rotated])
  next
    case False
    obtain as' e where as: "as = as' @ [e]" using False by (cases as rule: rev_cases) auto
    let ?t1 = "put_next e (if bs = [] then p else hd bs) t"
    let ?t = "if bs = [] then put_tail p e ?t1 else ?t1"
    have prev: "e \<in> set (K p)" "e \<noteq> NIL" "e \<notin> set as'" "e \<notin> set bs"
      using as s P(4,8) by auto
    have hd: "ob_head (t p) \<noteq> c" using P(2) s False K(5) by (auto dest: hd_in_set)
    have g: "get_prev t p c = Some e"
      using get_prev_loop_kids [OF f p, of "[]" as c bs] s False hd P(2) as
      by (simp add: get_prev_def Let_def hd_append split: if_splits)
    have tl: "ob_tail (t p) = c \<longleftrightarrow> bs = []" using P(3) s K(5) by (auto dest: last_in_set)
    have "links t p (as' @ e # c # bs)" using P(1) s as by simp
    then have "links t e as'" "links t p bs" by (simp_all add: links_append links_Cons)
    then have "links ?t1 p (as' @ e # bs)"
      using prev(3,4) by (simp add: links_append links_Cons links_put_next)
    then have "links ?t p (as @ bs)" using as by (cases "bs = []") simp_all
    moreover have "bs \<noteq> [] \<Longrightarrow> ob_tail (t p) = last bs" "ob_head (t p) = hd as" using P(2,3) s False by auto
    ultimately have k: "kids ?t p (as @ bs)" using False last_snoc [of as' e, folded as] by (simp add: kids_def)
    have "\<forall>d. (\<exists>q \<in> N. q \<noteq> p \<and> d \<in> set (K q)) \<longrightarrow> d \<noteq> e" using forest_disjoint [OF f p _ prev(1)] by auto
    then have "forest ?t N (K(p := as @ bs))" using K apart k by (intro forest_change [OF f p]) auto
    moreover have "ob_delete c t = Some (1, ?t)" using c(2) par hd g tl nxt prev(2) by (simp add: ob_delete_def Let_def)
    ultimately show thesis by (rule that [rotated])
  qed
qed

text \<open>Inserting an object that has no parent at the head of a list, or after one of its members.\<close>

lemma insert_head_forest:
  assumes f: "forest t N K" and p: "p \<in> N" and ne: "K p \<noteq> []"
    and c: "c \<in> N" "c \<noteq> ROOT" "c \<noteq> p" "\<forall>q \<in> N. c \<notin> set (K q)"
  shows "forest (put_head p c (put_next c (ob_head (t p)) t)) N (K(p := c # K p))"
    and "ob_head (t p) \<noteq> p"
proof -
  note P = forestD [OF f p]
  have h: "ob_head (t p) = hd (K p)" "c \<notin> set (K p)" using P(2) ne c(4) p by auto
  show "ob_head (t p) \<noteq> p" using h P(7) ne by (metis hd_in_set)
  have "kids (put_head p c (put_next c (ob_head (t p)) t)) p (c # K p)"
    using P(1,3) h ne by (simp add: kids_def links_Cons links_put_next)
  moreover have "\<forall>q \<in> N. q \<noteq> p \<longrightarrow> set (K p) \<inter> set (K q) = {}" using forest_disjoint [OF f p] by blast
  ultimately show "forest (put_head p c (put_next c (ob_head (t p)) t)) N (K(p := c # K p))"
    using c h P by (intro forest_change [OF f p]) auto
qed

lemma insert_after_forest:
  assumes f: "forest t N K" and p: "p \<in> N" and s: "K p = xs @ d # ys"
    and c: "c \<in> N" "c \<noteq> ROOT" "c \<noteq> p" "\<forall>q \<in> N. c \<notin> set (K q)"
    and t': "t' = put_next d c (put_next c (ob_next (t d)) t)"
  shows "ob_next (t' c) = p \<longleftrightarrow> ys = []"
    and "forest (if ys = [] then put_tail p c t' else t') N (K(p := xs @ d # c # ys))"
proof -
  note P = forestD [OF f p]
  have d: "ob_next (t d) = (if ys = [] then p else hd ys)" using P(1) s by (simp add: links_append links_Cons split: if_splits)
  have cd: "c \<noteq> d" "c \<notin> set xs" "c \<notin> set ys" "d \<in> set (K p)" using c(4) p s by auto
  show "ob_next (t' c) = p \<longleftrightarrow> ys = []" using d cd(1) P(7) s t' by (auto dest: hd_in_set)
  have "d \<notin> set xs" "d \<notin> set ys" using P(4) s by auto
  moreover have "links t d xs" "links t p ys" using P(1) s by (auto simp: links_append links_Cons)
  ultimately have "links t' p (xs @ d # c # ys)"
    using cd d unfolding t' by (simp add: links_append links_Cons links_put_next)
  then have k: "kids (if ys = [] then put_tail p c t' else t') p (xs @ d # c # ys)"
    using P(2,3) s unfolding t' by (auto simp: kids_def hd_append)
  have "\<forall>q \<in> N. q \<noteq> p \<longrightarrow> set (K p) \<inter> set (K q) = {}" using forest_disjoint [OF f p] by blast
  then have "\<forall>q \<in> N. q \<noteq> p \<longrightarrow> set (xs @ d # c # ys) \<inter> set (K q) = {}" using s c(4) by auto
  moreover have "\<forall>e. (\<exists>q \<in> N. q \<noteq> p \<and> e \<in> set (K q)) \<longrightarrow> e \<noteq> d \<and> e \<noteq> c"
    using forest_disjoint [OF f p _ cd(4)] c(4) by auto
  ultimately show "forest (if ys = [] then put_tail p c t' else t') N (K(p := xs @ d # c # ys))"
    using c P(4-7) s cd k unfolding t' by (intro forest_change [OF f p]) auto
qed

lemma ob_order_walk_nth:
  "links t p cs \<Longrightarrow> k < length cs \<Longrightarrow> ob_order_walk k t (hd cs) = cs ! k"
proof (induction k arbitrary: cs)
  case 0
  then show ?case by (simp add: hd_conv_nth)
next
  case (Suc k)
  then obtain c ds where "cs = c # ds" by (cases cs) auto
  moreover from this Suc.prems have "ds \<noteq> []" by auto
  ultimately show ?case using Suc by (auto simp: links_Cons)
qed

section \<open>The traversal\<close>

datatype onode = Obj (num: int) (subs: "onode list")

fun objs :: "onode \<Rightarrow> int list" where
  "objs (Obj i ts) = i # concat (map objs ts)"

fun rep :: "obtree \<Rightarrow> onode \<Rightarrow> bool" where
  "rep t (Obj i ts) \<longleftrightarrow> kids t i (map num ts) \<and> (\<forall>u \<in> set ts. rep t u)"

text \<open>
  The objects in the order of a recursive walk, each with its position on the screen; the
  children of hidden objects and below the maximal depth are left out.
\<close>

fun preorder :: "obtree \<Rightarrow> nat \<Rightarrow> nat \<Rightarrow> int \<Rightarrow> int \<Rightarrow> onode \<Rightarrow> (int \<times> int \<times> int) list" where
  "preorder t maxdep depth px py (Obj i ts) =
     (i, s16 (px + ob_x (t i)), s16 (py + ob_y (t i))) #
     (if ob_flags (t i) AND HIDETREE = 0 \<and> depth \<le> maxdep
      then concat (map (preorder t maxdep (depth + 1) (s16 (px + ob_x (t i))) (s16 (py + ob_y (t i)))) ts)
      else [])"

primrec run_all :: "'s routine \<Rightarrow> (int \<times> int \<times> int) list \<Rightarrow> 's \<Rightarrow> 's option" where
  "run_all r [] s = Some s"
| "run_all r (v # vs) s = Option.bind (case v of (i, x, y) \<Rightarrow> r i x y s) (run_all r vs)"

lemma run_all_append: "run_all r (xs @ ys) s = Option.bind (run_all r xs s) (run_all r ys)"
  by (induction xs arbitrary: s) (auto split: Option.bind_splits)

abbreviation at :: "bool \<Rightarrow> int \<Rightarrow> nat \<Rightarrow> (nat \<Rightarrow> int) \<Rightarrow> (nat \<Rightarrow> int) \<Rightarrow> walk" where
  "at c i d x y \<equiv> \<lparr>w_child = c, w_this = i, w_depth = d, w_x = x, w_y = y\<rparr>"

text \<open>From \<open>w\<close> the objects of \<open>L\<close> are visited, then the walk goes on at \<open>w'\<close>, unless \<open>stop\<close> is met.\<close>

definition visits :: "'s routine \<Rightarrow> int \<Rightarrow> nat \<Rightarrow> obtree \<Rightarrow> walk \<Rightarrow> (int \<times> int \<times> int) list \<Rightarrow> walk \<Rightarrow> bool" where
  "visits r stop md t w L w' \<longleftrightarrow> (\<forall>s. everyobj_run r stop md t w s =
     (if stop \<in> fst ` set L then run_all r (takeWhile (\<lambda>v. fst v \<noteq> stop) L) s
      else Option.bind (run_all r L s) (everyobj_run r stop md t w')))"

lemma takeWhile_before:
  "stop \<in> fst ` set A \<Longrightarrow> takeWhile (\<lambda>v. fst v \<noteq> stop) (A @ B) = takeWhile (\<lambda>v. fst v \<noteq> stop) A"
  "stop \<notin> fst ` set A \<Longrightarrow> takeWhile (\<lambda>v. fst v \<noteq> stop) (A @ B) = A @ takeWhile (\<lambda>v. fst v \<noteq> stop) B"
proof -
  show "stop \<in> fst ` set A \<Longrightarrow> takeWhile (\<lambda>v. fst v \<noteq> stop) (A @ B) = takeWhile (\<lambda>v. fst v \<noteq> stop) A"
    by (auto intro: takeWhile_append1)
  assume "stop \<notin> fst ` set A"
  then show "takeWhile (\<lambda>v. fst v \<noteq> stop) (A @ B) = A @ takeWhile (\<lambda>v. fst v \<noteq> stop) B"
    by (intro takeWhile_append2) force
qed

lemma visits_append:
  assumes "visits r stop md t w A w'" "visits r stop md t w' B w''"
  shows "visits r stop md t w (A @ B) w''"
proof -
  have "everyobj_run r stop md t w s =
     (if stop \<in> fst ` set (A @ B) then run_all r (takeWhile (\<lambda>v. fst v \<noteq> stop) (A @ B)) s
      else Option.bind (run_all r (A @ B) s) (everyobj_run r stop md t w''))" for s
  proof (cases "stop \<in> fst ` set A")
    case True
    then show ?thesis using assms(1) by (auto simp: visits_def takeWhile_before)
  next
    case False
    then have "everyobj_run r stop md t w s = Option.bind (run_all r A s) (everyobj_run r stop md t w')"
      using assms(1) by (simp add: visits_def)
    moreover have "everyobj_run r stop md t w' =
       (\<lambda>s. if stop \<in> fst ` set B then run_all r (takeWhile (\<lambda>v. fst v \<noteq> stop) B) s
        else Option.bind (run_all r B s) (everyobj_run r stop md t w''))"
      using assms(2) by (simp add: visits_def fun_eq_iff)
    ultimately show ?thesis using False
      by (auto simp: takeWhile_before run_all_append split: Option.bind_splits)
  qed
  then show ?thesis unfolding visits_def by blast
qed

text \<open>One step to a sibling or the parent.\<close>

lemma visits_step:
  assumes "ob_next (t i) \<noteq> stop" "i \<noteq> ROOT"
  shows "visits r stop md t (at False i d x y) [] (ascend t (at False i d x y))"
  unfolding visits_def using assms by (subst everyobj_run.simps) simp

lemma rep_num_next:
  assumes "rep t (Obj i ts)" "ts = as @ u # v # bs" "distinct (concat (map objs ts))" "NIL \<notin> set (concat (map objs ts))"
  shows "ob_next (t (num u)) = num v" "ob_tail (t (num v)) \<noteq> num u"
proof -
  show "ob_next (t (num u)) = num v" using assms(1,2) by (auto simp: kids_def links_append split: if_splits)
  obtain j us where v: "v = Obj j us" by (cases v)
  obtain k ws where u: "u = Obj k ws" by (cases u)
  have "kids t j (map num us)" using assms(1,2) v by auto
  moreover have "num (last us) \<in> set (objs v)" if "us \<noteq> []"
  proof -
    have "num w \<in> set (objs w)" for w by (cases w) simp
    then show ?thesis using v last_in_set [OF that] by auto
  qed
  moreover have "k \<notin> set (objs v)" "k \<noteq> NIL" using assms(2-4) u v by auto
  ultimately show "ob_tail (t (num v)) \<noteq> num u"
    using u v by (auto simp: kids_def last_map split: if_splits)
qed


lemma preorder_Cons: "\<exists>x y L. preorder t md d px py u = (num u, x, y) # L"
  by (cases u) simp

lemma visits_sub:
  "num u \<in> set (objs u)"
  by (cases u) simp

text \<open>
  Walking a subtree, and walking the siblings from one on: afterwards the walk stands at the
  label \<open>sibling\<close>, of the root of the subtree or of the parent, with the positions above
  unchanged.
\<close>

definition same_above :: "nat \<Rightarrow> (nat \<Rightarrow> int) \<Rightarrow> (nat \<Rightarrow> int) \<Rightarrow> bool" where
  "same_above d x x' \<longleftrightarrow> (\<forall>i < d. x' i = x i)"

definition walks :: "'s routine \<Rightarrow> int \<Rightarrow> nat \<Rightarrow> obtree \<Rightarrow> onode \<Rightarrow> bool" where
  "walks r stop md t u \<longleftrightarrow> (\<forall>d x y. 0 < d \<longrightarrow> (\<exists>x' y'. same_above d x x' \<and> same_above d y y'
     \<and> visits r stop md t (at True (num u) d x y) (preorder t md d (x (d - 1)) (y (d - 1)) u) (at False (num u) d x' y')))"

lemma walksD:
  "walks r stop md t u \<Longrightarrow> 0 < d \<Longrightarrow> \<exists>x' y'. same_above d x x' \<and> same_above d y y'
     \<and> visits r stop md t (at True (num u) d x y) (preorder t md d (x (d - 1)) (y (d - 1)) u) (at False (num u) d x' y')"
  unfolding walks_def by blast

lemma visits_siblings:
  assumes rep: "rep t (Obj p ts)" and dist: "distinct (p # concat (map objs ts))"
    and nil: "NIL \<notin> set (concat (map objs ts))" "ROOT \<notin> set (concat (map objs ts))" and p: "stop \<noteq> p"
    and us: "ts = as @ us" "us \<noteq> []" and w: "\<forall>u \<in> set us. walks r stop md t u" and d: "0 < d"
  shows "\<exists>x' y'. same_above d x x' \<and> same_above d y y'
    \<and> visits r stop md t (at True (num (hd us)) d x y)
        (concat (map (preorder t md d (x (d - 1)) (y (d - 1))) us)) (at False p (d - 1) x' y')"
  using us w
proof (induction us arbitrary: as x y)
  case (Cons u us)
  obtain x1 y1 where 1: "same_above d x x1" "same_above d y y1"
    "visits r stop md t (at True (num u) d x y) (preorder t md d (x (d - 1)) (y (d - 1)) u) (at False (num u) d x1 y1)"
    using walksD [OF bspec [OF Cons.prems(3)] d, of u x y] by (metis list.set_intros(1))
  have root: "num u \<noteq> ROOT" using nil(2) Cons.prems(1) visits_sub [of u] by (auto simp: dest: bspec)
  have e: "x1 (d - 1) = x (d - 1)" "y1 (d - 1) = y (d - 1)" using 1(1,2) d by (simp_all add: same_above_def)
  show ?case
  proof (cases us)
    case Nil
    have n: "ob_next (t (num u)) = p" "ob_tail (t p) = num u"
      using rep Cons.prems(1) Nil by (auto simp: kids_def links_append split: if_splits)
    have "visits r stop md t (at False (num u) d x1 y1) [] (at False p (d - 1) x1 y1)"
      using visits_step [of t "num u" stop r md d x1 y1] n p root by (simp add: ascend_def)
    from visits_append [OF 1(3) this] show ?thesis using 1(1,2) Nil by auto
  next
    case us: (Cons v vs)
    have n: "ob_next (t (num u)) = num v" "ob_tail (t (num v)) \<noteq> num u"
      using rep_num_next [OF rep, of as u v vs] Cons.prems(1) us dist nil(1) by auto
    obtain x2 y2 where 2: "same_above d x1 x2" "same_above d y1 y2"
      "visits r stop md t (at True (num v) d x1 y1)
        (concat (map (preorder t md d (x1 (d - 1)) (y1 (d - 1))) us)) (at False p (d - 1) x2 y2)"
      using Cons.IH [of "as @ [u]" x1 y1] Cons.prems us by auto
    have s: "same_above d x x2" "same_above d y y2" using 1 2 by (simp_all add: same_above_def)
    let ?A = "preorder t md d (x (d - 1)) (y (d - 1)) u"
      and ?B = "concat (map (preorder t md d (x (d - 1)) (y (d - 1))) us)"
    have "visits r stop md t (at False (num u) d x1 y1) ?B (at False p (d - 1) x2 y2)"
    proof (cases "num v = stop")
      case True
      obtain a b L where "?B = (num v, a, b) # L"
        using us preorder_Cons [of t md d "x (d - 1)" "y (d - 1)" v] by auto
      then show ?thesis using True n(1) by (auto simp: visits_def everyobj_run.simps [of r stop md t "at False _ _ _ _"])
    next
      case False
      have "visits r stop md t (at False (num u) d x1 y1) [] (at True (num v) d x1 y1)"
        using visits_step [of t "num u" stop r md d x1 y1] n False root by (simp add: ascend_def)
      from visits_append [OF this 2(3)] show ?thesis unfolding e by simp
    qed
    from visits_append [OF 1(3) this]
    have "visits r stop md t (at True (num (hd (u # us))) d x y)
      (concat (map (preorder t md d (x (d - 1)) (y (d - 1))) (u # us))) (at False p (d - 1) x2 y2)" by simp
    then show ?thesis using s by blast
  qed
qed simp

lemma walks_tree:
  assumes "rep t u" "distinct (objs u)" "NIL \<notin> set (objs u)" "ROOT \<notin> set (concat (map objs (subs u)))"
  shows "walks r stop md t u"
  using assms
proof (induction u)
  case (Obj i ts)
  have k: "ob_head (t i) = (if ts = [] then NIL else num (hd ts))"
    using Obj.prems(1) by (simp add: kids_def hd_map)
  have w: "\<forall>u \<in> set ts. walks r stop md t u"
  proof
    fix u assume u: "u \<in> set ts"
    have "set (concat (map objs (subs u))) \<subseteq> set (objs u)" by (cases u) auto
    moreover have "distinct (objs u)" using Obj.prems(2) u by (metis distinct_concat_iff distinct_map distinct.simps(2) image_eqI list.set_map objs.simps)
    ultimately show "walks r stop md t u"
      using Obj.prems u by (intro Obj.IH) auto
  qed
  show ?case unfolding walks_def
  proof (intro allI impI)
    fix d :: nat and x y :: "nat \<Rightarrow> int" assume d: "0 < d"
    let ?X = "s16 (x (d - 1) + ob_x (t i))" and ?Y = "s16 (y (d - 1) + ob_y (t i))"
    let ?x = "x(d := ?X)" and ?y = "y(d := ?Y)"
    let ?down = "ob_flags (t i) AND HIDETREE = 0 \<and> d \<le> md"
    have s: "same_above d x ?x" "same_above d y ?y" by (simp_all add: same_above_def)
    let ?w = "descend t md (at True i d ?x ?y)"
    have first: "visits r stop md t (at True i d x y) [(i, ?X, ?Y)] ?w"
      unfolding visits_def by (subst everyobj_run.simps) (auto simp: enter_def Let_def)
    show "\<exists>x' y'. same_above d x x' \<and> same_above d y y' \<and> visits r stop md t (at True (num (Obj i ts)) d x y)
        (preorder t md d (x (d - 1)) (y (d - 1)) (Obj i ts)) (at False (num (Obj i ts)) d x' y')"
    proof (cases "ts \<noteq> [] \<and> ?down")
      case False
      then have "?w = at False i d ?x ?y" "preorder t md d (x (d - 1)) (y (d - 1)) (Obj i ts) = [(i, ?X, ?Y)]"
        using k by (auto simp: descend_def Let_def)
      then show ?thesis using first s by auto
    next
      case True
      have hd: "num (hd ts) \<noteq> NIL" using True Obj.prems(3) visits_sub [of "hd ts"] by (auto dest!: hd_in_set)
      then have w': "?w = at True (num (hd ts)) (d + 1) ?x ?y" using True k by (simp add: descend_def Let_def)
      let ?L = "concat (map (preorder t md (d + 1) ?X ?Y) ts)"
      have L: "preorder t md d (x (d - 1)) (y (d - 1)) (Obj i ts) = [(i, ?X, ?Y)] @ ?L" using True by simp
      show ?thesis
      proof (cases "stop = i")
        case stop: True
        have "visits r stop md t (at True i d x y) ([(i, ?X, ?Y)] @ ?L) (at False i d ?x ?y)"
          by (simp add: visits_def stop everyobj_run.simps [where w = "at True i d x y"])
        then show ?thesis unfolding L using s by auto
      next
        case False
        obtain x' y' where n: "same_above (d + 1) ?x x'" "same_above (d + 1) ?y y'"
          "visits r stop md t (at True (num (hd ts)) (d + 1) ?x ?y) ?L (at False i d x' y')"
          using visits_siblings [OF Obj.prems(1), of stop "[]" ts r md "d + 1" ?x ?y] Obj.prems True w False by auto
        have "same_above d x x'" "same_above d y y'" using n(1,2) s by (auto simp: same_above_def)
        then show ?thesis using visits_append [OF first, of ?L] n(3) unfolding L w' by auto
      qed
    qed
  qed
qed


lemma everyobj_all:
  assumes "rep t u" "distinct (objs u)" "NIL \<notin> set (objs u)" "ROOT \<notin> set (concat (map objs (subs u)))"
    and "num u = ROOT \<or> (stop = ob_next (t (num u)) \<and> stop \<notin> set (objs u))"
  shows "everyobj t (num u) stop r x y maxdep s
    = run_all r (takeWhile (\<lambda>v. fst v \<noteq> stop) (preorder t maxdep 1 x y u)) s"
proof -
  let ?L = "preorder t maxdep 1 x y u"
  obtain x' y' where v: "visits r stop maxdep t (at True (num u) 1 (\<lambda>_. x) (\<lambda>_. y)) ?L (at False (num u) 1 x' y')"
    using walksD [OF walks_tree [OF assms(1-4)], where d = 1 and r = r and stop = stop and md = maxdep
      and x = "\<lambda>_. x" and y = "\<lambda>_. y"] by auto
  have stop: "everyobj_run r stop maxdep t (at False (num u) 1 x' y') = Some"
    using assms(5) by (auto simp: fun_eq_iff everyobj_run.simps [where w = "at False (num u) (Suc 0) x' y'"]
      everyobj_run.simps [where w = "at False ROOT (Suc 0) x' y'"])
  have e: "everyobj t (num u) stop r x y maxdep s = (if stop \<in> fst ` set ?L
      then run_all r (takeWhile (\<lambda>v. fst v \<noteq> stop) ?L) s else Option.bind (run_all r ?L s) Some)"
    using v unfolding visits_def everyobj_def stop by blast
  show ?thesis
  proof (cases "stop \<in> fst ` set ?L")
    case False
    then have tw: "takeWhile (\<lambda>v. fst v \<noteq> stop) ?L = ?L" by (intro takeWhile_eq_all_conv [THEN iffD2]) force
    show ?thesis using False unfolding e tw by simp
  qed (simp add: e)
qed

section \<open>Properties of object trees\<close>


text \<open>A root with the children 1 and 2, 1 with the child 3; the routine collects what it is given.\<close>

definition plain_object :: object where
  "plain_object = \<lparr>ob_next = NIL, ob_head = NIL, ob_tail = NIL, ob_type = 20, ob_flags = 0, ob_state = 0,
     ob_spec = 0, ob_x = 10, ob_y = 5, ob_width = 4, ob_height = 4\<rparr>"

definition small_tree :: obtree where
  "small_tree = ob_add 1 3 (ob_add 0 2 (ob_add 0 1 (\<lambda>_. plain_object)))"

definition collect :: "(int \<times> int \<times> int) list routine" where
  "collect i x y s = Some (s @ [(i, x, y)])"

lemma small_rep: "rep small_tree (Obj 0 [Obj 1 [Obj 3 []], Obj 2 []])"
  by (simp add: small_tree_def kids_def ob_add_def plain_object_def NIL_def put_next_def put_head_def put_tail_def Let_def)

lemma small_pos: "ob_x (small_tree i) = 10" "ob_y (small_tree i) = 5" "ob_flags (small_tree i) = 0"
  by (simp_all add: small_tree_def ob_add_def plain_object_def put_next_def put_head_def put_tail_def Let_def)




text \<open>
  C17. Reordering moves a child to the position asked for. For an object with siblings,
  \<open>ob_order\<close> takes it out of its parent's children and inserts it at \<open>new_pos\<close>, counted from 0
  at the head, or at the end for \<open>NIL\<close>; the forest stays well-formed.
\<close>

theorem ob_order_moves:
  assumes "forest t N K" "p \<in> N" "K p = as @ c # bs" "as @ bs \<noteq> []"
    and "new_pos = NIL \<or> (0 \<le> new_pos \<and> new_pos \<le> int (length (as @ bs)))"
  shows "\<exists>t'. ob_order c new_pos t = Some (True, t') \<and> forest t' N (K(p :=
    let n = (if new_pos = NIL then length (as @ bs) else nat new_pos) in take n (as @ bs) @ c # drop n (as @ bs)))"
proof -
  let ?r = "as @ bs" and ?K = "K(p := as @ bs)"
  note P = forestD [OF assms(1,2)]
  have c: "c \<in> N" "c \<noteq> ROOT" "c \<noteq> p" using P assms(3) by auto
  have par: "get_par t c = Some p" by (rule get_par_forest [OF assms(1,2)]) (simp add: assms(3))
  obtain t1 where del: "ob_delete c t = Some (1, t1)" and f: "forest t1 N ?K"
    by (rule ob_delete_forest [OF assms(1-3)])
  have free: "\<forall>q \<in> N. c \<notin> set (?K q)"
    using forest_disjoint [OF assms(1,2), of _ c] P(4) assms(3) by auto
  have K: "?K p = ?r" by simp
  have upd: "(\<lambda>q. if q = p then ?r else K q)(p := v) = K(p := v)" for v by auto
  note R = forestD [OF f assms(2), unfolded K]
  show ?thesis
  proof (cases "new_pos = 0")
    case True
    note I = insert_head_forest [OF f assms(2) _ c free, unfolded K, OF assms(4)]
    have "ob_order c new_pos t = Some (True, put_head p c (put_next c (ob_head (t1 p)) t1))"
      using c(2) par del I(2) True by (simp add: ob_order_def NIL_def Let_def)
    then show ?thesis using I(1) True by (simp add: NIL_def fun_upd_def cong: if_cong)
  next
    case False
    define n where "n = (if new_pos = NIL then length ?r else nat new_pos)"
    have n: "0 < n" "n \<le> length ?r" using assms(4,5) False by (auto simp: n_def NIL_def)
    define d where "d = ?r ! (n - 1)"
    have s: "?r = take (n - 1) ?r @ d # drop n ?r"
      using n id_take_nth_drop [of "n - 1" ?r] by (simp add: d_def)
    have tn: "take n ?r = take (n - 1) ?r @ [d]"
      using n take_Suc_conv_app_nth [of "n - 1" ?r] by (simp add: d_def)
    have "(if new_pos = NIL then ob_tail (t1 p) else ob_order_walk (nat (new_pos - 1)) t1 (ob_head (t1 p))) = d"
    proof (cases "new_pos = NIL")
      case True
      then show ?thesis using R(3) assms(4) last_conv_nth [OF assms(4)]
        by (simp only: if_True if_False if_not_P [OF assms(4)] d_def n_def simp_thms)
    next
      case False
      have "ob_order_walk (nat (new_pos - 1)) t1 (hd ?r) = ?r ! nat (new_pos - 1)"
        using n False by (intro ob_order_walk_nth [OF R(1)]) (auto simp: n_def)
      moreover have "nat (new_pos - 1) = n - 1" using n False by (simp add: n_def)
      ultimately show ?thesis using R(2) False unfolding if_not_P [OF assms(4)] by (simp add: d_def)
    qed
    note d = this
    note I = insert_after_forest [OF f assms(2) _ c free refl, unfolded K, OF s]
    let ?t = "put_next d c (put_next c (ob_next (t1 d)) t1)"
    have "ob_order c new_pos t = Some (True, if drop n ?r = [] then put_tail p c ?t else ?t)"
      unfolding ob_order_def using c(2) par del False I(1) d by (simp only: if_False bind.bind_lunit prod.case Let_def)
    moreover have e: "take (n - 1) ?r @ d # c # drop n ?r = take n ?r @ c # drop n ?r"
      unfolding tn by (simp only: append.assoc append_Cons append_Nil)
    have "forest (if drop n ?r = [] then put_tail p c ?t else ?t) N (K(p := take n ?r @ c # drop n ?r))"
      using I(2) unfolding upd fun_upd_upd e .
    ultimately show ?thesis unfolding n_def [symmetric] Let_def by blast
  qed
qed


text \<open>The small tree as a forest; object 4 is a tree of its own.\<close>

definition small_kids :: "int \<Rightarrow> int list" where
  "small_kids i = (if i = 0 then [1, 2] else if i = 1 then [3] else [])"

lemma small_forest: "forest small_tree {0, 1, 2, 3, 4} small_kids"
  by (simp add: forest_def small_kids_def kids_def small_tree_def ob_add_def plain_object_def NIL_def ROOT_def
    put_next_def put_head_def put_tail_def Let_def)


theorem ob_order_moves_witness:
  "\<exists>t. ob_order 1 NIL small_tree = Some (True, t) \<and> ob_next (t 2) = 1 \<and> ob_next (t 1) = 0 \<and> ob_tail (t 0) = 1"
proof -
  have "small_kids 0 = [] @ 1 # [2]" by (simp add: small_kids_def)
  then obtain t where t: "ob_order 1 NIL small_tree = Some (True, t)" "forest t {0, 1, 2, 3, 4} (small_kids(0 := [2, 1]))"
    using ob_order_moves [OF small_forest, of 0 "[]" 1 "[2]" NIL] by (auto simp: Let_def)
  from forestD(1-3) [OF t(2), of 0] t(1) show ?thesis by simp
qed

text \<open>
  Reordering an only child corrupts the tree. When the object has no siblings, \<open>ob_order\<close>
  with position 0 reads the list that \<open>ob_delete\<close> has just emptied: the object gets \<open>NIL\<close> as
  its next object instead of the parent, the parent's last child stays \<open>NIL\<close>, and the result is
  no well-formed tree, although \<open>TRUE\<close> is returned.
\<close>

theorem ob_order_only_child:
  assumes "forest t N K" "p \<in> N" "K p = [c]"
  shows "\<exists>t'. ob_order c 0 t = Some (True, t') \<and> ob_next (t' c) = NIL \<and> ob_tail (t' p) = NIL
    \<and> (\<forall>K'. NIL \<notin> set K' \<longrightarrow> \<not> kids t' p (c # K'))"
proof -
  note P = forestD [OF assms(1,2)]
  have c: "c \<noteq> ROOT" "c \<noteq> p" "p \<noteq> NIL" using P assms by (auto simp: forest_def)
  have "get_par t c = Some p" by (rule get_par_forest [OF assms(1,2)]) (simp add: assms(3))
  then have "ob_order c 0 t = Some (True, put_head p c (put_next c NIL (put_head p NIL (put_tail p NIL t))))"
    using P(2,3) assms(3) c by (simp add: ob_order_def ob_delete_def NIL_def Let_def)
  then show ?thesis using c(2) P(8) assms(3) by (auto simp: kids_def dest: last_in_set split: if_splits)
qed

theorem ob_order_only_child_witness:
  "\<exists>t'. ob_order 3 0 small_tree = Some (True, t') \<and> ob_next (t' 3) = NIL \<and> ob_tail (t' 1) = NIL"
  using ob_order_only_child [OF small_forest, of 1 3] by (auto simp: small_kids_def)

end
