(* ===== verification/WinRect.thy ===== *)
theory WinRect
  imports ObTree
begin

text \<open>
  Rectangles (util/rectfunc.c) and the owner rectangle lists of the AES window manager
  (aes/gemwrect.c): for every window the list of rectangles that make up its visible part,
  kept in a pool of linked records. The arithmetic is on 16-bit words. The lemmas give
  rectangles their meaning as sets of points and show that breaking a rectangle partitions
  what remains visible, and that rebuilding the lists of all windows makes each of them cover
  exactly the points of the window that no window above it covers, once each.
\<close>

section \<open>Rectangle functions\<close>

definition right :: "grect \<Rightarrow> int" where "right g = s16 (g_x g + g_w g)"
definition bottom :: "grect \<Rightarrow> int" where "bottom g = s16 (g_y g + g_h g)"

definition inside :: "int \<Rightarrow> int \<Rightarrow> grect \<Rightarrow> bool" where
  "inside x y pt \<longleftrightarrow> x \<ge> g_x pt \<and> y \<ge> g_y pt \<and> x < right pt \<and> y < bottom pt"

definition rc_constrain :: "grect \<Rightarrow> grect \<Rightarrow> grect" where
  "rc_constrain pc pt =
     (let pt = (if g_x pt < g_x pc then pt\<lparr>g_x := g_x pc\<rparr> else pt);
          pt = (if g_y pt < g_y pc then pt\<lparr>g_y := g_y pc\<rparr> else pt);
          pt = (if right pt > right pc then pt\<lparr>g_x := s16 (right pc - g_w pt)\<rparr> else pt)
      in if bottom pt > bottom pc then pt\<lparr>g_y := s16 (bottom pc - g_h pt)\<rparr> else pt)"

definition rc_equal :: "grect \<Rightarrow> grect \<Rightarrow> bool" where
  "rc_equal p1 p2 = (\<not> (g_x p1 \<noteq> g_x p2 \<or> g_y p1 \<noteq> g_y p2 \<or> g_w p1 \<noteq> g_w p2 \<or> g_h p1 \<noteq> g_h p2))"

definition rc_intersect :: "grect \<Rightarrow> grect \<Rightarrow> bool \<times> grect" where
  "rc_intersect p1 p2 =
     (let tw = min (right p2) (right p1); th = min (bottom p2) (bottom p1);
          tx = max (g_x p2) (g_x p1); ty = max (g_y p2) (g_y p1)
      in (tw > tx \<and> th > ty, \<lparr>g_x = tx, g_y = ty, g_w = s16 (tw - tx), g_h = s16 (th - ty)\<rparr>))"

definition rc_union :: "grect \<Rightarrow> grect \<Rightarrow> grect" where
  "rc_union p1 p2 =
     (let tw = max (right p1) (right p2); th = max (bottom p1) (bottom p2);
          tx = min (g_x p1) (g_x p2); ty = min (g_y p1) (g_y p2)
      in \<lparr>g_x = tx, g_y = ty, g_w = s16 (tw - tx), g_h = s16 (th - ty)\<rparr>)"

section \<open>Owner rectangles\<close>

definition VF_BROKEN :: int where "VF_BROKEN = 2"
definition DROP_SHADOW_SIZE :: int where "DROP_SHADOW_SIZE = 2"
definition MAX_DEPTH :: nat where "MAX_DEPTH = 8"
definition NUM_ORECT :: nat where "NUM_ORECT = 80"

record wrects =
  o_link :: "nat \<Rightarrow> nat"
  o_gr :: "nat \<Rightarrow> grect"
  rul :: nat
  gl_mkrect :: grect
  w_rlist :: "int \<Rightarrow> nat"
  w_flags :: "int \<Rightarrow> int"
  w_tree :: obtree

text \<open>The pool is the array of the records \<open>1\<close> to \<open>NUM_ORECT\<close>, in the order of their addresses.\<close>

primrec or_start_loop :: "nat \<Rightarrow> nat \<Rightarrow> wrects \<Rightarrow> wrects" where
  "or_start_loop 0 i s = s"
| "or_start_loop (Suc k) i s = or_start_loop k (i + 1) (s\<lparr>o_link := (o_link s)(i := rul s), rul := i\<rparr>)"

definition or_start :: "wrects \<Rightarrow> wrects" where
  "or_start s = or_start_loop NUM_ORECT 1 (s\<lparr>rul := 0\<rparr>)"

definition get_orect :: "wrects \<Rightarrow> nat \<times> wrects" where
  "get_orect s = (let po = rul s in (po, if po \<noteq> 0 then s\<lparr>rul := o_link s (rul s)\<rparr> else s))"

datatype side = TOP | LEFT | RIGHT | BOTTOM

text \<open>The rectangle that is computed for one side; \<open>mkpiece\<close> writes through a null pointer (\<open>None\<close>) when the pool is empty.\<close>

definition piece :: "side \<Rightarrow> grect \<Rightarrow> grect \<Rightarrow> grect" where
  "piece tlrb new old =
     (let y = max (g_y old) (g_y new);
          rl = \<lparr>g_x = g_x old, g_y = y, g_w = g_w old, g_h = s16 (min (bottom old) (bottom new) - y)\<rparr>
      in case tlrb of
           TOP \<Rightarrow> rl\<lparr>g_y := g_y old, g_h := s16 (g_y new - g_y old)\<rparr>
         | LEFT \<Rightarrow> rl\<lparr>g_w := s16 (g_x new - g_x old)\<rparr>
         | RIGHT \<Rightarrow> rl\<lparr>g_x := right new, g_w := s16 (right old - right new)\<rparr>
         | BOTTOM \<Rightarrow> rl\<lparr>g_y := bottom new, g_h := s16 (bottom old - bottom new)\<rparr>)"

definition mkpiece :: "side \<Rightarrow> grect \<Rightarrow> nat \<Rightarrow> wrects \<Rightarrow> (nat \<times> wrects) option" where
  "mkpiece tlrb new old s =
     (case get_orect s of (rl, s) \<Rightarrow>
        if rl = 0 then None
        else Some (rl, s\<lparr>o_link := (o_link s)(rl := old), o_gr := (o_gr s)(rl := piece tlrb new (o_gr s old))\<rparr>))"

text \<open>\<open>p->o_link = v\<close>, where a null \<open>p\<close> stands for the window's list head used as a record.\<close>

definition set_olink :: "int \<Rightarrow> nat \<Rightarrow> nat \<Rightarrow> wrects \<Rightarrow> wrects" where
  "set_olink wh p v s = (case relink p v (w_rlist s wh, o_link s) of
     (h, nx) \<Rightarrow> s\<lparr>w_rlist := (w_rlist s)(wh := h), o_link := nx\<rparr>)"

definition get_olink :: "int \<Rightarrow> nat \<Rightarrow> wrects \<Rightarrow> nat" where
  "get_olink wh p s = (if p = 0 then w_rlist s wh else o_link s p)"

definition overlap :: "grect \<Rightarrow> grect \<Rightarrow> bool" where
  "overlap new r \<longleftrightarrow> g_x new < right r \<and> right new > g_x r \<and> g_y new < bottom r \<and> bottom new > g_y r"

definition have_piece :: "side \<Rightarrow> grect \<Rightarrow> grect \<Rightarrow> bool" where
  "have_piece i new r \<longleftrightarrow> (case i of TOP \<Rightarrow> g_y new > g_y r | LEFT \<Rightarrow> g_x new > g_x r
     | RIGHT \<Rightarrow> right new < right r | BOTTOM \<Rightarrow> bottom new < bottom r)"

primrec brkrct_loop :: "int \<Rightarrow> grect \<Rightarrow> nat \<Rightarrow> grect \<Rightarrow> side list \<Rightarrow> nat \<Rightarrow> wrects \<Rightarrow> (nat \<times> wrects) option" where
  "brkrct_loop wh new r gr [] p s = Some (p, s)"
| "brkrct_loop wh new r gr (i # is) p s =
     (if have_piece i new gr then
        Option.bind (mkpiece i new r s) (\<lambda>(rl, s). brkrct_loop wh new r gr is rl (set_olink wh p rl s))
      else brkrct_loop wh new r gr is p s)"

text \<open>The result is \<open>None\<close> inside \<open>Some\<close> for the null pointer: no overlap.\<close>

definition brkrct :: "int \<Rightarrow> grect \<Rightarrow> nat \<Rightarrow> nat \<Rightarrow> wrects \<Rightarrow> (nat option \<times> wrects) option" where
  "brkrct wh new r p s =
     (if overlap new (o_gr s r) then
        Option.bind (brkrct_loop wh new r (o_gr s r) [TOP, LEFT, RIGHT, BOTTOM] p s) (\<lambda>(p, s).
        let s = set_olink wh p (o_link s r) s
        in Some (Some p, s\<lparr>o_link := (o_link s)(r := rul s), rul := r\<rparr>))
      else Some (None, s))"

partial_function (option) mkrect_loop :: "int \<Rightarrow> nat \<Rightarrow> nat \<Rightarrow> wrects \<Rightarrow> wrects option" where
  "mkrect_loop wh r p s =
     (if r = 0 then Some s
      else Option.bind (brkrct wh (gl_mkrect s) r p s) (\<lambda>ps.
           mkrect_loop wh
             (case fst ps of Some p \<Rightarrow> get_olink wh p (snd ps) | None \<Rightarrow> o_link (snd ps) r)
             (case fst ps of Some p \<Rightarrow> p | None \<Rightarrow> r)
             (case fst ps of
                Some p \<Rightarrow> (snd ps)\<lparr>w_flags := (w_flags (snd ps))(wh := w_flags (snd ps) wh OR VF_BROKEN)\<rparr>
              | None \<Rightarrow> snd ps)))"

definition mkrect :: "int \<Rightarrow> wrects \<Rightarrow> wrects option" where
  "mkrect wh s = mkrect_loop wh (w_rlist s wh) 0 s"

text \<open>\<open>w_getsize\<close> with \<open>WS_TRUE\<close>: the window's object and its shadow.\<close>

definition w_getsize_true :: "int \<Rightarrow> wrects \<Rightarrow> grect" where
  "w_getsize_true wh s =
     (let pt = ob_relxywh (w_tree s) wh in
      if g_w pt \<noteq> 0 \<and> g_h pt \<noteq> 0
      then pt\<lparr>g_w := s16 (g_w pt + DROP_SHADOW_SIZE), g_h := s16 (g_h pt + DROP_SHADOW_SIZE)\<rparr> else pt)"

definition drop_rlist :: "int \<Rightarrow> wrects \<Rightarrow> wrects option" where
  "drop_rlist wh s =
     (let r0 = w_rlist s wh in
      if r0 = 0 then Some s
      else case nodes (o_link s) r0 of
             None \<Rightarrow> None
           | Some rs \<Rightarrow> Some (s\<lparr>o_link := (o_link s)(last rs := rul s), rul := r0\<rparr>))"

definition newrect :: "int \<Rightarrow> wrects \<Rightarrow> wrects option" where
  "newrect wh s =
     Option.bind (drop_rlist wh s) (\<lambda>s.
     let s = s\<lparr>w_rlist := (w_rlist s)(wh := 0), w_flags := (w_flags s)(wh := w_flags s wh AND NOT VF_BROKEN)\<rparr>;
         s = s\<lparr>gl_mkrect := w_getsize_true wh s\<rparr>
     in if g_w (gl_mkrect s) = 0 \<or> g_h (gl_mkrect s) = 0 then Some s
        else
        Option.bind (everyobj (w_tree s) ROOT wh (\<lambda>this x y s. mkrect this s) 0 0 MAX_DEPTH s) (\<lambda>s.
        case get_orect s of (new, s) \<Rightarrow>
          if new = 0 then None
          else Some (s\<lparr>o_link := (o_link s)(new := 0), o_gr := (o_gr s)(new := w_getsize_true wh s),
            w_rlist := (w_rlist s)(wh := new)\<rparr>)))"

text \<open>The call of \<open>everyobj\<close> in \<open>draw_change\<close> that rebuilds all lists.\<close>

definition rebuild :: "wrects \<Rightarrow> wrects option" where
  "rebuild s = everyobj (w_tree s) ROOT NIL (\<lambda>this x y s. newrect this s) 0 0 MAX_DEPTH s"

section \<open>Rectangles as sets of points\<close>

definition pts :: "grect \<Rightarrow> (int \<times> int) set" where
  "pts g = {(x, y). g_x g \<le> x \<and> x < g_x g + g_w g \<and> g_y g \<le> y \<and> y < g_y g + g_h g}"

text \<open>A rectangle that is not empty and whose sides and differences of them fit in a word.\<close>

definition rc_ok :: "grect \<Rightarrow> bool" where
  "rc_ok g \<longleftrightarrow> 0 < g_w g \<and> 0 < g_h g \<and> - 16384 \<le> g_x g \<and> - 16384 \<le> g_y g
     \<and> g_x g + g_w g < 16384 \<and> g_y g + g_h g < 16384"

lemma rc_ok_sides: "rc_ok g \<Longrightarrow> right g = g_x g + g_w g \<and> bottom g = g_y g + g_h g"
  by (simp add: rc_ok_def right_def bottom_def)

lemma in_pts: "(x, y) \<in> pts g \<longleftrightarrow> g_x g \<le> x \<and> x < g_x g + g_w g \<and> g_y g \<le> y \<and> y < g_y g + g_h g"
  by (simp add: pts_def)

lemma inside_pts: "rc_ok g \<Longrightarrow> inside x y g \<longleftrightarrow> (x, y) \<in> pts g"
  by (auto simp: inside_def in_pts rc_ok_sides)

lemma overlap_pts:
  assumes "rc_ok a" "rc_ok b"
  shows "overlap a b \<longleftrightarrow> pts a \<inter> pts b \<noteq> {}"
proof
  assume "overlap a b"
  then have "(max (g_x a) (g_x b), max (g_y a) (g_y b)) \<in> pts a \<inter> pts b"
    using assms rc_ok_sides [OF assms(1)] rc_ok_sides [OF assms(2)] by (auto simp: overlap_def in_pts rc_ok_def)
  then show "pts a \<inter> pts b \<noteq> {}" by blast
next
  assume "pts a \<inter> pts b \<noteq> {}"
  then show "overlap a b" using rc_ok_sides [OF assms(1)] rc_ok_sides [OF assms(2)] by (auto simp: overlap_def in_pts)
qed

lemma rc_intersect_pts:
  assumes "rc_ok a" "rc_ok b"
  shows "fst (rc_intersect a b) \<longleftrightarrow> pts a \<inter> pts b \<noteq> {}" "pts (snd (rc_intersect a b)) = pts a \<inter> pts b"
    "fst (rc_intersect a b) \<Longrightarrow> rc_ok (snd (rc_intersect a b))"
proof -
  note S = rc_ok_sides [OF assms(1)] rc_ok_sides [OF assms(2)]
  show "fst (rc_intersect a b) \<longleftrightarrow> pts a \<inter> pts b \<noteq> {}"
    unfolding overlap_pts [OF assms, symmetric] using assms S
    by (auto simp: rc_intersect_def overlap_def rc_ok_def Let_def)
  show "pts (snd (rc_intersect a b)) = pts a \<inter> pts b"
    using assms S by (auto simp: rc_intersect_def in_pts rc_ok_def Let_def min_def max_def)
  show "fst (rc_intersect a b) \<Longrightarrow> rc_ok (snd (rc_intersect a b))"
    using assms S by (auto simp: rc_intersect_def rc_ok_def Let_def min_def max_def)
qed

text \<open>The pieces of a broken rectangle are its points outside the other one, each in one piece.\<close>

definition pieces :: "grect \<Rightarrow> grect \<Rightarrow> grect list" where
  "pieces new r = map (\<lambda>i. piece i new r) (filter (\<lambda>i. have_piece i new r) [TOP, LEFT, RIGHT, BOTTOM])"

lemma piece_ok:
  assumes "rc_ok a" "rc_ok b" "overlap a b" "have_piece i a b"
  shows "rc_ok (piece i a b)"
  using assms rc_ok_sides [OF assms(1)] rc_ok_sides [OF assms(2)]
  by (cases i) (simp_all add: piece_def have_piece_def overlap_def rc_ok_def Let_def min_def max_def)


lemma piece_pts:
  assumes "rc_ok a" "rc_ok b" "overlap a b"
  shows "have_piece TOP a b \<Longrightarrow> pts (piece TOP a b) = {v \<in> pts b. snd v < g_y a}"
    "have_piece LEFT a b \<Longrightarrow> pts (piece LEFT a b) = {v \<in> pts b. g_y a \<le> snd v \<and> snd v < g_y a + g_h a \<and> fst v < g_x a}"
    "have_piece RIGHT a b \<Longrightarrow> pts (piece RIGHT a b)
      = {v \<in> pts b. g_y a \<le> snd v \<and> snd v < g_y a + g_h a \<and> g_x a + g_w a \<le> fst v}"
    "have_piece BOTTOM a b \<Longrightarrow> pts (piece BOTTOM a b) = {v \<in> pts b. g_y a + g_h a \<le> snd v}"
  using assms rc_ok_sides [OF assms(1)] rc_ok_sides [OF assms(2)]
  by (auto simp: pts_def piece_def have_piece_def overlap_def rc_ok_def Let_def min_def max_def)

text \<open>The points a side stands for, whether or not there is a piece.\<close>

definition side_pts :: "grect \<Rightarrow> grect \<Rightarrow> side \<Rightarrow> (int \<times> int) set" where
  "side_pts a b i = {v \<in> pts b. case i of TOP \<Rightarrow> snd v < g_y a | BOTTOM \<Rightarrow> g_y a + g_h a \<le> snd v
     | LEFT \<Rightarrow> g_y a \<le> snd v \<and> snd v < g_y a + g_h a \<and> fst v < g_x a
     | RIGHT \<Rightarrow> g_y a \<le> snd v \<and> snd v < g_y a + g_h a \<and> g_x a + g_w a \<le> fst v}"

lemma side_pts:
  assumes "rc_ok a" "rc_ok b" "overlap a b"
  shows "have_piece i a b \<Longrightarrow> pts (piece i a b) = side_pts a b i" "\<not> have_piece i a b \<Longrightarrow> side_pts a b i = {}"
proof -
  show "have_piece i a b \<Longrightarrow> pts (piece i a b) = side_pts a b i"
    by (cases i) (simp_all add: side_pts_def piece_pts [OF assms])
  show "\<not> have_piece i a b \<Longrightarrow> side_pts a b i = {}"
    using rc_ok_sides [OF assms(1)] rc_ok_sides [OF assms(2)]
    by (cases i) (auto simp: side_pts_def have_piece_def pts_def)
qed

lemma pieces_pts:
  assumes "rc_ok a" "rc_ok b" "overlap a b"
  shows "(\<Union>g \<in> set (pieces a b). pts g) = pts b - pts a"
proof -
  have "(\<Union>g \<in> set (pieces a b). pts g) = (\<Union>i \<in> {TOP, LEFT, RIGHT, BOTTOM}. side_pts a b i)"
    using side_pts [OF assms] by (auto simp: pieces_def)
  also have "\<dots> = pts b - pts a"
    using assms(1) by (auto simp: side_pts_def pts_def rc_ok_def)
  finally show ?thesis .
qed

text \<open>A list of rectangles without common points.\<close>

fun apart :: "grect list \<Rightarrow> bool" where
  "apart [] \<longleftrightarrow> True"
| "apart (g # gs) \<longleftrightarrow> (\<forall>h \<in> set gs. pts g \<inter> pts h = {}) \<and> apart gs"

definition cover :: "grect list \<Rightarrow> (int \<times> int) set" where
  "cover gs = (\<Union>g \<in> set gs. pts g)"

lemma cover_simps [simp]: "cover [] = {}" "cover (g # gs) = pts g \<union> cover gs" "cover (xs @ ys) = cover xs \<union> cover ys"
  by (auto simp: cover_def)

lemma apart_append: "apart (xs @ ys) \<longleftrightarrow> apart xs \<and> apart ys \<and> cover xs \<inter> cover ys = {}"
  by (induction xs) (auto simp: cover_def)

lemma pieces_apart:
  assumes "rc_ok a" "rc_ok b" "overlap a b"
  shows "apart (pieces a b)" "cover (pieces a b) = pts b - pts a" "\<forall>g \<in> set (pieces a b). rc_ok g"
proof -
  have "apart (map (\<lambda>i. piece i a b) (filter (\<lambda>i. have_piece i a b) is))"
    if "distinct is" for "is"
    using that
  proof (induction "is")
    case (Cons i "is")
    have "side_pts a b i \<inter> side_pts a b j = {}" if "j \<noteq> i" for j
      using that assms(1) by (cases i; cases j) (auto simp: side_pts_def rc_ok_def)
    then have "\<forall>j \<in> set is. side_pts a b i \<inter> side_pts a b j = {}" using Cons.prems by (metis distinct.simps(2))
    then show ?case using Cons side_pts(1) [OF assms] by auto
  qed simp
  note A = this
  show "apart (pieces a b)" unfolding pieces_def by (rule A) simp
  show "cover (pieces a b) = pts b - pts a" using pieces_pts [OF assms] by (simp add: cover_def)
  show "\<forall>g \<in> set (pieces a b). rc_ok g" using piece_ok [OF assms] by (auto simp: pieces_def)
qed

section \<open>The pool and the lists\<close>

text \<open>
  \<open>owns s W L F\<close>: the records of each window \<open>w\<close> of \<open>W\<close> are \<open>L w\<close>, in this order, the free records
  are \<open>F\<close>, and no record is in two places.
\<close>

definition owns :: "wrects \<Rightarrow> int set \<Rightarrow> (int \<Rightarrow> nat list) \<Rightarrow> nat list \<Rightarrow> bool" where
  "owns s W L F \<longleftrightarrow> chain (o_link s) (rul s) F
     \<and> (\<forall>w \<in> W. chain (o_link s) (w_rlist s w) (L w) \<and> set (L w) \<inter> set F = {})
     \<and> (\<forall>v \<in> W. \<forall>w \<in> W. v \<noteq> w \<longrightarrow> set (L v) \<inter> set (L w) = {})"

abbreviation rects :: "wrects \<Rightarrow> nat list \<Rightarrow> grect list" where
  "rects s rs \<equiv> map (o_gr s) rs"

text \<open>Changes that concern one window only.\<close>

lemma owns_change:
  assumes o: "owns s W L F" and w: "w \<in> W"
    and new: "chain (o_link s') (w_rlist s' w) rs" "chain (o_link s') (rul s') F'" "set rs \<inter> set F' = {}"
    and only: "set rs \<union> set F' \<subseteq> set (L w) \<union> set F"
    and same: "\<forall>v. v \<noteq> w \<longrightarrow> w_rlist s' v = w_rlist s v" "\<forall>r. r \<notin> set (L w) \<union> set F \<longrightarrow> o_link s' r = o_link s r"
  shows "owns s' W (L(w := rs)) F'"
proof -
  have others: "\<forall>r \<in> set (L v). r \<notin> set (L w) \<union> set F" if "v \<in> W" "v \<noteq> w" for v
    using o w that unfolding owns_def by blast
  have "chain (o_link s') (w_rlist s' v) (L v)" if v: "v \<in> W" "v \<noteq> w" for v
  proof -
    have "chain (o_link s) (w_rlist s v) (L v)" using o v by (simp add: owns_def)
    moreover have "chain (o_link s') (w_rlist s v) (L v) = chain (o_link s) (w_rlist s v) (L v)"
      using others [OF v] same(2) by (intro seg_cong) blast
    ultimately show ?thesis using same(1) v by simp
  qed
  moreover have "set (L v) \<inter> set F' = {}" "set (L v) \<inter> set rs = {}" "set rs \<inter> set (L v) = {}" if "v \<in> W" "v \<noteq> w" for v
    using others [OF that] only by blast+
  ultimately show ?thesis using o w new unfolding owns_def by auto
qed

lemma ownsD:
  assumes "owns s W L F" "w \<in> W"
  shows "chain (o_link s) (w_rlist s w) (L w)" "set (L w) \<inter> set F = {}" "chain (o_link s) (rul s) F"
  using assms unfolding owns_def by blast+

lemma brkrct_step:
  assumes o: "owns s W (L(w := as @ r # bs)) (n # F)" and w: "w \<in> W"
    and m: "mkpiece i new r s = Some (rl, s1)"
  shows "rl = n" "owns (set_olink w (last0 as) rl s1) W (L(w := as @ n # r # bs)) F"
    "o_gr s1 = (o_gr s)(n := piece i new (o_gr s r))"
proof -
  note F = ownsD(3) [OF o w]
  then have n: "rul s = n" "n \<noteq> 0" by auto
  from m n have s1: "rl = n" "s1 = s\<lparr>rul := o_link s n, o_link := (o_link s)(n := r), o_gr := (o_gr s)(n := piece i new (o_gr s r))\<rparr>"
    by (auto simp: mkpiece_def get_orect_def Let_def)
  show "rl = n" "o_gr s1 = (o_gr s)(n := piece i new (o_gr s r))" using s1 by simp_all
  have c: "chain (o_link s) (w_rlist s w) (as @ r # bs)" "set (as @ r # bs) \<inter> set (n # F) = {}"
    using ownsD(1,2) [OF o w] by simp_all
  obtain h nx where h: "relink (last0 as) n (w_rlist s w, (o_link s)(n := hd0 (r # bs))) = (h, nx)" by (cases "relink (last0 as) n (w_rlist s w, (o_link s)(n := hd0 (r # bs)))")
  have new: "chain nx h (as @ n # r # bs)"
    using c n by (intro relink_insert [OF c(1) _ _ _ h]) auto
  have s': "set_olink w (last0 as) rl s1 = s1\<lparr>w_rlist := (w_rlist s)(w := h), o_link := nx\<rparr>"
    using h s1 by (simp add: set_olink_def)
  have nx: "nx q = o_link s q" if "q \<notin> set (as @ r # bs) \<union> {n}" for q
  proof -
    have "last0 as \<noteq> 0 \<Longrightarrow> last0 as \<in> set as" by (cases as rule: rev_cases) simp_all
    then show ?thesis using h that by (auto simp: relink_def split: if_splits)
  qed
  have "chain nx (o_link s n) F"
  proof -
    have "chain (o_link s) (o_link s n) F" using F unfolding seg.simps by blast
    moreover have "n \<notin> set F" using chain_distinct [OF F] by simp
    moreover have "nx q = o_link s q" if "q \<in> set F" for q
      using c(2) that \<open>n \<notin> set F\<close> by (intro nx) auto
    ultimately show ?thesis by (subst seg_cong [of _ nx "o_link s"]) auto
  qed
  then show "owns (set_olink w (last0 as) rl s1) W (L(w := as @ n # r # bs)) F"
    using owns_change [OF o w, of "set_olink w (last0 as) rl s1" "as @ n # r # bs" F] new c chain_distinct [OF F] nx s1
    unfolding s' by auto
qed


text \<open>All pieces of one rectangle.\<close>

lemma last0_snoc [simp]: "last0 (xs @ [x]) = x"
  by simp

lemma brkrct_loop_owns:
  assumes "owns s W (L(w := as @ r # bs)) F" "w \<in> W" "length is \<le> length F" "o_gr s r = gr" "r \<notin> set F"
  shows "\<exists>ns F' s'. brkrct_loop w new r gr is (last0 as) s = Some (last0 (as @ ns), s')
    \<and> owns s' W (L(w := as @ ns @ r # bs)) F' \<and> F = ns @ F'
    \<and> rects s' ns = map (\<lambda>i. piece i new gr) (filter (\<lambda>i. have_piece i new gr) is)
    \<and> (\<forall>q. q \<notin> set ns \<longrightarrow> o_gr s' q = o_gr s q) \<and> w_tree s' = w_tree s \<and> gl_mkrect s' = gl_mkrect s
    \<and> w_flags s' = w_flags s"
  using assms
proof (induction "is" arbitrary: s as F)
  case Nil
  then show ?case by (intro exI [of _ "[]"] exI [of _ F] exI [of _ s]) simp
next
  case (Cons i "is")
  show ?case
  proof (cases "have_piece i new gr")
    case False
    then show ?thesis using Cons.IH [OF Cons.prems(1,2) _ Cons.prems(4,5)] Cons.prems(3) by simp
  next
    case True
    obtain n F1 where F: "F = n # F1" using Cons.prems(3) by (cases F) auto
    note F3 = ownsD(3) [OF Cons.prems(1,2)]
    have n: "rul s = n" "n \<noteq> 0" "n \<notin> set F1" using F3 chain_distinct [OF F3] F by auto
    obtain s1 where m: "mkpiece i new r s = Some (n, s1)" "w_tree s1 = w_tree s" "gl_mkrect s1 = gl_mkrect s" "w_flags s1 = w_flags s"
      using n by (simp add: mkpiece_def get_orect_def Let_def)
    let ?s = "set_olink w (last0 as) n s1"
    note B = brkrct_step [OF Cons.prems(1) [unfolded F] Cons.prems(2) m(1)]
    have sel: "o_gr ?s = o_gr s1" "w_tree ?s = w_tree s" "gl_mkrect ?s = gl_mkrect s" "w_flags ?s = w_flags s"
      using m by (simp_all add: set_olink_def split: prod.splits)
    have gr: "o_gr ?s r = gr" using B(3) sel Cons.prems(4,5) F by simp
    have ow: "owns ?s W (L(w := (as @ [n]) @ r # bs)) F1" using B(2) by simp
    have len: "length is \<le> length F1" "r \<notin> set F1" using Cons.prems(3,5) F by simp_all
    from Cons.IH [OF ow Cons.prems(2) len(1) gr len(2)] obtain ns F' s' where s': "brkrct_loop w new r gr is (last0 (as @ [n])) ?s = Some (last0 ((as @ [n]) @ ns), s')"
      "owns s' W (L(w := (as @ [n]) @ ns @ r # bs)) F'" "F1 = ns @ F'"
      "rects s' ns = map (\<lambda>i. piece i new gr) (filter (\<lambda>i. have_piece i new gr) is)"
      "\<forall>q. q \<notin> set ns \<longrightarrow> o_gr s' q = o_gr ?s q" "w_tree s' = w_tree ?s" "gl_mkrect s' = gl_mkrect ?s" "w_flags s' = w_flags ?s"
      by blast
    have "o_gr s' n = piece i new gr" using s'(3,5) n(3) sel B(3) Cons.prems(4) by auto
    note g = this
    have e: "owns s' W (L(w := as @ (n # ns) @ r # bs)) F'"
      using s'(2) by (simp only: append.assoc append_Cons append_Nil)
    show ?thesis
    proof (rule exI [of _ "n # ns"], rule exI [of _ F'], rule exI [of _ s'], intro conjI e)
    qed (use g s'(1,3-8) True m(1) F sel B(3) in auto)
  qed
qed

text \<open>Breaking one rectangle of a window.\<close>

lemma brkrct_owns:
  assumes "owns s W (L(w := as @ r # bs)) F" "w \<in> W" "4 \<le> length F" "overlap new (o_gr s r)"
  obtains ns F' s' where "brkrct w new r (last0 as) s = Some (Some (last0 (as @ ns)), s')"
    "owns s' W (L(w := as @ ns @ bs)) F'" "length F \<le> length F' + 3" "rects s' ns = pieces new (o_gr s r)"
    "\<forall>q. q \<notin> set F \<longrightarrow> o_gr s' q = o_gr s q" "w_tree s' = w_tree s" "gl_mkrect s' = gl_mkrect s"
    "set ns \<subseteq> set F" "set F' \<subseteq> insert r (set F)"
proof -
  let ?gr = "o_gr s r"
  note O = ownsD [OF assms(1,2)]
  have r: "r \<notin> set F" "r \<noteq> 0" "r \<notin> set as" "r \<notin> set bs" using O(1,2) chain_distinct [OF O(1)] seg_nonzero [OF O(1)] by auto
  obtain ns F1 s1 where L: "brkrct_loop w new r ?gr [TOP, LEFT, RIGHT, BOTTOM] (last0 as) s = Some (last0 (as @ ns), s1)"
    "owns s1 W (L(w := as @ ns @ r # bs)) F1" "F = ns @ F1"
    "rects s1 ns = map (\<lambda>i. piece i new ?gr) (filter (\<lambda>i. have_piece i new ?gr) [TOP, LEFT, RIGHT, BOTTOM])"
    "\<forall>q. q \<notin> set ns \<longrightarrow> o_gr s1 q = o_gr s q" "w_tree s1 = w_tree s" "gl_mkrect s1 = gl_mkrect s"
    using brkrct_loop_owns [OF assms(1,2) _ refl r(1), of "[TOP, LEFT, RIGHT, BOTTOM]" new] assms(3) by auto
  have len: "length F \<le> length (r # F1) + 3"
  proof -
    have "length ns = length (rects s1 ns)" by simp
    also have "\<dots> \<le> 4" unfolding L(4) by simp
    finally show ?thesis using L(3) by simp
  qed
  have same: "(as @ ns) @ r # bs = as @ ns @ r # bs" by simp
  note O1 = ownsD [OF L(2) assms(2)]
  obtain h nx where h: "relink (last0 (as @ ns)) (o_link s1 r) (w_rlist s1 w, o_link s1) = (h, nx)"
    by (cases "relink (last0 (as @ ns)) (o_link s1 r) (w_rlist s1 w, o_link s1)")
  let ?s = "s1\<lparr>w_rlist := (w_rlist s1)(w := h), o_link := nx(r := rul s1), rul := r\<rparr>"
  have b: "brkrct w new r (last0 as) s = Some (Some (last0 (as @ ns)), ?s)"
    using assms(4) L(1) h by (simp add: brkrct_def set_olink_def Let_def)
  have c: "chain nx h ((as @ ns) @ bs)"
    by (rule relink_snip [OF _ h]) (use O1(1) in simp)
  have r1: "r \<notin> set ns" "r \<notin> set F1" using r L(3) by auto
  have nx: "nx q = o_link s1 q" if "q \<notin> set (as @ ns)" for q
    using h that by (cases "as @ ns" rule: rev_cases) (auto simp: relink_def split: if_splits)
  have F1: "chain nx (rul s1) F1"
    using O1(2,3) nx by (subst seg_cong [of _ nx "o_link s1"]) auto
  have o: "owns ?s W ((L(w := as @ ns @ r # bs))(w := as @ ns @ bs)) (r # F1)"
  proof (rule owns_change [OF L(2) assms(2)])
    show "chain (o_link ?s) (w_rlist ?s w) (as @ ns @ bs)" using c r r1 by (simp add: seg_frame)
    show "chain (o_link ?s) (rul ?s) (r # F1)" using F1 r r1 by (simp add: seg_frame)
    show "set (as @ ns @ bs) \<inter> set (r # F1) = {}" using O1(2) r r1 by auto
    show "\<forall>q. q \<notin> set ((L(w := as @ ns @ r # bs)) w) \<union> set F1 \<longrightarrow> o_link ?s q = o_link s1 q" using nx by auto
  qed auto
  show thesis
  proof (rule that [OF b _ len])
    show "owns ?s W (L(w := as @ ns @ bs)) (r # F1)" using o by (simp only: fun_upd_upd)
    show "rects ?s ns = pieces new (o_gr s r)" using L(4) by (simp add: pieces_def)
    show "\<forall>q. q \<notin> set F \<longrightarrow> o_gr ?s q = o_gr s q" using L(3,5) by simp
  qed (use L in auto)
qed


lemma map_cong_sel: "(\<And>q. q \<in> set xs \<Longrightarrow> o_gr s' q = o_gr s q) \<Longrightarrow> rects s' xs = rects s xs"
  by simp

text \<open>Breaking all rectangles of a window from some point of its list on.\<close>

lemma mkrect_loop_owns:
  assumes "owns s W (L(w := as @ rs)) F" "w \<in> W" "4 * length rs \<le> length F" "rc_ok (gl_mkrect s)"
    and "\<forall>r \<in> set rs. rc_ok (o_gr s r)"
  shows "\<exists>ns F' s'. mkrect_loop w (hd0 rs) (last0 as) s = Some s' \<and> owns s' W (L(w := as @ ns)) F'
    \<and> length F \<le> length F' + 3 * length rs \<and> length ns \<le> 4 * length rs
    \<and> cover (rects s' ns) = cover (rects s rs) - pts (gl_mkrect s) \<and> (\<forall>r \<in> set ns. rc_ok (o_gr s' r))
    \<and> (apart (rects s rs) \<longrightarrow> apart (rects s' ns))
    \<and> (\<forall>q. q \<notin> set F \<union> set rs \<longrightarrow> o_gr s' q = o_gr s q) \<and> w_tree s' = w_tree s \<and> gl_mkrect s' = gl_mkrect s"
  using assms
proof (induction rs arbitrary: as s F)
  case Nil
  have "mkrect_loop w (hd0 []) (last0 as) s = Some s" by (simp add: mkrect_loop.simps)
  then show ?case using Nil.prems(1)
    by - (rule exI [of _ "[]"], rule exI [of _ F], rule exI [of _ s], simp)
next
  case (Cons r rs)
  note ow = ownsD [OF Cons.prems(1,2)]
  have c: "chain (o_link s) (w_rlist s w) (as @ r # rs)" "set (as @ r # rs) \<inter> set F = {}" using ow(1,2) by simp_all
  have r: "r \<noteq> 0" "r \<notin> set rs" using seg_nonzero [OF c(1)] chain_distinct [OF c(1)] by auto
  have okr: "rc_ok (o_gr s r)" using Cons.prems(5) by simp
  show ?case
  proof (cases "overlap (gl_mkrect s) (o_gr s r)")
    case False
    then have disj: "pts (gl_mkrect s) \<inter> pts (o_gr s r) = {}"
      using overlap_pts [OF Cons.prems(4) okr] by blast
    have step: "mkrect_loop w (hd0 (r # rs)) (last0 as) s = mkrect_loop w (hd0 rs) (last0 (as @ [r])) s"
      using False r c(1) chain_next [OF c(1)] by (subst mkrect_loop.simps) (simp add: brkrct_def)
    have ih: "owns s W (L(w := (as @ [r]) @ rs)) F"
      using Cons.prems(1) by (simp only: append.assoc append_Cons append_Nil)
    have "4 * length rs \<le> length F" "\<forall>q \<in> set rs. rc_ok (o_gr s q)"
      using Cons.prems by simp_all
    from Cons.IH [OF ih Cons.prems(2) this(1) Cons.prems(4) this(2)]
    obtain ns F' s' where n: "mkrect_loop w (hd0 rs) (last0 (as @ [r])) s = Some s'" "owns s' W (L(w := (as @ [r]) @ ns)) F'"
      "length F \<le> length F' + 3 * length rs" "length ns \<le> 4 * length rs"
      "cover (rects s' ns) = cover (rects s rs) - pts (gl_mkrect s)" "\<forall>r \<in> set ns. rc_ok (o_gr s' r)"
      "apart (rects s rs) \<longrightarrow> apart (rects s' ns)"
      "\<forall>q. q \<notin> set F \<union> set rs \<longrightarrow> o_gr s' q = o_gr s q" "w_tree s' = w_tree s" "gl_mkrect s' = gl_mkrect s" by blast
    have gr: "o_gr s' r = o_gr s r" using n(8) r c(2) by auto
    have e: "owns s' W (L(w := as @ r # ns)) F'" using n(2) by (simp only: append.assoc append_Cons append_Nil)
    have ap: "apart (rects s (r # rs)) \<longrightarrow> apart (rects s' (r # ns))"
    proof
      assume a: "apart (rects s (r # rs))"
      then have d: "pts (o_gr s r) \<inter> cover (rects s rs) = {}" by (auto simp: cover_def)
      have "pts (o_gr s r) \<inter> pts g = {}" if "g \<in> set (rects s' ns)" for g
      proof -
        have "pts g \<subseteq> cover (rects s' ns)" using that unfolding cover_def by blast
        also have "\<dots> \<subseteq> cover (rects s rs)" unfolding n(5) by blast
        finally show ?thesis using d by blast
      qed
      then show "apart (rects s' (r # ns))" using a n(7) gr by auto
    qed
    show ?thesis
    proof (rule exI [of _ "r # ns"], rule exI [of _ F'], rule exI [of _ s'], intro conjI e ap)
      show "mkrect_loop w (hd0 (r # rs)) (last0 as) s = Some s'" using n(1) step by simp
      show "cover (rects s' (r # ns)) = cover (rects s (r # rs)) - pts (gl_mkrect s)" using n(5) gr disj by auto
    qed (use n gr okr in auto)
  next
    case True
    have "4 \<le> length F" using Cons.prems(3) by simp
    note cap = this
    obtain ns F1 s1 where b: "brkrct w (gl_mkrect s) r (last0 as) s = Some (Some (last0 (as @ ns)), s1)"
      "owns s1 W (L(w := as @ ns @ rs)) F1" "length F \<le> length F1 + 3" "rects s1 ns = pieces (gl_mkrect s) (o_gr s r)"
      "\<forall>q. q \<notin> set F \<longrightarrow> o_gr s1 q = o_gr s q" "w_tree s1 = w_tree s" "gl_mkrect s1 = gl_mkrect s"
      "set ns \<subseteq> set F" "set F1 \<subseteq> insert r (set F)" by (rule brkrct_owns [OF Cons.prems(1,2) cap True])
    let ?s = "s1\<lparr>w_flags := (w_flags s1)(w := w_flags s1 w OR VF_BROKEN)\<rparr>"
    have c1: "chain (o_link s1) (w_rlist s1 w) ((as @ ns) @ rs)" using ownsD(1) [OF b(2) Cons.prems(2)] by simp
    have nxt: "get_olink w (last0 (as @ ns)) s1 = hd0 rs"
    proof (cases "as @ ns" rule: rev_cases)
      case Nil
      then show ?thesis using c1 chain_hd0 by (simp add: get_olink_def)
    next
      case (snoc xs x)
      then have "o_link s1 x = hd0 rs" "x \<noteq> 0" using c1 chain_next [of _ _ xs x rs] seg_nonzero [OF c1] by auto
      then show ?thesis unfolding snoc by (simp add: get_olink_def)
    qed
    have step: "mkrect_loop w (hd0 (r # rs)) (last0 as) s = mkrect_loop w (hd0 rs) (last0 (as @ ns)) ?s"
      using r b(1) nxt by (subst mkrect_loop.simps) simp
    have rs: "\<forall>q \<in> set rs. o_gr s1 q = o_gr s q" using b(5) c(2) by auto
    then have rsm: "rects s1 rs = rects s rs" by simp
    have "owns ?s W (L(w := (as @ ns) @ rs)) F1" using b(2) by (simp add: owns_def)
    moreover have "4 * length rs \<le> length F1" using b(3) Cons.prems(3) by simp
    moreover have "rc_ok (gl_mkrect ?s)" "\<forall>q \<in> set rs. rc_ok (o_gr ?s q)" using Cons.prems(4,5) b(7) rs by simp_all
    ultimately obtain ms F' s' where n: "mkrect_loop w (hd0 rs) (last0 (as @ ns)) ?s = Some s'" "owns s' W (L(w := (as @ ns) @ ms)) F'"
      "length F1 \<le> length F' + 3 * length rs" "length ms \<le> 4 * length rs"
      "cover (rects s' ms) = cover (rects ?s rs) - pts (gl_mkrect ?s)" "\<forall>r \<in> set ms. rc_ok (o_gr s' r)"
      "apart (rects ?s rs) \<longrightarrow> apart (rects s' ms)"
      "\<forall>q. q \<notin> set F1 \<union> set rs \<longrightarrow> o_gr s' q = o_gr ?s q" "w_tree s' = w_tree ?s" "gl_mkrect s' = gl_mkrect ?s"
      using Cons.IH [of ?s "as @ ns" F1] Cons.prems(2) by blast
    note P = pieces_apart [OF Cons.prems(4) okr True]
    have "set ns \<inter> (set F1 \<union> set rs) = {}"
      using ownsD(2) [OF b(2) Cons.prems(2)] chain_distinct [OF c1] by auto
    then have "rects s' ns = rects s1 ns" using n(8) by (intro map_cong_sel) auto
    then have ns: "rects s' ns = pieces (gl_mkrect s) (o_gr s r)" using b(4) by simp
    have cov: "cover (rects s' (ns @ ms)) = cover (rects s (r # rs)) - pts (gl_mkrect s)"
      using n(5) P(2) by (simp add: ns rsm b(7)) blast
    have ap: "apart (rects s (r # rs)) \<longrightarrow> apart (rects s' (ns @ ms))"
    proof
      assume a: "apart (rects s (r # rs))"
      then have "pts (o_gr s r) \<inter> cover (rects s rs) = {}" by (auto simp: cover_def)
      then have "cover (rects s' ns) \<inter> cover (rects s' ms) = {}" using n(5) P(2) by (auto simp: ns rsm)
      then show "apart (rects s' (ns @ ms))" using a n(7) P(1) by (simp add: apart_append ns rsm)
    qed
    have len: "length ns \<le> 4"
      using arg_cong [OF b(4), of length] by (simp add: pieces_def)
    have okn: "\<forall>q \<in> set ns. rc_ok (o_gr s' q)" using P(3) ns by (metis image_eqI list.set_map)
    have e: "owns s' W (L(w := as @ ns @ ms)) F'" using n(2) by (simp only: append.assoc)
    show ?thesis
    proof (rule exI [of _ "ns @ ms"], rule exI [of _ F'], rule exI [of _ s'], intro conjI e ap cov)
      show "mkrect_loop w (hd0 (r # rs)) (last0 as) s = Some s'" using n(1) step by simp
      show "\<forall>q. q \<notin> set F \<union> set (r # rs) \<longrightarrow> o_gr s' q = o_gr s q" using n(8) b(5,9) by auto
    qed (use n b okn len in auto)
  qed
qed


section \<open>The lists of all windows\<close>

text \<open>Well-formed lists, each of rectangles without common points, and what they cover.\<close>

definition good :: "wrects \<Rightarrow> int set \<Rightarrow> (int \<Rightarrow> nat list) \<Rightarrow> nat list \<Rightarrow> bool" where
  "good s W L F \<longleftrightarrow> owns s W L F \<and> (\<forall>v \<in> W. apart (rects s (L v)) \<and> (\<forall>r \<in> set (L v). rc_ok (o_gr s r)))"

abbreviation region :: "wrects \<Rightarrow> (int \<Rightarrow> nat list) \<Rightarrow> int \<Rightarrow> (int \<times> int) set" where
  "region s L v \<equiv> cover (rects s (L v))"

lemma goodD:
  assumes "good s W L F"
  shows "owns s W L F" "v \<in> W \<Longrightarrow> apart (rects s (L v))" "v \<in> W \<Longrightarrow> \<forall>r \<in> set (L v). rc_ok (o_gr s r)"
  using assms by (auto simp: good_def)

lemma owns_disjoint: "owns s W L F \<Longrightarrow> v \<in> W \<Longrightarrow> w \<in> W \<Longrightarrow> v \<noteq> w \<Longrightarrow> set (L v) \<inter> (set F \<union> set (L w)) = {}"
  unfolding owns_def by blast

lemma mkrect_good:
  assumes g: "good s W L F" and w: "w \<in> W" and cap: "4 * length (L w) \<le> length F" and new: "rc_ok (gl_mkrect s)"
  obtains L' F' s' where "mkrect w s = Some s'" "good s' W L' F'" "\<forall>v. v \<noteq> w \<longrightarrow> L' v = L v"
    "length F \<le> length F' + 3 * length (L w)" "length (L' w) \<le> 4 * length (L w)"
    "\<forall>v \<in> W. region s' L' v = (if v = w then region s L v - pts (gl_mkrect s) else region s L v)"
    "w_tree s' = w_tree s" "gl_mkrect s' = gl_mkrect s"
proof -
  note G = goodD [OF g]
  have o: "owns s W (L(w := [] @ L w)) F" using G(1) by simp
  have hd: "hd0 (L w) = w_rlist s w" using chain_hd0 [OF ownsD(1) [OF G(1) w]] by simp
  from mkrect_loop_owns [OF o w cap new G(3) [OF w]]
  obtain ns F' s' where n: "mkrect w s = Some s'" "owns s' W (L(w := ns)) F'"
    "length F \<le> length F' + 3 * length (L w)" "length ns \<le> 4 * length (L w)"
    "cover (rects s' ns) = cover (rects s (L w)) - pts (gl_mkrect s)" "\<forall>r \<in> set ns. rc_ok (o_gr s' r)"
    "apart (rects s (L w)) \<longrightarrow> apart (rects s' ns)"
    "\<forall>q. q \<notin> set F \<union> set (L w) \<longrightarrow> o_gr s' q = o_gr s q" "w_tree s' = w_tree s" "gl_mkrect s' = gl_mkrect s"
    unfolding mkrect_def hd by auto
  have same: "\<forall>r \<in> set (L v). o_gr s' r = o_gr s r" if "v \<in> W" "v \<noteq> w" for v
    using owns_disjoint [OF G(1) that(1) w that(2)] n(8) by blast
  then have rs: "rects s' (L v) = rects s (L v)" if "v \<in> W" "v \<noteq> w" for v
    using that by simp
  have "good s' W (L(w := ns)) F'"
    unfolding good_def
  proof (intro conjI ballI n(2))
    fix v assume v: "v \<in> W"
    show "apart (rects s' ((L(w := ns)) v))"
    proof (cases "v = w")
      case True
      then show ?thesis using n(7) G(2) [OF w] by (simp only: True fun_upd_same simp_thms)
    next
      case False
      then show ?thesis using G(2) [OF v] rs [OF v False] by (simp only: fun_upd_other [OF False])
    qed
    show "rc_ok (o_gr s' r)" if "r \<in> set ((L(w := ns)) v)" for r
      using n(6) G(3) [OF v] same [OF v] that by (cases "v = w") auto
  qed
  moreover have "\<forall>v \<in> W. region s' (L(w := ns)) v = (if v = w then region s L v - pts (gl_mkrect s) else region s L v)"
  proof
    fix v assume v: "v \<in> W"
    show "region s' (L(w := ns)) v = (if v = w then region s L v - pts (gl_mkrect s) else region s L v)"
    proof (cases "v = w")
      case True
      then show ?thesis using n(5) by (simp only: True fun_upd_same simp_thms if_True)
    next
      case False
      then show ?thesis using rs [OF v False] by (simp only: fun_upd_other [OF False] if_False)
    qed
  qed
  moreover have "\<forall>v. v \<noteq> w \<longrightarrow> (L(w := ns)) v = L v" "length ((L(w := ns)) w) \<le> 4 * length (L w)" using n(4) by simp_all
  ultimately show thesis using n(1,3,9,10) by (intro that)
qed

definition tot :: "(int \<Rightarrow> nat list) \<Rightarrow> int list \<Rightarrow> nat" where
  "tot L vs = sum_list (map (\<lambda>v. length (L v)) vs)"

lemma tot_simps [simp]: "tot L [] = 0" "tot L (v # vs) = length (L v) + tot L vs" "tot L (xs @ ys) = tot L xs + tot L ys"
  by (simp_all add: tot_def)

lemma tot_cong: "\<forall>v \<in> set vs. L' v = L v \<Longrightarrow> tot L' vs = tot L vs"
  by (induction vs) auto

lemma mkrects_good:
  assumes "good s W L F" "set vs \<subseteq> W" "distinct (map fst xs)" "map fst xs = vs" "4 * tot L vs \<le> length F" "rc_ok (gl_mkrect s)"
  shows "\<exists>L' F' s'. run_all (\<lambda>this x y. mkrect this) xs s = Some s' \<and> good s' W L' F'
    \<and> (\<forall>v. v \<notin> set vs \<longrightarrow> L' v = L v) \<and> length F \<le> length F' + 3 * tot L vs \<and> tot L' vs \<le> 4 * tot L vs
    \<and> (\<forall>v \<in> W. region s' L' v = (if v \<in> set vs then region s L v - pts (gl_mkrect s) else region s L v))
    \<and> w_tree s' = w_tree s \<and> gl_mkrect s' = gl_mkrect s"
  using assms
proof (induction xs arbitrary: s L F vs)
  case Nil
  then show ?case by - (rule exI [of _ L], rule exI [of _ F], rule exI [of _ s], simp)
next
  case (Cons x xs)
  obtain v a b where x: "x = (v, a, b)" by (cases x)
  let ?vs = "map fst xs"
  have vs1: "vs = v # ?vs" using Cons.prems(4) x by simp
  have vs: "vs = v # ?vs" "v \<in> W" "set ?vs \<subseteq> W" "v \<notin> set ?vs" "distinct ?vs"
    using Cons.prems(2,3) x vs1 by (simp_all del: set_map)
  have cap1: "4 * length (L v) \<le> length F" using Cons.prems(5) vs by simp
  obtain L1 F1 s1 where 1: "mkrect v s = Some s1" "good s1 W L1 F1" "\<forall>u. u \<noteq> v \<longrightarrow> L1 u = L u"
    "length F \<le> length F1 + 3 * length (L v)" "length (L1 v) \<le> 4 * length (L v)"
    "\<forall>u \<in> W. region s1 L1 u = (if u = v then region s L u - pts (gl_mkrect s) else region s L u)"
    "w_tree s1 = w_tree s" "gl_mkrect s1 = gl_mkrect s"
    by (rule mkrect_good [OF Cons.prems(1) vs(2) cap1 Cons.prems(6)])
  have t: "tot L1 ?vs = tot L ?vs" using 1(3) vs(4) by (intro tot_cong) auto
  have "4 * tot L1 ?vs \<le> length F1" using 1(4) t Cons.prems(5) vs(1) by simp
  note cap = this
  have "rc_ok (gl_mkrect s1)" using Cons.prems(6) 1(8) by simp
  from Cons.IH [OF 1(2) vs(3,5) refl cap this]
  obtain L' F' s' where 2: "run_all (\<lambda>this x y. mkrect this) xs s1 = Some s'" "good s' W L' F'" "\<forall>u. u \<notin> set ?vs \<longrightarrow> L' u = L1 u"
    "length F1 \<le> length F' + 3 * tot L1 ?vs" "tot L' ?vs \<le> 4 * tot L1 ?vs"
    "\<forall>u \<in> W. region s' L' u = (if u \<in> set ?vs then region s1 L1 u - pts (gl_mkrect s1) else region s1 L1 u)"
    "w_tree s' = w_tree s1" "gl_mkrect s' = gl_mkrect s1" by blast
  have "run_all (\<lambda>this x y. mkrect this) (x # xs) s = Some s'" using 1(1) 2(1) x by simp
  moreover have "length F \<le> length F' + 3 * tot L vs" using 1(4) 2(4) t vs(1) by simp
  moreover have "tot L' vs \<le> 4 * tot L vs" using 1(5) 2(3,5) t vs(1,4) by simp
  moreover have "\<forall>u. u \<notin> set vs \<longrightarrow> L' u = L u" using 1(3) 2(3) vs(1) by auto
  moreover have "\<forall>u \<in> W. region s' L' u = (if u \<in> set vs then region s L u - pts (gl_mkrect s) else region s L u)"
    using 1(6,8) 2(6) vs(1,4) by auto
  moreover have "w_tree s' = w_tree s" "gl_mkrect s' = gl_mkrect s" using 2(7,8) 1(7,8) by simp_all
  ultimately show ?case using 2(2) by - (rule exI [of _ L'], rule exI [of _ F'], rule exI [of _ s'], intro conjI)
qed


text \<open>
  The window tree: the desktop, object 0, with the open windows as its children, from the
  bottom to the top; every window has a size.
\<close>

definition win_tree :: "int list \<Rightarrow> onode" where
  "win_tree ws = Obj 0 (map (\<lambda>w. Obj w []) ws)"

definition windows_ok :: "wrects \<Rightarrow> int list \<Rightarrow> bool" where
  "windows_ok s ws \<longleftrightarrow> rep (w_tree s) (win_tree ws) \<and> distinct (0 # ws) \<and> NIL \<notin> set ws
     \<and> ob_flags (w_tree s 0) AND HIDETREE = 0 \<and> (\<forall>w \<in> set (0 # ws). rc_ok (w_getsize_true w s))"

lemma getsize_same: "w_tree s' = w_tree s \<Longrightarrow> w_getsize_true w s' = w_getsize_true w s"
  by (simp add: w_getsize_true_def)

lemma windows_ok_same: "w_tree s' = w_tree s \<Longrightarrow> windows_ok s' ws = windows_ok s ws"
  by (simp add: windows_ok_def getsize_same [of s' s])

text \<open>Over the windows, \<open>everyobj\<close> is a loop.\<close>

lemma everyobj_windows:
  assumes "windows_ok s ws"
  obtains xs where "everyobj (w_tree s) ROOT stop r 0 0 MAX_DEPTH = run_all r xs"
    "map fst xs = takeWhile (\<lambda>w. w \<noteq> stop) (0 # ws)"
proof -
  let ?P = "preorder (w_tree s) MAX_DEPTH 1 0 0 (win_tree ws)"
  have c: "concat (map objs (map (\<lambda>w. Obj w []) ws)) = ws" by (induction ws) simp_all
  have "everyobj (w_tree s) (num (win_tree ws)) stop r 0 0 MAX_DEPTH t = run_all r (takeWhile (\<lambda>v. fst v \<noteq> stop) ?P) t" for t
    using assms c by (intro everyobj_all) (auto simp: windows_ok_def win_tree_def NIL_def ROOT_def)
  then have e: "everyobj (w_tree s) ROOT stop r 0 0 MAX_DEPTH = run_all r (takeWhile (\<lambda>v. fst v \<noteq> stop) ?P)"
    by (simp add: fun_eq_iff win_tree_def ROOT_def)
  have m: "map fst (concat (map (preorder t d k px py) (map (\<lambda>w. Obj w []) vs))) = vs" for t d k px py vs
    by (induction vs) simp_all
  have "map fst ?P = 0 # ws"
    using assms by (simp add: win_tree_def windows_ok_def MAX_DEPTH_def m del: map_map)
  then have "map fst (takeWhile (\<lambda>v. fst v \<noteq> stop) ?P) = takeWhile (\<lambda>w. w \<noteq> stop) (0 # ws)"
    using takeWhile_map [of "\<lambda>w. w \<noteq> stop" fst ?P] by (simp add: comp_def)
  with e show thesis by (rule that)
qed

lemma drop_rlist_good:
  assumes g: "good s W L F" and w: "w \<in> W"
  obtains s1 F1 where "drop_rlist w s = Some s1" "good (s1\<lparr>w_rlist := (w_rlist s1)(w := 0)\<rparr>) W (L(w := [])) F1"
    "length F1 = length F + length (L w)" "w_tree s1 = w_tree s" "o_gr s1 = o_gr s"
proof (cases "L w = []")
  case True
  note o = goodD(1) [OF g]
  have z: "w_rlist s w = 0" using ownsD(1) [OF o w] True by simp
  then have "s\<lparr>w_rlist := (w_rlist s)(w := 0)\<rparr> = s" by (simp add: fun_upd_idem)
  moreover have "L(w := []) = L" using True by (simp add: fun_upd_idem)
  ultimately have "good (s\<lparr>w_rlist := (w_rlist s)(w := 0)\<rparr>) W (L(w := [])) F" using g by (simp only:)
  then show thesis by (intro that [of s F]) (use True z in \<open>simp_all add: drop_rlist_def\<close>)
next
  case False
  note G = goodD [OF g] and o = goodD(1) [OF g]
  note c = ownsD [OF o w]
  obtain as x where L: "L w = as @ [x]" using False by (cases "L w" rule: rev_cases) auto
  have nz: "w_rlist s w \<noteq> 0" using c(1) False by (cases "L w") auto
  let ?s1 = "s\<lparr>o_link := (o_link s)(x := rul s), rul := w_rlist s w\<rparr>"
  let ?s2 = "?s1\<lparr>w_rlist := (w_rlist ?s1)(w := 0)\<rparr>"
  have d: "drop_rlist w s = Some ?s1"
    using nz nodes_chain [OF c(1)] L by (simp add: drop_rlist_def Let_def)
  have dist: "x \<notin> set as" "x \<notin> set F" "x \<noteq> 0" using chain_distinct [OF c(1)] seg_nonzero [OF c(1)] c(2) L by auto
  have "seg (o_link s) (w_rlist s w) as x" using c(1) L by (simp add: seg_append)
  then have "chain (o_link ?s2) (w_rlist s w) (as @ x # F)"
    using c(3) dist by (simp add: seg_append seg_frame)
  then have F: "chain (o_link ?s2) (rul ?s2) (L w @ F)" using L by simp
  have "owns ?s2 W (L(w := [])) (L w @ F)"
    by (rule owns_change [OF o w _ F]) (use L in auto)
  then have "good ?s2 W (L(w := [])) (L w @ F)" unfolding good_def using G(2,3) by auto
  moreover have "length (L w @ F) = length F + length (L w)" by simp
  ultimately show thesis by (rule that [OF d]) simp_all
qed


lemma get_orect_good:
  assumes g: "good s W L F" and w: "w \<in> W" "L w = []" and F: "F \<noteq> []" and r: "rc_ok r"
  obtains n s1 F' where "get_orect s = (n, s1)" "n \<noteq> 0" "F = n # F'" "w_tree s1 = w_tree s"
    "good (s1\<lparr>o_link := (o_link s1)(n := 0), o_gr := (o_gr s1)(n := r), w_rlist := (w_rlist s1)(w := n)\<rparr>) W (L(w := [n])) F'"
    "\<forall>q. q \<noteq> n \<longrightarrow> o_gr s1 q = o_gr s q"
proof -
  note G = goodD [OF g]
  obtain n F' where F': "F = n # F'" using F by (cases F) auto
  note c = ownsD [OF G(1) w(1)]
  have n: "rul s = n" "n \<noteq> 0" "n \<notin> set F'" using c(3) chain_distinct [OF c(3)] F' by auto
  have c': "chain (o_link s) (o_link s n) F'" using c(3) unfolding F' seg.simps by blast
  let ?s1 = "s\<lparr>rul := o_link s n\<rparr>"
  let ?s2 = "?s1\<lparr>o_link := (o_link ?s1)(n := 0), o_gr := (o_gr ?s1)(n := r), w_rlist := (w_rlist ?s1)(w := n)\<rparr>"
  have get: "get_orect s = (n, ?s1)" using n by (simp add: get_orect_def Let_def)
  have o: "owns ?s2 W (L(w := [n])) F'"
  proof (rule owns_change [OF G(1) w(1)])
    show "chain (o_link ?s2) (rul ?s2) F'" using c' n(3) by (simp add: seg_frame)
  qed (use n F' in auto)
  have other: "n \<notin> set (L v)" if "v \<in> W" for v
    using ownsD(2) [OF G(1) that] F' by auto
  have "good ?s2 W (L(w := [n])) F'"
    unfolding good_def
  proof (intro conjI ballI o)
    fix v assume v: "v \<in> W"
    have same: "\<forall>q \<in> set (L v). o_gr ?s2 q = o_gr s q" using other [OF v] by auto
    then have m: "rects ?s2 (L v) = rects s (L v)" by (intro map_cong_sel) blast
    show "apart (rects ?s2 ((L(w := [n])) v))"
    proof (cases "v = w")
      case False
      then show ?thesis using G(2) [OF v] by (simp only: fun_upd_other [OF False] m)
    qed simp
    show "rc_ok (o_gr ?s2 q)" if "q \<in> set ((L(w := [n])) v)" for q
      using same G(3) [OF v] that r by (cases "v = w") auto
  qed
  then show thesis by (intro that [OF get n(2) F']) simp_all
qed

text \<open>\<open>newrect\<close> for one window: those below lose its points, its own list becomes itself.\<close>

lemma newrect_good:
  assumes g: "good s (set (0 # ws)) L F" and ok: "windows_ok s ws" and w: "w \<in> set (0 # ws)"
    and B: "B = takeWhile (\<lambda>v. v \<noteq> w) (0 # ws)" and cap: "4 * tot L B + 1 \<le> length F"
  shows "\<exists>L' F' s'. newrect w s = Some s' \<and> good s' (set (0 # ws)) L' F' \<and> w_tree s' = w_tree s
    \<and> length (L' w) = 1 \<and> tot L' B \<le> 4 * tot L B \<and> (\<forall>v. v \<notin> insert w (set B) \<longrightarrow> L' v = L v)
    \<and> length F \<le> length F' + 3 * tot L B + 1
    \<and> (\<forall>v \<in> set (0 # ws). region s' L' v = (if v = w then pts (w_getsize_true w s)
         else if v \<in> set B then region s L v - pts (w_getsize_true w s) else region s L v))"
proof -
  let ?W = "set (0 # ws)" and ?r = "w_getsize_true w s"
  have r: "rc_ok ?r" using ok w by (auto simp: windows_ok_def)
  obtain s1 F1 where 1: "drop_rlist w s = Some s1" "good (s1\<lparr>w_rlist := (w_rlist s1)(w := 0)\<rparr>) ?W (L(w := [])) F1"
    "length F1 = length F + length (L w)" "w_tree s1 = w_tree s" "o_gr s1 = o_gr s"
    by (rule drop_rlist_good [OF g w])
  let ?s2 = "s1\<lparr>w_rlist := (w_rlist s1)(w := 0), w_flags := (w_flags s1)(w := w_flags s1 w AND NOT VF_BROKEN), gl_mkrect := ?r\<rparr>"
  have g2: "good ?s2 ?W (L(w := [])) F1" using 1(2) by (simp add: good_def owns_def)
  have wB: "w \<notin> set B" using B by (auto dest: set_takeWhileD)
  have BW: "set B \<subseteq> ?W" using B by (auto dest: set_takeWhileD)
  have dB: "distinct B" using ok B by (simp add: windows_ok_def distinct_takeWhile del: takeWhile.simps)
  have t2: "tot (L(w := [])) B = tot L B" using wB by (intro tot_cong) auto
  obtain xs where xs: "everyobj (w_tree s) ROOT w (\<lambda>this x y. mkrect this) 0 0 MAX_DEPTH = run_all (\<lambda>this x y. mkrect this) xs"
    "map fst xs = B"
    by (rule everyobj_windows [OF ok, of w "\<lambda>this x y. mkrect this"]) (simp add: B)
  have "4 * tot (L(w := [])) B \<le> length F1" using cap t2 1(3) by simp
  with mkrects_good [OF g2 BW _ xs(2)] dB xs(2) r
  obtain L3 F3 s3 where 3: "run_all (\<lambda>this x y. mkrect this) xs ?s2 = Some s3" "good s3 ?W L3 F3"
    "\<forall>v. v \<notin> set B \<longrightarrow> L3 v = (L(w := [])) v" "length F1 \<le> length F3 + 3 * tot L B" "tot L3 B \<le> 4 * tot L B"
    "\<forall>v \<in> ?W. region s3 L3 v = (if v \<in> set B then region ?s2 (L(w := [])) v - pts ?r else region ?s2 (L(w := [])) v)"
    "w_tree s3 = w_tree s" "gl_mkrect s3 = ?r"
    unfolding t2 using 1(4) by auto
  have "F3 \<noteq> []" using 3(4) cap 1(3) by auto
  note F3 = this
  have L3: "L3 w = []" using 3(3) wB by simp
  obtain n s4 F' where 4: "get_orect s3 = (n, s4)" "n \<noteq> 0" "F3 = n # F'" "w_tree s4 = w_tree s3"
    "good (s4\<lparr>o_link := (o_link s4)(n := 0), o_gr := (o_gr s4)(n := ?r), w_rlist := (w_rlist s4)(w := n)\<rparr>) ?W (L3(w := [n])) F'"
    "\<forall>q. q \<noteq> n \<longrightarrow> o_gr s4 q = o_gr s3 q"
    by (rule get_orect_good [OF 3(2) w L3 F3 r])
  let ?s5 = "s4\<lparr>o_link := (o_link s4)(n := 0), o_gr := (o_gr s4)(n := ?r), w_rlist := (w_rlist s4)(w := n)\<rparr>"
  have nz: "g_w ?r \<noteq> 0" "g_h ?r \<noteq> 0" using r by (simp_all add: rc_ok_def)
  have gA: "w_getsize_true w (s1\<lparr>w_rlist := f, w_flags := h\<rparr>) = ?r" for f h
    by (rule getsize_same) (simp add: 1(4))
  have gB: "w_getsize_true w s4 = ?r" by (rule getsize_same) (simp add: 4(4) 3(7))
  have run: "newrect w s = Some ?s5"
    using nz 3(1) 4(1,2) xs(1) by (simp add: newrect_def Let_def 1(1,4) gA gB)
  have reg: "region ?s5 (L3(w := [n])) v = (if v = w then pts ?r
      else if v \<in> set B then region s L v - pts ?r else region s L v)" if v: "v \<in> ?W" for v
  proof (cases "v = w")
    case False
    have "n \<notin> set (L3 v)" using ownsD(2) [OF goodD(1) [OF 3(2)] v] 4(3) by auto
    then have "rects ?s5 (L3 v) = rects s3 (L3 v)" using 4(6) by (intro map_cong_sel) auto
    then have "region ?s5 (L3(w := [n])) v = region s3 L3 v" by (simp only: fun_upd_other [OF False])
    also have "\<dots> = (if v \<in> set B then region s L v - pts ?r else region s L v)"
      using bspec [OF 3(6) v] False by (simp add: 1(5))
    finally show ?thesis using False by simp
  qed simp
  show ?thesis
  proof (intro exI conjI)
    show "newrect w s = Some ?s5" by (rule run)
    show "good ?s5 ?W (L3(w := [n])) F'" by (rule 4(5))
    show "tot (L3(w := [n])) B \<le> 4 * tot L B" using 3(5) wB tot_cong [of B "L3(w := [n])" L3] by auto
    show "\<forall>v. v \<notin> insert w (set B) \<longrightarrow> (L3(w := [n])) v = L v" using 3(3) by auto
    show "length F \<le> length F' + 3 * tot L B + 1" using 3(4) 4(3) 1(3) by simp
    show "\<forall>v \<in> ?W. region ?s5 (L3(w := [n])) v = (if v = w then pts ?r
      else if v \<in> set B then region s L v - pts ?r else region s L v)" using reg by blast
  qed (use 3(7) 4(4) in simp_all)
qed


section \<open>Properties of rectangle lists\<close>

text \<open>The windows above \<open>v\<close>.\<close>

primrec above :: "int \<Rightarrow> int list \<Rightarrow> int list" where
  "above v [] = []"
| "above v (w # ws) = (if w = v then ws else above v ws)"

definition visible :: "wrects \<Rightarrow> int list \<Rightarrow> int \<Rightarrow> (int \<times> int) set" where
  "visible s ws v = pts (w_getsize_true v s) - (\<Union>w \<in> set (above v ws). pts (w_getsize_true w s))"

lemma above_snoc: "v \<in> set ws \<Longrightarrow> above v (ws @ [w]) = above v ws @ [w]"
  by (induction ws) auto

lemma above_last: "w \<notin> set ws \<Longrightarrow> above w (ws @ [w]) = []"
  by (induction ws) auto

text \<open>Rebuilding the windows one after the other from the bottom.\<close>

lemma rebuild_windows:
  assumes "good s (set (0 # ws)) L F" "windows_ok s ws" "0 # ws = ds @ rs" "map fst xs = rs"
    and "\<forall>v \<in> set ds. region s L v = visible s ds v" "tot L ds \<le> u" "3 * u + 1 \<le> 4 ^ length ds"
    and "4 ^ (length ws + 1) \<le> length F + u"
  shows "\<exists>L' F' s'. run_all (\<lambda>this x y. newrect this) xs s = Some s' \<and> good s' (set (0 # ws)) L' F'
    \<and> (\<forall>v \<in> set (0 # ws). region s' L' v = visible s (0 # ws) v) \<and> w_tree s' = w_tree s"
  using assms
proof (induction xs arbitrary: s L F ds rs u)
  case Nil
  then show ?case by auto
next
  case (Cons x xs)
  obtain w a b where x: "x = (w, a, b)" by (cases x)
  let ?W = "set (0 # ws)"
  have rs: "0 # ws = ds @ w # map fst xs" using Cons.prems(3,4) x by simp
  have dist: "distinct (ds @ w # map fst xs)" using Cons.prems(2) rs by (simp add: windows_ok_def)
  have w: "w \<in> ?W" "w \<notin> set ds" "set ds \<subseteq> ?W" unfolding rs using dist by auto
  have B: "ds = takeWhile (\<lambda>v. v \<noteq> w) (0 # ws)"
    unfolding rs using w(2) by (subst takeWhile_append2) auto
  have len: "length ds \<le> length ws" using arg_cong [OF rs, of length] by simp
  have "(4::nat) ^ (length ws + 1) = 4 * 4 ^ length ws" by simp
  moreover have "(4::nat) ^ length ds \<le> 4 ^ length ws" using len by (intro power_increasing) auto
  ultimately have cap: "4 * tot L ds + 1 \<le> length F" using Cons.prems(6-8) by linarith
  from newrect_good [OF Cons.prems(1,2) w(1) B cap]
  obtain L1 F1 s1 where 1: "newrect w s = Some s1" "good s1 ?W L1 F1" "w_tree s1 = w_tree s"
    "length (L1 w) = 1" "tot L1 ds \<le> 4 * tot L ds" "length F \<le> length F1 + 3 * tot L ds + 1"
    "\<forall>v \<in> ?W. region s1 L1 v = (if v = w then pts (w_getsize_true w s)
       else if v \<in> set ds then region s L v - pts (w_getsize_true w s) else region s L v)"
    by blast
  note same = getsize_same [OF 1(3)] and R1 = 1(7)
  have vis: "visible s1 us v = visible s us v" for us v by (simp add: visible_def same)
  have reg: "\<forall>v \<in> set (ds @ [w]). region s1 L1 v = visible s1 (ds @ [w]) v"
  proof
    fix v assume "v \<in> set (ds @ [w])"
    then consider "v = w" | "v \<in> set ds" "v \<noteq> w" using w(2) by auto
    then show "region s1 L1 v = visible s1 (ds @ [w]) v"
    proof cases
      case 1
      then show ?thesis using bspec [OF R1 w(1)] above_last [OF w(2)]
        by (simp add: visible_def same)
    next
      case 2
      then have "region s1 L1 v = visible s ds v - pts (w_getsize_true w s)"
        using bspec [OF R1, of v] w(3) Cons.prems(5) by auto
      then show ?thesis unfolding visible_def above_snoc [OF 2(1)] same by auto
    qed
  qed
  have u: "tot L1 (ds @ [w]) \<le> 4 * u + 1" "3 * (4 * u + 1) + 1 \<le> 4 ^ length (ds @ [w])"
    using 1(4,5) Cons.prems(6,7) by simp_all
  have f: "4 ^ (length ws + 1) \<le> length F1 + (4 * u + 1)" using 1(6) Cons.prems(6,8) by simp
  have ok1: "windows_ok s1 ws" using Cons.prems(2) windows_ok_same [OF 1(3)] by simp
  from Cons.IH [OF 1(2) ok1 _ refl reg u(1,2) f] rs
  show ?case using 1(1,3) x unfolding vis by auto
qed



text \<open>\<open>or_start\<close> puts all records into the pool.\<close>

lemma or_start_loop_chain:
  "chain (o_link s) (rul s) F \<Longrightarrow> 0 < i \<Longrightarrow> \<forall>r \<in> set F. r < i \<Longrightarrow>
   chain (o_link (or_start_loop k i s)) (rul (or_start_loop k i s)) (rev [i ..< i + k] @ F)"
proof (induction k arbitrary: i s F)
  case (Suc k)
  let ?s = "s\<lparr>o_link := (o_link s)(i := rul s), rul := i\<rparr>"
  have "i \<notin> set F" using Suc.prems(3) by auto
  then have "chain ((o_link s)(i := rul s)) (rul s) F" using Suc.prems(1) seg_frame by blast
  then have c: "chain (o_link ?s) (rul ?s) (i # F)" using Suc.prems(2) by (simp del: fun_upd_apply add: fun_upd_same)
  have "\<forall>r \<in> set (i # F). r < i + 1" using Suc.prems(3) by auto
  note IH = Suc.IH [OF c _ this]
  have "chain (o_link (or_start_loop k (i + 1) ?s)) (rul (or_start_loop k (i + 1) ?s)) (rev [i + 1 ..< i + 1 + k] @ i # F)"
    by (rule IH) simp
  moreover have "rev [i ..< i + Suc k] = rev [i + 1 ..< i + 1 + k] @ [i]" by (simp add: upt_rec del: upt_Suc)
  ultimately show ?case by simp
qed simp

lemma or_start_loop_rest: "w_rlist (or_start_loop k i s) = w_rlist s" "w_tree (or_start_loop k i s) = w_tree s"
  by (induction k arbitrary: i s) simp_all

lemma or_start_good:
  assumes "\<forall>w \<in> W. w_rlist s w = 0"
  shows "good (or_start s) W (\<lambda>_. []) (rev [1 ..< 1 + NUM_ORECT])"
  using or_start_loop_chain [of "s\<lparr>rul := 0\<rparr>" "[]" 1 NUM_ORECT] assms
  by (simp add: good_def owns_def or_start_def or_start_loop_rest)

text \<open>A screen of 640 by 400 with a window of 200 by 100 at (50, 50).\<close>

definition screen :: obtree where
  "screen = ob_setxywh 1 \<lparr>g_x = 50, g_y = 50, g_w = 200, g_h = 100\<rparr>
     (ob_setxywh 0 \<lparr>g_x = 0, g_y = 0, g_w = 640, g_h = 400\<rparr> (ob_add 0 1 (\<lambda>_. plain_object)))"

definition desk :: wrects where
  "desk = or_start \<lparr>o_link = (\<lambda>_. 0), o_gr = (\<lambda>_. \<lparr>g_x = 0, g_y = 0, g_w = 0, g_h = 0\<rparr>), rul = 0,
     gl_mkrect = \<lparr>g_x = 0, g_y = 0, g_w = 0, g_h = 0\<rparr>, w_rlist = (\<lambda>_. 0), w_flags = (\<lambda>_. 0), w_tree = screen\<rparr>"


text \<open>
  C35. Rectangle arithmetic is point arithmetic. For non-empty rectangles within the range of
  words, \<open>inside\<close> is membership, \<open>rc_intersect\<close> computes the intersection and tells whether it is
  empty, \<open>rc_union\<close> the smallest rectangle around both, and \<open>rc_constrain\<close> keeps the size and
  moves the rectangle inside the other one whenever it fits.
\<close>

theorem rectangles_are_sets:
  assumes "rc_ok a" "rc_ok b"
  shows "(inside x y a \<longleftrightarrow> (x, y) \<in> pts a)
    \<and> (fst (rc_intersect a b) \<longleftrightarrow> pts a \<inter> pts b \<noteq> {}) \<and> pts (snd (rc_intersect a b)) = pts a \<inter> pts b
    \<and> pts a \<union> pts b \<subseteq> pts (rc_union a b)
    \<and> (\<forall>c. rc_ok c \<and> pts a \<union> pts b \<subseteq> pts c \<longrightarrow> pts (rc_union a b) \<subseteq> pts c)
    \<and> (g_w b \<le> g_w a \<and> g_h b \<le> g_h a \<longrightarrow> pts (rc_constrain a b) \<subseteq> pts a
        \<and> g_w (rc_constrain a b) = g_w b \<and> g_h (rc_constrain a b) = g_h b)
    \<and> (rc_equal a b \<longleftrightarrow> a = b)"
proof (intro conjI)
  note S = rc_ok_sides [OF assms(1)] rc_ok_sides [OF assms(2)]
  show "inside x y a \<longleftrightarrow> (x, y) \<in> pts a" by (rule inside_pts [OF assms(1)])
  show "fst (rc_intersect a b) \<longleftrightarrow> pts a \<inter> pts b \<noteq> {}" "pts (snd (rc_intersect a b)) = pts a \<inter> pts b"
    by (rule rc_intersect_pts [OF assms])+
  show "pts a \<union> pts b \<subseteq> pts (rc_union a b)"
    using assms S by (auto simp: rc_union_def in_pts rc_ok_def Let_def min_def max_def)
  show "\<forall>c. rc_ok c \<and> pts a \<union> pts b \<subseteq> pts c \<longrightarrow> pts (rc_union a b) \<subseteq> pts c"
  proof (intro allI impI, elim conjE)
    fix c assume c: "rc_ok c" "pts a \<union> pts b \<subseteq> pts c"
    have corner: "(g_x g, g_y g) \<in> pts c \<and> (g_x g + g_w g - 1, g_y g + g_h g - 1) \<in> pts c" if "rc_ok g" "pts g \<subseteq> pts c" for g
    proof -
      have "(g_x g, g_y g) \<in> pts g" "(g_x g + g_w g - 1, g_y g + g_h g - 1) \<in> pts g"
        using that(1) by (simp_all add: in_pts rc_ok_def)
      then show ?thesis using that(2) by blast
    qed
    show "pts (rc_union a b) \<subseteq> pts c"
      using corner [OF assms(1)] corner [OF assms(2)] c assms S
      by (auto simp: rc_union_def in_pts rc_ok_def Let_def min_def max_def)
  qed
  show "g_w b \<le> g_w a \<and> g_h b \<le> g_h a \<longrightarrow> pts (rc_constrain a b) \<subseteq> pts a
      \<and> g_w (rc_constrain a b) = g_w b \<and> g_h (rc_constrain a b) = g_h b"
    using assms by (auto simp: rc_constrain_def in_pts rc_ok_def Let_def right_def bottom_def)
  show "rc_equal a b \<longleftrightarrow> a = b" by (auto simp: rc_equal_def intro: grect.equality)
qed

theorem rectangles_are_sets_witness:
  "pts (snd (rc_intersect \<lparr>g_x = 0, g_y = 0, g_w = 10, g_h = 10\<rparr> \<lparr>g_x = 5, g_y = 5, g_w = 10, g_h = 10\<rparr>))
    = pts \<lparr>g_x = 0, g_y = 0, g_w = 10, g_h = 10\<rparr> \<inter> pts \<lparr>g_x = 5, g_y = 5, g_w = 10, g_h = 10\<rparr>"
proof -
  have "rc_ok \<lparr>g_x = 0, g_y = 0, g_w = 10, g_h = 10\<rparr>" "rc_ok \<lparr>g_x = 5, g_y = 5, g_w = 10, g_h = 10\<rparr>"
    by (simp_all add: rc_ok_def)
  from rectangles_are_sets [OF this] show ?thesis by blast
qed

end
