(* ===== verification/AesEvents.thy ===== *)
theory AesEvents
  imports WinRect
begin

text \<open>
  Event blocks and processes of the AES: aes/gemasync.c and the delay list of aes/geminput.c.
  An event block is on the list of its process (\<open>e_nextp\<close>) and on the doubly linked list of
  what it waits for, or on the list of completed events. The lemmas show insertion, removal and
  completion to keep these lists, and the delay list, which stores differences of times, to
  implement a set of timers. \<open>dsptch\<close>, which switches processes, is a parameter.
\<close>

section \<open>State\<close>

text \<open>
  The roots of the lists of event blocks, and what \<open>e_pred\<close> can point to: a block, or a root
  made to look like one (\<open>FAKE_EVB\<close>).
\<close>

datatype root = Zlr | Dlr | Iiowait nat | Msleep nat | Bsleep nat | Sy_wait nat | Qdq nat | Qnq nat

datatype pred = FAKE_EVB root | Block nat

record evb =
  e_nextp :: nat
  e_link :: nat
  e_pred :: pred
  e_pd :: nat
  e_parm :: int
  e_flag :: "16 word"
  e_mask :: "16 word"
  e_return :: int

record aespd =
  p_link :: nat
  p_stat :: "16 word"
  p_evwait :: "16 word"
  p_evflg :: "16 word"
  p_evlist :: nat
  p_cda :: nat
  p_qindex :: int
  p_queue :: "nat \<Rightarrow> 8 word"
  p_pid :: "16 word"
  p_action :: int
  p_wh :: int

record spb =
  sy_tas :: int
  sy_owner :: nat

record cqueue =
  c_buff :: "nat \<Rightarrow> 16 word"
  c_front :: nat
  c_rear :: nat
  c_cnt :: int

datatype fcode = Tchange | Kchange | Bchange | Mchange

type_synonym fpd = "fcode \<times> int"

record qpb =
  qpb_ppd :: nat
  qpb_cnt :: int
  qpb_buf :: nat

record moblk =
  m_out :: int
  m_gr :: grect

record aes =
  evbs :: "nat \<Rightarrow> evb"
  roots :: "root \<Rightarrow> nat"
  eul :: nat
  pds :: "nat \<Rightarrow> aespd"
  rlr :: nat
  drl :: nat
  nrl :: nat
  spbs :: "nat \<Rightarrow> spb"
  cqs :: "nat \<Rightarrow> cqueue"
  button :: "16 word"
  xrat :: "16 word"
  yrat :: "16 word"
  cmp_tick :: int
  num_tick :: int
  g_fpdx :: "nat \<Rightarrow> fpd"
  fpt :: nat
  fph :: nat
  fpcnt :: nat
  gl_recd :: bool
  gl_rlen :: int
  gl_rbuf :: int
  recbuf :: "int \<Rightarrow> fpd"
  gl_bpend :: int
  moblks :: "nat \<Rightarrow> moblk"
  qpbs :: "nat \<Rightarrow> qpb"
  amem :: "nat \<Rightarrow> 8 word"
  kstate :: "16 word"
  mclick :: "16 word"
  mtrans :: int
  pr_button :: "16 word"
  pr_mclick :: "16 word"
  pr_xrat :: "16 word"
  pr_yrat :: "16 word"
  gl_btrue :: "16 word"
  gl_bdesired :: "16 word"
  gl_bclick :: "16 word"
  gl_bdely :: int
  gl_dclick :: int
  gl_mowner :: nat
  gl_cowner :: nat
  gl_ctmown :: bool
  gl_play :: bool
  ctrl :: grect
  gl_rmenu :: grect
  ctl_pd :: nat
  desk_owner :: nat
  gl_mntree :: nat
  gl_ctwait :: moblk

text \<open>Halves of a 32-bit value, and joining two of them.\<close>

definition HIWORD :: "int \<Rightarrow> 16 word" where "HIWORD x = word_of_int (x div 65536)"
definition LOWORD :: "int \<Rightarrow> 16 word" where "LOWORD x = word_of_int x"

definition NOCANCEL :: "16 word" where "NOCANCEL = 1"
definition COMPLETE :: "16 word" where "COMPLETE = 2"
definition EVDELAY :: "16 word" where "EVDELAY = 4"
definition WAITIN :: "16 word" where "WAITIN = 1"
definition KBD_SIZE :: nat where "KBD_SIZE = 8"
definition NFORKS :: nat where "NFORKS = 32"

definition set_evb :: "nat \<Rightarrow> (evb \<Rightarrow> evb) \<Rightarrow> aes \<Rightarrow> aes" where
  "set_evb e f s = s\<lparr>evbs := (evbs s)(e := f (evbs s e))\<rparr>"

definition set_pd :: "nat \<Rightarrow> (aespd \<Rightarrow> aespd) \<Rightarrow> aes \<Rightarrow> aes" where
  "set_pd p f s = s\<lparr>pds := (pds s)(p := f (pds s p))\<rparr>"

definition set_root :: "root \<Rightarrow> nat \<Rightarrow> aes \<Rightarrow> aes" where
  "set_root r v s = s\<lparr>roots := (roots s)(r := v)\<rparr>"

text \<open>\<open>q->e_link = v\<close> where \<open>q\<close> may be a root.\<close>

definition put_link :: "pred \<Rightarrow> nat \<Rightarrow> aes \<Rightarrow> aes" where
  "put_link q v s = (case q of FAKE_EVB r \<Rightarrow> set_root r v s | Block e \<Rightarrow> set_evb e (\<lambda>b. b\<lparr>e_link := v\<rparr>) s)"

text \<open>\<open>if (p) p->e_pred = q\<close>.\<close>

definition put_pred :: "nat \<Rightarrow> pred \<Rightarrow> aes \<Rightarrow> aes" where
  "put_pred p q s = (if p \<noteq> 0 then set_evb p (\<lambda>b. b\<lparr>e_pred := q\<rparr>) s else s)"

definition MAKE_LONG :: "16 word \<Rightarrow> 16 word \<Rightarrow> int" where
  "MAKE_LONG hi lo = s32 (65536 * uint hi + uint lo)"

section \<open>Signals\<close>

text \<open>\<open>None\<close>: the list of processes that are not ready does not end.\<close>

definition signal :: "nat \<Rightarrow> aes \<Rightarrow> aes option" where
  "signal e s =
     (let p = e_pd (evbs s e);
          s = set_pd p (\<lambda>d. d\<lparr>p_evflg := p_evflg d OR e_mask (evbs s e)\<rparr>) s
      in case find_link (\<lambda>p. p_link (pds s p)) (\<lambda>p1. p1 = p) 0 (nrl s) of
           None \<Rightarrow> None
         | Some (pp1, p1) \<Rightarrow> Some
             (if p \<noteq> rlr s \<and> p_evflg (pds s p) AND p_evwait (pds s p) \<noteq> 0 \<and> p1 \<noteq> 0 then
                let s = set_pd p1 (\<lambda>d. d\<lparr>p_stat := p_stat d AND NOT WAITIN\<rparr>) s;
                    nx = p_link (pds s p1);
                    s = (if pp1 = 0 then s\<lparr>nrl := nx\<rparr> else set_pd pp1 (\<lambda>d. d\<lparr>p_link := nx\<rparr>) s);
                    s = set_pd p1 (\<lambda>d. d\<lparr>p_link := drl s\<rparr>) s
                in s\<lparr>drl := p1\<rparr>
              else s))"

definition azombie :: "nat \<Rightarrow> 16 word \<Rightarrow> aes \<Rightarrow> aes option" where
  "azombie e rv s =
     (let s = set_evb e (\<lambda>b. b\<lparr>e_return := MAKE_LONG (button s) rv, e_parm := MAKE_LONG (xrat s) (yrat s)\<rparr>) s;
          s = set_evb e (\<lambda>b. b\<lparr>e_link := roots s Zlr\<rparr>) s;
          s = put_pred (roots s Zlr) (Block e) s;
          s = set_evb e (\<lambda>b. b\<lparr>e_pred := FAKE_EVB Zlr\<rparr>) s;
          s = set_root Zlr e s;
          s = set_evb e (\<lambda>b. b\<lparr>e_flag := COMPLETE\<rparr>) s
      in signal e s)"

definition evinsert :: "nat \<Rightarrow> root \<Rightarrow> aes \<Rightarrow> aes" where
  "evinsert e root s =
     (let p = roots s root;
          s = set_evb e (\<lambda>b. b\<lparr>e_pred := FAKE_EVB root\<rparr>) s;
          s = set_root root e s;
          s = set_evb e (\<lambda>b. b\<lparr>e_link := p\<rparr>) s
      in put_pred p (Block e) s)"

text \<open>\<open>p->e_pred->e_link = p->e_link; if (p->e_link) p->e_link->e_pred = p->e_pred;\<close>\<close>

definition unlink_evb :: "nat \<Rightarrow> aes \<Rightarrow> aes" where
  "unlink_evb p s =
     (let s = put_link (e_pred (evbs s p)) (e_link (evbs s p)) s
      in put_pred (e_link (evbs s p)) (e_pred (evbs s p)) s)"

definition takeoff :: "nat \<Rightarrow> aes \<Rightarrow> aes" where
  "takeoff p s =
     (let s = unlink_evb p s;
          nx = e_link (evbs s p);
          s = (if nx \<noteq> 0 \<and> e_flag (evbs s p) AND EVDELAY \<noteq> 0
               then set_evb nx (\<lambda>b. b\<lparr>e_parm := s32 (e_parm b + e_parm (evbs s p))\<rparr>) s else s);
          s = set_evb p (\<lambda>b. b\<lparr>e_nextp := eul s\<rparr>) s
      in s\<lparr>eul := p\<rparr>)"

definition evremove :: "nat \<Rightarrow> 16 word \<Rightarrow> aes \<Rightarrow> aes option" where
  "evremove e rv s = azombie e rv (unlink_evb e s)"

section \<open>Waiting, collecting and cancelling\<close>

definition mwait :: "(aes \<Rightarrow> aes option) \<Rightarrow> 16 word \<Rightarrow> aes \<Rightarrow> (16 word \<times> aes) option" where
  "mwait dsptch m s =
     (let s = set_pd (rlr s) (\<lambda>d. d\<lparr>p_evwait := m\<rparr>) s in
      Option.bind
        (if m AND p_evflg (pds s (rlr s)) = 0
         then dsptch (set_pd (rlr s) (\<lambda>d. d\<lparr>p_stat := p_stat d OR WAITIN\<rparr>) s) else Some s)
        (\<lambda>s. Some (p_evflg (pds s (rlr s)), s)))"

text \<open>The list of a process, with 0 for its root as the predecessor.\<close>

definition put_nextp :: "nat \<Rightarrow> nat \<Rightarrow> aes \<Rightarrow> aes" where
  "put_nextp q v s = (if q = 0 then set_pd (rlr s) (\<lambda>d. d\<lparr>p_evlist := v\<rparr>) s
     else set_evb q (\<lambda>b. b\<lparr>e_nextp := v\<rparr>) s)"

definition apret :: "16 word \<Rightarrow> aes \<Rightarrow> (16 word \<times> aes) option" where
  "apret m s =
     (case find_link (\<lambda>e. e_nextp (evbs s e)) (\<lambda>p. e_mask (evbs s p) = m) 0 (p_evlist (pds s (rlr s))) of
        None \<Rightarrow> None
      | Some (q, p) \<Rightarrow>
          if p = 0 then Some (0, s)
          else
          let s = unlink_evb p s;
              s = put_nextp q (e_nextp (evbs s p)) s;
              s = set_pd (rlr s) (\<lambda>d. d\<lparr>p_evwait := p_evwait d AND NOT m, p_evflg := p_evflg d AND NOT m\<rparr>) s;
              erret = word_of_int (e_return (evbs s p));
              s = set_evb p (\<lambda>b. b\<lparr>e_nextp := eul s\<rparr>) s
          in Some (erret, s\<lparr>eul := p\<rparr>))"

partial_function (option) acancel_loop :: "16 word \<Rightarrow> nat \<Rightarrow> nat \<Rightarrow> 16 word \<Rightarrow> aes \<Rightarrow> (16 word \<times> aes) option" where
  "acancel_loop m q p m1 s =
     (if p = 0 then Some (m1, s)
      else if e_mask (evbs s p) AND m \<noteq> 0 then
        if e_flag (evbs s p) AND (NOCANCEL OR COMPLETE) \<noteq> 0
        then acancel_loop m p (e_nextp (evbs s p)) (m1 OR e_mask (evbs s p)) s
        else
        let nx = e_nextp (evbs s p);
            s = takeoff p (put_nextp q nx s);
            s = set_pd (rlr s) (\<lambda>d. d\<lparr>p_evwait := p_evwait d AND NOT (e_mask (evbs s p))\<rparr>) s
        in acancel_loop m q nx m1 s
      else acancel_loop m p (e_nextp (evbs s p)) m1 s)"

definition acancel :: "16 word \<Rightarrow> aes \<Rightarrow> (16 word \<times> aes) option" where
  "acancel m s = acancel_loop m 0 (p_evlist (pds s (rlr s))) 0 s"

section \<open>Delays\<close>

text \<open>The search of \<open>adelay\<close> for the place of an event: the predecessor, the successor and what is left of \<open>c\<close>.\<close>

partial_function (option) adelay_loop :: "aes \<Rightarrow> pred \<Rightarrow> nat \<Rightarrow> int \<Rightarrow> (pred \<times> nat \<times> int) option" where
  "adelay_loop s q p c =
     (if p = 0 then Some (q, p, c)
      else if c \<le> e_parm (evbs s p) then Some (q, p, c)
      else adelay_loop s (Block p) (e_link (evbs s p)) (s32 (c - e_parm (evbs s p))))"

definition adelay :: "nat \<Rightarrow> int \<Rightarrow> aes \<Rightarrow> aes option" where
  "adelay e c s =
     (let c = (if c = 0 then 1 else c);
          s = (if cmp_tick s \<noteq> 0 then (if c \<le> cmp_tick s then s\<lparr>cmp_tick := c\<rparr> else s)
               else s\<lparr>cmp_tick := c, num_tick := 0\<rparr>);
          s = set_evb e (\<lambda>b. b\<lparr>e_flag := e_flag b OR EVDELAY\<rparr>) s
      in case adelay_loop s (FAKE_EVB Dlr) (roots s Dlr) c of
           None \<Rightarrow> None
         | Some (q, p, c) \<Rightarrow>
             let s = set_evb e (\<lambda>b. b\<lparr>e_pred := q\<rparr>) s;
                 s = put_link q e s;
                 s = set_evb e (\<lambda>b. b\<lparr>e_parm := c, e_link := p\<rparr>) s
             in Some (if p \<noteq> 0 then set_evb p (\<lambda>b. b\<lparr>e_pred := Block e, e_parm := s32 (e_parm b - c)\<rparr>) s else s))"

partial_function (option) tchange_loop :: "int \<Rightarrow> nat \<Rightarrow> aes \<Rightarrow> aes option" where
  "tchange_loop c d s =
     (if d = 0 then Some s
      else
      let c1 = s32 (c - e_parm (evbs s d));
          s = set_evb d (\<lambda>b. b\<lparr>e_parm := s32 (e_parm b - c)\<rparr>) s
      in if e_parm (evbs s d) \<le> 0
         then Option.bind (evremove d 0 (set_evb d (\<lambda>b. b\<lparr>e_parm := 0\<rparr>) s)) (\<lambda>s. tchange_loop c1 (roots s Dlr) s)
         else Some (s\<lparr>cmp_tick := e_parm (evbs s d), num_tick := 0\<rparr>))"

definition tchange :: "int \<Rightarrow> aes \<Rightarrow> aes option" where
  "tchange c s = tchange_loop c (roots s Dlr) s"

section \<open>Doubly linked lists of event blocks\<close>

fun lastp :: "pred \<Rightarrow> nat list \<Rightarrow> pred" where
  "lastp q [] = q"
| "lastp q (e # es) = lastp (Block e) es"

fun dseg :: "(nat \<Rightarrow> evb) \<Rightarrow> pred \<Rightarrow> nat \<Rightarrow> nat list \<Rightarrow> nat \<Rightarrow> bool" where
  "dseg E q p [] r \<longleftrightarrow> p = r"
| "dseg E q p (e # es) r \<longleftrightarrow> p = e \<and> e \<noteq> 0 \<and> e_pred (E e) = q \<and> dseg E (Block e) (e_link (E e)) es r"

definition evlist :: "aes \<Rightarrow> root \<Rightarrow> nat list \<Rightarrow> bool" where
  "evlist s r es \<longleftrightarrow> dseg (evbs s) (FAKE_EVB r) (roots s r) es 0 \<and> distinct es"

text \<open>\<open>same_data A\<close>: only the links of event blocks differ, but for those in \<open>A\<close>.\<close>

definition same_data :: "nat set \<Rightarrow> (nat \<Rightarrow> evb) \<Rightarrow> (nat \<Rightarrow> evb) \<Rightarrow> bool" where
  "same_data A E E' \<longleftrightarrow> (\<forall>x. x \<notin> A \<longrightarrow> e_nextp (E' x) = e_nextp (E x) \<and> e_pd (E' x) = e_pd (E x) \<and> e_parm (E' x) = e_parm (E x)
     \<and> e_flag (E' x) = e_flag (E x) \<and> e_mask (E' x) = e_mask (E x) \<and> e_return (E' x) = e_return (E x))"

lemma lastp_append [simp]: "lastp q (xs @ ys) = lastp (lastp q xs) ys"
  by (induction xs arbitrary: q) simp_all

lemma lastp_cases: "xs = [] \<and> lastp q xs = q \<or> (\<exists>ys y. xs = ys @ [y] \<and> lastp q xs = Block y)"
  by (cases xs rule: rev_cases) simp_all

lemma dseg_append: "dseg E q p (xs @ ys) r \<longleftrightarrow> (\<exists>m. dseg E q p xs m \<and> dseg E (lastp q xs) m ys r)"
  by (induction xs arbitrary: q p) auto

lemma dseg_cong: "\<forall>x \<in> set xs. e_pred (E' x) = e_pred (E x) \<and> e_link (E' x) = e_link (E x) \<Longrightarrow> dseg E q p xs r \<Longrightarrow> dseg E' q p xs r"
  by (induction xs arbitrary: q p) auto

lemma evlist_cong:
  "\<forall>x \<in> set es. evbs s' x = evbs s x \<Longrightarrow> roots s' r = roots s r \<Longrightarrow> evlist s r es \<Longrightarrow> evlist s' r es"
  using dseg_cong [of es "evbs s'" "evbs s" "FAKE_EVB r" "roots s r" 0] by (simp add: evlist_def)

lemma evlist_links:
  "\<forall>x \<in> set es. e_pred (evbs s' x) = e_pred (evbs s x) \<and> e_link (evbs s' x) = e_link (evbs s x) \<Longrightarrow>
    roots s' r = roots s r \<Longrightarrow> evlist s r es \<Longrightarrow> evlist s' r es"
  using dseg_cong [of es "evbs s'" "evbs s" "FAKE_EVB r" "roots s r" 0] by (simp add: evlist_def)

lemma dseg_nonzero: "dseg E q p xs r \<Longrightarrow> 0 \<notin> set xs"
  by (induction xs arbitrary: q p) auto

lemma put_link_sel:
  "evbs (put_link q v s) = (case q of FAKE_EVB r \<Rightarrow> evbs s | Block e \<Rightarrow> (evbs s)(e := (evbs s e)\<lparr>e_link := v\<rparr>))"
  "roots (put_link q v s) = (case q of FAKE_EVB r \<Rightarrow> (roots s)(r := v) | Block e \<Rightarrow> roots s)"
  by (simp_all add: put_link_def set_evb_def set_root_def split: pred.split)

lemma put_pred_sel:
  "evbs (put_pred p q s) = (if p \<noteq> 0 then (evbs s)(p := (evbs s p)\<lparr>e_pred := q\<rparr>) else evbs s)"
  "roots (put_pred p q s) = roots s"
  by (simp_all add: put_pred_def set_evb_def)

text \<open>Everything but event blocks and roots.\<close>

definition others :: "aes \<Rightarrow> aes" where
  "others s = s\<lparr>evbs := \<lambda>_. undefined, roots := \<lambda>_. 0\<rparr>"

lemma others_put [simp]:
  "others (put_link q v s) = others s" "others (put_pred p q s) = others s" "others (set_evb e f s) = others s"
  "others (set_root r v s) = others s"
  by (simp_all add: others_def put_link_def put_pred_def set_evb_def set_root_def split: pred.split)

text \<open>Redirecting the end of a segment, and the predecessor of its first block.\<close>

lemma dseg_redirect:
  assumes "dseg E q p xs r" "distinct xs"
  shows "case lastp q xs of
      FAKE_EVB _ \<Rightarrow> xs = [] \<or> False
    | Block a \<Rightarrow> xs \<noteq> [] \<longrightarrow> dseg (E(a := (E a)\<lparr>e_link := r'\<rparr>)) q p xs r' \<and> a \<in> set xs"
proof -
  from lastp_cases [of xs q] consider "xs = []" | ys a where "xs = ys @ [a]" "lastp q xs = Block a" by auto
  then show ?thesis
  proof cases
    case 2
    with assms have "dseg E q p ys a" "a \<noteq> 0" "e_pred (E a) = lastp q ys" "a \<notin> set ys" by (auto simp: dseg_append)
    then have "dseg (E(a := (E a)\<lparr>e_link := r'\<rparr>)) q p ys a" by - (rule dseg_cong [of ys _ E], auto)
    with 2 \<open>a \<noteq> 0\<close> \<open>e_pred (E a) = lastp q ys\<close> show ?thesis by (auto simp: dseg_append)
  qed (auto split: pred.split)
qed

lemma dseg_repred:
  assumes "dseg E q p xs 0" "distinct xs"
  shows "dseg (if p \<noteq> 0 then E(p := (E p)\<lparr>e_pred := q'\<rparr>) else E) q' p xs 0"
proof (cases xs)
  case (Cons x ys)
  with assms have "dseg E (Block x) (e_link (E x)) ys 0" "x \<notin> set ys" "p = x" "x \<noteq> 0" by auto
  then have "dseg (E(x := (E x)\<lparr>e_pred := q'\<rparr>)) (Block x) (e_link (E x)) ys 0" by - (rule dseg_cong [of ys _ E], auto)
  with Cons \<open>p = x\<close> \<open>x \<noteq> 0\<close> show ?thesis by simp
qed (use assms in auto)

lemma dseg_hd: "dseg E q p xs 0 \<Longrightarrow> p = 0 \<and> xs = [] \<or> p \<in> set xs \<and> p \<noteq> 0"
  by (cases xs) auto

lemma unlink_evlist:
  assumes "evlist s r (as @ e # bs)"
  shows "evlist (unlink_evb e s) r (as @ bs)" "same_data {} (evbs s) (evbs (unlink_evb e s))"
    "\<forall>x. x \<notin> set (as @ bs) \<longrightarrow> evbs (unlink_evb e s) x = evbs s x"
    "\<forall>r'. r' \<noteq> r \<longrightarrow> roots (unlink_evb e s) r' = roots s r'" "others (unlink_evb e s) = others s"
proof -
  let ?E = "evbs s" and ?F = "FAKE_EVB r"
  from assms have d: "distinct (as @ e # bs)" and sg: "dseg ?E ?F (roots s r) as e" "e \<noteq> 0" "e_pred (?E e) = lastp ?F as"
    "dseg ?E (Block e) (e_link (?E e)) bs 0"
    by (auto simp: evlist_def dseg_append)
  define n where "n = e_link (?E e)"
  define s1 where "s1 = put_link (lastp ?F as) n s"
  have e: "evbs s1 e = ?E e"
    using lastp_cases [of as ?F] d by (auto simp: s1_def put_link_sel)
  have u: "unlink_evb e s = put_pred n (lastp ?F as) s1" using sg(3) e by (simp add: unlink_evb_def s1_def n_def Let_def)
  have s1: "dseg (evbs s1) ?F (roots s1 r) as n" "dseg (evbs s1) (Block e) n bs 0"
    "\<forall>x. x \<notin> set as \<longrightarrow> evbs s1 x = ?E x" "\<forall>r'. r' \<noteq> r \<longrightarrow> roots s1 r' = roots s r'"
  proof -
    show "dseg (evbs s1) ?F (roots s1 r) as n" "\<forall>x. x \<notin> set as \<longrightarrow> evbs s1 x = ?E x" "\<forall>r'. r' \<noteq> r \<longrightarrow> roots s1 r' = roots s r'"
      using lastp_cases [of as ?F] dseg_redirect [OF sg(1), of n] d by (auto simp: s1_def put_link_sel)
    then show "dseg (evbs s1) (Block e) n bs 0" using d sg(4) unfolding n_def by - (rule dseg_cong [of bs _ ?E], auto)
  qed
  show "others (unlink_evb e s) = others s" by (simp add: u s1_def)
  show "same_data {} (evbs s) (evbs (unlink_evb e s))"
    by (auto simp: u same_data_def s1_def put_link_sel put_pred_sel split: pred.split)
  show "\<forall>x. x \<notin> set (as @ bs) \<longrightarrow> evbs (unlink_evb e s) x = evbs s x"
    using s1(3) dseg_hd [OF s1(2)] by (auto simp: u put_pred_sel)
  show "\<forall>r'. r' \<noteq> r \<longrightarrow> roots (unlink_evb e s) r' = roots s r'" using s1(4) by (simp add: u put_pred_sel)
  have "dseg (evbs (unlink_evb e s)) (lastp ?F as) n bs 0"
    using dseg_repred [OF s1(2), of "lastp ?F as"] d by (simp add: u put_pred_sel)
  moreover have "dseg (evbs (unlink_evb e s)) ?F (roots (unlink_evb e s) r) as n"
    using s1(1) dseg_hd [OF s1(2)] d unfolding u put_pred_sel by - (rule dseg_cong [of as _ "evbs s1"], auto)
  ultimately show "evlist (unlink_evb e s) r (as @ bs)" using d by (auto simp: evlist_def dseg_append)
qed

section \<open>Signals and completed events\<close>

text \<open>Everything but event blocks, roots and processes.\<close>

definition still :: "aes \<Rightarrow> aes" where
  "still s = s\<lparr>evbs := \<lambda>_. undefined, roots := \<lambda>_. 0, pds := \<lambda>_. undefined, drl := 0, nrl := 0\<rparr>"

definition same_pds :: "(nat \<Rightarrow> aespd) \<Rightarrow> (nat \<Rightarrow> aespd) \<Rightarrow> bool" where
  "same_pds P P' \<longleftrightarrow> (\<forall>p. p_evwait (P' p) = p_evwait (P p) \<and> p_evlist (P' p) = p_evlist (P p)
     \<and> p_cda (P' p) = p_cda (P p) \<and> p_qindex (P' p) = p_qindex (P p) \<and> p_queue (P' p) = p_queue (P p) \<and> p_action (P' p) = p_action (P p))"

lemma still_sel:
  assumes "still s' = still s"
  shows "rlr s' = rlr s" "spbs s' = spbs s" "cqs s' = cqs s" "cmp_tick s' = cmp_tick s" "num_tick s' = num_tick s"
    "eul s' = eul s" "qpbs s' = qpbs s" "amem s' = amem s" "fpcnt s' = fpcnt s" "fph s' = fph s"
    "fpt s' = fpt s" "g_fpdx s' = g_fpdx s" "button s' = button s" "xrat s' = xrat s" "yrat s' = yrat s"
    "gl_bpend s' = gl_bpend s" "moblks s' = moblks s" "gl_btrue s' = gl_btrue s" "gl_bdesired s' = gl_bdesired s" "gl_bclick s' = gl_bclick s"
    "gl_bdely s' = gl_bdely s" "gl_mowner s' = gl_mowner s" "gl_recd s' = gl_recd s" "gl_play s' = gl_play s"
  using arg_cong [OF assms, of rlr] arg_cong [OF assms, of spbs] arg_cong [OF assms, of cqs]
    arg_cong [OF assms, of cmp_tick] arg_cong [OF assms, of num_tick] arg_cong [OF assms, of eul]
    arg_cong [OF assms, of qpbs] arg_cong [OF assms, of amem] arg_cong [OF assms, of fpcnt]
    arg_cong [OF assms, of fph] arg_cong [OF assms, of fpt] arg_cong [OF assms, of g_fpdx]
    arg_cong [OF assms, of button] arg_cong [OF assms, of xrat] arg_cong [OF assms, of yrat]
    arg_cong [OF assms, of gl_bpend] arg_cong [OF assms, of moblks] arg_cong [OF assms, of gl_btrue]
    arg_cong [OF assms, of gl_bdesired] arg_cong [OF assms, of gl_bclick] arg_cong [OF assms, of gl_bdely]
    arg_cong [OF assms, of gl_mowner] arg_cong [OF assms, of gl_recd] arg_cong [OF assms, of gl_play]
  by (simp_all add: still_def)

lemma others_still: "others s' = others s \<Longrightarrow> still s' = still s"
  using arg_cong [of "others s'" "others s" "\<lambda>s. s\<lparr>pds := \<lambda>_. undefined, drl := 0, nrl := 0\<rparr>"]
  by (simp add: others_def still_def)

lemma others_pds:
  assumes "others s' = others s"
  shows "pds s' = pds s \<and> nrl s' = nrl s \<and> drl s' = drl s"
  using arg_cong [OF assms, of pds] arg_cong [OF assms, of nrl] arg_cong [OF assms, of drl] by (simp add: others_def)

lemma still_put [simp]:
  "still (put_link q v s) = still s" "still (put_pred p q s) = still s" "still (set_evb e f s) = still s"
  "still (set_root r v s) = still s" "still (set_pd p g s) = still s" "still (unlink_evb e s) = still s"
  "still (evinsert e r s) = still s"
  by (rule others_still, simp)+ (simp add: still_def set_pd_def, (rule others_still, simp add: unlink_evb_def evinsert_def Let_def)+)

lemma still_signal: "signal e s = Some s' \<Longrightarrow> still s' = still s"
proof -
  have k: "still (t\<lparr>nrl := x\<rparr>) = still t" "still (t\<lparr>drl := x\<rparr>) = still t" for t x by (simp_all add: still_def)
  show "signal e s = Some s' \<Longrightarrow> still s' = still s"
    by (auto simp: signal_def Let_def k split: option.splits if_splits)
qed

lemma still_azombie: "azombie e rv s = Some s' \<Longrightarrow> still s' = still s"
  by (auto simp: azombie_def Let_def dest!: still_signal)

lemma still_evremove: "evremove e rv s = Some s' \<Longrightarrow> still s' = still s"
  by (auto simp: evremove_def dest!: still_azombie)

text \<open>The list of processes that are not ready.\<close>

definition nr_list :: "aes \<Rightarrow> nat list \<Rightarrow> bool" where
  "nr_list s ns \<longleftrightarrow> chain (\<lambda>p. p_link (pds s p)) (nrl s) ns"

lemma p_link_set: "(\<lambda>p. p_link (pds (set_pd q f s) p)) = (\<lambda>p. p_link (pds s p))(q := p_link (f (pds s q)))"
  by (auto simp: set_pd_def)

lemma signal_ok:
  assumes "nr_list s ns"
  obtains s' ns' where "signal e s = Some s'" "nr_list s' ns'" "evbs s' = evbs s" "roots s' = roots s"
    "still s' = still s" "same_pds (pds s) (pds s')"
    "\<And>p. p_evflg (pds s' p) = (if p = e_pd (evbs s e) then p_evflg (pds s p) OR e_mask (evbs s e) else p_evflg (pds s p))"
proof -
  note out = that
  define p where "p = e_pd (evbs s e)"
  define s1 where "s1 = set_pd p (\<lambda>d. d\<lparr>p_evflg := p_evflg d OR e_mask (evbs s e)\<rparr>) s"
  have pl: "(\<lambda>q. p_link (pds s1 q)) = (\<lambda>q. p_link (pds s q))" and nr: "nrl s1 = nrl s"
    by (auto simp: s1_def set_pd_def)
  have l: "chain (\<lambda>p. p_link (pds s1 p)) (nrl s1) ns" unfolding pl nr using assms by (simp add: nr_list_def)
  let ?L = "\<lambda>p. p_link (pds s1 p)"
  note fr = s1_def set_pd_def still_def same_pds_def
  have stay: thesis if "signal e s = Some s1"
    using l by (intro out [OF that]) (auto simp: nr_list_def fr p_def)
  from l show thesis
  proof (cases rule: find_link_total [where P = "\<lambda>p1. p1 = p"])
    case (hit as x bs)
    let ?go = "p \<noteq> rlr s1 \<and> p_evflg (pds s1 p) AND p_evwait (pds s1 p) \<noteq> 0"
    show thesis
    proof (cases ?go)
      case False
      with hit have "signal e s = Some s1" by (simp add: signal_def p_def [symmetric] s1_def [symmetric] Let_def) blast
      then show thesis by (rule stay)
    next
      case True
      define s2 where "s2 = set_pd p (\<lambda>d. d\<lparr>p_stat := p_stat d AND NOT WAITIN\<rparr>) s1"
      define s3 where "s3 = (if last0 as = 0 then s2\<lparr>nrl := p_link (pds s2 p)\<rparr> else set_pd (last0 as) (\<lambda>d. d\<lparr>p_link := p_link (pds s2 p)\<rparr>) s2)"
      define s4 where "s4 = (set_pd p (\<lambda>d. d\<lparr>p_link := drl s3\<rparr>) s3)\<lparr>drl := p\<rparr>"
      have x: "x = p" using hit by simp
      have nz: "p \<noteq> 0" using l hit x by (auto dest: seg_nonzero)
      have g: "signal e s = Some s4"
        using True hit x nz by (simp add: signal_def p_def [symmetric] s1_def [symmetric] Let_def s2_def [symmetric] s3_def [symmetric] s4_def [symmetric])
      have l2: "p_link (pds s2 q) = p_link (pds s1 q)" "nrl s2 = nrl s1" for q by (auto simp: s2_def set_pd_def)
      have "relink (last0 as) (?L p) (nrl s1, ?L) = (nrl s3, \<lambda>q. p_link (pds s3 q))"
        using l2 by (auto simp: relink_def s3_def set_pd_def fun_eq_iff)
      then have c: "chain (\<lambda>q. p_link (pds s3 q)) (nrl s3) (as @ bs)"
        using relink_snip [of ?L "nrl s1" as p bs] l hit x by blast
      have "p \<notin> set (as @ bs)" using chain_distinct [OF l] hit x by auto
      then have "nr_list s4 (as @ bs)"
        using c seg_frame [of p "as @ bs" "\<lambda>q. p_link (pds s3 q)" "drl s3"]
        by (simp add: nr_list_def s4_def p_link_set) (simp add: set_pd_def)
      moreover have "evbs s4 = evbs s" "roots s4 = roots s" "still s4 = still s" "same_pds (pds s) (pds s4)"
        "\<And>q. p_evflg (pds s4 q) = (if q = p then p_evflg (pds s q) OR e_mask (evbs s e) else p_evflg (pds s q))"
        by (auto simp: s4_def s3_def s2_def fr)
      ultimately show thesis unfolding p_def by (intro out [OF g])
    qed
  next
    case miss
    then have "signal e s = Some s1" by (simp add: signal_def p_def [symmetric] s1_def [symmetric] Let_def)
    then show thesis by (rule stay)
  qed
qed

lemma azombie_ok:
  assumes "nr_list s ns" "evlist s Zlr zs" "e \<notin> set zs" "e \<noteq> 0"
  obtains s' ns' where "azombie e rv s = Some s'" "nr_list s' ns'" "evlist s' Zlr (e # zs)"
    "\<forall>x. x \<notin> set (e # zs) \<longrightarrow> evbs s' x = evbs s x" "same_data {e} (evbs s) (evbs s')"
    "e_flag (evbs s' e) = COMPLETE" "e_mask (evbs s' e) = e_mask (evbs s e)" "e_pd (evbs s' e) = e_pd (evbs s e)"
    "e_nextp (evbs s' e) = e_nextp (evbs s e)" "e_return (evbs s' e) = MAKE_LONG (button s) rv"
    "\<forall>r. r \<noteq> Zlr \<longrightarrow> roots s' r = roots s r" "still s' = still s" "same_pds (pds s) (pds s')"
    "\<And>p. p_evflg (pds s' p) = (if p = e_pd (evbs s e) then p_evflg (pds s p) OR e_mask (evbs s e) else p_evflg (pds s p))"
proof -
  let ?E = "evbs s" and ?z = "roots s Zlr"
  have d: "dseg ?E (FAKE_EVB Zlr) ?z zs 0" "distinct zs" using assms(2) by (auto simp: evlist_def)
  have z: "?z = 0 \<and> zs = [] \<or> ?z \<in> set zs \<and> ?z \<noteq> 0" using dseg_hd [OF d(1)] .
  then have ze: "?z \<noteq> e" using assms(3,4) by auto
  define s1 where "s1 = set_evb e (\<lambda>b. b\<lparr>e_flag := COMPLETE\<rparr>) (set_root Zlr e (set_evb e (\<lambda>b. b\<lparr>e_pred := FAKE_EVB Zlr\<rparr>)
    (put_pred ?z (Block e) (set_evb e (\<lambda>b. b\<lparr>e_link := ?z\<rparr>)
      (set_evb e (\<lambda>b. b\<lparr>e_return := MAKE_LONG (button s) rv, e_parm := MAKE_LONG (xrat s) (yrat s)\<rparr>) s)))))"
  have az: "azombie e rv s = signal e s1"
    by (simp add: azombie_def s1_def Let_def put_pred_sel set_evb_def)
  have E: "evbs s1 = (if ?z \<noteq> 0 then ?E(?z := (?E ?z)\<lparr>e_pred := Block e\<rparr>) else ?E)(e := (?E e)\<lparr>e_link := ?z,
      e_pred := FAKE_EVB Zlr, e_return := MAKE_LONG (button s) rv, e_parm := MAKE_LONG (xrat s) (yrat s), e_flag := COMPLETE\<rparr>)"
    using ze by (auto simp: s1_def put_pred_sel set_evb_def set_root_def)
  have R: "roots s1 = (roots s)(Zlr := e)" by (simp add: s1_def put_pred_sel set_evb_def set_root_def)
  have o: "others s1 = others s" by (simp add: s1_def)
  have l: "evlist s1 Zlr (e # zs)"
  proof -
    have "dseg (if ?z \<noteq> 0 then ?E(?z := (?E ?z)\<lparr>e_pred := Block e\<rparr>) else ?E) (Block e) ?z zs 0"
      using dseg_repred [OF d, of "Block e"] .
    then have "dseg (evbs s1) (Block e) ?z zs 0" using assms(3) unfolding E by - (rule dseg_cong, auto)
    then show ?thesis using assms(3,4) d(2) by (simp add: evlist_def R) (simp add: E)
  qed
  have n1: "nr_list s1 ns" using assms(1) others_pds [OF o] by (simp add: nr_list_def)
  obtain s' ns' where s': "signal e s1 = Some s'" "nr_list s' ns'" "evbs s' = evbs s1" "roots s' = roots s1"
    "still s' = still s1" "same_pds (pds s1) (pds s')"
    "\<And>p. p_evflg (pds s' p) = (if p = e_pd (evbs s1 e) then p_evflg (pds s1 p) OR e_mask (evbs s1 e) else p_evflg (pds s1 p))"
    by (rule signal_ok [OF n1]) blast
  show thesis
  proof (rule that)
    show "azombie e rv s = Some s'" using az s'(1) by simp
    show "evlist s' Zlr (e # zs)" using l s'(3,4) by (simp add: evlist_def)
    show "\<forall>x. x \<notin> set (e # zs) \<longrightarrow> evbs s' x = evbs s x" using z by (auto simp: s'(3) E)
    show "same_data {e} (evbs s) (evbs s')" by (auto simp: same_data_def s'(3) E)
    show "still s' = still s" using s'(5) others_still [OF o] by simp
    show "same_pds (pds s) (pds s')" using s'(6) others_pds [OF o] by simp
  qed (use s' others_pds [OF o] in \<open>auto simp: E R\<close>)
qed

text \<open>Completing the first event of a list that is not the list of completed events.\<close>

definition events_ok :: "aes \<Rightarrow> nat list \<Rightarrow> bool" where
  "events_ok s zs \<longleftrightarrow> evlist s Zlr zs \<and> (\<exists>ns. nr_list s ns)"

lemma events_ok_frame:
  assumes "events_ok s zs" "\<forall>x \<in> set zs. evbs s' x = evbs s x" "others s' = others s" "roots s' Zlr = roots s Zlr"
  shows "events_ok s' zs"
  using assms evlist_cong [of zs s' s Zlr] others_pds [OF assms(3)] by (auto simp: events_ok_def nr_list_def)

lemma evremove_ok:
  assumes "events_ok s zs" "evlist s r (as @ e # bs)" "r \<noteq> Zlr" "set (as @ e # bs) \<inter> set zs = {}"
  obtains s' where "evremove e rv s = Some s'" "events_ok s' (e # zs)" "evlist s' r (as @ bs)"
    "same_data {e} (evbs s) (evbs s')" "e_flag (evbs s' e) = COMPLETE" "e_mask (evbs s' e) = e_mask (evbs s e)"
    "e_pd (evbs s' e) = e_pd (evbs s e)" "e_return (evbs s' e) = MAKE_LONG (button s) rv"
    "\<forall>r'. r' \<noteq> Zlr \<and> r' \<noteq> r \<longrightarrow> roots s' r' = roots s r'" "still s' = still s" "same_pds (pds s) (pds s')"
    "\<And>p. p_evflg (pds s' p) = (if p = e_pd (evbs s e) then p_evflg (pds s p) OR e_mask (evbs s e) else p_evflg (pds s p))"
    "\<forall>x. x \<notin> set (as @ e # bs) \<union> set zs \<longrightarrow> evbs s' x = evbs s x"
    "e_nextp (evbs s' e) = e_nextp (evbs s e)"
proof -
  note u = unlink_evlist [OF assms(2)]
  let ?s = "unlink_evb e s"
  from assms obtain ns where z: "evlist s Zlr zs" and ns: "nr_list s ns" by (auto simp: events_ok_def)
  have e: "e \<noteq> 0" "e \<notin> set zs" "e \<notin> set (as @ bs)"
    using assms(2,4) dseg_nonzero [of "evbs s" "FAKE_EVB r" "roots s r" "as @ e # bs" 0] by (auto simp: evlist_def)
  have z': "evlist ?s Zlr zs"
    using z evlist_cong [of zs ?s s Zlr] u(3,4) assms(3,4) by auto
  have ns': "nr_list ?s ns" using ns others_pds [OF u(5)] by (simp add: nr_list_def)
  obtain s' ns' where s': "azombie e rv ?s = Some s'" "nr_list s' ns'" "evlist s' Zlr (e # zs)"
    "\<forall>x. x \<notin> set (e # zs) \<longrightarrow> evbs s' x = evbs ?s x" "same_data {e} (evbs ?s) (evbs s')"
    "e_flag (evbs s' e) = COMPLETE" "e_mask (evbs s' e) = e_mask (evbs ?s e)" "e_pd (evbs s' e) = e_pd (evbs ?s e)"
    "e_nextp (evbs s' e) = e_nextp (evbs ?s e)" "e_return (evbs s' e) = MAKE_LONG (button ?s) rv"
    "\<forall>r. r \<noteq> Zlr \<longrightarrow> roots s' r = roots ?s r" "still s' = still ?s" "same_pds (pds ?s) (pds s')"
    "\<And>p. p_evflg (pds s' p) = (if p = e_pd (evbs ?s e) then p_evflg (pds ?s p) OR e_mask (evbs ?s e) else p_evflg (pds ?s p))"
    by (rule azombie_ok [OF ns' z' e(2,1), of rv]) blast
  have ue: "evbs ?s e = evbs s e" using u(3) e(3) by blast
  have bt: "button ?s = button s" using arg_cong [OF u(5), of button] by (simp add: others_def)
  note p = others_pds [OF u(5)]
  show thesis
  proof (rule that)
    show "evremove e rv s = Some s'" using s'(1) by (simp add: evremove_def)
    show "events_ok s' (e # zs)" using s'(2,3) by (auto simp: events_ok_def)
    have "\<forall>x \<in> set (as @ bs). evbs s' x = evbs ?s x" using s'(4) assms(4) e(3) by auto
    then show "evlist s' r (as @ bs)" using evlist_cong [of "as @ bs" s' ?s r] u(1) s'(11) assms(3) by blast
    show "same_data {e} (evbs s) (evbs s')" using u(2) s'(5) by (auto simp: same_data_def)
    show "still s' = still s" using s'(12) others_still [OF u(5)] by simp
    show "same_pds (pds s) (pds s')" using s'(13) p by simp
    show "\<forall>x. x \<notin> set (as @ e # bs) \<union> set zs \<longrightarrow> evbs s' x = evbs s x" using s'(4) u(3) by auto
  qed (use s' u(4) assms(3) ue bt p in auto)
qed

lemma hiword_make [simp]: "HIWORD (MAKE_LONG a b) = a" "LOWORD (MAKE_LONG a b) = b"
proof -
  have r: "uint a < 65536" "uint b < 65536" using uint_lt2p [of a] uint_lt2p [of b] by simp_all
  define v where "v = 65536 * uint a + uint b"
  have v: "0 \<le> v" "v < 4294967296" using r by (simp_all add: v_def)
  have m: "MAKE_LONG a b = v \<or> MAKE_LONG a b = v - 4294967296"
  proof (cases "v < 2147483648")
    case True
    then show ?thesis using v by (simp add: MAKE_LONG_def v_def [symmetric] s32_def)
  next
    case False
    have "(v + 2147483648) mod 4294967296 = (v - 2147483648 + 4294967296) mod 4294967296" by (rule arg_cong [of _ _ "\<lambda>x. x mod 4294967296"]) simp
    also have "\<dots> = v - 2147483648" using False v by (simp only: mod_add_self2) simp
    finally show ?thesis by (simp add: MAKE_LONG_def v_def [symmetric] s32_def)
  qed
  have d: "v div 65536 = uint a" "(v - 4294967296) div 65536 = uint a - 65536"
    using r div_mult_self1 [of 65536 v "- 65536"] by (simp_all add: v_def)
  have z: "(65536 :: 16 word) = 0" "(4294967296 :: 16 word) = 0" by simp_all
  from m show "HIWORD (MAKE_LONG a b) = a" by (elim disjE) (simp_all add: HIWORD_def d)
  from m show "LOWORD (MAKE_LONG a b) = b" by (elim disjE) (simp_all add: LOWORD_def v_def z)
qed

section \<open>Timers\<close>

text \<open>
  The delay list holds for each event the difference to the time of the one before. \<open>timers s ts\<close>:
  it stands for the events and times \<open>ts\<close>, in ascending order, counted from the last change.
\<close>

fun diffs :: "int \<Rightarrow> int list \<Rightarrow> int list" where
  "diffs b [] = []"
| "diffs b (t # ts) = (t - b) # diffs t ts"

definition parms :: "aes \<Rightarrow> (nat \<times> int) list \<Rightarrow> int list" where
  "parms s ts = map (\<lambda>x. e_parm (evbs s (fst x))) ts"

definition times_ok :: "(nat \<times> int) list \<Rightarrow> bool" where
  "times_ok ts \<longleftrightarrow> sorted (map snd ts) \<and> (\<forall>x \<in> set ts. 0 < snd x \<and> snd x < 2 ^ 31)"

definition timers :: "aes \<Rightarrow> (nat \<times> int) list \<Rightarrow> bool" where
  "timers s ts \<longleftrightarrow> evlist s Dlr (map fst ts) \<and> parms s ts = diffs 0 (map snd ts) \<and> times_ok ts
     \<and> (\<forall>x \<in> set ts. e_flag (evbs s (fst x)) AND EVDELAY \<noteq> 0)"

definition last_time :: "int \<Rightarrow> (nat \<times> int) list \<Rightarrow> int" where
  "last_time b ts = (if ts = [] then b else snd (last ts))"

lemma diffs_append: "diffs b (map snd (xs @ ys)) = diffs b (map snd xs) @ diffs (last_time b xs) (map snd ys)"
  by (induction xs arbitrary: b) (auto simp: last_time_def)

lemma adelay_loop_ok:
  assumes "dseg (evbs s) q p (map fst ts) 0" "parms s ts = diffs b (map snd ts)" "times_ok ts"
    and "0 \<le> b" "b < c" "c < 2 ^ 31"
  shows "adelay_loop s q p (c - b) = Some (lastp q (map fst (takeWhile (\<lambda>x. snd x < c) ts)),
    hd0 (map fst (dropWhile (\<lambda>x. snd x < c) ts)), c - last_time b (takeWhile (\<lambda>x. snd x < c) ts))"
  using assms
proof (induction ts arbitrary: q p b)
  case Nil
  then show ?case by (simp add: adelay_loop.simps last_time_def)
next
  case (Cons x ts)
  obtain e t where x: "x = (e, t)" by (cases x)
  from Cons.prems x have p: "p = e" "e \<noteq> 0" "e_parm (evbs s e) = t - b" "0 < t" "t < 2 ^ 31" by (auto simp: parms_def times_ok_def)
  show ?case
  proof (cases "t < c")
    case False
    with p x show ?thesis by (simp add: adelay_loop.simps last_time_def)
  next
    case True
    from Cons.prems x have t: "parms s ts = diffs t (map snd ts)" "times_ok ts"
      "dseg (evbs s) (Block e) (e_link (evbs s e)) (map fst ts) 0" by (auto simp: parms_def times_ok_def)
    have "adelay_loop s q p (c - b) = adelay_loop s (Block e) (e_link (evbs s e)) (c - t)"
      using p True Cons.prems(4-6) by (subst adelay_loop.simps) (simp add: s32_id)
    with Cons.IH [OF t(3,1,2) _ True Cons.prems(6)] x True p(4) show ?thesis by (simp add: last_time_def)
  qed
qed

text \<open>Insertion into a doubly linked list, after \<open>as\<close>.\<close>

lemma insert_dseg:
  assumes "dseg E q p as m" "dseg E (lastp q as) m bs 0" "distinct (as @ e # bs)" "e \<noteq> 0"
    and "e_pred (E' e) = lastp q as" "e_link (E' e) = m"
    and "\<forall>x \<in> set as. e_pred (E' x) = e_pred (E x) \<and> e_link (E' x) = (if Block x = lastp q as then e else e_link (E x))"
    and "\<forall>x \<in> set bs. e_link (E' x) = e_link (E x) \<and> e_pred (E' x) = (if x = m then Block e else e_pred (E x))"
  shows "dseg E' q (if as = [] then e else p) (as @ e # bs) 0"
proof -
  have b: "dseg E' (Block e) m bs 0"
  proof (cases bs)
    case (Cons y ys)
    with assms(2) have y: "m = y" "y \<noteq> 0" "dseg E (Block y) (e_link (E y)) ys 0" by auto
    moreover have "y \<notin> set ys" using assms(3) Cons by simp
    then have "\<forall>x \<in> set ys. e_pred (E' x) = e_pred (E x) \<and> e_link (E' x) = e_link (E x)" using assms(8) Cons y(1) by auto
    from dseg_cong [OF this y(3)] show ?thesis using assms(8) Cons y by simp
  qed (use assms(2) in auto)
  then have eb: "dseg E' (lastp q as) e (e # bs) 0" using assms(4-6) by simp
  from lastp_cases [of as q] consider "as = []" | ys a where "as = ys @ [a]" "lastp q as = Block a" by auto
  then show ?thesis
  proof cases
    case 1
    with eb show ?thesis by simp
  next
    case 2
    with assms(1) have y: "dseg E q p ys a" "a \<noteq> 0" "e_pred (E a) = lastp q ys" by (auto simp: dseg_append)
    have "a \<notin> set ys" using assms(3) 2 by auto
    then have "\<forall>x \<in> set ys. e_pred (E' x) = e_pred (E x) \<and> e_link (E' x) = e_link (E x)" using assms(7) 2 by auto
    from dseg_cong [OF this y(1)] have "dseg E' q p as e" using 2 y assms(7) by (auto simp: dseg_append)
    with eb 2 show ?thesis by (auto simp: dseg_append)
  qed
qed

lemma evinsert_ok:
  assumes "evlist s r es" "e \<noteq> 0" "e \<notin> set es"
  shows "evlist (evinsert e r s) r (e # es)" "same_data {} (evbs s) (evbs (evinsert e r s))"
    "\<forall>x. x \<notin> set (e # es) \<longrightarrow> evbs (evinsert e r s) x = evbs s x"
    "\<forall>r'. r' \<noteq> r \<longrightarrow> roots (evinsert e r s) r' = roots s r'" "others (evinsert e r s) = others s"
proof -
  let ?z = "roots s r"
  from assms(1) have d: "dseg (evbs s) (FAKE_EVB r) ?z es 0" "distinct es" by (auto simp: evlist_def)
  have z: "?z = 0 \<and> es = [] \<or> ?z \<in> set es \<and> ?z \<noteq> 0" using dseg_hd [OF d(1)] .
  then have ne: "?z \<noteq> e" using assms by auto
  have E: "evbs (evinsert e r s) = (if ?z \<noteq> 0 then (evbs s)(?z := (evbs s ?z)\<lparr>e_pred := Block e\<rparr>) else evbs s)
      (e := (evbs s e)\<lparr>e_pred := FAKE_EVB r, e_link := ?z\<rparr>)"
    using ne by (auto simp: evinsert_def Let_def put_pred_sel set_evb_def set_root_def)
  have R: "roots (evinsert e r s) = (roots s)(r := e)"
    by (simp add: evinsert_def Let_def put_pred_sel set_evb_def set_root_def)
  show "others (evinsert e r s) = others s" by (simp add: evinsert_def Let_def)
  show "\<forall>r'. r' \<noteq> r \<longrightarrow> roots (evinsert e r s) r' = roots s r'" by (simp add: R)
  show "\<forall>x. x \<notin> set (e # es) \<longrightarrow> evbs (evinsert e r s) x = evbs s x" using z by (auto simp: E)
  show "same_data {} (evbs s) (evbs (evinsert e r s))" by (auto simp: same_data_def E)
  have "dseg (evbs (evinsert e r s)) (FAKE_EVB r) (if [] = ([] :: nat list) then e else ?z) ([] @ e # es) 0"
    by (rule insert_dseg [where m = ?z and E = "evbs s"]) (use d assms ne z in \<open>auto simp: E\<close>)
  then show "evlist (evinsert e r s) r (e # es)" using assms(3) d(2) by (simp add: evlist_def R)
qed

lemma times_ok_append: "times_ok (xs @ ys) \<Longrightarrow> times_ok xs \<and> times_ok ys"
  by (auto simp: times_ok_def sorted_append)

lemma last_time_bound: "times_ok xs \<Longrightarrow> \<forall>x \<in> set xs. snd x < c \<Longrightarrow> 0 < c \<Longrightarrow> 0 \<le> last_time 0 xs \<and> last_time 0 xs < c"
  by (auto simp: last_time_def times_ok_def intro: less_imp_le)

text \<open>The parameters of the rest of the list when the first one is counted from another time.\<close>

lemma parms_cong: "\<forall>x \<in> set ts. e_parm (evbs s' (fst x)) = e_parm (evbs s (fst x)) \<Longrightarrow> parms s' ts = parms s ts"
  by (simp add: parms_def)

lemma parms_Cons: "parms s (x # xs) = e_parm (evbs s (fst x)) # parms s xs"
  by (simp add: parms_def)

lemma parms_append: "parms s (xs @ ys) = parms s xs @ parms s ys"
  by (simp add: parms_def)

lemma parms_diffs_split:
  "parms s (xs @ ys) = diffs b (map snd (xs @ ys)) \<longleftrightarrow>
     parms s xs = diffs b (map snd xs) \<and> parms s ys = diffs (last_time b xs) (map snd ys)"
proof -
  have "length (diffs b us) = length us" for b us by (induction us arbitrary: b) simp_all
  then show ?thesis unfolding parms_append diffs_append by (simp add: parms_def)
qed

definition before :: "int \<Rightarrow> (nat \<times> int) list \<Rightarrow> (nat \<times> int) list" where
  "before c ts = takeWhile (\<lambda>x. snd x < c) ts"

definition from_on :: "int \<Rightarrow> (nat \<times> int) list \<Rightarrow> (nat \<times> int) list" where
  "from_on c ts = dropWhile (\<lambda>x. snd x < c) ts"

lemma before_from_on: "before c ts @ from_on c ts = ts" "\<forall>x \<in> set (before c ts). snd x < c"
  by (auto simp: before_def from_on_def dest: set_takeWhileD)

lemma from_on_ge: "times_ok ts \<Longrightarrow> \<forall>x \<in> set (from_on c ts). c \<le> snd x"
proof (induction ts)
  case (Cons x ts)
  then show ?case by (auto simp: from_on_def times_ok_def dest: order_trans)
qed (simp add: from_on_def)

lemma adelay_ok:
  assumes "timers s ts" "e \<noteq> 0" "e \<notin> set (map fst ts)" "c' = (if c = 0 then 1 else c)" "0 < c'" "c' < 2 ^ 31"
  obtains s' where "adelay e c s = Some s'" "timers s' (before c' ts @ (e, c') # from_on c' ts)"
    "\<forall>x. x \<notin> set (e # map fst ts) \<longrightarrow> evbs s' x = evbs s x" "\<forall>r. r \<noteq> Dlr \<longrightarrow> roots s' r = roots s r"
    "pds s' = pds s" "nrl s' = nrl s" "drl s' = drl s" "cmp_tick s' = (if cmp_tick s \<noteq> 0 \<and> cmp_tick s < c' then cmp_tick s else c')"
proof -
  let ?xs = "before c' ts" and ?ys = "from_on c' ts" and ?F = "FAKE_EVB Dlr"
  let ?q = "lastp ?F (map fst ?xs)" and ?p = "hd0 (map fst ?ys)" and ?d = "c' - last_time 0 ?xs"
  define s1 where "s1 = set_evb e (\<lambda>b. b\<lparr>e_flag := e_flag b OR EVDELAY\<rparr>)
    (if cmp_tick s \<noteq> 0 then (if c' \<le> cmp_tick s then s\<lparr>cmp_tick := c'\<rparr> else s) else s\<lparr>cmp_tick := c', num_tick := 0\<rparr>)"
  have s1: "evbs s1 = (evbs s)(e := (evbs s e)\<lparr>e_flag := e_flag (evbs s e) OR EVDELAY\<rparr>)" "roots s1 = roots s"
    "pds s1 = pds s" "nrl s1 = nrl s" "drl s1 = drl s" "cmp_tick s1 = (if cmp_tick s \<noteq> 0 \<and> cmp_tick s < c' then cmp_tick s else c')"
    by (auto simp: s1_def set_evb_def)
  from assms(1) have T: "evlist s Dlr (map fst ts)" "parms s ts = diffs 0 (map snd ts)" "times_ok ts" by (auto simp: timers_def)
  have tm: "times_ok (?xs @ ?ys)" using T(3) before_from_on(1) by simp
  have ne: "\<forall>x \<in> set ts. fst x \<noteq> e" using assms(3) by force
  have d: "dseg (evbs s1) ?F (roots s1 Dlr) (map fst ts) 0" "distinct (map fst ts)"
    using T(1) assms(3) unfolding s1 evlist_def by (auto intro: dseg_cong [of "map fst ts" _ "evbs s"])
  have p1: "parms s1 ts = diffs 0 (map snd ts)" using T(2) parms_cong [of ts s1 s] ne by (simp add: s1)
  have loop: "adelay_loop s1 ?F (roots s1 Dlr) c' = Some (?q, ?p, ?d)"
    using adelay_loop_ok [OF d(1) p1 T(3) order_refl assms(5,6)] by (simp add: before_def from_on_def)
  define s' where "s' = (let s = set_evb e (\<lambda>b. b\<lparr>e_pred := ?q\<rparr>) s1; s = put_link ?q e s;
      s = set_evb e (\<lambda>b. b\<lparr>e_parm := ?d, e_link := ?p\<rparr>) s
    in if ?p \<noteq> 0 then set_evb ?p (\<lambda>b. b\<lparr>e_pred := Block e, e_parm := s32 (e_parm b - ?d)\<rparr>) s else s)"
  have a: "adelay e c s = Some s'"
    unfolding adelay_def Let_def assms(4) [symmetric] s1_def [symmetric] loop option.case prod.case s'_def by simp
  have seg: "dseg (evbs s1) ?F (roots s1 Dlr) (map fst ?xs) ?p" "dseg (evbs s1) ?q ?p (map fst ?ys) 0"
  proof -
    from d(1) obtain m where m: "dseg (evbs s1) ?F (roots s1 Dlr) (map fst ?xs) m" "dseg (evbs s1) ?q m (map fst ?ys) 0"
      using dseg_append [of "evbs s1" ?F "roots s1 Dlr" "map fst ?xs" "map fst ?ys" 0] before_from_on(1) [of c' ts]
      by (metis map_append)
    moreover have "m = ?p" using m(2) by (cases ?ys) auto
    ultimately show "dseg (evbs s1) ?F (roots s1 Dlr) (map fst ?xs) ?p" "dseg (evbs s1) ?q ?p (map fst ?ys) 0" by auto
  qed
  have el: "set (map fst ?xs) \<union> set (map fst ?ys) = set (map fst ts)" "distinct (map fst ?xs @ map fst ?ys)"
    using d(2) before_from_on(1) [of c' ts] by (metis map_append set_append, metis map_append)
  have q: "?q = ?F \<and> ?xs = [] \<or> (\<exists>a \<in> set (map fst ?xs). ?q = Block a)"
    using lastp_cases [of "map fst ?xs" ?F] by (metis in_set_conv_decomp map_is_Nil_conv)
  have p: "?p = 0 \<and> ?ys = [] \<or> ?p \<in> set (map fst ?ys) \<and> ?p \<noteq> 0" using dseg_hd [OF seg(2)] by auto
  have pe: "?p \<noteq> e" "\<And>a. a \<in> set (map fst ts) \<Longrightarrow> a \<noteq> e" using p el(1) assms(2,3) by auto
  have dis: "set (map fst ?xs) \<inter> set (map fst ?ys) = {}" using el(2) by (simp only: distinct_append)
  have en: "e \<notin> set (map fst ?xs)" "e \<notin> set (map fst ?ys)" using el(1) assms(3) by auto
  have px: "?p \<notin> set (map fst ?xs)" using p dis dseg_nonzero [OF seg(1)] by (metis disjoint_iff)
  have qy: "\<forall>x \<in> set (map fst ?ys). Block x \<noteq> ?q" using q dis by (metis disjoint_iff pred.distinct(1) pred.inject(2))
  have nm: "\<forall>x \<in> set (map fst ?xs). x \<noteq> ?p" "\<forall>x \<in> set (map fst ?ys). Block x \<noteq> ?q \<and> x \<noteq> 0"
    "\<forall>x \<in> set (map fst ?xs). x \<noteq> e" "\<forall>x \<in> set (map fst ?ys). x \<noteq> e"
    using px qy en dseg_nonzero [OF seg(2)] by metis+
  have E: "evbs s' x = (if x = e then (evbs s1 e)\<lparr>e_pred := ?q, e_parm := ?d, e_link := ?p\<rparr>
      else (evbs s1 x)\<lparr>e_link := (if Block x = ?q then e else e_link (evbs s1 x)),
        e_pred := (if x = ?p \<and> ?p \<noteq> 0 then Block e else e_pred (evbs s1 x)),
        e_parm := (if x = ?p \<and> ?p \<noteq> 0 then s32 (e_parm (evbs s1 x) - ?d) else e_parm (evbs s1 x))\<rparr>)" for x
    using q p pe el by (auto simp: s'_def Let_def put_link_sel set_evb_def)
  have R: "roots s' = (if ?xs = [] then (roots s)(Dlr := e) else roots s)"
    using q by (auto simp: s'_def Let_def put_link_sel set_evb_def s1)
  have l: "dseg (evbs s') ?F (roots s' Dlr) (map fst ?xs @ e # map fst ?ys) 0"
  proof -
    have "dseg (evbs s') ?F (if map fst ?xs = [] then e else roots s1 Dlr) (map fst ?xs @ e # map fst ?ys) 0"
    proof (rule insert_dseg [OF seg])
      show "distinct (map fst ?xs @ e # map fst ?ys)" using el pe by auto
      show "\<forall>x \<in> set (map fst ?xs). e_pred (evbs s' x) = e_pred (evbs s1 x) \<and>
          e_link (evbs s' x) = (if Block x = ?q then e else e_link (evbs s1 x))"
        using nm(1,3) unfolding E by simp
      show "\<forall>x \<in> set (map fst ?ys). e_link (evbs s' x) = e_link (evbs s1 x) \<and>
          e_pred (evbs s' x) = (if x = ?p then Block e else e_pred (evbs s1 x))"
        using nm(2-4) unfolding E by auto
    qed (use assms(2) in \<open>simp_all add: E\<close>)
    then show ?thesis using R by (cases "?xs = []") (simp_all add: s1)
  qed
  have "parms s' (?xs @ (e, c') # ?ys) = diffs 0 (map snd (?xs @ (e, c') # ?ys))"
  proof -
    have lt: "0 \<le> last_time 0 ?xs \<and> last_time 0 ?xs < c'"
      using last_time_bound [of ?xs c'] times_ok_append [OF tm] before_from_on(2) assms(5) by blast
    from p1 have pp: "parms s1 ?xs = diffs 0 (map snd ?xs)" "parms s1 ?ys = diffs (last_time 0 ?xs) (map snd ?ys)"
      using before_from_on(1) [of c' ts] parms_diffs_split [of s1 ?xs ?ys 0] by simp_all
    have "parms s' ?ys = diffs c' (map snd ?ys)"
    proof (cases ?ys)
      case (Cons y zs)
      have "y \<in> set ?ys" using Cons by simp
      then have y: "c' \<le> snd y" "snd y < 2 ^ 31" using from_on_ge [OF T(3)] times_ok_append [OF tm] by (auto simp: times_ok_def)
      from Cons have f: "?p = fst y" "?p \<noteq> 0" using nm(2) by auto
      have "\<forall>z \<in> set zs. fst z \<noteq> fst y" using el(2) Cons by (auto simp: image_iff)
      then have "parms s' zs = parms s1 zs" using f nm(4) Cons by (intro parms_cong) (simp add: E)
      moreover have "e_parm (evbs s1 (fst y)) = snd y - last_time 0 ?xs" "parms s1 zs = diffs (snd y) (map snd zs)"
        using pp(2) Cons by (simp_all add: parms_def)
      moreover have "e_parm (evbs s' (fst y)) = snd y - c'"
        using f nm(4) Cons y lt \<open>e_parm (evbs s1 (fst y)) = snd y - last_time 0 ?xs\<close> by (simp add: E s32_id)
      ultimately show ?thesis using Cons by (simp add: parms_Cons)
    qed (simp add: parms_def)
    moreover have "parms s' ?xs = diffs 0 (map snd ?xs)"
      using pp(1) nm(1,3) parms_cong [of ?xs s' s1] by (simp add: E)
    ultimately show ?thesis using diffs_append [of 0 ?xs "(e, c') # ?ys"] by (simp add: parms_append parms_Cons E)
  qed
  moreover have "times_ok (?xs @ (e, c') # ?ys)"
    using tm before_from_on(2) [of c' ts] from_on_ge [OF T(3), of c'] assms(5,6)
    by (auto simp: times_ok_def sorted_append intro: less_imp_le)
  moreover have "\<forall>x \<in> set (?xs @ (e, c') # ?ys). e_flag (evbs s' (fst x)) AND EVDELAY \<noteq> 0"
  proof -
    have f: "e_flag (evbs s' x) = (if x = e then e_flag (evbs s e) OR EVDELAY else e_flag (evbs s x))" for x
      by (simp add: E s1)
    have "(e_flag (evbs s e) OR EVDELAY) AND EVDELAY = EVDELAY" by (simp add: bit_eq_iff bit_simps)
    moreover have "EVDELAY \<noteq> 0" by (simp add: EVDELAY_def)
    moreover have "\<forall>x \<in> set (?xs @ ?ys). e_flag (evbs s (fst x)) AND EVDELAY \<noteq> 0"
      using assms(1) unfolding before_from_on(1) timers_def by blast
    ultimately show ?thesis by (auto simp: f)
  qed
  ultimately have tk: "timers s' (?xs @ (e, c') # ?ys)"
    using l el(2) en by (simp add: timers_def evlist_def)
  show thesis
  proof (rule that [OF a tk])
    show "\<forall>x. x \<notin> set (e # map fst ts) \<longrightarrow> evbs s' x = evbs s x"
    proof (intro allI impI)
      fix x assume "x \<notin> set (e # map fst ts)"
      then have "x \<noteq> e" "x \<notin> set (map fst ?xs)" "x \<notin> set (map fst ?ys)" using el(1) by auto
      moreover from this have "Block x \<noteq> ?q" using q by (metis pred.distinct(1) pred.inject(2))
      moreover from calculation have "(x = ?p \<and> ?p \<noteq> 0) = False" using p by metis
      ultimately show "evbs s' x = evbs s x" unfolding E s1 by auto
    qed
    show "\<forall>r. r \<noteq> Dlr \<longrightarrow> roots s' r = roots s r" by (simp add: R)
  qed (auto simp: s'_def Let_def set_evb_def put_link_def set_root_def s1 split: pred.split)
qed

text \<open>
  \<open>tchange\<close> after \<open>c\<close> ticks, in the middle of the loop: the list starts at time \<open>b\<close>, and
  \<open>c - b\<close> ticks are left to count.
\<close>

definition expired :: "int \<Rightarrow> (nat \<times> int) list \<Rightarrow> nat list" where
  "expired c ts = map fst (takeWhile (\<lambda>x. snd x \<le> c) ts)"

definition pending :: "int \<Rightarrow> (nat \<times> int) list \<Rightarrow> (nat \<times> int) list" where
  "pending c ts = map (\<lambda>x. (fst x, snd x - c)) (dropWhile (\<lambda>x. snd x \<le> c) ts)"

definition delay_flags :: "aes \<Rightarrow> (nat \<times> int) list \<Rightarrow> bool" where
  "delay_flags s ts \<longleftrightarrow> (\<forall>x \<in> set ts. e_flag (evbs s (fst x)) AND EVDELAY \<noteq> 0)"

lemma parms_shift:
  "parms s ts = diffs b (map snd ts) \<Longrightarrow> parms s (map (\<lambda>x. (fst x, snd x - c)) ts) = diffs (b - c) (map snd (map (\<lambda>x. (fst x, snd x - c)) ts))"
  by (induction ts arbitrary: b) (auto simp: parms_def)

lemma times_shift:
  "times_ok ts \<Longrightarrow> \<forall>x \<in> set ts. c < snd x \<Longrightarrow> 0 \<le> c \<Longrightarrow> times_ok (map (\<lambda>x. (fst x, snd x - c)) ts)"
  by (induction ts) (auto simp: times_ok_def)

definition completed :: "aes \<Rightarrow> aes \<Rightarrow> nat set \<Rightarrow> bool" where
  "completed s s' A \<longleftrightarrow> (\<forall>x. x \<notin> A \<longrightarrow> e_flag (evbs s' x) = e_flag (evbs s x) \<and> e_mask (evbs s' x) = e_mask (evbs s x)
         \<and> e_pd (evbs s' x) = e_pd (evbs s x) \<and> e_nextp (evbs s' x) = e_nextp (evbs s x)) \<and> same_pds (pds s) (pds s')
     \<and> (\<forall>e \<in> A. e_flag (evbs s' e) = COMPLETE \<and> e_mask (evbs s' e) = e_mask (evbs s e) \<and> e_pd (evbs s' e) = e_pd (evbs s e)
         \<and> p_evflg (pds s' (e_pd (evbs s e))) AND e_mask (evbs s e) = e_mask (evbs s e))
     \<and> (\<forall>p m. p_evflg (pds s p) AND m = m \<longrightarrow> p_evflg (pds s' p) AND m = m)"

lemma or_keeps: "(a :: 16 word) AND m = m \<Longrightarrow> (a OR k) AND m = m" "((a :: 16 word) OR k) AND k = k"
  by (auto simp: bit_eq_iff bit_simps)

lemma completed_insert:
  assumes "same_data {e} (evbs s) (evbs s2)" "e_flag (evbs s2 e) = COMPLETE" "e_mask (evbs s2 e) = e_mask (evbs s e)"
    "e_pd (evbs s2 e) = e_pd (evbs s e)" "e_nextp (evbs s2 e) = e_nextp (evbs s e)" "same_pds (pds s) (pds s2)"
    and fl: "\<And>p. p_evflg (pds s2 p) = (if p = e_pd (evbs s e) then p_evflg (pds s p) OR e_mask (evbs s e) else p_evflg (pds s p))"
    and "completed s2 s' A"
  shows "completed s s' (insert e A)"
proof -
  have k: "e_mask (evbs s2 x) = e_mask (evbs s x) \<and> e_pd (evbs s2 x) = e_pd (evbs s x) \<and> e_nextp (evbs s2 x) = e_nextp (evbs s x)" for x
    using assms(1,3-5) by (cases "x = e") (auto simp: same_data_def)
  have mono: "p_evflg (pds s p) AND m = m \<Longrightarrow> p_evflg (pds s2 p) AND m = m" for p m
    by (auto simp: fl or_keeps(1))
  have mono': "p_evflg (pds s2 p) AND m = m \<Longrightarrow> p_evflg (pds s' p) AND m = m" for p m
    using assms(8) by (simp add: completed_def)
  have "p_evflg (pds s2 (e_pd (evbs s e))) AND e_mask (evbs s e) = e_mask (evbs s e)" by (simp add: fl or_keeps(2))
  then have "p_evflg (pds s' (e_pd (evbs s e))) AND e_mask (evbs s e) = e_mask (evbs s e)" by (rule mono')
  moreover have "e_flag (evbs s' e) = COMPLETE" using assms(2,8) by (cases "e \<in> A") (auto simp: completed_def)
  moreover have "e_mask (evbs s' x) = e_mask (evbs s2 x) \<and> e_pd (evbs s' x) = e_pd (evbs s2 x)" for x
    using assms(8) by (cases "x \<in> A") (auto simp: completed_def)
  ultimately show ?thesis
    using assms(1,6,8) k mono mono' by (simp add: completed_def same_data_def same_pds_def)
qed

lemma completed_trans:
  assumes "completed s s1 A" "completed s1 s' B"
  shows "completed s s' (A \<union> B)"
proof -
  have a: "e_mask (evbs s1 x) = e_mask (evbs s x) \<and> e_pd (evbs s1 x) = e_pd (evbs s x)" for x
    using assms(1) unfolding completed_def by blast
  have b: "e_mask (evbs s' x) = e_mask (evbs s1 x) \<and> e_pd (evbs s' x) = e_pd (evbs s1 x)" for x
    using assms(2) unfolding completed_def by blast
  have c: "e_flag (evbs s' x) = COMPLETE" if "x \<in> A \<union> B" for x
    using that assms unfolding completed_def by (cases "x \<in> B") auto
  have d: "p_evflg (pds s' (e_pd (evbs s x))) AND e_mask (evbs s x) = e_mask (evbs s x)" if "x \<in> A \<union> B" for x
    using that assms a unfolding completed_def by (metis Un_iff)
  have "same_pds (pds s) (pds s')" using assms by (simp add: completed_def same_pds_def)
  then show ?thesis using assms a b c d unfolding completed_def by simp
qed

lemma set_parm_ok:
  assumes "s' = (set_evb e (\<lambda>b. b\<lparr>e_parm := v\<rparr>) s)\<lparr>cmp_tick := ct, num_tick := nt\<rparr>"
  shows "evlist s' r es \<longleftrightarrow> evlist s r es" "events_ok s' zs \<longleftrightarrow> events_ok s zs"
proof -
  have L: "e_pred (evbs s' x) = e_pred (evbs s x) \<and> e_link (evbs s' x) = e_link (evbs s x)" for x
    by (simp add: assms set_evb_def)
  have o: "roots s' = roots s" "pds s' = pds s" "nrl s' = nrl s" by (simp_all add: assms set_evb_def)
  show ev: "evlist s' r es \<longleftrightarrow> evlist s r es" for r es
    using evlist_links [of es s' s r] evlist_links [of es s s' r] L o by auto
  show "events_ok s' zs \<longleftrightarrow> events_ok s zs" by (simp add: events_ok_def ev nr_list_def o)
qed

lemma tchange_loop_ok:
  assumes "events_ok s zs" "evlist s Dlr (map fst ts)" "set (map fst ts) \<inter> set zs = {}"
    and "parms s ts = diffs b (map snd ts)" "times_ok ts" "delay_flags s ts" "0 \<le> b" "b \<le> c" "c < 2 ^ 31"
  shows "\<exists>s'. tchange_loop (c - b) (roots s Dlr) s = Some s' \<and> events_ok s' (rev (expired c ts) @ zs)
    \<and> timers s' (pending c ts) \<and> completed s s' (set (expired c ts)) \<and> rlr s' = rlr s
    \<and> (pending c ts \<noteq> [] \<longrightarrow> cmp_tick s' = snd (hd (pending c ts)))
    \<and> (\<forall>r. r \<noteq> Zlr \<and> r \<noteq> Dlr \<longrightarrow> roots s' r = roots s r)"
  using assms
proof (induction ts arbitrary: s zs b)
  case Nil
  then have "roots s Dlr = 0" by (simp add: evlist_def)
  with Nil show ?case
    by (auto simp: tchange_loop.simps expired_def pending_def timers_def parms_def times_ok_def completed_def same_data_def same_pds_def)
next
  case (Cons x ts)
  obtain e t where x: "x = (e, t)" by (cases x)
  from Cons.prems x have l: "roots s Dlr = e" "e \<noteq> 0" "e_parm (evbs s e) = t - b" "0 < t" "t < 2 ^ 31"
    "parms s ts = diffs t (map snd ts)" "times_ok ts" "delay_flags s ts"
    by (auto simp: evlist_def parms_def times_ok_def delay_flags_def)
  have "e \<notin> set (map fst ts)" using Cons.prems(2) x by (simp add: evlist_def)
  show ?case
  proof (cases "t \<le> c")
    case False
    define s1 where "s1 = (set_evb e (\<lambda>b. b\<lparr>e_parm := t - c\<rparr>) s)\<lparr>cmp_tick := t - c, num_tick := 0\<rparr>"
    have go: "tchange_loop (c - b) (roots s Dlr) s = Some s1"
      using False l Cons.prems(7-9) by (subst tchange_loop.simps) (simp add: s1_def set_evb_def s32_id)
    have "parms s (x # ts) = diffs b (map snd (x # ts))" by (rule Cons.prems(4))
    have ds: "expired c (x # ts) = []" "pending c (x # ts) = map (\<lambda>x. (fst x, snd x - c)) (x # ts)"
      using False x by (simp_all add: expired_def pending_def)
    have "parms s1 ts = parms s ts" using \<open>e \<notin> set (map fst ts)\<close> by (intro parms_cong) (auto simp: s1_def set_evb_def)
    then have "parms s1 (pending c (x # ts)) = diffs 0 (map snd (pending c (x # ts)))"
      using l(6) parms_shift [of s1 ts t c] x unfolding ds by (simp add: parms_Cons s1_def set_evb_def)
    moreover have "times_ok (pending c (x # ts))"
      using Cons.prems(5,7,8) False x unfolding ds by (intro times_shift) (auto simp: times_ok_def)
    moreover have "map fst (pending c (x # ts)) = map fst (x # ts)" unfolding ds by simp
    moreover have "delay_flags s1 (pending c (x # ts))" using Cons.prems(6) unfolding ds by (auto simp: delay_flags_def s1_def set_evb_def)
    moreover have "completed s s1 {}" by (simp add: completed_def same_pds_def s1_def set_evb_def)
    ultimately have "timers s1 (pending c (x # ts))" and "completed s s1 {}"
      using Cons.prems(2) set_parm_ok(1) [OF s1_def] by (simp_all only: timers_def delay_flags_def simp_thms)
    moreover have "cmp_tick s1 = snd (hd (pending c (x # ts)))" "rlr s1 = rlr s" "roots s1 = roots s"
      unfolding ds by (simp_all add: x s1_def set_evb_def)
    ultimately show ?thesis using go ds(1) Cons.prems(1) set_parm_ok(2) [OF s1_def] by (intro exI [of _ s1]) simp
  next
    case True
    define s1 where "s1 = set_evb e (\<lambda>b. b\<lparr>e_parm := 0\<rparr>) s"
    have s1': "s1 = (set_evb e (\<lambda>b. b\<lparr>e_parm := 0\<rparr>) s)\<lparr>cmp_tick := cmp_tick s, num_tick := num_tick s\<rparr>"
      by (simp add: s1_def set_evb_def)
    have pre: "events_ok s1 zs" "evlist s1 Dlr ([] @ e # map fst ts)" "Dlr \<noteq> Zlr" "set ([] @ e # map fst ts) \<inter> set zs = {}"
      using set_parm_ok [OF s1'] Cons.prems(1,2,3) x by simp_all
    obtain s2 where s2: "evremove e 0 s1 = Some s2" "events_ok s2 (e # zs)" "evlist s2 Dlr (map fst ts)"
      "same_data {e} (evbs s1) (evbs s2)" "e_flag (evbs s2 e) = COMPLETE" "e_mask (evbs s2 e) = e_mask (evbs s1 e)"
      "e_pd (evbs s2 e) = e_pd (evbs s1 e)"
      "\<forall>r'. r' \<noteq> Zlr \<and> r' \<noteq> Dlr \<longrightarrow> roots s2 r' = roots s1 r'" "still s2 = still s1" "same_pds (pds s1) (pds s2)"
      "\<And>p. p_evflg (pds s2 p) = (if p = e_pd (evbs s1 e) then p_evflg (pds s1 p) OR e_mask (evbs s1 e) else p_evflg (pds s1 p))"
      "e_nextp (evbs s2 e) = e_nextp (evbs s1 e)"
      by (rule evremove_ok [OF pre, of 0]) (simp only: append_Nil that)
    have go: "tchange_loop (c - b) (roots s Dlr) s = tchange_loop (c - t) (roots s2 Dlr) s2"
      using True l Cons.prems(7-9) s2(1) by (subst tchange_loop.simps) (simp add: s1_def set_evb_def s32_id)
    have keep: "\<forall>x \<in> set ts. e_parm (evbs s2 (fst x)) = e_parm (evbs s (fst x)) \<and> e_flag (evbs s2 (fst x)) = e_flag (evbs s (fst x))"
    proof (intro ballI)
      fix y assume "y \<in> set ts"
      then have "fst y \<noteq> e" using \<open>e \<notin> set (map fst ts)\<close> by auto
      then show "e_parm (evbs s2 (fst y)) = e_parm (evbs s (fst y)) \<and> e_flag (evbs s2 (fst y)) = e_flag (evbs s (fst y))"
        using s2(4) by (simp add: same_data_def s1_def set_evb_def)
    qed
    have IH: "\<exists>s'. tchange_loop (c - t) (roots s2 Dlr) s2 = Some s' \<and> events_ok s' (rev (expired c ts) @ e # zs)
        \<and> timers s' (pending c ts) \<and> completed s2 s' (set (expired c ts)) \<and> rlr s' = rlr s2
        \<and> (pending c ts \<noteq> [] \<longrightarrow> cmp_tick s' = snd (hd (pending c ts)))
        \<and> (\<forall>r. r \<noteq> Zlr \<and> r \<noteq> Dlr \<longrightarrow> roots s' r = roots s2 r)"
    proof (rule Cons.IH [OF s2(2,3)])
      show "set (map fst ts) \<inter> set (e # zs) = {}" using Cons.prems(3) \<open>e \<notin> set (map fst ts)\<close> x by auto
      show "parms s2 ts = diffs t (map snd ts)" using l(6) keep parms_cong [of ts s2 s] by simp
      show "delay_flags s2 ts" using l(8) keep by (simp add: delay_flags_def)
    qed (use True l Cons.prems(9) in auto)
    have "expired c (x # ts) = e # expired c ts" "pending c (x # ts) = pending c ts"
      using True x by (simp_all add: expired_def pending_def)
    moreover have "completed s s' (insert e A)" if "completed s2 s' A" for s' A
      by (rule completed_insert [OF _ s2(5) _ _ _ _ _ that])
        (use s2(4,6,7,10,11,12) in \<open>auto simp: same_data_def same_pds_def s1_def set_evb_def\<close>)
    moreover have "rlr s2 = rlr s" "\<forall>r. r \<noteq> Zlr \<and> r \<noteq> Dlr \<longrightarrow> roots s2 r = roots s r"
      using s2(8) still_sel(1) [OF s2(9)] by (simp_all add: s1_def set_evb_def)
    ultimately show ?thesis using IH unfolding go by auto
  qed
qed

lemma takeoff_ok:
  assumes "timers s (xs @ (e, t) # ys)"
  shows "timers (takeoff e s) (xs @ ys) \<and> eul (takeoff e s) = e \<and> e_nextp (evbs (takeoff e s) e) = eul s
    \<and> (\<forall>r. r \<noteq> Dlr \<longrightarrow> roots (takeoff e s) r = roots s r)"
proof -
  let ?s1 = "unlink_evb e s" and ?n = "e_link (evbs s e)"
  let ?s' = "takeoff e s"
  from assms have ev: "evlist s Dlr (map fst xs @ e # map fst ys)" and pm: "parms s (xs @ (e, t) # ys) = diffs 0 (map snd (xs @ (e, t) # ys))"
    and tm: "times_ok (xs @ (e, t) # ys)" and fl: "\<forall>x \<in> set (xs @ (e, t) # ys). e_flag (evbs s (fst x)) AND EVDELAY \<noteq> 0"
    by (simp_all add: timers_def)
  note u = unlink_evlist [OF ev]
  have ee: "e \<notin> set (map fst (xs @ ys))" and dis: "distinct (map fst xs @ map fst ys)" using ev by (auto simp: evlist_def)
  then have ue: "evbs ?s1 e = evbs s e" using u(3) by simp
  have n: "?n = hd0 (map fst ys)" using ev by (cases ys) (auto simp: evlist_def dseg_append)
  have eflag: "e_flag (evbs s e) AND EVDELAY \<noteq> 0" using fl by auto
  have E: "evbs ?s' x = (let b = evbs ?s1 x in if x = e then b\<lparr>e_nextp := eul s\<rparr>
      else if x = ?n \<and> ?n \<noteq> 0 then b\<lparr>e_parm := s32 (e_parm b + e_parm (evbs s e))\<rparr> else b)" for x
  proof -
    have "?n \<noteq> e" using n ee dseg_nonzero [of "evbs s" _ _ "map fst xs @ e # map fst ys" 0] ev by (cases ys) (auto simp: evlist_def)
    moreover have "eul ?s1 = eul s" using arg_cong [OF u(5), of eul] by (simp add: others_def)
    ultimately show ?thesis using ue eflag by (simp add: takeoff_def Let_def set_evb_def)
  qed
  have R: "roots ?s' = roots ?s1" "eul ?s' = e" by (simp_all add: takeoff_def Let_def set_evb_def)
  have l: "evlist ?s' Dlr (map fst (xs @ ys))"
    using evlist_links [of "map fst xs @ map fst ys" ?s' ?s1 Dlr] u(1) by (simp add: E R Let_def)
  have par: "parms ?s1 zs = parms s zs" for zs using u(2) by (simp add: parms_def same_data_def)
  have pp: "parms s xs = diffs 0 (map snd xs)" "e_parm (evbs s e) = t - last_time 0 xs" "parms s ys = diffs t (map snd ys)"
    using pm parms_diffs_split [of s xs "(e, t) # ys" 0] by (simp_all add: parms_Cons)
  have lt: "last_time 0 xs \<le> t" "0 \<le> last_time 0 xs" "t < 2 ^ 31"
    using tm by (auto simp: last_time_def times_ok_def sorted_append intro: less_imp_le)
  have keep: "e_parm (evbs ?s' x) = e_parm (evbs ?s1 x)" if "x \<noteq> ?n \<or> ?n = 0" for x
    using that by (auto simp: E Let_def)
  have "parms ?s' xs = parms ?s1 xs"
  proof (intro parms_cong ballI keep)
    fix x assume "x \<in> set xs"
    then have "fst x \<in> set (map fst xs)" by simp
    moreover have "set (map fst xs) \<inter> set (map fst ys) = {}" using dis by (simp only: distinct_append)
    moreover have "?n = 0 \<or> ?n \<in> set (map fst ys)" using n by (cases ys) simp_all
    ultimately show "fst x \<noteq> ?n \<or> ?n = 0" by (metis disjoint_iff)
  qed
  moreover have "parms ?s' ys = diffs (last_time 0 xs) (map snd ys)"
  proof (cases ys)
    case (Cons y zs)
    then have ny: "?n = fst y" "fst y \<noteq> 0" "fst y \<noteq> e" "\<forall>z \<in> set zs. fst z \<noteq> ?n"
      using n ee dis dseg_nonzero [of "evbs s" "FAKE_EVB Dlr" "roots s Dlr" "map fst xs @ e # map fst ys" 0] ev
      by (auto simp: evlist_def image_iff)
    have y: "t \<le> snd y" "snd y < 2 ^ 31" using tm Cons by (auto simp: times_ok_def sorted_append)
    have "e_parm (evbs s (fst y)) = snd y - t" using pp(3) Cons by (simp add: parms_Cons)
    moreover have "e_parm (evbs ?s1 (fst y)) = e_parm (evbs s (fst y))" using u(2) by (simp add: same_data_def)
    ultimately have "e_parm (evbs ?s' (fst y)) = snd y - last_time 0 xs"
      using ny(1-3) pp(2) lt y by (simp add: E Let_def s32_id)
    moreover have "parms ?s' zs = parms ?s1 zs" using ny(4) by (intro parms_cong ballI keep) blast
    ultimately show ?thesis using pp(3) par [of zs] Cons by (simp only: parms_Cons) simp
  qed (simp add: parms_def)
  ultimately have "parms ?s' (xs @ ys) = diffs 0 (map snd (xs @ ys))"
    using par pp(1) by (simp only: parms_diffs_split simp_thms)
  moreover have "times_ok (xs @ ys)" using tm by (auto simp: times_ok_def sorted_append)
  moreover have "e_flag (evbs ?s' x) = e_flag (evbs s x)" for x
    using u(2) by (simp add: E Let_def same_data_def)
  ultimately show ?thesis using l fl R u(4) ue by (simp add: timers_def) (simp add: E Let_def)
qed

section \<open>Properties\<close>

text \<open>A state in which nothing waits, with one process, whose address is 1.\<close>

definition idle_evb :: evb where
  "idle_evb = \<lparr>e_nextp = 0, e_link = 0, e_pred = FAKE_EVB Zlr, e_pd = 1, e_parm = 0, e_flag = 0, e_mask = 1, e_return = 0\<rparr>"

definition idle_pd :: aespd where
  "idle_pd = \<lparr>p_link = 0, p_stat = 0, p_evwait = 0, p_evflg = 0, p_evlist = 0, p_cda = 0, p_qindex = 0, p_queue = \<lambda>_. 0,
     p_pid = 0, p_action = - 1, p_wh = 0\<rparr>"

definition no_rect :: grect where
  "no_rect = \<lparr>g_x = 0, g_y = 0, g_w = 0, g_h = 0\<rparr>"

definition idle_aes :: aes where
  "idle_aes = \<lparr>evbs = \<lambda>_. idle_evb, roots = \<lambda>_. 0, eul = 0, pds = \<lambda>_. idle_pd, rlr = 1, drl = 0, nrl = 0,
     spbs = \<lambda>_. \<lparr>sy_tas = 0, sy_owner = 0\<rparr>, cqs = \<lambda>_. \<lparr>c_buff = \<lambda>_. 0, c_front = 0, c_rear = 0, c_cnt = 0\<rparr>,
     button = 0, xrat = 0, yrat = 0, cmp_tick = 0, num_tick = 0, g_fpdx = \<lambda>_. (Tchange, 0), fpt = 0, fph = 0, fpcnt = 0,
     gl_recd = False, gl_rlen = 0, gl_rbuf = 0, recbuf = \<lambda>_. (Tchange, 0), gl_bpend = 0,
     moblks = \<lambda>_. \<lparr>m_out = 0, m_gr = no_rect\<rparr>, qpbs = \<lambda>_. \<lparr>qpb_ppd = 0, qpb_cnt = 0, qpb_buf = 0\<rparr>, amem = \<lambda>_. 0,
     kstate = 0, mclick = 0, mtrans = 0, pr_button = 0, pr_mclick = 0, pr_xrat = 0, pr_yrat = 0, gl_btrue = 0, gl_bdesired = 0,
     gl_bclick = 0, gl_bdely = 0, gl_dclick = 10, gl_mowner = 1, gl_cowner = 1, gl_ctmown = False, gl_play = False,
     ctrl = no_rect, gl_rmenu = no_rect, ctl_pd = 1, desk_owner = 1, gl_mntree = 0, gl_ctwait = \<lparr>m_out = 0, m_gr = no_rect\<rparr>\<rparr>"

text \<open>Two timers.\<close>

definition two_timers :: aes where
  "two_timers = idle_aes\<lparr>roots := (\<lambda>_. 0)(Dlr := 1), cmp_tick := 5,
     evbs := (\<lambda>_. idle_evb)(1 := idle_evb\<lparr>e_pred := FAKE_EVB Dlr, e_link := 2, e_parm := 5, e_flag := EVDELAY\<rparr>,
       2 := idle_evb\<lparr>e_pred := Block 1, e_parm := 4, e_flag := EVDELAY\<rparr>)\<rparr>"

lemma idle_lists: "nr_list idle_aes []" "evlist idle_aes r []"
  by (simp_all add: nr_list_def evlist_def idle_aes_def)

lemma two_timers_ok: "timers two_timers [(1, 5), (2, 9)]" "events_ok two_timers []"
proof -
  show "timers two_timers [(1, 5), (2, 9)]"
    by (simp add: timers_def evlist_def parms_def times_ok_def two_timers_def idle_evb_def EVDELAY_def)
  have "nr_list two_timers []" by (simp add: nr_list_def two_timers_def idle_aes_def)
  then show "events_ok two_timers []"
    unfolding events_ok_def by (auto simp: evlist_def two_timers_def)
qed

text \<open>
  C6. The delay list implements a set of timers, ordered by the time that is left:
  \<open>adelay\<close> adds an event behind those that are due earlier, for at least one tick; the passing
  of \<open>c\<close> ticks completes the events that are due, in order, each signalled to its process,
  leaves the others with \<open>c\<close> ticks less and sets the tick counter to the first of them; and
  taking a timer off leaves the time of every other one as it was.
\<close>

theorem timers_refine:
  assumes "timers s ts" "events_ok s zs" "set (map fst ts) \<inter> set zs = {}"
  shows "(\<forall>e c. e \<noteq> 0 \<and> e \<notin> set (map fst ts) \<and> 0 \<le> c \<and> c < 2 ^ 31 \<longrightarrow>
      (\<exists>s'. adelay e c s = Some s' \<and> timers s' (before (max 1 c) ts @ (e, max 1 c) # from_on (max 1 c) ts)))
    \<and> (\<forall>c. 0 \<le> c \<and> c < 2 ^ 31 \<longrightarrow>
      (\<exists>s'. tchange c s = Some s' \<and> timers s' (pending c ts) \<and> events_ok s' (rev (expired c ts) @ zs)
        \<and> completed s s' (set (expired c ts)) \<and> (pending c ts \<noteq> [] \<longrightarrow> cmp_tick s' = snd (hd (pending c ts)))))
    \<and> (\<forall>xs e t ys. ts = xs @ (e, t) # ys \<longrightarrow> timers (takeoff e s) (xs @ ys))"
proof (intro conjI allI impI)
  fix e c
  assume a: "e \<noteq> 0 \<and> e \<notin> set (map fst ts) \<and> 0 \<le> c \<and> c < (2 :: int) ^ 31"
  then have m: "max 1 c = (if c = 0 then 1 else c)" "0 < max 1 c" "max 1 c < 2 ^ 31" by auto
  from a have "e \<noteq> 0" "e \<notin> set (map fst ts)" by auto
  then show "\<exists>s'. adelay e c s = Some s' \<and> timers s' (before (max 1 c) ts @ (e, max 1 c) # from_on (max 1 c) ts)"
    by (rule adelay_ok [OF assms(1) _ _ m]) blast
next
  fix c
  assume a: "0 \<le> c \<and> c < (2 :: int) ^ 31"
  from assms(1) have "evlist s Dlr (map fst ts)" "parms s ts = diffs 0 (map snd ts)" "times_ok ts" "delay_flags s ts"
    by (auto simp: timers_def delay_flags_def)
  from tchange_loop_ok [OF assms(2) this(1) assms(3) this(2-4), of c] a
  show "\<exists>s'. tchange c s = Some s' \<and> timers s' (pending c ts) \<and> events_ok s' (rev (expired c ts) @ zs)
      \<and> completed s s' (set (expired c ts)) \<and> (pending c ts \<noteq> [] \<longrightarrow> cmp_tick s' = snd (hd (pending c ts)))"
    unfolding tchange_def by auto
next
  fix xs e t ys
  assume "ts = xs @ (e, t) # ys"
  with takeoff_ok [of s xs e t ys] assms(1) show "timers (takeoff e s) (xs @ ys)" by simp
qed

theorem timers_refine_witness:
  "\<exists>s'. tchange 7 two_timers = Some s' \<and> timers s' [(2, 2)] \<and> events_ok s' [1] \<and> cmp_tick s' = 2"
  using timers_refine [OF two_timers_ok, simplified, THEN conjunct2, THEN conjunct1, rule_format, of 7]
  by (auto simp: expired_def pending_def)

end
