(* ===== verification/AesSync.thy ===== *)
theory AesSync
  imports AesEvents
begin

text \<open>
  The semaphores of aes/gemflag.c. The lemmas show a semaphore to refine a lock that is free,
  or held a number of times by one process while others wait: it excludes all processes but
  its owner, and every release by the owner brings the first waiting event nearer.
\<close>

section \<open>Semaphores\<close>

definition set_spb :: "nat \<Rightarrow> (spb \<Rightarrow> spb) \<Rightarrow> aes \<Rightarrow> aes" where
  "set_spb y f s = s\<lparr>spbs := (spbs s)(y := f (spbs s y))\<rparr>"

definition tak_flag :: "nat \<Rightarrow> aes \<Rightarrow> bool \<times> aes" where
  "tak_flag sy s =
     (let s = set_spb sy (\<lambda>y. y\<lparr>sy_tas := s16 (sy_tas y + 1)\<rparr>) s;
          s = (if sy_owner (spbs s sy) \<noteq> rlr s \<and> sy_tas (spbs s sy) \<noteq> 1
               then set_spb sy (\<lambda>y. y\<lparr>sy_tas := s16 (sy_tas y - 1)\<rparr>) s
               else set_spb sy (\<lambda>y. y\<lparr>sy_owner := rlr s\<rparr>) s)
      in (sy_owner (spbs s sy) = rlr s, s))"

definition amutex :: "nat \<Rightarrow> nat \<Rightarrow> aes \<Rightarrow> aes option" where
  "amutex e sy s =
     (case tak_flag sy s of (got, s) \<Rightarrow> if got then azombie e 0 s else Some (evinsert e (Sy_wait sy) s))"

definition unsync :: "(aes \<Rightarrow> aes option) \<Rightarrow> nat \<Rightarrow> aes \<Rightarrow> aes option" where
  "unsync dsptch sy s =
     (if sy_tas (spbs s sy) \<le> 0 then Some (set_spb sy (\<lambda>y. y\<lparr>sy_tas := 0\<rparr>) s)
      else
      let s = set_spb sy (\<lambda>y. y\<lparr>sy_tas := s16 (sy_tas y - 1)\<rparr>) s in
      if sy_tas (spbs s sy) = 0 then
        let p = roots s (Sy_wait sy) in
        if p \<noteq> 0 then
          let s = set_root (Sy_wait sy) (e_link (evbs s p)) s;
              s = set_spb sy (\<lambda>y. y\<lparr>sy_owner := e_pd (evbs s p)\<rparr>) s;
              s = set_spb sy (\<lambda>y. y\<lparr>sy_tas := 1\<rparr>) s
          in Option.bind (azombie p 0 s) dsptch
        else Some (set_spb sy (\<lambda>y. y\<lparr>sy_owner := 0\<rparr>) s)
      else Some s)"

section \<open>Semaphores as locks\<close>

text \<open>
  A semaphore is free, or held by a process a number of times with events waiting, the last
  to wait first. The list of waiting events is only used forwards: handing the semaphore over
  leaves the back pointer of the next event as it was.
\<close>

datatype lock = Free | Held nat nat "nat list"

definition wait_list :: "aes \<Rightarrow> nat \<Rightarrow> nat list \<Rightarrow> bool" where
  "wait_list s y ws \<longleftrightarrow> chain (\<lambda>e. e_link (evbs s e)) (roots s (Sy_wait y)) ws"

fun lock_is :: "aes \<Rightarrow> nat \<Rightarrow> lock \<Rightarrow> bool" where
  "lock_is s y Free \<longleftrightarrow> sy_tas (spbs s y) = 0 \<and> sy_owner (spbs s y) = 0 \<and> wait_list s y []"
| "lock_is s y (Held p n ws) \<longleftrightarrow> p \<noteq> 0 \<and> 1 \<le> n \<and> n < 32768 \<and> sy_tas (spbs s y) = int n \<and> sy_owner (spbs s y) = p
     \<and> wait_list s y ws \<and> (\<forall>e \<in> set ws. e_pd (evbs s e) \<noteq> 0)"

fun waiting :: "lock \<Rightarrow> nat list" where
  "waiting Free = []"
| "waiting (Held p n ws) = ws"

fun take_lock :: "nat \<Rightarrow> lock \<Rightarrow> lock" where
  "take_lock p Free = Held p 1 []"
| "take_lock p (Held q n ws) = (if q = p then Held q (n + 1) ws else Held q n ws)"

fun queue_on :: "nat \<Rightarrow> lock \<Rightarrow> lock" where
  "queue_on e Free = Free"
| "queue_on e (Held p n ws) = Held p n (e # ws)"

text \<open>Releasing, where \<open>pd\<close> gives the process of an event.\<close>

fun release :: "(nat \<Rightarrow> nat) \<Rightarrow> lock \<Rightarrow> lock" where
  "release pd Free = Free"
| "release pd (Held p n []) = (if n = 1 then Free else Held p (n - 1) [])"
| "release pd (Held p n (e # ws)) = (if n = 1 then Held (pd e) 1 ws else Held p (n - 1) (e # ws))"

fun lock_owner :: "lock \<Rightarrow> nat" where
  "lock_owner Free = 0"
| "lock_owner (Held p n ws) = p"

fun deep :: "lock \<Rightarrow> bool" where
  "deep Free = False"
| "deep (Held p n ws) = (n \<ge> 32767)"

lemma set_spb_sel [simp]:
  "spbs (set_spb y f s) y = f (spbs s y)" "evbs (set_spb y f s) = evbs s" "roots (set_spb y f s) = roots s"
  "rlr (set_spb y f s) = rlr s" "pds (set_spb y f s) = pds s" "nrl (set_spb y f s) = nrl s"
  by (simp_all add: set_spb_def)

lemma tak_flag_ok:
  assumes "lock_is s y l" "rlr s \<noteq> 0" "\<not> deep l"
  shows "lock_is (snd (tak_flag y s)) y (take_lock (rlr s) l)"
    "fst (tak_flag y s) \<longleftrightarrow> lock_owner (take_lock (rlr s) l) = rlr s"
    "evbs (snd (tak_flag y s)) = evbs s" "roots (snd (tak_flag y s)) = roots s" "pds (snd (tak_flag y s)) = pds s"
    "nrl (snd (tak_flag y s)) = nrl s" "rlr (snd (tak_flag y s)) = rlr s"
  using assms
  by (cases l; auto simp: tak_flag_def Let_def wait_list_def s16_id)+

definition sync_ok :: "aes \<Rightarrow> nat \<Rightarrow> lock \<Rightarrow> nat list \<Rightarrow> bool" where
  "sync_ok s y l zs \<longleftrightarrow> lock_is s y l \<and> events_ok s zs \<and> set (waiting l) \<inter> set zs = {}"

lemma lock_is_cong:
  assumes "lock_is s y l" "\<forall>x \<in> set (waiting l). evbs s' x = evbs s x" "roots s' (Sy_wait y) = roots s (Sy_wait y)"
    "spbs s' y = spbs s y"
  shows "lock_is s' y l"
proof -
  have "wait_list s' y (waiting l)" if "wait_list s y (waiting l)"
    using that assms(2,3) seg_cong [of "waiting l" "\<lambda>e. e_link (evbs s' e)" "\<lambda>e. e_link (evbs s e)"]
    by (simp add: wait_list_def)
  with assms show ?thesis by (cases l) auto
qed

lemma events_ok_cong:
  "\<forall>x \<in> set zs. evbs s' x = evbs s x \<Longrightarrow> roots s' Zlr = roots s Zlr \<Longrightarrow> pds s' = pds s \<Longrightarrow> nrl s' = nrl s
    \<Longrightarrow> events_ok s zs \<Longrightarrow> events_ok s' zs"
  using evlist_cong [of zs s' s Zlr] by (auto simp: events_ok_def nr_list_def)

text \<open>Completing an event that is neither waiting nor completed.\<close>

lemma sync_azombie:
  assumes "sync_ok s y l zs" "e \<noteq> 0" "e \<notin> set zs" "e \<notin> set (waiting l)"
  obtains s' where "azombie e rv s = Some s'" "sync_ok s' y l (e # zs)" "e_flag (evbs s' e) = COMPLETE"
    "rlr s' = rlr s" "p_evflg (pds s' (e_pd (evbs s e))) AND e_mask (evbs s e) = e_mask (evbs s e)"
    "\<And>x. e_pd (evbs s' x) = e_pd (evbs s x)" "\<And>x. x \<notin> set (e # zs) \<Longrightarrow> evbs s' x = evbs s x"
proof -
  from assms(1) obtain ns where o: "lock_is s y l" "evlist s Zlr zs" "nr_list s ns" "set (waiting l) \<inter> set zs = {}"
    by (auto simp: sync_ok_def events_ok_def)
  obtain s' ns' where s': "azombie e rv s = Some s'" "nr_list s' ns'" "evlist s' Zlr (e # zs)"
    "\<forall>x. x \<notin> set (e # zs) \<longrightarrow> evbs s' x = evbs s x" "same_data {e} (evbs s) (evbs s')"
    "e_flag (evbs s' e) = COMPLETE" "e_mask (evbs s' e) = e_mask (evbs s e)" "e_pd (evbs s' e) = e_pd (evbs s e)"
    "e_nextp (evbs s' e) = e_nextp (evbs s e)" "e_return (evbs s' e) = MAKE_LONG (button s) rv"
    "\<forall>r. r \<noteq> Zlr \<longrightarrow> roots s' r = roots s r" "still s' = still s" "same_pds (pds s) (pds s')"
    "\<And>p. p_evflg (pds s' p) = (if p = e_pd (evbs s e) then p_evflg (pds s p) OR e_mask (evbs s e) else p_evflg (pds s p))"
    by (rule azombie_ok [OF o(3,2) assms(3,2), of rv]) blast
  have "\<forall>x \<in> set (waiting l). evbs s' x = evbs s x" using s'(4) o(4) assms(4) by auto
  then have "lock_is s' y l" using lock_is_cong [OF o(1)] s'(11) still_sel(2) [OF s'(12)] by simp
  then have "sync_ok s' y l (e # zs)" using s'(2,3) o(4) assms(4) by (auto simp: sync_ok_def events_ok_def)
  moreover have "e_pd (evbs s' x) = e_pd (evbs s x)" for x using s'(5,8) by (cases "x = e") (auto simp: same_data_def)
  ultimately show thesis
    using that [of s'] s'(1,4,6,14) still_sel(1) [OF s'(12)] or_keeps(2) by auto
qed

lemma evinsert_wait:
  assumes "wait_list s y ws" "e \<noteq> 0" "e \<notin> set ws"
  shows "wait_list (evinsert e (Sy_wait y) s) y (e # ws)" "\<And>x. e_pd (evbs (evinsert e (Sy_wait y) s) x) = e_pd (evbs s x)"
    "\<And>x. x \<notin> set (e # ws) \<Longrightarrow> evbs (evinsert e (Sy_wait y) s) x = evbs s x"
    "\<And>r. r \<noteq> Sy_wait y \<Longrightarrow> roots (evinsert e (Sy_wait y) s) r = roots s r" "others (evinsert e (Sy_wait y) s) = others s"
proof -
  let ?z = "roots s (Sy_wait y)" and ?s = "evinsert e (Sy_wait y) s"
  have z: "?z = hd0 ws" "?z \<noteq> e" using assms chain_hd0 [of _ ?z ws] by (cases ws; auto simp: wait_list_def)+
  have zin: "?z \<noteq> 0 \<Longrightarrow> ?z \<in> set ws" using z by (cases ws) auto
  have E: "evbs ?s = (if ?z \<noteq> 0 then (evbs s)(?z := (evbs s ?z)\<lparr>e_pred := Block e\<rparr>) else evbs s)
      (e := (evbs s e)\<lparr>e_pred := FAKE_EVB (Sy_wait y), e_link := ?z\<rparr>)"
    using z(2) by (auto simp: evinsert_def Let_def put_pred_sel set_evb_def set_root_def)
  have R: "roots ?s = (roots s)(Sy_wait y := e)"
    by (simp add: evinsert_def Let_def put_pred_sel set_evb_def set_root_def)
  have L: "(\<lambda>x. e_link (evbs ?s x)) = (\<lambda>x. e_link (evbs s x))(e := ?z)" by (auto simp: E)
  show "wait_list ?s y (e # ws)"
    using assms seg_frame [of e ws "\<lambda>x. e_link (evbs s x)" ?z] unfolding wait_list_def L R by simp
  show "e_pd (evbs ?s x) = e_pd (evbs s x)" for x by (simp add: E)
  show "evbs ?s x = evbs s x" if "x \<notin> set (e # ws)" for x using that zin by (auto simp: E)
  show "roots ?s r = roots s r" if "r \<noteq> Sy_wait y" for r using that by (simp add: R)
  show "others ?s = others s" by (simp add: evinsert_def Let_def)
qed

lemma tak_flag_sync:
  assumes "sync_ok s y l zs" "rlr s \<noteq> 0" "\<not> deep l"
  shows "sync_ok (snd (tak_flag y s)) y (take_lock (rlr s) l) zs" "waiting (take_lock (rlr s) l) = waiting l"
proof -
  note tk = tak_flag_ok [of s y l, OF _ assms(2,3)]
  show w: "waiting (take_lock (rlr s) l) = waiting l" by (cases l) auto
  show "sync_ok (snd (tak_flag y s)) y (take_lock (rlr s) l) zs"
    using assms(1) tk events_ok_cong [of zs "snd (tak_flag y s)" s] w by (auto simp: sync_ok_def)
qed

lemma amutex_ok:
  assumes "sync_ok s y l zs" "rlr s \<noteq> 0" "\<not> deep l" "e \<noteq> 0" "e \<notin> set zs" "e \<notin> set (waiting l)" "e_pd (evbs s e) = rlr s"
  obtains s' where "amutex e y s = Some s'" "rlr s' = rlr s" "\<And>x. e_pd (evbs s' x) = e_pd (evbs s x)"
    "if lock_owner (take_lock (rlr s) l) = rlr s then sync_ok s' y (take_lock (rlr s) l) (e # zs)
     else sync_ok s' y (queue_on e l) zs"
proof -
  obtain got s1 where t: "tak_flag y s = (got, s1)" by (cases "tak_flag y s")
  have lk: "lock_is s y l" using assms(1) by (simp add: sync_ok_def)
  note tk = tak_flag_ok [OF lk assms(2,3), unfolded t, simplified] tak_flag_sync [OF assms(1-3), unfolded t, simplified]
  show thesis
  proof (cases got)
    case True
    obtain s' where s': "azombie e 0 s1 = Some s'" "sync_ok s' y (take_lock (rlr s) l) (e # zs)" "rlr s' = rlr s1"
      "\<And>x. e_pd (evbs s' x) = e_pd (evbs s1 x)"
      by (rule sync_azombie [OF tk(8) assms(4,5), of 0]) (use assms(6) tk(9) in auto)
    then show thesis using that [of s'] True t tk by (simp add: amutex_def)
  next
    case False
    then obtain p n ws where l: "l = Held p n ws" "p \<noteq> rlr s" using tk(2) by (cases l) (auto split: if_splits)
    let ?s = "evinsert e (Sy_wait y) s1"
    from tk(8) l have ok: "lock_is s1 y l" "events_ok s1 zs" "set ws \<inter> set zs = {}" by (auto simp: sync_ok_def)
    then have w: "wait_list s1 y ws" using l by simp
    note ev = evinsert_wait [OF w assms(4)] 
    have "e \<notin> set ws" using assms(6) l by simp
    note ev = ev [OF this]
    have sp: "spbs ?s = spbs s1" using still_sel(2) [OF others_still [OF ev(5)]] .
    have "lock_is ?s y (Held p n (e # ws))"
      using ok(1) l ev(1,2) sp assms(2,7) tk(3) by simp
    moreover have "evbs ?s x = evbs s1 x" if "x \<in> set zs" for x
      by (rule ev(3)) (use that ok(3) assms(5) in auto)
    then have "events_ok ?s zs"
      by (intro events_ok_cong [OF _ _ _ _ ok(2)]) (use ev(4) others_pds [OF ev(5)] in auto)
    ultimately have "sync_ok ?s y (queue_on e l) zs" using l ok(3) assms(5) by (simp add: sync_ok_def)
    then show thesis
      using that [of ?s] False t l tk(3,7) ev(2) still_sel(1) [OF others_still [OF ev(5)]] by (simp add: amutex_def)
  qed
qed

lemma unsync_ok:
  assumes "sync_ok s y l zs"
  obtains s' zs' where "unsync Some y s = Some s'" "sync_ok s' y (release (\<lambda>e. e_pd (evbs s e)) l) zs'" "rlr s' = rlr s"
    "\<And>x. e_pd (evbs s' x) = e_pd (evbs s x)" "\<And>x. x \<notin> set (waiting l) \<union> set zs \<Longrightarrow> evbs s' x = evbs s x"
    "\<And>p e ws. l = Held p 1 (e # ws) \<Longrightarrow> e_flag (evbs s' e) = COMPLETE
       \<and> p_evflg (pds s' (e_pd (evbs s e))) AND e_mask (evbs s e) = e_mask (evbs s e)"
proof -
  note out = that
  from assms have lk: "lock_is s y l" "events_ok s zs" "set (waiting l) \<inter> set zs = {}" by (auto simp: sync_ok_def)
  have plain: thesis if "unsync Some y s = Some (set_spb y f s)" "lock_is (set_spb y f s) y l'"
    "release (\<lambda>e. e_pd (evbs s e)) l = l'" "set (waiting l') \<subseteq> set (waiting l)" "\<nexists>p e ws. l = Held p 1 (e # ws)" for f l'
  proof -
    have "sync_ok (set_spb y f s) y l' zs"
      using that lk events_ok_cong [of zs "set_spb y f s" s] by (auto simp: sync_ok_def)
    with that(1,3,5) show thesis by (intro out [of "set_spb y f s" zs]) auto
  qed
  show thesis
  proof (cases l)
    case Free
    then show thesis using lk(1) by (intro plain [of "\<lambda>v. v\<lparr>sy_tas := 0\<rparr>" Free]) (auto simp: unsync_def wait_list_def)
  next
    case (Held p n ws)
    then have h: "1 \<le> n" "n < 32768" "sy_tas (spbs s y) = int n" "wait_list s y ws" using lk(1) by auto
    have s16: "s16 (int n - 1) = int n - 1" using h by (simp add: s16_id)
    show thesis
    proof (cases "n = 1")
      case False
      let ?f = "\<lambda>v. v\<lparr>sy_tas := s16 (sy_tas v - 1)\<rparr>"
      have "unsync Some y s = Some (set_spb y ?f s)" using h False s16 by (simp add: unsync_def Let_def)
      moreover have "lock_is (set_spb y ?f s) y (Held p (n - 1) ws)"
        using lk(1) Held h False s16 by (auto simp: wait_list_def)
      moreover have "release (\<lambda>e. e_pd (evbs s e)) l = Held p (n - 1) ws" using Held False by (cases ws) auto
      ultimately show thesis using Held False by (intro plain) auto
    next
      case True
      show thesis
      proof (cases ws)
        case Nil
        let ?f = "\<lambda>v. v\<lparr>sy_tas := 0, sy_owner := 0\<rparr>"
        have "roots s (Sy_wait y) = 0" using h(4) Nil by (simp add: wait_list_def)
        then have "unsync Some y s = Some (set_spb y ?f s)" using h True s16 by (simp add: unsync_def Let_def set_spb_def)
        then show thesis
          using lk(1) Held True Nil by (intro plain [of ?f Free]) (auto simp: wait_list_def)
      next
        case (Cons e us)
        then have l: "l = Held p 1 (e # us)" using Held True by simp
        define s1 where "s1 = set_spb y (\<lambda>v. v\<lparr>sy_owner := e_pd (evbs s e), sy_tas := 1\<rparr>) (set_root (Sy_wait y) (e_link (evbs s e)) s)"
        have w: "roots s (Sy_wait y) = e" "e \<noteq> 0" "chain (\<lambda>e. e_link (evbs s e)) (e_link (evbs s e)) us" "e \<notin> set us"
          using h(4) Cons chain_distinct [of "\<lambda>e. e_link (evbs s e)" "roots s (Sy_wait y)" ws] by (auto simp: wait_list_def)
        have un: "unsync Some y s = Option.bind (azombie e 0 s1) Some"
          using h True s16 w(1,2) by (simp add: unsync_def Let_def set_spb_def set_root_def s1_def)
        have s1: "evbs s1 = evbs s" "pds s1 = pds s" "nrl s1 = nrl s" "rlr s1 = rlr s" "roots s1 Zlr = roots s Zlr"
          by (simp_all add: s1_def set_spb_def set_root_def)
        have "lock_is s1 y (Held (e_pd (evbs s e)) 1 us)"
          using lk(1) Held Cons w(3) by (auto simp: wait_list_def s1_def set_spb_def set_root_def)
        moreover have "events_ok s1 zs" using lk(2) s1 by (intro events_ok_cong [of zs s1 s]) auto
        ultimately have "sync_ok s1 y (Held (e_pd (evbs s e)) 1 us) zs" using lk(3) l by (auto simp: sync_ok_def)
        then obtain s' where s': "azombie e 0 s1 = Some s'" "sync_ok s' y (Held (e_pd (evbs s e)) 1 us) (e # zs)"
          "e_flag (evbs s' e) = COMPLETE" "rlr s' = rlr s1" "p_evflg (pds s' (e_pd (evbs s1 e))) AND e_mask (evbs s1 e) = e_mask (evbs s1 e)"
          "\<And>x. e_pd (evbs s' x) = e_pd (evbs s1 x)" "\<And>x. x \<notin> set (e # zs) \<Longrightarrow> evbs s' x = evbs s1 x"
          by (rule sync_azombie [of s1 y "Held (e_pd (evbs s e)) 1 us" zs e 0]) (use w(2,4) lk(3) l in auto)
        show thesis
          by (rule out [of s' "e # zs"]) (use un s' s1 l in auto)
      qed
    qed
  qed
qed

section \<open>Runs of a semaphore\<close>

definition unused :: "aes \<Rightarrow> nat \<Rightarrow> nat \<Rightarrow> bool" where
  "unused s y e \<longleftrightarrow> e \<noteq> 0 \<and> (\<forall>ws. wait_list s y ws \<longrightarrow> e \<notin> set ws) \<and> (\<forall>zs. evlist s Zlr zs \<longrightarrow> e \<notin> set zs)"

text \<open>
  What can happen to a semaphore: another process runs, the running process tries to take it,
  waits for it with an event of its own, or it is released.
\<close>

inductive sync_reach :: "nat \<Rightarrow> aes \<Rightarrow> bool" for y where
  start: "sync_ok s y Free zs \<Longrightarrow> rlr s \<noteq> 0 \<Longrightarrow> sync_reach y s"
| switch: "sync_reach y s \<Longrightarrow> p \<noteq> 0 \<Longrightarrow> sync_reach y (s\<lparr>rlr := p\<rparr>)"
| tak: "sync_reach y s \<Longrightarrow> sy_tas (spbs s y) < 32767 \<Longrightarrow> sync_reach y (snd (tak_flag y s))"
| wait: "sync_reach y s \<Longrightarrow> sy_tas (spbs s y) < 32767 \<Longrightarrow> unused s y e \<Longrightarrow> e_pd (evbs s e) = rlr s
    \<Longrightarrow> amutex e y s = Some s' \<Longrightarrow> sync_reach y s'"
| give: "sync_reach y s \<Longrightarrow> unsync Some y s = Some s' \<Longrightarrow> sync_reach y s'"

lemma not_deep: "sync_ok s y l zs \<Longrightarrow> sy_tas (spbs s y) < 32767 \<Longrightarrow> \<not> deep l"
  by (cases l) (auto simp: sync_ok_def)

lemma sync_ok_rlr: "sync_ok (s\<lparr>rlr := p\<rparr>) y l zs \<longleftrightarrow> sync_ok s y l zs"
  by (cases l) (simp_all add: sync_ok_def wait_list_def events_ok_def evlist_def nr_list_def)

lemma unusedD:
  assumes "unused s y e" "sync_ok s y l zs"
  shows "e \<noteq> 0" "e \<notin> set zs" "e \<notin> set (waiting l)"
proof -
  have "wait_list s y (waiting l)" using assms(2) by (cases l) (auto simp: sync_ok_def)
  with assms show "e \<noteq> 0" "e \<notin> set zs" "e \<notin> set (waiting l)" by (auto simp: unused_def sync_ok_def events_ok_def)
qed

lemma sync_reach_ok: "sync_reach y s \<Longrightarrow> \<exists>l zs. sync_ok s y l zs \<and> rlr s \<noteq> 0"
proof (induction rule: sync_reach.induct)
  case (start s zs)
  then show ?case by blast
next
  case (switch s p)
  then show ?case by (auto simp: sync_ok_rlr)
next
  case (tak s)
  then obtain l zs where l: "sync_ok s y l zs" "rlr s \<noteq> 0" by blast
  note d = not_deep [OF l(1) tak(2)]
  have "rlr (snd (tak_flag y s)) = rlr s" using tak_flag_ok(7) [OF _ l(2) d] l(1) by (auto simp: sync_ok_def)
  with tak_flag_sync(1) [OF l d] l(2) show ?case by auto
next
  case (wait s e s')
  then obtain l zs where l: "sync_ok s y l zs" "rlr s \<noteq> 0" by blast
  obtain s'' where "amutex e y s = Some s''" "rlr s'' = rlr s" "if lock_owner (take_lock (rlr s) l) = rlr s
      then sync_ok s'' y (take_lock (rlr s) l) (e # zs) else sync_ok s'' y (queue_on e l) zs"
    by (rule amutex_ok [OF l not_deep [OF l(1) wait.hyps(2)] unusedD [OF wait.hyps(3) l(1)] wait.hyps(4)])
  with wait.hyps(5) l(2) show ?case by (auto split: if_splits)
next
  case (give s s')
  then obtain l zs where l: "sync_ok s y l zs" "rlr s \<noteq> 0" by blast
  obtain s'' zs' where "unsync Some y s = Some s''" "sync_ok s'' y (release (\<lambda>e. e_pd (evbs s e)) l) zs'" "rlr s'' = rlr s"
    by (rule unsync_ok [OF l(1)])
  with give.hyps(2) l(2) show ?case by auto
qed

primrec unsyncs :: "nat \<Rightarrow> nat \<Rightarrow> aes \<Rightarrow> aes option" where
  "unsyncs y 0 s = Some s"
| "unsyncs y (Suc n) s = Option.bind (unsyncs y n s) (unsync Some y)"

lemma unsyncs_down:
  assumes "sync_ok s y (Held p n ws) zs" "k < n"
  shows "\<exists>s' zs'. unsyncs y k s = Some s' \<and> sync_ok s' y (Held p (n - k) ws) zs' \<and> (\<forall>x. e_pd (evbs s' x) = e_pd (evbs s x))"
  using assms(2)
proof (induction k)
  case 0
  then show ?case using assms(1) by auto
next
  case (Suc k)
  then obtain s1 zs1 where s1: "unsyncs y k s = Some s1" "sync_ok s1 y (Held p (n - k) ws) zs1"
    "\<forall>x. e_pd (evbs s1 x) = e_pd (evbs s x)" by auto
  obtain s2 zs2 where s2: "unsync Some y s1 = Some s2" "sync_ok s2 y (release (\<lambda>e. e_pd (evbs s1 e)) (Held p (n - k) ws)) zs2"
    "\<And>x. e_pd (evbs s2 x) = e_pd (evbs s1 x)"
    by (rule unsync_ok [OF s1(2)]) blast
  moreover have "release (\<lambda>e. e_pd (evbs s1 e)) (Held p (n - k) ws) = Held p (n - Suc k) ws"
    using Suc.prems by (cases ws) auto
  ultimately show ?case using s1 by auto
qed

lemma unsyncs_hand_over:
  assumes "sync_ok s y (Held p n (e # ws)) zs"
  shows "\<exists>s' zs'. unsyncs y n s = Some s' \<and> sync_ok s' y (Held (e_pd (evbs s e)) 1 ws) zs'
    \<and> (\<forall>x. e_pd (evbs s' x) = e_pd (evbs s x)) \<and> e_flag (evbs s' e) = COMPLETE"
proof -
  have n: "n - 1 < n" "Suc (n - 1) = n" using assms by (auto simp: sync_ok_def)
  obtain s1 zs1 where s1: "unsyncs y (n - 1) s = Some s1" "sync_ok s1 y (Held p 1 (e # ws)) zs1"
    "\<forall>x. e_pd (evbs s1 x) = e_pd (evbs s x)"
    using unsyncs_down [OF assms n(1)] n by auto
  obtain s2 zs2 where s2: "unsync Some y s1 = Some s2" "sync_ok s2 y (Held (e_pd (evbs s1 e)) 1 ws) zs2"
    "\<And>x. e_pd (evbs s2 x) = e_pd (evbs s1 x)" "e_flag (evbs s2 e) = COMPLETE"
    by (rule unsync_ok [OF s1(2)]) auto
  have "unsyncs y n s = Some s2" using s1(1) s2(1) n(2) by (metis Option.bind.bind_lunit unsyncs.simps(2))
  with s1(3) s2 show ?thesis by auto
qed

lemma unsyncs_add: "unsyncs y (m + n) s = Option.bind (unsyncs y m s) (unsyncs y n)"
  by (induction n) (auto simp: bind_assoc split: bind_splits)

lemma unsyncs_all:
  assumes "sync_ok s y (Held p n ws) zs" "j < length ws"
  shows "\<exists>s' zs'. unsyncs y (n + j) s = Some s' \<and> sync_ok s' y (Held (e_pd (evbs s (ws ! j))) 1 (drop (Suc j) ws)) zs'
    \<and> e_flag (evbs s' (ws ! j)) = COMPLETE"
  using assms
proof (induction ws arbitrary: s p n zs j)
  case (Cons e ws)
  obtain s1 zs1 where s1: "unsyncs y n s = Some s1" "sync_ok s1 y (Held (e_pd (evbs s e)) 1 ws) zs1"
    "\<forall>x. e_pd (evbs s1 x) = e_pd (evbs s x)" "e_flag (evbs s1 e) = COMPLETE"
    using unsyncs_hand_over [OF Cons.prems(1)] by blast
  show ?case
  proof (cases j)
    case 0
    with s1 show ?thesis by auto
  next
    case (Suc i)
    then have "i < length ws" using Cons.prems(2) by simp
    from Cons.IH [OF s1(2) this] s1(1,3) Suc show ?thesis using unsyncs_add [of y n "Suc i" s] by auto
  qed
qed simp

section \<open>Properties\<close>

lemma wait_list_is: "sync_ok s y l zs \<Longrightarrow> wait_list s y ws \<Longrightarrow> ws = waiting l"
  using chain_unique [of "\<lambda>e. e_link (evbs s e)" "roots s (Sy_wait y)" ws "waiting l"]
  by (cases l) (auto simp: sync_ok_def wait_list_def)

lemma idle_sync: "sync_ok idle_aes y Free []"
  using idle_lists by (auto simp: sync_ok_def events_ok_def wait_list_def) (simp_all add: idle_aes_def)

text \<open>
  Process 1 takes semaphore 7 twice, then process 2 waits for it with event 3 and process 3
  with event 4.
\<close>

definition held :: "nat \<Rightarrow> int \<Rightarrow> nat \<Rightarrow> evb \<Rightarrow> evb \<Rightarrow> aes" where
  "held p n w e3 e4 = idle_aes\<lparr>evbs := (\<lambda>_. idle_evb)(3 := e3, 4 := e4), roots := (\<lambda>_. 0)(Sy_wait 7 := w), rlr := p,
     spbs := (\<lambda>_. \<lparr>sy_tas = 0, sy_owner = 0\<rparr>)(7 := \<lparr>sy_tas = n, sy_owner = if n = 0 then 0 else 1\<rparr>)\<rparr>"

abbreviation "ev3 \<equiv> idle_evb\<lparr>e_pd := 2\<rparr>"
abbreviation "ev4 \<equiv> idle_evb\<lparr>e_pd := 3\<rparr>"
abbreviation "one_waits \<equiv> held 2 2 3 (ev3\<lparr>e_pred := FAKE_EVB (Sy_wait 7)\<rparr>) ev4"
abbreviation "two_wait \<equiv> held 3 2 4 (ev3\<lparr>e_pred := Block 4\<rparr>) (ev4\<lparr>e_pred := FAKE_EVB (Sy_wait 7), e_link := 3\<rparr>)"

lemma held_rlr: "(held p n w a b)\<lparr>rlr := q\<rparr> = held q n w a b"
  by (simp add: held_def idle_aes_def)

lemma held_sel:
  "evbs (held p n w a b) = (\<lambda>_. idle_evb)(3 := a, 4 := b)" "roots (held p n w a b) = (\<lambda>_. 0)(Sy_wait 7 := w)"
  "rlr (held p n w a b) = p" "spbs (held p n w a b) 7 = \<lparr>sy_tas = n, sy_owner = if n = 0 then 0 else 1\<rparr>"
  by (simp_all add: held_def)

lemma held_steps:
  "snd (tak_flag 7 (held 1 0 0 ev3 ev4)) = held 1 1 0 ev3 ev4" "snd (tak_flag 7 (held 1 1 0 ev3 ev4)) = held 1 2 0 ev3 ev4"
  "amutex 3 7 (held 2 2 0 ev3 ev4) = Some one_waits"
  "amutex 4 7 (held 3 2 3 (ev3\<lparr>e_pred := FAKE_EVB (Sy_wait 7)\<rparr>) ev4) = Some two_wait"
  by (simp_all add: held_def idle_aes_def idle_evb_def amutex_def tak_flag_def set_spb_def Let_def s16_id evinsert_def
      put_pred_def set_evb_def set_root_def) (auto simp: fun_eq_iff)

lemma held_unused: "wait_list (held p n w a b) 7 ws \<Longrightarrow> e \<notin> set ws \<Longrightarrow> e \<noteq> 0 \<Longrightarrow> unused (held p n w a b) 7 e"
proof -
  assume a: "wait_list (held p n w a b) 7 ws" "e \<notin> set ws" "e \<noteq> 0"
  have "vs = ws" if "wait_list (held p n w a b) 7 vs" for vs
    using chain_unique [OF that [unfolded wait_list_def] a(1) [unfolded wait_list_def]] .
  moreover have "zs = []" if "evlist (held p n w a b) Zlr zs" for zs
    using that by (cases zs) (auto simp: evlist_def held_def)
  ultimately show ?thesis using a(2,3) unfolding unused_def by fastforce
qed

lemma two_wait_reach: "sync_reach 7 two_wait"
proof -
  have "nr_list (held 1 0 0 ev3 ev4) []" by (simp add: nr_list_def held_def idle_aes_def)
  then have "events_ok (held 1 0 0 ev3 ev4) []" by (auto simp: events_ok_def evlist_def held_sel)
  then have "sync_reach 7 (held 1 0 0 ev3 ev4)"
    by (intro sync_reach.start [of _ _ "[]"]) (simp_all add: sync_ok_def wait_list_def held_sel)
  then have "sync_reach 7 (held 1 1 0 ev3 ev4)"
    unfolding held_steps(1) [symmetric] by (rule sync_reach.tak) (simp add: held_sel)
  then have "sync_reach 7 (held 1 2 0 ev3 ev4)"
    unfolding held_steps(2) [symmetric] by (rule sync_reach.tak) (simp add: held_sel)
  then have h: "sync_reach 7 (held 2 2 0 ev3 ev4)"
    unfolding held_rlr [where p = 1 and q = 2, symmetric] by (rule sync_reach.switch) simp
  have "unused (held 2 2 0 ev3 ev4) 7 3" by (rule held_unused [of _ _ _ _ _ "[]"]) (simp_all add: wait_list_def held_sel)
  then have "sync_reach 7 one_waits"
    by (intro sync_reach.wait [OF h _ _ _ held_steps(3)]) (simp_all add: held_sel)
  then have h: "sync_reach 7 (held 3 2 3 (ev3\<lparr>e_pred := FAKE_EVB (Sy_wait 7)\<rparr>) ev4)"
    unfolding held_rlr [where p = 2 and q = 3, symmetric] by (rule sync_reach.switch) simp
  have "unused (held 3 2 3 (ev3\<lparr>e_pred := FAKE_EVB (Sy_wait 7)\<rparr>) ev4) 7 4"
    by (rule held_unused [of _ _ _ _ _ "[3]"]) (simp_all add: wait_list_def held_sel idle_evb_def)
  then show ?thesis
    by (intro sync_reach.wait [OF h _ _ _ held_steps(4)]) (simp_all add: held_sel)
qed

text \<open>
  C11. However processes take, wait for and release a semaphore, it is owned exactly while its
  count is positive and nothing waits for a free one; a process gets it if and only if it is
  free or its own, and an attempt that fails changes neither count nor owner; and a release
  returns, having lowered the count, handed the semaphore to the process of the first waiting
  event or freed it.
\<close>

theorem lock_exclusion:
  assumes "sync_reach y s" "sy_tas (spbs s y) < 32767"
  shows "0 \<le> sy_tas (spbs s y) \<and> (sy_owner (spbs s y) = 0 \<longleftrightarrow> sy_tas (spbs s y) = 0)
    \<and> (sy_owner (spbs s y) = 0 \<longrightarrow> roots s (Sy_wait y) = 0)
    \<and> (fst (tak_flag y s) \<longleftrightarrow> sy_owner (spbs s y) \<in> {0, rlr s})
    \<and> (if fst (tak_flag y s) then spbs (snd (tak_flag y s)) y = \<lparr>sy_tas = sy_tas (spbs s y) + 1, sy_owner = rlr s\<rparr>
       else spbs (snd (tak_flag y s)) y = spbs s y)
    \<and> (\<exists>s'. unsync Some y s = Some s' \<and> (let w = roots s (Sy_wait y) in spbs s' y =
         (if 1 < sy_tas (spbs s y) then (spbs s y)\<lparr>sy_tas := sy_tas (spbs s y) - 1\<rparr>
          else if w \<noteq> 0 then \<lparr>sy_tas = 1, sy_owner = e_pd (evbs s w)\<rparr> else \<lparr>sy_tas = 0, sy_owner = 0\<rparr>)))"
proof -
  obtain l zs where l: "sync_ok s y l zs" "rlr s \<noteq> 0" using sync_reach_ok [OF assms(1)] by blast
  then have lk: "lock_is s y l" by (simp add: sync_ok_def)
  note d = not_deep [OF l(1) assms(2)]
  have sp: "v = w \<longleftrightarrow> sy_tas v = sy_tas w \<and> sy_owner v = sy_owner w" for v w :: spb by (cases v; cases w) auto
  obtain s' zs' where s': "unsync Some y s = Some s'" "sync_ok s' y (release (\<lambda>e. e_pd (evbs s e)) l) zs'"
    by (rule unsync_ok [OF l(1)])
  then have rl: "lock_is s' y (release (\<lambda>e. e_pd (evbs s e)) l)" by (simp add: sync_ok_def)
  have tk: "lock_is (snd (tak_flag y s)) y (take_lock (rlr s) l)" "fst (tak_flag y s) \<longleftrightarrow> lock_owner (take_lock (rlr s) l) = rlr s"
    using tak_flag_ok(1,2) [OF lk l(2) d] by auto
  show ?thesis
  proof (cases l)
    case Free
    then show ?thesis using lk l(2) tk rl s'(1) by (auto simp: sp wait_list_def)
  next
    case (Held p n ws)
    show ?thesis
      by (cases ws) (use Held lk l(2) tk rl s'(1) in \<open>auto simp: sp wait_list_def\<close>)
  qed
qed

theorem lock_exclusion_witness:
  "sy_owner (spbs (snd (tak_flag 7 idle_aes)) 7) = 1 \<and> \<not> fst (tak_flag 7 ((snd (tak_flag 7 idle_aes))\<lparr>rlr := 2\<rparr>))"
proof -
  have "sync_reach 7 idle_aes" by (rule sync_reach.start [OF idle_sync]) (simp add: idle_aes_def)
  then have "sync_reach 7 (snd (tak_flag 7 idle_aes))" by (rule sync_reach.tak) (simp add: idle_aes_def)
  then have "sync_reach 7 ((snd (tak_flag 7 idle_aes))\<lparr>rlr := 2\<rparr>)" by (rule sync_reach.switch) simp
  from lock_exclusion [OF this] show ?thesis by (simp add: tak_flag_def idle_aes_def set_spb_def s16_id)
qed

text \<open>
  C18. No waiting process is forgotten: when the owner has released a semaphore as often as it
  took it, and every next owner once, the \<open>j\<close>-th waiting event is complete and its process
  owns the semaphore, with the events behind it still waiting.
\<close>

theorem sync_handover:
  assumes "sync_reach y s" "wait_list s y ws" "j < length ws"
  shows "\<exists>s'. unsyncs y (nat (sy_tas (spbs s y)) + j) s = Some s'
    \<and> spbs s' y = \<lparr>sy_tas = 1, sy_owner = e_pd (evbs s (ws ! j))\<rparr>
    \<and> e_flag (evbs s' (ws ! j)) = COMPLETE \<and> wait_list s' y (drop (Suc j) ws)"
proof -
  obtain l zs where l: "sync_ok s y l zs" using sync_reach_ok [OF assms(1)] by blast
  have ws: "ws = waiting l" using wait_list_is [OF l assms(2)] .
  with assms(3) obtain p n where L: "l = Held p n ws" by (cases l) auto
  then have n: "nat (sy_tas (spbs s y)) = n" using l by (simp add: sync_ok_def)
  obtain s' zs' where s': "unsyncs y (n + j) s = Some s'"
    "sync_ok s' y (Held (e_pd (evbs s (ws ! j))) 1 (drop (Suc j) ws)) zs'" "e_flag (evbs s' (ws ! j)) = COMPLETE"
    using unsyncs_all [OF l [unfolded L] assms(3)] by blast
  then have "spbs s' y = \<lparr>sy_tas = 1, sy_owner = e_pd (evbs s (ws ! j))\<rparr>" "wait_list s' y (drop (Suc j) ws)"
    by (cases "spbs s' y"; simp add: sync_ok_def)+
  with s' n show ?thesis by auto
qed

theorem sync_handover_witness:
  "\<exists>s'. unsyncs 7 3 two_wait = Some s' \<and> sy_owner (spbs s' 7) = 2 \<and> e_flag (evbs s' 3) = COMPLETE"
proof -
  have w: "wait_list two_wait 7 [4, 3]" by (simp add: wait_list_def held_sel idle_evb_def)
  obtain s' where "unsyncs 7 (nat (sy_tas (spbs two_wait 7)) + 1) two_wait = Some s'"
    "spbs s' 7 = \<lparr>sy_tas = 1, sy_owner = e_pd (evbs two_wait ([4, 3] ! 1))\<rparr>" "e_flag (evbs s' ([4, 3] ! 1)) = COMPLETE"
    using sync_handover [OF two_wait_reach w, of 1] by auto
  then show ?thesis by (simp add: held_def eval_nat_numeral)
qed

end
