(* ===== verification/AesQueues.thy ===== *)
theory AesQueues
  imports AesEvents
begin

text \<open>
  The queues of the AES and its process lists: the keyboard ring of aes/geminput.c, the fork
  ring and the dispatcher's lists of aes/gemdisp.c and \<open>insert_process\<close> of aes/gempd.c.
  The rings share one interface, the locale \<open>bounded_queue\<close>, of which both are
  interpretations.
\<close>

section \<open>The keyboard queue\<close>

definition set_cq :: "nat \<Rightarrow> (cqueue \<Rightarrow> cqueue) \<Rightarrow> aes \<Rightarrow> aes" where
  "set_cq c f s = s\<lparr>cqs := (cqs s)(c := f (cqs s c))\<rparr>"

definition nq :: "16 word \<Rightarrow> cqueue \<Rightarrow> cqueue" where
  "nq ch q =
     (if c_cnt q < int KBD_SIZE then
        let q = q\<lparr>c_buff := (c_buff q)(c_rear q := ch), c_rear := c_rear q + 1\<rparr>;
            q = (if c_rear q = KBD_SIZE then q\<lparr>c_rear := 0\<rparr> else q)
        in q\<lparr>c_cnt := c_cnt q + 1\<rparr>
      else q)"

definition dq :: "cqueue \<Rightarrow> 16 word \<times> cqueue" where
  "dq q =
     (let q2 = c_front q; q = q\<lparr>c_cnt := s16 (c_cnt q - 1), c_front := c_front q + 1\<rparr>;
          q = (if c_front q = KBD_SIZE then q\<lparr>c_front := 0\<rparr> else q)
      in (c_buff q q2, q))"

text \<open>\<open>fq\<close>, on the queue of the running process; \<open>None\<close>: it does not end.\<close>

partial_function (option) fq_loop :: "cqueue \<Rightarrow> cqueue option" where
  "fq_loop q = (if c_cnt q \<noteq> 0 then fq_loop (snd (dq q)) else Some q)"

definition fq :: "aes \<Rightarrow> aes option" where
  "fq s = (let c = p_cda (pds s (rlr s)) in Option.bind (fq_loop (cqs s c)) (\<lambda>q. Some (set_cq c (\<lambda>_. q) s)))"

definition akbin :: "nat \<Rightarrow> aes \<Rightarrow> aes option" where
  "akbin e s =
     (let c = p_cda (pds s (rlr s)) in
      if c_cnt (cqs s c) \<noteq> 0 then case dq (cqs s c) of (ch, q) \<Rightarrow> azombie e ch (set_cq c (\<lambda>_. q) s)
      else Some (evinsert e (Iiowait c) s))"

definition post_keybd :: "nat \<Rightarrow> 16 word \<Rightarrow> aes \<Rightarrow> aes option" where
  "post_keybd c ch s =
     (let e = roots s (Iiowait c) in
      if e \<noteq> 0 then evremove e ch s else Some (set_cq c (nq ch) s))"

section \<open>The fork ring and the process lists\<close>

definition forkq :: "fcode \<Rightarrow> int \<Rightarrow> aes \<Rightarrow> int \<times> aes" where
  "forkq fcode fdata s =
     (if fpcnt s < NFORKS then
        let f = fpt s; s = s\<lparr>fpt := fpt s + 1\<rparr>; s = (if fpt s = NFORKS then s\<lparr>fpt := 0\<rparr> else s)
        in (0, s\<lparr>g_fpdx := (g_fpdx s)(f := (fcode, fdata)), fpcnt := fpcnt s + 1\<rparr>)
      else (- 1, s))"

text \<open>
  \<open>record_event\<close>: the recording done by \<open>forker\<close> for \<open>appl_trecord\<close>; \<open>recbuf\<close> is the
  user's buffer, \<open>gl_rbuf\<close> the index of its next entry.
\<close>

definition KEYMASK :: int where "KEYMASK = 0xffff0000"
definition KEYSTOP :: int where "KEYSTOP = 0x2b1c0000"

definition record_event :: "fpd \<Rightarrow> aes \<Rightarrow> aes" where
  "record_event g s =
     (if \<not> gl_recd s then s
      else
      let s = (if fst g = Kchange \<and> snd g AND KEYMASK = KEYSTOP then s\<lparr>gl_recd := False\<rparr> else s) in
      if \<not> gl_recd s then s
      else if fst g = Tchange \<and> fst (recbuf s (gl_rbuf s - 1)) = Tchange
      then s\<lparr>recbuf := (recbuf s)(gl_rbuf s - 1 := (Tchange, s32 (snd (recbuf s (gl_rbuf s - 1)) + snd g)))\<rparr>
      else
      let s = s\<lparr>recbuf := (recbuf s)(gl_rbuf s := g), gl_rbuf := gl_rbuf s + 1, gl_rlen := s16 (gl_rlen s - 1)\<rparr>
      in if gl_rlen s \<le> 0 then s\<lparr>gl_recd := False\<rparr> else s)"

text \<open>
  The critical section of \<open>forker\<close>, then its loop. The routine a code stands for is a parameter;
  \<open>None\<close>: it does not return, or the loop does not end.
\<close>

definition take_fork :: "aes \<Rightarrow> fpd \<times> aes" where
  "take_fork s =
     (let s = s\<lparr>fpcnt := fpcnt s - 1\<rparr>; f = fph s; s = s\<lparr>fph := fph s + 1\<rparr>; g = g_fpdx s f
      in (g, if fph s = NFORKS then s\<lparr>fph := 0\<rparr> else s))"

partial_function (option) forker_loop :: "(fcode \<Rightarrow> int \<Rightarrow> aes \<Rightarrow> aes option) \<Rightarrow> aes \<Rightarrow> aes option" where
  "forker_loop call s =
     (if fpcnt s = 0 then Some s
      else
      let g = fst (take_fork s)
      in Option.bind (call (fst g) (snd g) (record_event g (snd (take_fork s)))) (forker_loop call))"

definition forker :: "(fcode \<Rightarrow> int \<Rightarrow> aes \<Rightarrow> aes option) \<Rightarrow> aes \<Rightarrow> aes option" where
  "forker call s =
     Option.bind (forker_loop call (s\<lparr>rlr := 0xffffffff\<rparr>)) (\<lambda>s'. Some (s'\<lparr>rlr := rlr s\<rparr>))"

definition insert_ready :: "nat \<Rightarrow> aes \<Rightarrow> aes option" where
  "insert_ready p s =
     (case find_link (\<lambda>p. p_link (pds s p)) (\<lambda>_. False) 0 (rlr s) of
        None \<Rightarrow> None
      | Some (q, _) \<Rightarrow>
          let s = set_pd p (\<lambda>d. d\<lparr>p_link := 0\<rparr>) s
          in Some (if q = 0 then s\<lparr>rlr := p\<rparr> else set_pd q (\<lambda>d. d\<lparr>p_link := p\<rparr>) s))"

definition disp_act :: "nat \<Rightarrow> aes \<Rightarrow> aes option" where
  "disp_act p s = insert_ready p (set_pd p (\<lambda>d. d\<lparr>p_stat := p_stat d AND NOT WAITIN\<rparr>) s)"

definition mwait_act :: "nat \<Rightarrow> aes \<Rightarrow> aes option" where
  "mwait_act p s =
     (if p_evwait (pds s p) AND p_evflg (pds s p) \<noteq> 0 then disp_act p s
      else Some ((set_pd p (\<lambda>d. d\<lparr>p_link := nrl s\<rparr>) s)\<lparr>nrl := p\<rparr>))"

text \<open>The inner loop of \<open>schedule\<close>, and the first half of \<open>disp\<close>.\<close>

partial_function (option) schedule_drl :: "aes \<Rightarrow> aes option" where
  "schedule_drl s =
     (if drl s = 0 then Some s
      else let p = drl s in Option.bind (disp_act p (s\<lparr>drl := p_link (pds s p)\<rparr>)) schedule_drl)"

definition disp_current :: "aes \<Rightarrow> aes option" where
  "disp_current s =
     (let p = rlr s; s = s\<lparr>rlr := p_link (pds s p)\<rparr>
      in if p_stat (pds s p) AND WAITIN \<noteq> 0 then mwait_act p s else disp_act p s)"

section \<open>Ring buffers\<close>

text \<open>The interface of a bounded queue, and what a client of it may rely on.\<close>

primrec gets :: "('q \<Rightarrow> 'a \<times> 'q) \<Rightarrow> nat \<Rightarrow> 'q \<Rightarrow> 'a list \<times> 'q" where
  "gets get 0 q = ([], q)"
| "gets get (Suc n) q = (fst (get q) # fst (gets get n (snd (get q))), snd (gets get n (snd (get q))))"

locale bounded_queue =
  fixes put :: "'a \<Rightarrow> 'q \<Rightarrow> 'q"
    and get :: "'q \<Rightarrow> 'a \<times> 'q"
    and cap :: nat
    and holds :: "'q \<Rightarrow> 'a list \<Rightarrow> bool"
  assumes holds_put: "holds q xs \<Longrightarrow> holds (put x q) (if length xs < cap then xs @ [x] else xs)"
    and holds_get: "holds q (x # xs) \<Longrightarrow> fst (get q) = x \<and> holds (snd (get q)) xs"
begin

lemma holds_puts: "holds q xs \<Longrightarrow> holds (fold put ys q) (xs @ take (cap - length xs) ys)"
proof (induction ys arbitrary: q xs)
  case (Cons y ys)
  from holds_put [OF Cons.prems, of y] show ?case
  proof (cases "length xs < cap")
    case True
    with Cons.IH [OF holds_put [OF Cons.prems, of y]] show ?thesis
      by (simp add: take_Cons' Suc_diff_Suc split: if_splits)
  next
    case False
    with Cons.IH [OF holds_put [OF Cons.prems, of y]] show ?thesis by simp
  qed
qed simp

lemma holds_gets: "holds q (xs @ ys) \<Longrightarrow> fst (gets get (length xs) q) = xs \<and> holds (snd (gets get (length xs) q)) ys"
proof (induction xs arbitrary: q)
  case (Cons x xs)
  then have "fst (get q) = x" "holds (snd (get q)) (xs @ ys)" using holds_get by auto
  with Cons.IH show ?case by simp
qed simp

lemma fifo:
  assumes "holds q xs"
  shows "fst (gets get (length xs + min (cap - length xs) (length ys)) (fold put ys q)) = xs @ take (cap - length xs) ys"
  using holds_gets [of "fold put ys q" "xs @ take (cap - length xs) ys" "[]"] holds_puts [OF assms, of ys]
  by (simp add: min.commute)

end

definition ring :: "nat \<Rightarrow> (nat \<Rightarrow> 'a) \<Rightarrow> nat \<Rightarrow> nat \<Rightarrow> 'a list \<Rightarrow> bool" where
  "ring N b f r xs \<longleftrightarrow> f < N \<and> length xs \<le> N \<and> r = (f + length xs) mod N \<and> (\<forall>i < length xs. b ((f + i) mod N) = xs ! i)"

lemma mod_next: "f < N \<Longrightarrow> (if f + 1 = N then 0 else f + 1) = (f + 1) mod (N :: nat)"
  by auto

lemma ring_put:
  assumes "ring N b f r xs" "length xs < N"
  shows "ring N (b(r := x)) f (if r + 1 = N then 0 else r + 1) (xs @ [x])"
proof -
  have r: "r = (f + length xs) mod N" "r < N" using assms by (auto simp: ring_def)
  have "(f + i) mod N \<noteq> r" if "i < length xs" for i
  proof
    assume "(f + i) mod N = r"
    then have "(f + i) mod N = (f + length xs) mod N" using r by simp
    then have "N dvd (f + length xs) - (f + i)" using that by (intro mod_eq_dvd_iff_nat [THEN iffD1]) simp_all
    then have "N dvd length xs - i" by simp
    then have "N \<le> length xs - i" using that by (intro dvd_imp_le) simp_all
    then show False using assms(2) by simp
  qed
  moreover have "(r + 1) mod N = (f + length (xs @ [x])) mod N" using r by (simp add: mod_Suc_eq)
  ultimately show ?thesis
    using assms r unfolding mod_next [OF r(2)] by (auto simp: ring_def nth_append less_Suc_eq)
qed

lemma ring_get:
  assumes "ring N b f r (x # xs)"
  shows "b f = x" "ring N b (if f + 1 = N then 0 else f + 1) r xs"
proof -
  from assms have f: "f < N" "b (f mod N) = x" by (auto simp: ring_def)
  then show "b f = x" by simp
  have "b (((f + 1) mod N + i) mod N) = xs ! i" if "i < length xs" for i
  proof -
    from that assms have "b ((f + Suc i) mod N) = (x # xs) ! Suc i" unfolding ring_def by (metis Suc_mono length_Cons)
    then show ?thesis by (simp add: mod_simps)
  qed
  then show "ring N b (if f + 1 = N then 0 else f + 1) r xs"
    using assms f unfolding mod_next [OF f(1)] by (auto simp: ring_def mod_simps)
qed

definition keys :: "cqueue \<Rightarrow> (16 word) list \<Rightarrow> bool" where
  "keys q xs \<longleftrightarrow> ring KBD_SIZE (c_buff q) (c_front q) (c_rear q) xs \<and> c_cnt q = int (length xs)"

definition forks :: "aes \<Rightarrow> fpd list \<Rightarrow> bool" where
  "forks s xs \<longleftrightarrow> ring NFORKS (g_fpdx s) (fph s) (fpt s) xs \<and> fpcnt s = length xs"

interpretation kbd: bounded_queue nq dq KBD_SIZE keys
proof unfold_locales
  fix q xs x
  assume k: "keys q xs"
  show "keys (nq x q) (if length xs < KBD_SIZE then xs @ [x] else xs)"
    using k ring_put [of KBD_SIZE "c_buff q" "c_front q" "c_rear q" xs x] by (auto simp: keys_def nq_def Let_def)
next
  fix q x xs
  assume k: "keys q (x # xs)"
  then have "length xs < 8" by (simp add: keys_def ring_def KBD_SIZE_def)
  then show "fst (dq q) = x \<and> keys (snd (dq q)) xs"
    using k ring_get [of KBD_SIZE "c_buff q" "c_front q" "c_rear q" x xs] by (auto simp: keys_def dq_def Let_def s16_id)
qed

interpretation fork: bounded_queue "\<lambda>g s. snd (forkq (fst g) (snd g) s)" take_fork NFORKS forks
proof unfold_locales
  fix s xs x
  assume k: "forks s xs"
  show "forks (snd (forkq (fst x) (snd x) s)) (if length xs < NFORKS then xs @ [x] else xs)"
    using k ring_put [of NFORKS "g_fpdx s" "fph s" "fpt s" xs x] by (auto simp: forks_def forkq_def Let_def)
next
  fix s x xs
  assume k: "forks s (x # xs)"
  then show "fst (take_fork s) = x \<and> forks (snd (take_fork s)) xs"
    using ring_get [of NFORKS "g_fpdx s" "fph s" "fpt s" x xs] by (auto simp: forks_def take_fork_def Let_def)
qed

section \<open>Running the fork ring\<close>

text \<open>The routines of a list of forks, one after the other.\<close>

fun run_forks :: "(fcode \<Rightarrow> int \<Rightarrow> aes \<Rightarrow> aes option) \<Rightarrow> fpd list \<Rightarrow> aes \<Rightarrow> aes option" where
  "run_forks call [] s = Some s"
| "run_forks call (g # gs) s =
     Option.bind (call (fst g) (snd g) (record_event g (snd (take_fork s)))) (run_forks call gs)"

text \<open>A routine that returns and queues nothing.\<close>

definition queues_nothing :: "(fcode \<Rightarrow> int \<Rightarrow> aes \<Rightarrow> aes option) \<Rightarrow> bool" where
  "queues_nothing call \<longleftrightarrow> (\<forall>c d s xs. forks s xs \<longrightarrow> (\<exists>s'. call c d s = Some s' \<and> forks s' xs))"

lemma forks_record [simp]: "forks (record_event g s) xs = forks s xs"
  by (simp add: forks_def record_event_def Let_def)

lemma forks_rlr [simp]: "forks (s\<lparr>rlr := p\<rparr>) xs = forks s xs"
  by (simp add: forks_def)

lemma forker_loop_runs:
  assumes "queues_nothing call"
  shows "forks s xs \<Longrightarrow> \<exists>s'. forker_loop call s = Some s' \<and> run_forks call xs s = Some s' \<and> forks s' []"
proof (induction xs arbitrary: s)
  case Nil
  then show ?case by (simp add: forker_loop.simps) (simp add: forks_def)
next
  case (Cons g xs)
  then have g: "fst (take_fork s) = g" "forks (snd (take_fork s)) xs" "fpcnt s \<noteq> 0"
    using fork.holds_get [of s g xs] by (auto simp: forks_def)
  obtain s1 where s1: "call (fst g) (snd g) (record_event g (snd (take_fork s))) = Some s1" "forks s1 xs"
    using assms g(2) unfolding queues_nothing_def by (metis forks_record)
  from Cons.IH [OF s1(2)] g s1(1) show ?case by (subst forker_loop.simps) auto
qed

section \<open>Waiting for keys\<close>

text \<open>The keyboard of a process: the keys typed ahead, or the events that wait for one.\<close>

definition keyboard :: "aes \<Rightarrow> nat \<Rightarrow> nat list \<Rightarrow> nat list \<Rightarrow> (16 word) list \<Rightarrow> bool" where
  "keyboard s c zs es xs \<longleftrightarrow> events_ok s zs \<and> evlist s (Iiowait c) es \<and> set es \<inter> set zs = {} \<and> keys (cqs s c) xs
     \<and> (es = [] \<or> xs = [])"

lemma set_cq_sel [simp]:
  "cqs (set_cq c f s) = (cqs s)(c := f (cqs s c))" "evbs (set_cq c f s) = evbs s" "roots (set_cq c f s) = roots s"
  "pds (set_cq c f s) = pds s" "nrl (set_cq c f s) = nrl s" "rlr (set_cq c f s) = rlr s" "button (set_cq c f s) = button s"
  "events_ok (set_cq c f s) zs = events_ok s zs" "evlist (set_cq c f s) r es = evlist s r es"
  by (simp_all add: set_cq_def events_ok_def evlist_def nr_list_def)

lemma fq_loop_empties: "keys q xs \<Longrightarrow> \<exists>q'. fq_loop q = Some q' \<and> keys q' []"
proof (induction xs arbitrary: q)
  case Nil
  then show ?case by (simp add: fq_loop.simps keys_def)
next
  case (Cons x xs)
  then have "keys (snd (dq q)) xs" "c_cnt q \<noteq> 0" using kbd.holds_get [of q x xs] by (auto simp: keys_def)
  with Cons.IH show ?case by (subst fq_loop.simps) auto
qed

lemma fq_empties:
  assumes "keyboard s c zs es xs" "p_cda (pds s (rlr s)) = c"
  shows "\<exists>s'. fq s = Some s' \<and> keyboard s' c zs es []"
proof -
  have "keys (cqs s c) xs" using assms(1) by (simp add: keyboard_def)
  then obtain q where "fq_loop (cqs s c) = Some q" "keys q []" using fq_loop_empties by blast
  then show ?thesis using assms by (auto simp: fq_def Let_def keyboard_def)
qed

lemma post_keybd_waiting:
  assumes "keyboard s c zs (e # es) []"
  obtains s' where "post_keybd c ch s = Some s'" "keyboard s' c (e # zs) es []" "e_flag (evbs s' e) = COMPLETE"
    "e_return (evbs s' e) = MAKE_LONG (button s) ch"
    "p_evflg (pds s' (e_pd (evbs s e))) AND e_mask (evbs s e) = e_mask (evbs s e)"
proof -
  from assms have k: "events_ok s zs" "evlist s (Iiowait c) ([] @ e # es)" "set ([] @ e # es) \<inter> set zs = {}" "keys (cqs s c) []"
    by (auto simp: keyboard_def)
  have r: "roots s (Iiowait c) = e" "e \<noteq> 0" "distinct (e # es)" using k(2) by (auto simp: evlist_def)
  obtain s' where s': "evremove e ch s = Some s'" "events_ok s' (e # zs)" "evlist s' (Iiowait c) ([] @ es)"
    "e_flag (evbs s' e) = COMPLETE" "e_return (evbs s' e) = MAKE_LONG (button s) ch" "still s' = still s"
    "\<And>p. p_evflg (pds s' p) = (if p = e_pd (evbs s e) then p_evflg (pds s p) OR e_mask (evbs s e) else p_evflg (pds s p))"
    by (rule evremove_ok [OF k(1,2) _ k(3), of ch]) auto
  show thesis
  proof (rule that [of s'])
    show "keyboard s' c (e # zs) es []"
      using s'(2,3) k(3,4) r(3) still_sel(3) [OF s'(6)] by (auto simp: keyboard_def)
  qed (use s' r in \<open>auto simp: post_keybd_def or_keeps(2)\<close>)
qed

lemma akbin_typed:
  assumes "keyboard s c zs [] (x # xs)" "p_cda (pds s (rlr s)) = c" "e \<noteq> 0" "e \<notin> set zs"
  obtains s' where "akbin e s = Some s'" "keyboard s' c (e # zs) [] xs" "e_flag (evbs s' e) = COMPLETE"
    "e_return (evbs s' e) = MAKE_LONG (button s) x"
proof -
  from assms(1) have k: "events_ok s zs" "evlist s (Iiowait c) []" "keys (cqs s c) (x # xs)" by (auto simp: keyboard_def)
  obtain q where q: "dq (cqs s c) = (x, q)" "keys q xs" using kbd.holds_get [OF k(3)] by (cases "dq (cqs s c)") auto
  have n: "c_cnt (cqs s c) \<noteq> 0" using k(3) by (simp add: keys_def)
  let ?s = "set_cq c (\<lambda>_. q) s"
  obtain ns where z: "nr_list ?s ns" "evlist ?s Zlr zs" using k(1) by (auto simp: events_ok_def nr_list_def)
  obtain s' ns' where s': "azombie e x ?s = Some s'" "nr_list s' ns'" "evlist s' Zlr (e # zs)"
    "e_flag (evbs s' e) = COMPLETE" "e_return (evbs s' e) = MAKE_LONG (button ?s) x"
    "\<forall>r. r \<noteq> Zlr \<longrightarrow> roots s' r = roots ?s r" "still s' = still ?s"
    by (rule azombie_ok [OF z assms(4,3), of x]) blast
  show thesis
  proof (rule that [of s'])
    show "akbin e s = Some s'" using s'(1) n q(1) assms(2) by (simp add: akbin_def)
    show "keyboard s' c (e # zs) [] xs"
      using s'(2,3,6) k(2) q(2) still_sel(3) [OF s'(7)] by (auto simp: keyboard_def events_ok_def evlist_def)
  qed (use s' in simp_all)
qed

lemma akbin_wait:
  assumes "keyboard s c zs es []" "p_cda (pds s (rlr s)) = c" "e \<noteq> 0" "e \<notin> set zs" "e \<notin> set es"
  shows "akbin e s = Some (evinsert e (Iiowait c) s)" "keyboard (evinsert e (Iiowait c) s) c zs (e # es) []"
proof -
  from assms(1) have k: "events_ok s zs" "evlist s (Iiowait c) es" "keys (cqs s c) []" "set es \<inter> set zs = {}"
    by (auto simp: keyboard_def)
  then show "akbin e s = Some (evinsert e (Iiowait c) s)" using assms(2) by (simp add: akbin_def keys_def)
  note ev = evinsert_ok [OF k(2) assms(3,5)]
  have "events_ok (evinsert e (Iiowait c) s) zs"
  proof -
    obtain ns where "nr_list s ns" "evlist s Zlr zs" using k(1) by (auto simp: events_ok_def)
    moreover have "\<forall>x \<in> set zs. evbs (evinsert e (Iiowait c) s) x = evbs s x" using ev(3) assms(4) k(4) by auto
    ultimately show ?thesis
      using evlist_cong [of zs "evinsert e (Iiowait c) s" s Zlr] ev(4) others_pds [OF ev(5)]
      by (auto simp: events_ok_def nr_list_def)
  qed
  then show "keyboard (evinsert e (Iiowait c) s) c zs (e # es) []"
    using ev(1) k assms(4) still_sel(3) [OF others_still [OF ev(5)]] by (auto simp: keyboard_def)
qed

section \<open>Properties\<close>

lemma idle_rings: "keys (cqs idle_aes c) []" "forks idle_aes []" "keyboard idle_aes c [] [] []"
proof -
  show k: "keys (cqs idle_aes c) []" "forks idle_aes []"
    by (simp_all add: keys_def forks_def ring_def idle_aes_def KBD_SIZE_def NFORKS_def)
  then show "keyboard idle_aes c [] [] []" using idle_lists by (auto simp: keyboard_def events_ok_def)
qed

text \<open>
  C36. The keyboard ring and the fork ring are queues: what was put in comes out in the same
  order, behind what was there before, as far as there is room; what comes when the ring is
  full is dropped.
\<close>

theorem rings_fifo:
  assumes "keys q xs" "forks s gs"
  shows "fst (gets dq (length xs + min (KBD_SIZE - length xs) (length ys)) (fold nq ys q)) = xs @ take (KBD_SIZE - length xs) ys
    \<and> fst (gets take_fork (length gs + min (NFORKS - length gs) (length hs)) (fold (\<lambda>g s. snd (forkq (fst g) (snd g) s)) hs s))
      = gs @ take (NFORKS - length gs) hs"
  using kbd.fifo [OF assms(1)] fork.fifo [OF assms(2)] by blast

theorem rings_fifo_witness:
  "fst (gets dq 8 (fold nq [1, 2, 3, 4, 5, 6, 7, 8, 9] (cqs idle_aes 0))) = [1, 2, 3, 4, 5, 6, 7, 8]"
  using rings_fifo [OF idle_rings(1) [of 0] idle_rings(2), of "[1, 2, 3, 4, 5, 6, 7, 8, 9]" "[]"] by (simp add: KBD_SIZE_def eval_nat_numeral)


text \<open>A routine for the witness: it notes the code it was called with.\<close>

definition note_code :: "fcode \<Rightarrow> int \<Rightarrow> aes \<Rightarrow> aes option" where
  "note_code c d s = Some (s\<lparr>gl_bpend := 10 * gl_bpend s + d\<rparr>)"

definition two_forks :: aes where
  "two_forks = snd (forkq Kchange 2 (snd (forkq Bchange 1 idle_aes)))"




end
