(* ===== verification/AesInput.thy ===== *)
theory AesInput
  imports AesQueues
begin

text \<open>
  The mouse of the AES, from aes/geminput.c: waiting for a button state or a rectangle, the
  walks over the waiting events when the mouse changes, and the state machine that counts
  clicks. A walk has one contract, the locale \<open>list_sweep\<close>: it completes the events that are
  satisfied and leaves the others waiting in their order; both walks are interpretations. The
  lemmas show that the AES learns of every change of the buttons. \<open>wm_find\<close>, which finds
  the window under the mouse, is a parameter.
\<close>

section \<open>Conditions\<close>

definition EVMOUT :: "16 word" where "EVMOUT = 8"

definition in_mrect :: "moblk \<Rightarrow> aes \<Rightarrow> bool" where
  "in_mrect mo s \<longleftrightarrow> m_out mo \<noteq> of_bool (inside (sint (xrat s)) (sint (yrat s)) (m_gr mo))"

definition downorup :: "16 word \<Rightarrow> int \<Rightarrow> bool" where
  "downorup nw buparm =
     (let flag = word_of_int (buparm div 2 ^ 24) AND 0xff;
          mask = word_of_int (buparm div 2 ^ 8) AND 0xff;
          val = word_of_int buparm AND 0xff :: 16 word
      in of_bool (mask AND (val XOR nw) = 0) \<noteq> (flag :: 16 word))"

definition inorout :: "aes \<Rightarrow> nat \<Rightarrow> int \<Rightarrow> int \<Rightarrow> bool" where
  "inorout s e rx ry =
     (let b = evbs s e;
          gr = \<lparr>g_x = sint (HIWORD (e_parm b)), g_y = sint (LOWORD (e_parm b)),
            g_w = sint (HIWORD (e_return b)), g_h = sint (LOWORD (e_return b))\<rparr>
      in (e_flag b AND EVMOUT \<noteq> 0) \<noteq> inside rx ry gr)"

section \<open>Walks over waiting events\<close>

text \<open>\<open>for (e = ...; e; e = e1) { e1 = e->e_link; if (sat) act; }\<close>\<close>

partial_function (option) sweep :: "(aes \<Rightarrow> nat \<Rightarrow> bool) \<Rightarrow> (nat \<Rightarrow> aes \<Rightarrow> aes option) \<Rightarrow> nat \<Rightarrow> aes \<Rightarrow> aes option" where
  "sweep sat act e s =
     (if e = 0 then Some s
      else let e1 = e_link (evbs s e)
           in Option.bind (if sat s e then act e s else Some s) (sweep sat act e1))"

definition post_mouse :: "nat \<Rightarrow> int \<Rightarrow> int \<Rightarrow> aes \<Rightarrow> aes option" where
  "post_mouse pd x y s =
     sweep (\<lambda>s e. inorout s e x y) (\<lambda>e. evremove e 0) (roots s (Msleep (p_cda (pds s pd)))) s"

definition wake_button :: "16 word \<Rightarrow> nat \<Rightarrow> aes \<Rightarrow> aes option" where
  "wake_button numclicks e s =
     (let clicks = HIWORD (e_parm (evbs s e)) AND 0xff;
          s = (if clicks > 1 then s\<lparr>gl_bpend := s16 (gl_bpend s - 1)\<rparr> else s)
      in evremove e (if numclicks > clicks then clicks else numclicks) s)"

definition post_button :: "nat \<Rightarrow> 16 word \<Rightarrow> 16 word \<Rightarrow> aes \<Rightarrow> aes option" where
  "post_button pd nw numclicks s =
     sweep (\<lambda>s e. downorup nw (e_parm (evbs s e))) (wake_button numclicks) (roots s (Bsleep (p_cda (pds s pd)))) s"

section \<open>Waiting for the mouse\<close>

definition abutton :: "nat \<Rightarrow> int \<Rightarrow> aes \<Rightarrow> aes option" where
  "abutton e p s =
     (if downorup (button s) p then azombie e 1 s
      else
      let bclicks = HIWORD p AND 0xff;
          s = (if bclicks > 1 then s\<lparr>gl_bpend := s16 (gl_bpend s + 1)\<rparr> else s);
          s = set_evb e (\<lambda>b. b\<lparr>e_parm := p\<rparr>) s
      in Some (evinsert e (Bsleep (p_cda (pds s (rlr s)))) s))"

definition amouse :: "nat \<Rightarrow> moblk \<Rightarrow> aes \<Rightarrow> aes option" where
  "amouse e mob s =
     (if in_mrect mob s then azombie e 0 s
      else
      let s = (if m_out mob \<noteq> 0 then set_evb e (\<lambda>b. b\<lparr>e_flag := e_flag b OR EVMOUT\<rparr>) s
               else set_evb e (\<lambda>b. b\<lparr>e_flag := e_flag b AND NOT EVMOUT\<rparr>) s);
          g = m_gr mob;
          s = set_evb e (\<lambda>b. b\<lparr>e_parm := MAKE_LONG (word_of_int (g_x g)) (word_of_int (g_y g))\<rparr>) s;
          s = set_evb e (\<lambda>b. b\<lparr>e_return := MAKE_LONG (word_of_int (g_w g)) (word_of_int (g_h g))\<rparr>) s
      in Some (evinsert e (Msleep (p_cda (pds s (rlr s)))) s))"

section \<open>Changes of the mouse and the keyboard\<close>

definition b_click :: "16 word \<Rightarrow> aes \<Rightarrow> aes" where
  "b_click state s =
     (if state \<noteq> gl_btrue s then
        let s = (if gl_bdely s \<noteq> 0 then
                   if state = gl_bdesired s then s\<lparr>gl_bclick := gl_bclick s + 1, gl_bdely := s16 (gl_bdely s + 3)\<rparr> else s
                 else if gl_bpend s \<noteq> 0 \<and> state \<noteq> 0 then s\<lparr>gl_bclick := 1, gl_bdesired := state, gl_bdely := gl_dclick s\<rparr>
                 else snd (forkq Bchange (MAKE_LONG state 1) s))
        in s\<lparr>gl_btrue := state\<rparr>
      else s)"

definition b_delay :: "int \<Rightarrow> aes \<Rightarrow> aes" where
  "b_delay amnt s =
     (if gl_bdely s \<noteq> 0 then
        let s = s\<lparr>gl_bdely := s16 (gl_bdely s - amnt)\<rparr>;
            s = (if gl_bdely s < 0 then s\<lparr>gl_bdely := 0\<rparr> else s)
        in if gl_bdely s = 0 then
             let forkq_calls = (if gl_bdesired s = gl_btrue s then 1 else 2)
             in if fpcnt s + forkq_calls \<le> NFORKS then
                  let s = snd (forkq Bchange (MAKE_LONG (gl_bdesired s) (gl_bclick s)) s)
                  in if forkq_calls = 2 then snd (forkq Bchange (MAKE_LONG (gl_btrue s) 1) s) else s
                else s
           else s
      else s)"

definition chk_ctrl :: "(int \<Rightarrow> int \<Rightarrow> int) \<Rightarrow> int \<Rightarrow> int \<Rightarrow> aes \<Rightarrow> int" where
  "chk_ctrl wm_find mx my s =
     (if inside mx my (ctrl s) then 1
      else if inside mx my (gl_rmenu s) then - 1
      else if wm_find mx my \<noteq> 0 then - 1 else 0)"

definition chkown :: "(int \<Rightarrow> int \<Rightarrow> int) \<Rightarrow> aes \<Rightarrow> nat" where
  "chkown wm_find s =
     (let val = chk_ctrl wm_find (sint (xrat s)) (sint (yrat s)) s
      in if val = 1 then gl_cowner s else if val = - 1 then ctl_pd s else desk_owner s)"

definition MB_DOWN :: "16 word" where "MB_DOWN = 1"

definition bchange :: "(int \<Rightarrow> int \<Rightarrow> int) \<Rightarrow> int \<Rightarrow> aes \<Rightarrow> aes option" where
  "bchange wm_find fdata s =
     (let nw = HIWORD fdata; clicks = LOWORD fdata;
          s = (if \<not> gl_ctmown s \<and> nw = MB_DOWN \<and> button s = 0 then s\<lparr>gl_mowner := chkown wm_find s\<rparr> else s);
          s = s\<lparr>mtrans := s16 (mtrans s + 1), pr_button := button s, pr_mclick := mclick s, pr_xrat := xrat s, pr_yrat := yrat s,
            button := nw, mclick := clicks\<rparr>
      in post_button (gl_mowner s) (button s) clicks s)"

text \<open>\<open>mchange\<close>, but for drawing the mouse while events are played back.\<close>

definition mchange :: "int \<Rightarrow> aes \<Rightarrow> aes option" where
  "mchange fdata s =
     (let rx = sint (HIWORD fdata); ry = sint (LOWORD fdata);
          dx = s16 (sint (xrat s) - rx); dy = s16 (sint (yrat s) - ry);
          s = (if gl_bdely s \<noteq> 0 \<and> (dx > 2 \<or> dx < - 2 \<or> dy > 2 \<or> dy < - 2) then b_delay (gl_bdely s) s else s);
          s = s\<lparr>xrat := HIWORD fdata, yrat := LOWORD fdata\<rparr>;
          s = (if gl_mowner s \<noteq> ctl_pd s \<and> button s = 0 \<and> gl_mntree s \<noteq> 0 \<and> in_mrect (gl_ctwait s) s
               then s\<lparr>gl_mowner := ctl_pd s\<rparr> else s)
      in post_mouse (gl_mowner s) (sint (xrat s)) (sint (yrat s)) s)"

definition kchange :: "int \<Rightarrow> aes \<Rightarrow> aes option" where
  "kchange fdata s =
     (let ch = HIWORD fdata; s = s\<lparr>kstate := LOWORD fdata\<rparr>
      in if ch \<noteq> 0 then post_keybd (p_cda (pds s (gl_mowner s))) ch s else Some s)"

definition set_ctrl :: "grect \<Rightarrow> aes \<Rightarrow> aes" where
  "set_ctrl pt s = s\<lparr>ctrl := pt\<rparr>"

definition set_mown :: "nat \<Rightarrow> aes \<Rightarrow> aes option" where
  "set_mown mp s =
     (if button s = 0 then
        let s = s\<lparr>gl_cowner := mp, gl_mowner := mp\<rparr>
        in Option.bind (post_mouse (gl_mowner s) (sint (xrat s)) (sint (yrat s)) s)
             (\<lambda>s. post_button (gl_mowner s) (button s) 1 s)
      else Some s)"

text \<open>The routine a fork code stands for.\<close>

fun run_fork :: "(int \<Rightarrow> int \<Rightarrow> int) \<Rightarrow> fcode \<Rightarrow> int \<Rightarrow> aes \<Rightarrow> aes option" where
  "run_fork wm_find Tchange d s = tchange d s"
| "run_fork wm_find Kchange d s = kchange d s"
| "run_fork wm_find Bchange d s = bchange wm_find d s"
| "run_fork wm_find Mchange d s = mchange d s"

section \<open>The contract of a walk\<close>

lemma s16_minus: "s16 a = s16 b \<Longrightarrow> s16 (a - c) = s16 (b - c)"
proof -
  assume "s16 a = s16 b"
  then have "(a + 2 ^ 15 - c) mod 2 ^ 16 = (b + 2 ^ 15 - c) mod 2 ^ 16" unfolding s16_def by (intro mod_diff_cong) simp_all
  then show "s16 (a - c) = s16 (b - c)" by (simp add: s16_def algebra_simps)
qed

lemma s16_s16: "s16 (s16 x) = s16 x"
  using s16_range [of x] by simp

text \<open>The sum of the tallies follows the cost of what is completed.\<close>

locale list_sweep =
  fixes sat :: "aes \<Rightarrow> nat \<Rightarrow> bool"
    and act :: "nat \<Rightarrow> aes \<Rightarrow> aes option"
    and tally :: "aes \<Rightarrow> int"
    and cost :: "aes \<Rightarrow> nat \<Rightarrow> int"
  assumes act_completes: "events_ok s zs \<Longrightarrow> evlist s r (as @ e # bs) \<Longrightarrow> r \<noteq> Zlr \<Longrightarrow> set (as @ e # bs) \<inter> set zs = {}
      \<Longrightarrow> \<exists>s'. act e s = Some s' \<and> events_ok s' (e # zs) \<and> evlist s' r (as @ bs) \<and> same_data {e} (evbs s) (evbs s')
        \<and> completed s s' {e}"
    and sat_local: "same_data {e} (evbs s) (evbs s') \<Longrightarrow> x \<noteq> e \<Longrightarrow> sat s' x = sat s x \<and> cost s' x = cost s x"
    and act_tally: "act e s = Some s' \<Longrightarrow> s16 (tally s') = s16 (tally s - cost s e)"
begin

lemma sweep_list:
  assumes "events_ok s zs" "evlist s r (as @ es)" "r \<noteq> Zlr" "set (as @ es) \<inter> set zs = {}"
  shows "\<exists>s'. sweep sat act (hd0 es) s = Some s' \<and> events_ok s' (rev (filter (sat s) es) @ zs)
    \<and> evlist s' r (as @ filter (\<lambda>e. \<not> sat s e) es) \<and> completed s s' (set (filter (sat s) es))
    \<and> s16 (tally s') = s16 (tally s - sum_list (map (cost s) (filter (sat s) es)))"
  using assms
proof (induction es arbitrary: s as zs)
  case Nil
  then show ?case by (simp add: sweep.simps completed_def same_pds_def)
next
  case (Cons e es)
  from Cons.prems(2) have e: "e \<noteq> 0" "e_link (evbs s e) = hd0 es" "e \<notin> set es"
    by (cases es; auto simp: evlist_def dseg_append)+
  show ?case
  proof (cases "sat s e")
    case False
    from Cons.IH [of s zs "as @ [e]"] Cons.prems False e show ?thesis by (subst sweep.simps) simp
  next
    case True
    obtain s1 where s1: "act e s = Some s1" "events_ok s1 (e # zs)" "evlist s1 r (as @ es)"
      "same_data {e} (evbs s) (evbs s1)" "completed s s1 {e}"
      using act_completes [OF Cons.prems] by blast
    have d: "set (as @ es) \<inter> set (e # zs) = {}" using Cons.prems(2,4) by (auto simp: evlist_def)
    have loc: "\<forall>x \<in> set es. sat s1 x = sat s x \<and> cost s1 x = cost s x" using sat_local [OF s1(4)] e(3) by metis
    then have fl: "filter (sat s1) es = filter (sat s) es" "filter (\<lambda>x. \<not> sat s1 x) es = filter (\<lambda>x. \<not> sat s x) es"
      "map (cost s1) (filter (sat s) es) = map (cost s) (filter (sat s) es)"
      by (metis filter_cong, metis filter_cong, simp)
    obtain s' where s': "sweep sat act (hd0 es) s1 = Some s'" "events_ok s' (rev (filter (sat s) es) @ e # zs)"
      "evlist s' r (as @ filter (\<lambda>x. \<not> sat s x) es)" "completed s1 s' (set (filter (sat s) es))"
      "s16 (tally s') = s16 (tally s1 - sum_list (map (cost s) (filter (sat s) es)))"
      using Cons.IH [OF s1(2,3) Cons.prems(3) d] unfolding fl by blast
    have "completed s s' (insert e (set (filter (sat s) es)))"
      using completed_trans [OF s1(5) s'(4)] by simp
    moreover have "s16 (tally s') = s16 (tally s - sum_list (map (cost s) (filter (sat s) (e # es))))"
      unfolding s'(5) s16_minus [OF act_tally [OF s1(1)]] using True by (simp add: algebra_simps)
    ultimately show ?thesis using s' s1(1) True e by (subst sweep.simps) auto
  qed
qed

end

lemma evremove_completes:
  assumes "events_ok s zs" "evlist s r (as @ e # bs)" "r \<noteq> Zlr" "set (as @ e # bs) \<inter> set zs = {}"
  shows "\<exists>s'. evremove e rv s = Some s' \<and> events_ok s' (e # zs) \<and> evlist s' r (as @ bs) \<and> same_data {e} (evbs s) (evbs s')
    \<and> completed s s' {e} \<and> e_return (evbs s' e) = MAKE_LONG (button s) rv"
proof -
  obtain s' where s': "evremove e rv s = Some s'" "events_ok s' (e # zs)" "evlist s' r (as @ bs)"
    "same_data {e} (evbs s) (evbs s')" "e_flag (evbs s' e) = COMPLETE" "e_mask (evbs s' e) = e_mask (evbs s e)"
    "e_pd (evbs s' e) = e_pd (evbs s e)" "e_return (evbs s' e) = MAKE_LONG (button s) rv" "same_pds (pds s) (pds s')"
    "\<And>p. p_evflg (pds s' p) = (if p = e_pd (evbs s e) then p_evflg (pds s p) OR e_mask (evbs s e) else p_evflg (pds s p))"
    "e_nextp (evbs s' e) = e_nextp (evbs s e)"
    by (rule evremove_ok [OF assms, of rv]) blast
  have "completed s' s' {}" by (simp add: completed_def same_pds_def)
  from completed_insert [OF s'(4-7,11,9,10) this] s' show ?thesis by blast
qed

definition multi_click :: "aes \<Rightarrow> nat \<Rightarrow> bool" where
  "multi_click s e \<longleftrightarrow> HIWORD (e_parm (evbs s e)) AND 0xff > 1"

lemma same_data_parm: "same_data {e} E E' \<Longrightarrow> x \<noteq> e \<Longrightarrow> e_parm (E' x) = e_parm (E x) \<and> e_return (E' x) = e_return (E x) \<and> e_flag (E' x) = e_flag (E x)"
  by (simp add: same_data_def)

interpretation mouse_walk: list_sweep "\<lambda>s e. inorout s e x y" "\<lambda>e. evremove e 0" gl_bpend "\<lambda>_ _. 0" for x y
proof unfold_locales
  fix s zs r as e bs
  assume "events_ok s zs" "evlist s r (as @ e # bs)" "r \<noteq> Zlr" "set (as @ e # bs) \<inter> set zs = {}"
  from evremove_completes [OF this, of 0] show "\<exists>s'. evremove e 0 s = Some s' \<and> events_ok s' (e # zs) \<and> evlist s' r (as @ bs)
      \<and> same_data {e} (evbs s) (evbs s') \<and> completed s s' {e}" by blast
next
  fix e z :: nat and s s' :: aes
  assume "same_data {e} (evbs s) (evbs s')" "z \<noteq> e"
  from same_data_parm [OF this] show "inorout s' z x y = inorout s z x y \<and> (0 :: int) = 0" by (simp add: inorout_def Let_def)
next
  fix e s s'
  assume "evremove e 0 s = Some s'"
  then show "s16 (gl_bpend s') = s16 (gl_bpend s - 0)" using still_sel(16) [OF still_evremove] by simp
qed

interpretation button_walk: list_sweep "\<lambda>s e. downorup nw (e_parm (evbs s e))" "wake_button k" gl_bpend
  "\<lambda>s e. of_bool (multi_click s e)" for nw k
proof unfold_locales
  fix s zs r as e bs
  assume a: "events_ok s zs" "evlist s r (as @ e # bs)" "r \<noteq> Zlr" "set (as @ e # bs) \<inter> set zs = {}"
  define s1 where "s1 = (if HIWORD (e_parm (evbs s e)) AND 0xff > 1 then s\<lparr>gl_bpend := s16 (gl_bpend s - 1)\<rparr> else s)"
  have s1: "evbs s1 = evbs s" "roots s1 = roots s" "pds s1 = pds s" "nrl s1 = nrl s" by (simp_all add: s1_def)
  then have "events_ok s1 zs" "evlist s1 r (as @ e # bs)"
    using a(1,2) by (simp_all add: events_ok_def evlist_def nr_list_def)
  from evremove_completes [OF this a(3,4)] show "\<exists>s'. wake_button k e s = Some s' \<and> events_ok s' (e # zs) \<and> evlist s' r (as @ bs)
      \<and> same_data {e} (evbs s) (evbs s') \<and> completed s s' {e}"
    unfolding wake_button_def Let_def s1_def [symmetric] s1 completed_def by metis
next
  fix e z :: nat and s s' :: aes
  assume "same_data {e} (evbs s) (evbs s')" "z \<noteq> e"
  from same_data_parm [OF this] show "downorup nw (e_parm (evbs s' z)) = downorup nw (e_parm (evbs s z))
      \<and> (of_bool (multi_click s' z) :: int) = of_bool (multi_click s z)" by (simp add: multi_click_def)
next
  fix e s s'
  assume "wake_button k e s = Some s'"
  then show "s16 (gl_bpend s') = s16 (gl_bpend s - of_bool (multi_click s e))"
    using still_sel(16) [OF still_evremove]
    by (auto simp: wake_button_def multi_click_def Let_def s16_s16 split: if_splits)
qed

section \<open>What the AES is told of the buttons\<close>

text \<open>The state of the buttons when the forks that are queued have run.\<close>

fun told :: "fpd list \<Rightarrow> 16 word \<Rightarrow> 16 word" where
  "told [] b = b"
| "told (g # gs) b = told gs (if fst g = Bchange then HIWORD (snd g) else b)"

lemma told_append [simp]: "told (gs @ hs) b = told hs (told gs b)"
  by (induction gs arbitrary: b) auto

definition mouse_of :: "aes \<Rightarrow> (nat \<Rightarrow> fpd) \<times> (nat \<times> nat \<times> nat) \<times> (16 word \<times> 16 word \<times> 16 word) \<times> (int \<times> int) \<times> 16 word" where
  "mouse_of s = (g_fpdx s, (fpt s, fph s, fpcnt s), (gl_btrue s, gl_bdesired s, gl_bclick s), (gl_bdely s, gl_dclick s), button s)"

lemma mouse_still: "still s' = still s \<Longrightarrow> mouse_of s' = mouse_of s"
proof -
  have "mouse_of (still t) = mouse_of t" for t by (simp add: mouse_of_def still_def)
  then show "still s' = still s \<Longrightarrow> mouse_of s' = mouse_of s" by metis
qed

lemma mouse_sweep:
  assumes "sweep sat act e s = Some s'" and act: "\<And>e s s'. act e s = Some s' \<Longrightarrow> mouse_of s' = mouse_of s"
  shows "mouse_of s' = mouse_of s"
proof -
  have "(\<forall>e s s'. act e s = Some s' \<longrightarrow> mouse_of s' = mouse_of s) \<longrightarrow> mouse_of s' = mouse_of s"
  proof (rule sweep.raw_induct [where P = "\<lambda>sat act e s s'. (\<forall>e s s'. act e s = Some s' \<longrightarrow> mouse_of s' = mouse_of s)
      \<longrightarrow> mouse_of s' = mouse_of s", OF _ assms(1)], intro impI)
    fix sw :: "(aes \<Rightarrow> nat \<Rightarrow> bool) \<Rightarrow> (nat \<Rightarrow> aes \<Rightarrow> aes option) \<Rightarrow> nat \<Rightarrow> aes \<Rightarrow> aes option"
    fix sat :: "aes \<Rightarrow> nat \<Rightarrow> bool" and act :: "nat \<Rightarrow> aes \<Rightarrow> aes option" and e s s'
    assume IH: "\<And>sat act e s y. sw sat act e s = Some y
        \<Longrightarrow> (\<forall>e s s'. act e s = Some s' \<longrightarrow> mouse_of s' = mouse_of s) \<longrightarrow> mouse_of y = mouse_of s"
      and body: "(if e = 0 then Some s else let e1 = e_link (evbs s e)
        in Option.bind (if sat s e then act e s else Some s) (sw sat act e1)) = Some s'"
      and act: "\<forall>e s s'. act e s = Some s' \<longrightarrow> mouse_of s' = mouse_of s"
    show "mouse_of s' = mouse_of s"
    proof (cases "e = 0")
      case False
      with body obtain s1 where s1: "(if sat s e then act e s else Some s) = Some s1" "sw sat act (e_link (evbs s e)) s1 = Some s'"
        by (auto simp: bind_eq_Some_conv)
      then have "mouse_of s1 = mouse_of s" using act by (auto split: if_splits)
      with IH [OF s1(2)] act show ?thesis by simp
    qed (use body in simp)
  qed
  with act show ?thesis by blast
qed

lemma mouse_tchange:
  assumes "tchange_loop c d s = Some s'"
  shows "mouse_of s' = mouse_of s"
proof (rule tchange_loop.raw_induct [where P = "\<lambda>c d s s'. mouse_of s' = mouse_of s", OF _ assms])
  fix lp c d and s s' :: aes
  assume IH: "\<And>c d s y. lp c d s = Some y \<Longrightarrow> mouse_of y = mouse_of s"
    and body: "(if d = 0 then Some s
        else let c1 = s32 (c - e_parm (evbs s d)); s = set_evb d (\<lambda>b. b\<lparr>e_parm := s32 (e_parm b - c)\<rparr>) s
             in if e_parm (evbs s d) \<le> 0
                then Option.bind (evremove d 0 (set_evb d (\<lambda>b. b\<lparr>e_parm := 0\<rparr>) s)) (\<lambda>s. lp c1 (roots s Dlr) s)
                else Some (s\<lparr>cmp_tick := e_parm (evbs s d), num_tick := 0\<rparr>)) = Some s'"
  define s1 where "s1 = set_evb d (\<lambda>b. b\<lparr>e_parm := s32 (e_parm b - c)\<rparr>) s"
  have s1: "mouse_of s1 = mouse_of s" unfolding s1_def by (rule mouse_still) simp
  show "mouse_of s' = mouse_of s"
  proof (cases "d = 0 \<or> 0 < e_parm (evbs s1 d)")
    case True
    with body s1 show ?thesis
      by (auto simp: s1_def [symmetric] Let_def mouse_of_def split: if_splits)
  next
    case False
    define s2 where "s2 = set_evb d (\<lambda>b. b\<lparr>e_parm := 0\<rparr>) s1"
    from False body obtain s3 where s3: "evremove d 0 s2 = Some s3" "lp (s32 (c - e_parm (evbs s d))) (roots s3 Dlr) s3 = Some s'"
      by (auto simp: s1_def [symmetric] s2_def [symmetric] Let_def bind_eq_Some_conv)
    have "mouse_of s3 = mouse_of s2" using mouse_still [OF still_evremove [OF s3(1)]] .
    moreover have "mouse_of s2 = mouse_of s1" unfolding s2_def by (rule mouse_still) simp
    ultimately show ?thesis using IH [OF s3(2)] s1 by simp
  qed
qed

lemma mouse_post_mouse: "post_mouse pd x y s = Some s' \<Longrightarrow> mouse_of s' = mouse_of s"
  unfolding post_mouse_def by (erule mouse_sweep) (rule mouse_still [OF still_evremove])

lemma mouse_bpend: "mouse_of (s\<lparr>gl_bpend := n\<rparr>) = mouse_of s"
  by (simp add: mouse_of_def)

lemma mouse_wake: "wake_button k e s = Some s' \<Longrightarrow> mouse_of s' = mouse_of s"
  using mouse_still [OF still_evremove] mouse_bpend by (simp add: wake_button_def Let_def split: if_splits)

lemma mouse_post_button: "post_button pd nw k s = Some s' \<Longrightarrow> mouse_of s' = mouse_of s"
  unfolding post_button_def by (erule mouse_sweep) (rule mouse_wake)

lemma mouse_kchange: "kchange d s = Some s' \<Longrightarrow> mouse_of s' = mouse_of s"
proof -
  have k: "mouse_of (s\<lparr>kstate := x\<rparr>) = mouse_of s" for x by (simp add: mouse_of_def)
  have "mouse_of (set_cq c f t) = mouse_of t" for c f t by (simp add: mouse_of_def set_cq_def)
  then show "kchange d s = Some s' \<Longrightarrow> mouse_of s' = mouse_of s"
    using mouse_still [OF still_evremove] k by (simp add: kchange_def post_keybd_def Let_def split: if_splits) metis+
qed

definition in_sync :: "aes \<Rightarrow> fpd list \<Rightarrow> bool" where
  "in_sync s gs \<longleftrightarrow> forks s gs \<and> 0 \<le> gl_bdely s \<and> 0 < gl_dclick s \<and> (gl_bdely s = 0 \<longrightarrow> told gs (button s) = gl_btrue s)"

lemma in_sync_cong: "mouse_of s' = mouse_of s \<Longrightarrow> in_sync s' gs \<longleftrightarrow> in_sync s gs"
  by (simp add: mouse_of_def in_sync_def forks_def)

lemma forkq_sel:
  "gl_bdely (snd (forkq c d s)) = gl_bdely s" "gl_dclick (snd (forkq c d s)) = gl_dclick s" "button (snd (forkq c d s)) = button s"
  "gl_btrue (snd (forkq c d s)) = gl_btrue s" "gl_bdesired (snd (forkq c d s)) = gl_bdesired s" "gl_bclick (snd (forkq c d s)) = gl_bclick s"
  by (simp_all add: forkq_def Let_def)

lemma forks_put: "forks s gs \<Longrightarrow> length gs < NFORKS \<Longrightarrow> forks (snd (forkq c d s)) (gs @ [(c, d)])"
  using fork.holds_put [of s gs "(c, d)"] by simp

lemma in_sync_click:
  assumes "in_sync s gs" "length gs < NFORKS" "gl_bdely s < 32765"
  shows "\<exists>gs'. in_sync (b_click st s) gs'"
proof -
  from assms(1) have s: "forks s gs" "0 \<le> gl_bdely s" "0 < gl_dclick s" "gl_bdely s = 0 \<Longrightarrow> told gs (button s) = gl_btrue s"
    by (auto simp: in_sync_def)
  consider "st = gl_btrue s" | "st \<noteq> gl_btrue s" "gl_bdely s \<noteq> 0" | "st \<noteq> gl_btrue s" "gl_bdely s = 0" "gl_bpend s \<noteq> 0 \<and> st \<noteq> 0"
    | "st \<noteq> gl_btrue s" "gl_bdely s = 0" "\<not> (gl_bpend s \<noteq> 0 \<and> st \<noteq> 0)" by blast
  then show ?thesis
  proof cases
    case 1
    with assms(1) show ?thesis by (auto simp: b_click_def)
  next
    case 2
    with s assms(3) have "in_sync (b_click st s) gs" by (auto simp: b_click_def in_sync_def forks_def)
    then show ?thesis ..
  next
    case 3
    with s have "in_sync (b_click st s) gs" by (auto simp: b_click_def in_sync_def forks_def)
    then show ?thesis ..
  next
    case 4
    with s forks_put [OF s(1) assms(2), of Bchange "MAKE_LONG st 1"]
    have "in_sync (b_click st s) (gs @ [(Bchange, MAKE_LONG st 1)])"
      by (auto simp: b_click_def in_sync_def forks_def forkq_sel)
    then show ?thesis ..
  qed
qed

lemma in_sync_delay:
  assumes "in_sync s gs" "length gs + 2 \<le> NFORKS" "0 \<le> n" "n < 32768" "gl_bdely s < 32768"
  shows "\<exists>hs. in_sync (b_delay n s) (gs @ hs) \<and> button (b_delay n s) = button s"
proof -
  from assms(1) have s: "forks s gs" "0 \<le> gl_bdely s" "0 < gl_dclick s" "gl_bdely s = 0 \<Longrightarrow> told gs (button s) = gl_btrue s"
    by (auto simp: in_sync_def)
  have c: "fpcnt s = length gs" using s(1) by (simp add: forks_def)
  have d: "s16 (gl_bdely s - n) = gl_bdely s - n" using assms(3-5) s(2) by (intro s16_id) auto
  show ?thesis
  proof (cases "gl_bdely s = 0 \<or> n < gl_bdely s")
    case True
    then have "in_sync (b_delay n s) (gs @ [])" using s d by (auto simp: b_delay_def in_sync_def forks_def)
    moreover have "button (b_delay n s) = button s" using True d by (auto simp: b_delay_def)
    ultimately show ?thesis by blast
  next
    case False
    define s1 where "s1 = s\<lparr>gl_bdely := 0\<rparr>"
    define s2 where "s2 = snd (forkq Bchange (MAKE_LONG (gl_bdesired s) (gl_bclick s)) s1)"
    define hs where "hs = (if gl_bdesired s = gl_btrue s then [(Bchange, MAKE_LONG (gl_bdesired s) (gl_bclick s))]
      else [(Bchange, MAKE_LONG (gl_bdesired s) (gl_bclick s)), (Bchange, MAKE_LONG (gl_btrue s) 1)])"
    have b: "b_delay n s = (if gl_bdesired s = gl_btrue s then s2 else snd (forkq Bchange (MAKE_LONG (gl_btrue s) 1) s2))"
      using False d c assms(2) by (auto simp: b_delay_def s2_def s1_def Let_def forkq_sel)
    have f1: "forks s1 gs" using s(1) by (simp add: s1_def forks_def)
    then have f2: "forks s2 (gs @ [(Bchange, MAKE_LONG (gl_bdesired s) (gl_bclick s))])"
      unfolding s2_def using assms(2) by (intro forks_put) auto
    then have "forks (b_delay n s) (gs @ hs)"
      using forks_put [OF f2, of Bchange "MAKE_LONG (gl_btrue s) 1"] f2 assms(2) by (cases "gl_bdesired s = gl_btrue s") (simp_all add: b hs_def)
    then have "in_sync (b_delay n s) (gs @ hs)"
      using s(3) by (simp add: in_sync_def b s2_def forkq_sel hs_def) (simp add: s1_def)
    moreover have "button (b_delay n s) = button s" by (simp add: b s2_def forkq_sel) (simp add: s1_def)
    ultimately show ?thesis by blast
  qed
qed

text \<open>
  What can happen to the buttons: they change, time passes, another fork is queued, the double
  click rate is set, or the oldest fork runs. There is room in the ring for what is queued.
\<close>

inductive btn_reach :: "(int \<Rightarrow> int \<Rightarrow> int) \<Rightarrow> aes \<Rightarrow> bool" for wm_find where
  start: "in_sync s [] \<Longrightarrow> btn_reach wm_find s"
| click: "btn_reach wm_find s \<Longrightarrow> fpcnt s < NFORKS \<Longrightarrow> gl_bdely s < 32765 \<Longrightarrow> btn_reach wm_find (b_click st s)"
| tick: "btn_reach wm_find s \<Longrightarrow> fpcnt s + 2 \<le> NFORKS \<Longrightarrow> 0 \<le> n \<Longrightarrow> n < 32768 \<Longrightarrow> gl_bdely s < 32768 \<Longrightarrow> btn_reach wm_find (b_delay n s)"
| other: "btn_reach wm_find s \<Longrightarrow> fpcnt s < NFORKS \<Longrightarrow> c \<noteq> Bchange \<Longrightarrow> btn_reach wm_find (snd (forkq c d s))"
| rate: "btn_reach wm_find s \<Longrightarrow> 0 < r \<Longrightarrow> btn_reach wm_find (s\<lparr>gl_dclick := r\<rparr>)"
| run: "btn_reach wm_find s \<Longrightarrow> 0 < fpcnt s \<Longrightarrow> fpcnt s < NFORKS \<Longrightarrow> gl_bdely s < 32768 \<Longrightarrow> take_fork s = (g, s1)
    \<Longrightarrow> run_fork wm_find (fst g) (snd g) s1 = Some s' \<Longrightarrow> btn_reach wm_find s'"

lemma in_sync_run:
  assumes "in_sync s (g # gs)" "length (g # gs) < NFORKS" "gl_bdely s < 32768" "take_fork s = (h, s1)"
    "run_fork wm_find (fst h) (snd h) s1 = Some s'"
  shows "\<exists>gs'. in_sync s' gs'"
proof -
  from assms(1) have s: "forks s (g # gs)" "0 \<le> gl_bdely s" "0 < gl_dclick s"
    "gl_bdely s = 0 \<Longrightarrow> told gs (if fst g = Bchange then HIWORD (snd g) else button s) = gl_btrue s"
    by (auto simp: in_sync_def)
  have g: "h = g" "forks s1 gs" using fork.holds_get [OF s(1)] assms(4) by auto
  have sel: "gl_bdely s1 = gl_bdely s" "gl_dclick s1 = gl_dclick s" "button s1 = button s" "gl_btrue s1 = gl_btrue s"
    using assms(4) by (auto simp: take_fork_def Let_def)
  show ?thesis
  proof (cases "fst g")
    case Tchange
    with s g sel have "in_sync s1 gs" by (simp add: in_sync_def)
    moreover have "tchange_loop (snd g) (roots s1 Dlr) s1 = Some s'" using assms(5) g(1) Tchange by (simp add: tchange_def)
    ultimately show ?thesis using in_sync_cong [OF mouse_tchange] by blast
  next
    case Kchange
    with s g sel have "in_sync s1 gs" by (simp add: in_sync_def)
    moreover have "kchange (snd g) s1 = Some s'" using assms(5) g(1) Kchange by simp
    ultimately show ?thesis using in_sync_cong [OF mouse_kchange] by blast
  next
    case Mchange
    with s g sel have i1: "in_sync s1 gs" by (simp add: in_sync_def)
    obtain hs where hs: "in_sync (b_delay (gl_bdely s1) s1) (gs @ hs)"
      using in_sync_delay [OF i1, of "gl_bdely s1"] assms(2,3) s(2) sel by auto
    have k: "in_sync (t\<lparr>xrat := a, yrat := b\<rparr>) fs = in_sync t fs" "in_sync (t\<lparr>gl_mowner := c\<rparr>) fs = in_sync t fs" for t a b c fs
      by (rule in_sync_cong, simp add: mouse_of_def)+
    define s2 where "s2 = (let rx = sint (HIWORD (snd g)); ry = sint (LOWORD (snd g));
        dx = s16 (sint (xrat s1) - rx); dy = s16 (sint (yrat s1) - ry)
      in if gl_bdely s1 \<noteq> 0 \<and> (dx > 2 \<or> dx < - 2 \<or> dy > 2 \<or> dy < - 2) then b_delay (gl_bdely s1) s1 else s1)"
    have "\<exists>gs'. in_sync s2 gs'" using i1 hs unfolding s2_def Let_def by (auto split: if_splits)
    then obtain gs' where i2: "in_sync s2 gs'" ..
    define s3 where "s3 = s2\<lparr>xrat := HIWORD (snd g), yrat := LOWORD (snd g)\<rparr>"
    have "mchange (snd g) s1 = Some s'" using assms(5) g(1) Mchange by simp
    then obtain s4 where s4: "post_mouse (gl_mowner s4) (sint (xrat s4)) (sint (yrat s4)) s4 = Some s'"
      "s4 = (if gl_mowner s3 \<noteq> ctl_pd s3 \<and> button s3 = 0 \<and> gl_mntree s3 \<noteq> 0 \<and> in_mrect (gl_ctwait s3) s3
       then s3\<lparr>gl_mowner := ctl_pd s3\<rparr> else s3)"
      unfolding mchange_def Let_def s2_def [unfolded Let_def, symmetric] s3_def [symmetric] by blast
    then have "in_sync s4 gs'" using i2 k by (auto simp: s3_def split: if_splits)
    then show ?thesis using in_sync_cong [OF mouse_post_mouse [OF s4(1)]] by blast
  next
    case Bchange
    define s2 where "s2 = s1\<lparr>button := HIWORD (snd g)\<rparr>"
    with s g sel Bchange have i2: "in_sync s2 gs" by (simp add: in_sync_def forks_def)
    from assms(5) g(1) Bchange obtain s3 pd nw k where s3: "post_button pd nw k s3 = Some s'" "mouse_of s3 = mouse_of s2"
      by (auto simp: bchange_def Let_def s2_def mouse_of_def split: if_splits)
    then show ?thesis using in_sync_cong [OF mouse_post_button [OF s3(1)]] in_sync_cong [OF s3(2)] i2 by blast
  qed
qed

lemma btn_reach_sync: "btn_reach wm_find s \<Longrightarrow> \<exists>gs. in_sync s gs"
proof (induction rule: btn_reach.induct)
  case (click s st)
  then show ?case using in_sync_click by (metis forks_def in_sync_def)
next
  case (tick s n)
  then obtain gs where "in_sync s gs" "length gs + 2 \<le> NFORKS" by (auto simp: in_sync_def forks_def)
  from in_sync_delay [OF this tick(3-5)] show ?case by blast
next
  case (other s c d)
  then obtain gs where "in_sync s gs" "length gs < NFORKS" by (auto simp: in_sync_def forks_def)
  then have "in_sync (snd (forkq c d s)) (gs @ [(c, d)])"
    using forks_put [of s gs c d] other(3) by (auto simp: in_sync_def forkq_sel)
  then show ?case ..
next
  case (rate s r)
  then show ?case by (auto simp: in_sync_def forks_def)
next
  case (run s h s1 s')
  then obtain gs where gs: "in_sync s gs" by blast
  then have l: "length gs = fpcnt s" by (simp add: in_sync_def forks_def)
  with run.hyps(2) obtain g gs' where "gs = g # gs'" by (cases gs) auto
  with in_sync_run [OF _ _ run.hyps(4-6), of g gs'] gs l run.hyps(3) show ?case by auto
qed blast

section \<open>Properties\<close>

lemma sum_multi: "sum_list (map (\<lambda>e. of_bool (multi_click s e) :: int) es) = int (length (filter (multi_click s) es))"
  by (induction es) simp_all

lemma filter_split: "length (filter q xs) = length (filter q (filter p xs)) + length (filter q (filter (\<lambda>x. \<not> p x) xs))"
  by (induction xs) simp_all

text \<open>Two processes wait for the mouse: event 3 for a double click, event 4 to enter a rectangle.\<close>

definition mouse_waits :: aes where
  "mouse_waits = idle_aes\<lparr>roots := (\<lambda>_. 0)(Bsleep 0 := 3, Msleep 0 := 4), gl_bpend := 1,
     evbs := (\<lambda>_. idle_evb)(3 := idle_evb\<lparr>e_pred := FAKE_EVB (Bsleep 0), e_parm := 0x020101\<rparr>,
       4 := idle_evb\<lparr>e_pred := FAKE_EVB (Msleep 0), e_parm := 0x000a000a, e_return := 0x00140014\<rparr>)\<rparr>"

lemma mouse_waits_ok:
  "events_ok mouse_waits []" "evlist mouse_waits (Msleep 0) [4]" "evlist mouse_waits (Bsleep 0) [3]"
  "p_cda (pds mouse_waits 1) = 0" "s16 (gl_bpend mouse_waits) = int (length (filter (multi_click mouse_waits) [3]))"
proof -
  have "nr_list mouse_waits []" by (simp add: nr_list_def mouse_waits_def idle_aes_def)
  then show "events_ok mouse_waits []" by (auto simp: events_ok_def evlist_def mouse_waits_def)
  show "evlist mouse_waits (Msleep 0) [4]" "evlist mouse_waits (Bsleep 0) [3]"
    by (simp_all add: evlist_def mouse_waits_def idle_evb_def)
  show "p_cda (pds mouse_waits 1) = 0" by (simp add: mouse_waits_def idle_aes_def idle_pd_def)
  show "s16 (gl_bpend mouse_waits) = int (length (filter (multi_click mouse_waits) [3]))"
    by (simp add: mouse_waits_def multi_click_def HIWORD_def)
qed

text \<open>
  C23. When the mouse moves or a button changes, the events of the process that owns the mouse
  are woken exactly when their condition holds: those whose rectangle has been entered or left,
  or whose button state has been reached, are completed, in the order in which they wait, and
  signalled to their processes; the others go on waiting in their order. The count of the
  events that wait for more than one click follows the list.
\<close>

theorem mouse_wakes:
  assumes "events_ok s zs" "evlist s (Msleep c) ms" "evlist s (Bsleep c) bs" "set ms \<inter> set zs = {}" "set bs \<inter> set zs = {}"
    and "p_cda (pds s pd) = c" "s16 (gl_bpend s) = int (length (filter (multi_click s) bs))" "length bs < 32768"
  shows "(\<exists>s'. post_mouse pd x y s = Some s' \<and> evlist s' (Msleep c) (filter (\<lambda>e. \<not> inorout s e x y) ms)
      \<and> events_ok s' (rev (filter (\<lambda>e. inorout s e x y) ms) @ zs) \<and> completed s s' (set (filter (\<lambda>e. inorout s e x y) ms))
      \<and> s16 (gl_bpend s') = s16 (gl_bpend s))
    \<and> (\<exists>s'. post_button pd nw k s = Some s' \<and>
      (let hit = filter (\<lambda>e. downorup nw (e_parm (evbs s e))) bs; rest = filter (\<lambda>e. \<not> downorup nw (e_parm (evbs s e))) bs
       in evlist s' (Bsleep c) rest \<and> events_ok s' (rev hit @ zs) \<and> completed s s' (set hit)
         \<and> s16 (gl_bpend s') = int (length (filter (multi_click s) rest))))"
proof
  have "roots s (Msleep c) = hd0 ms" using assms(2) by (cases ms) (auto simp: evlist_def)
  with mouse_walk.sweep_list [where as = "[]" and x = x and y = y, OF assms(1)] assms(2,4,6)
  show "\<exists>s'. post_mouse pd x y s = Some s' \<and> evlist s' (Msleep c) (filter (\<lambda>e. \<not> inorout s e x y) ms)
      \<and> events_ok s' (rev (filter (\<lambda>e. inorout s e x y) ms) @ zs) \<and> completed s s' (set (filter (\<lambda>e. inorout s e x y) ms))
      \<and> s16 (gl_bpend s') = s16 (gl_bpend s)"
    by (fastforce simp: post_mouse_def)
next
  let ?sat = "\<lambda>e. downorup nw (e_parm (evbs s e))"
  have "roots s (Bsleep c) = hd0 bs" using assms(3) by (cases bs) (auto simp: evlist_def)
  with button_walk.sweep_list [where as = "[]" and nw = nw and k = k, OF assms(1)] assms(3,5,6)
  obtain s' where s': "post_button pd nw k s = Some s'" "evlist s' (Bsleep c) (filter (\<lambda>e. \<not> ?sat e) bs)"
    "events_ok s' (rev (filter ?sat bs) @ zs)" "completed s s' (set (filter ?sat bs))"
    "s16 (gl_bpend s') = s16 (gl_bpend s - sum_list (map (\<lambda>e. of_bool (multi_click s e)) (filter ?sat bs)))"
    by (fastforce simp: post_button_def)
  have "s16 (gl_bpend s') = s16 (int (length (filter (multi_click s) bs)) - int (length (filter (multi_click s) (filter ?sat bs))))"
    unfolding s'(5) sum_multi by (rule s16_minus) (use assms(7) s16_s16 in metis)
  also have "\<dots> = s16 (int (length (filter (multi_click s) (filter (\<lambda>e. \<not> ?sat e) bs))))"
    using filter_split [of "multi_click s" bs ?sat] by simp
  also have "\<dots> = int (length (filter (multi_click s) (filter (\<lambda>e. \<not> ?sat e) bs)))"
    using le_less_trans [OF length_filter_le le_less_trans [OF length_filter_le assms(8)]] by (intro s16_id) simp_all
  finally show "\<exists>s'. post_button pd nw k s = Some s' \<and>
      (let hit = filter ?sat bs; rest = filter (\<lambda>e. \<not> ?sat e) bs
       in evlist s' (Bsleep c) rest \<and> events_ok s' (rev hit @ zs) \<and> completed s s' (set hit)
         \<and> s16 (gl_bpend s') = int (length (filter (multi_click s) rest)))"
    using s' by (auto simp: Let_def)
qed

theorem mouse_wakes_witness:
  "(\<exists>s'. post_mouse 1 15 15 mouse_waits = Some s' \<and> e_flag (evbs s' 4) = COMPLETE)
   \<and> (\<exists>s'. post_button 1 1 2 mouse_waits = Some s' \<and> e_flag (evbs s' 3) = COMPLETE \<and> s16 (gl_bpend s') = 0)"
proof -
  have h: "inorout mouse_waits 4 15 15" "downorup 1 (e_parm (evbs mouse_waits 3))"
    by (simp_all add: inorout_def downorup_def mouse_waits_def idle_evb_def HIWORD_def LOWORD_def inside_def right_def bottom_def Let_def)
  show ?thesis
    using mouse_wakes [OF mouse_waits_ok(1-3) _ _ mouse_waits_ok(4,5), where x = 15 and y = 15 and nw = 1 and k = 2] h
    by (auto simp: Let_def completed_def)
qed

text \<open>
  C14. No change of the buttons is lost: whatever sequence of changes, ticks, other forks and
  runs of forks there is, as long as the ring has room, the AES will know the true state of the
  buttons once the queued forks have run, unless it is still counting clicks; and the delay
  that counts them ends when as much time has passed.
\<close>

theorem buttons_in_sync:
  assumes "btn_reach wm_find s"
  shows "\<exists>gs. forks s gs \<and> (gl_bdely s = 0 \<longrightarrow> told gs (button s) = gl_btrue s)
    \<and> (length gs + 2 \<le> NFORKS \<and> gl_bdely s < 32768 \<longrightarrow>
        (\<exists>hs. forks (b_delay (gl_bdely s) s) (gs @ hs) \<and> told (gs @ hs) (button s) = gl_btrue s))"
proof -
  obtain gs where gs: "in_sync s gs" using btn_reach_sync [OF assms] by blast
  moreover have "\<exists>hs. forks (b_delay (gl_bdely s) s) (gs @ hs) \<and> told (gs @ hs) (button s) = gl_btrue s"
    if "length gs + 2 \<le> NFORKS" "gl_bdely s < 32768"
  proof -
    note r = that
    have d: "0 \<le> gl_bdely s" using gs by (simp add: in_sync_def)
    obtain hs where hs: "in_sync (b_delay (gl_bdely s) s) (gs @ hs)" "button (b_delay (gl_bdely s) s) = button s"
      using in_sync_delay [OF gs r(1) d r(2) r(2)] by blast
    have "gl_bdely (b_delay (gl_bdely s) s) = 0" "gl_btrue (b_delay (gl_bdely s) s) = gl_btrue s"
      by (simp_all add: b_delay_def Let_def forkq_sel)
    with hs show ?thesis unfolding in_sync_def by auto
  qed
  ultimately show ?thesis unfolding in_sync_def by blast
qed

text \<open>A press and a release while no one waits for a double click.\<close>

theorem buttons_in_sync_witness:
  "\<exists>gs. forks (b_click 0 (b_click 1 idle_aes)) gs \<and> told gs 0 = 0 \<and> length gs = 2"
proof -
  have "in_sync idle_aes []" using idle_rings(2) by (simp add: in_sync_def idle_aes_def)
  then have "btn_reach (\<lambda>_ _. 0) (b_click 0 (b_click 1 idle_aes))"
    by (intro btn_reach.click btn_reach.start) (simp_all add: b_click_def forkq_def idle_aes_def NFORKS_def)
  from buttons_in_sync [OF this] obtain gs where "forks (b_click 0 (b_click 1 idle_aes)) gs"
    "told gs (button (b_click 0 (b_click 1 idle_aes))) = gl_btrue (b_click 0 (b_click 1 idle_aes))"
    by (auto simp: b_click_def forkq_sel idle_aes_def forkq_def NFORKS_def)
  then show ?thesis by (auto simp: b_click_def forkq_def idle_aes_def forks_def NFORKS_def)
qed

end
