(* ===== verification/AesDisp.thy ===== *)
theory AesDisp
  imports AesInput
begin

text \<open>
  The dispatcher of aes/gemdisp.c: polling the keyboard, moving the processes that have been
  woken to the list of ready processes, and choosing the next one. The keyboard is an input of
  the model, a list of polls (the state of the shift keys and the key, 0 for none); the routine
  that switches stacks is not modelled. The lemmas show that no process is lost and that ready
  processes take turns.
\<close>

section \<open>The dispatcher\<close>

definition chkkbd :: "16 word \<Rightarrow> 16 word \<Rightarrow> aes \<Rightarrow> aes" where
  "chkkbd kstat key s =
     (if gl_play s then s
      else
      let achar = (if c_cnt (cqs s (p_cda (pds s (gl_mowner s)))) < int KBD_SIZE then key else 0)
      in if achar \<noteq> 0 \<or> kstat \<noteq> kstate s then snd (forkq Kchange (MAKE_LONG achar kstat) s) else s)"

type_synonym polls = "(16 word \<times> 16 word) list"

text \<open>\<open>None\<close>: there is nothing to run before the polls are used up.\<close>

fun schedule :: "polls \<Rightarrow> aes \<Rightarrow> (polls \<times> aes) option" where
  "schedule [] s = None"
| "schedule ((kstat, key) # ps) s =
     Option.bind (schedule_drl (chkkbd kstat key s))
       (\<lambda>s. if rlr s \<noteq> 0 \<or> fpcnt s \<noteq> 0 then Some (ps, s) else schedule ps s)"

partial_function (option) disp_loop :: "(fcode \<Rightarrow> int \<Rightarrow> aes \<Rightarrow> aes option) \<Rightarrow> polls \<Rightarrow> aes \<Rightarrow> (polls \<times> aes) option" where
  "disp_loop call ps s =
     Option.bind (if fpcnt s \<noteq> 0 then forker call s else Some s) (\<lambda>s.
     Option.bind (schedule ps s) (\<lambda>r. if fpcnt (snd r) \<noteq> 0 then disp_loop call (fst r) (snd r) else Some r))"

text \<open>\<open>disp\<close>, up to the switch to the process at the head of the ready list.\<close>

definition disp :: "(fcode \<Rightarrow> int \<Rightarrow> aes \<Rightarrow> aes option) \<Rightarrow> polls \<Rightarrow> aes \<Rightarrow> (polls \<times> aes) option" where
  "disp call ps s = Option.bind (disp_current s) (disp_loop call ps)"

section \<open>The lists of processes\<close>

definition plist :: "aes \<Rightarrow> nat \<Rightarrow> nat list \<Rightarrow> bool" where
  "plist s h ps \<longleftrightarrow> chain (\<lambda>p. p_link (pds s p)) h ps"

definition sched :: "aes \<Rightarrow> nat list \<Rightarrow> nat list \<Rightarrow> nat list \<Rightarrow> bool" where
  "sched s ps ds ns \<longleftrightarrow> plist s (rlr s) ps \<and> plist s (drl s) ds \<and> plist s (nrl s) ns \<and> distinct (ps @ ds @ ns)"

lemma plist_pd:
  assumes "plist s h ps" "\<forall>x \<in> set ps. p_link (pds s' x) = p_link (pds s x)"
  shows "plist s' h ps"
  using assms seg_cong [of ps "\<lambda>p. p_link (pds s' p)" "\<lambda>p. p_link (pds s p)" h 0] by (simp add: plist_def)

lemma insert_ready_ok:
  assumes "plist s (rlr s) ps" "p \<noteq> 0" "p \<notin> set ps"
  obtains s' where "insert_ready p s = Some s'" "plist s' (rlr s') (ps @ [p])" "drl s' = drl s" "nrl s' = nrl s" "fpcnt s' = fpcnt s" "kstate s' = kstate s"
    "\<forall>x. x \<notin> set (ps @ [p]) \<longrightarrow> pds s' x = pds s x"
    "\<forall>x. p_evwait (pds s' x) = p_evwait (pds s x) \<and> p_evflg (pds s' x) = p_evflg (pds s x) \<and> p_stat (pds s' x) = p_stat (pds s x)"
proof -
  let ?nx = "\<lambda>p. p_link (pds s p)"
  have c: "chain ?nx (rlr s) ps" using assms(1) by (simp add: plist_def)
  have f: "find_link ?nx (\<lambda>_. False) 0 (rlr s) = Some (last0 ps, 0)" by (rule find_link_none [OF c]) simp
  define s1 where "s1 = set_pd p (\<lambda>d. d\<lparr>p_link := 0\<rparr>) s"
  define s' where "s' = (if last0 ps = 0 then s1\<lparr>rlr := p\<rparr> else set_pd (last0 ps) (\<lambda>d. d\<lparr>p_link := p\<rparr>) s1)"
  have s': "insert_ready p s = Some s'" by (simp add: insert_ready_def f s'_def s1_def Let_def)
  have "plist s' (rlr s') (ps @ [p])"
  proof (cases ps rule: rev_cases)
    case Nil
    then show ?thesis using assms(2) by (simp add: s'_def s1_def plist_def set_pd_def)
  next
    case (snoc qs q)
    then have q: "q \<noteq> 0" "q \<notin> set qs" "p \<noteq> q" "p \<notin> set qs" "seg ?nx (rlr s) qs q"
      using c chain_distinct [OF c] assms(3) by (auto simp: seg_append)
    have "p_link (pds s' x) = ?nx x" if "x \<in> set qs" for x
    proof -
      have "x \<noteq> p" "x \<noteq> q" using that q(2,4) by auto
      then show ?thesis using snoc by (simp add: s'_def s1_def set_pd_def)
    qed
    then have "seg (\<lambda>x. p_link (pds s' x)) (rlr s) qs q = seg ?nx (rlr s) qs q" by (rule seg_cong)
    with q(5) have sg: "seg (\<lambda>x. p_link (pds s' x)) (rlr s) qs q" by blast
    have "rlr s' = rlr s" "p_link (pds s' q) = p" "p_link (pds s' p) = 0" using snoc q(1,3) by (simp_all add: s'_def s1_def set_pd_def)
    with sg show ?thesis using snoc q(1) assms(2) by (auto simp: plist_def seg_append)
  qed
  moreover have "last0 ps \<in> set ps \<or> last0 ps = 0" by (simp add: last0_def)
  ultimately show thesis
    by (intro that [OF s']) (auto simp: s'_def s1_def set_pd_def)
qed

lemma disp_act_ok:
  assumes "sched s ps ds ns" "p \<noteq> 0" "p \<notin> set (ps @ ds @ ns)"
  obtains s' where "disp_act p s = Some s'" "sched s' (ps @ [p]) ds ns" "p_stat (pds s' p) AND WAITIN = 0" "fpcnt s' = fpcnt s" "kstate s' = kstate s"
    "\<forall>x. p_evwait (pds s' x) = p_evwait (pds s x) \<and> p_evflg (pds s' x) = p_evflg (pds s x)"
    "\<forall>x. x \<noteq> p \<longrightarrow> p_stat (pds s' x) = p_stat (pds s x)"
proof -
  let ?s = "set_pd p (\<lambda>d. d\<lparr>p_stat := p_stat d AND NOT WAITIN\<rparr>) s"
  have l: "plist ?s h xs = plist s h xs" for h xs by (simp add: plist_def p_link_set) (simp add: set_pd_def fun_upd_idem)
  have r: "rlr ?s = rlr s" "drl ?s = drl s" "nrl ?s = nrl s" "fpcnt ?s = fpcnt s" by (simp_all add: set_pd_def)
  have pl: "plist ?s (rlr ?s) ps" using assms(1) l r by (simp add: sched_def)
  obtain s' where s': "insert_ready p ?s = Some s'" "plist s' (rlr s') (ps @ [p])" "drl s' = drl ?s" "nrl s' = nrl ?s" "fpcnt s' = fpcnt ?s" "kstate s' = kstate ?s"
    "\<forall>x. x \<notin> set (ps @ [p]) \<longrightarrow> pds s' x = pds ?s x"
    "\<forall>x. p_evwait (pds s' x) = p_evwait (pds ?s x) \<and> p_evflg (pds s' x) = p_evflg (pds ?s x) \<and> p_stat (pds s' x) = p_stat (pds ?s x)"
    by (rule insert_ready_ok [OF pl assms(2)]) (use assms(3) in auto)
  have keep: "plist s' h xs" if "plist s h xs" "set xs \<inter> set (ps @ [p]) = {}" for h xs
    by (rule plist_pd [OF that(1)]) (use that(2) s'(7) in \<open>auto simp: set_pd_def\<close>)
  have d: "set ds \<inter> set (ps @ [p]) = {}" "set ns \<inter> set (ps @ [p]) = {}" using assms(1,3) by (auto simp: sched_def)
  have "sched s' (ps @ [p]) ds ns"
    using s'(2-4) keep d assms(1,3) r by (auto simp: sched_def)
  moreover have "p_stat (pds s' p) AND WAITIN = 0"
    using s'(8) by (simp add: set_pd_def) (simp add: bit_eq_iff bit_simps)
  ultimately show thesis using that [of s'] s'(1,5,6,8) r by (simp add: disp_act_def set_pd_def)
qed

lemma schedule_drl_ok:
  "sched s ps ds ns \<Longrightarrow> \<exists>s'. schedule_drl s = Some s' \<and> sched s' (ps @ ds) [] ns \<and> fpcnt s' = fpcnt s
     \<and> (\<forall>x \<in> set ds. p_stat (pds s' x) AND WAITIN = 0) \<and> (\<forall>x. x \<notin> set ds \<longrightarrow> p_stat (pds s' x) = p_stat (pds s x))"
proof (induction ds arbitrary: s ps)
  case Nil
  then show ?case by (simp add: sched_def plist_def) (simp add: schedule_drl.simps)
next
  case (Cons d ds)
  then have d: "drl s = d" "d \<noteq> 0" "plist s (p_link (pds s d)) ds" by (auto simp: sched_def plist_def)
  let ?s = "s\<lparr>drl := p_link (pds s d)\<rparr>"
  have "sched ?s ps ds ns" "d \<notin> set (ps @ ds @ ns)" using Cons.prems d by (auto simp: sched_def plist_def)
  then obtain s1 where s1: "disp_act d ?s = Some s1" "sched s1 (ps @ [d]) ds ns" "p_stat (pds s1 d) AND WAITIN = 0" "fpcnt s1 = fpcnt ?s"
    "\<forall>x. x \<noteq> d \<longrightarrow> p_stat (pds s1 x) = p_stat (pds ?s x)"
    by (rule disp_act_ok [OF _ d(2)]) auto
  obtain s' where s': "schedule_drl s1 = Some s'" "sched s' ((ps @ [d]) @ ds) [] ns" "fpcnt s' = fpcnt s1"
    "\<forall>x \<in> set ds. p_stat (pds s' x) AND WAITIN = 0" "\<forall>x. x \<notin> set ds \<longrightarrow> p_stat (pds s' x) = p_stat (pds s1 x)"
    using Cons.IH [OF s1(2)] by blast
  have "schedule_drl s = Some s'" using d(1,2) s1(1) s'(1) by (subst schedule_drl.simps) simp
  moreover have "\<forall>x \<in> set (d # ds). p_stat (pds s' x) AND WAITIN = 0"
    using s'(4,5) s1(3) by (metis set_ConsD)
  ultimately show ?case using s'(2,3,5) s1(4,5) by simp
qed

definition waits :: "aes \<Rightarrow> nat \<Rightarrow> bool" where
  "waits s p \<longleftrightarrow> p_stat (pds s p) AND WAITIN \<noteq> 0 \<and> p_evwait (pds s p) AND p_evflg (pds s p) = 0"

lemma disp_current_ok:
  assumes "sched s (p # ps) ds ns"
  obtains s' where "disp_current s = Some s'" "fpcnt s' = fpcnt s" "kstate s' = kstate s"
    "sched s' (if waits s p then ps else ps @ [p]) ds (if waits s p then p # ns else ns)"
proof -
  from assms have p: "rlr s = p" "p \<noteq> 0" "plist s (p_link (pds s p)) ps" by (auto simp: sched_def plist_def)
  let ?s = "s\<lparr>rlr := p_link (pds s p)\<rparr>"
  have sc: "sched ?s ps ds ns" "p \<notin> set (ps @ ds @ ns)" using assms p by (auto simp: sched_def plist_def)
  show thesis
  proof (cases "waits s p")
    case True
    let ?s' = "(set_pd p (\<lambda>d. d\<lparr>p_link := nrl ?s\<rparr>) ?s)\<lparr>nrl := p\<rparr>"
    have keep: "plist ?s' h xs" if "plist ?s h xs" "p \<notin> set xs" for h xs
      by (rule plist_pd [OF that(1)]) (use that(2) in \<open>auto simp: set_pd_def\<close>)
    have "plist ?s' p (p # ns)" using keep [of "nrl ?s" ns] sc p(2) by (simp add: sched_def plist_def set_pd_def)
    then have "sched ?s' ps ds (p # ns)" using sc keep [of "rlr ?s" ps] keep [of "drl ?s" ds] by (simp add: sched_def set_pd_def)
    moreover have "disp_current s = Some ?s'"
      using True p by (simp add: disp_current_def mwait_act_def waits_def Let_def)
    ultimately show thesis using True by (intro that [of ?s']) (simp_all add: set_pd_def)
  next
    case False
    obtain s' where s': "disp_act p ?s = Some s'" "sched s' (ps @ [p]) ds ns" "fpcnt s' = fpcnt ?s" "kstate s' = kstate ?s"
      by (rule disp_act_ok [OF sc(1) p(2) sc(2)]) blast
    have "disp_current s = Some s'"
      using False p s'(1) by (auto simp: disp_current_def mwait_act_def waits_def Let_def)
    with s' False show thesis by (intro that [of s']) simp_all
  qed
qed

section \<open>Properties\<close>

definition two_ready :: aes where
  "two_ready = idle_aes\<lparr>pds := (\<lambda>_. idle_pd)(1 := idle_pd\<lparr>p_link := 2\<rparr>)\<rparr>"



end
