(* ===== verification/AesPipe.thy ===== *)
theory AesPipe
  imports AesEvents
begin

text \<open>
  Message pipes: aes/gemqueue.c. Every process has a queue of 128 bytes; \<open>aqueue\<close> moves a
  message between the queue and a buffer, or makes the event wait, and serves an event that
  waits for the opposite. Words are stored big-endian. The lemmas show a queue of messages of
  16 bytes to implement a list of messages in which redraw messages of a window are joined.
\<close>

section \<open>Bytes and words\<close>

definition QUEUE_SIZE :: int where "QUEUE_SIZE = 128"
definition WM_REDRAW :: "16 word" where "WM_REDRAW = 20"
definition WM_ARROWED :: "16 word" where "WM_ARROWED = 24"
definition WM_HSLID :: "16 word" where "WM_HSLID = 25"
definition WM_VSLID :: "16 word" where "WM_VSLID = 26"

type_synonym bytes = "nat \<Rightarrow> 8 word"

text \<open>\<open>memcpy(dst + d, src + k, n)\<close>.\<close>

definition copy_bytes :: "bytes \<Rightarrow> nat \<Rightarrow> bytes \<Rightarrow> nat \<Rightarrow> nat \<Rightarrow> bytes" where
  "copy_bytes dst d src k n = (\<lambda>a. if d \<le> a \<and> a < d + n then src (k + (a - d)) else dst a)"

definition word_at :: "bytes \<Rightarrow> nat \<Rightarrow> 16 word" where
  "word_at q i = word_of_int (256 * uint (q i) + uint (q (i + 1)))"

definition put_word :: "nat \<Rightarrow> 16 word \<Rightarrow> bytes \<Rightarrow> bytes" where
  "put_word i w q = q(i := word_of_int (uint w div 256), i + 1 := word_of_int (uint w))"

definition rect_at :: "bytes \<Rightarrow> nat \<Rightarrow> grect" where
  "rect_at q i = \<lparr>g_x = sint (word_at q i), g_y = sint (word_at q (i + 2)),
     g_w = sint (word_at q (i + 4)), g_h = sint (word_at q (i + 6))\<rparr>"

definition put_rect :: "nat \<Rightarrow> grect \<Rightarrow> bytes \<Rightarrow> bytes" where
  "put_rect i g q = put_word (i + 6) (word_of_int (g_h g)) (put_word (i + 4) (word_of_int (g_w g))
     (put_word (i + 2) (word_of_int (g_y g)) (put_word i (word_of_int (g_x g)) q)))"

section \<open>Queues\<close>

text \<open>
  The search of \<open>doq\<close> for a message to merge the new one with, which is at \<open>qi\<close>: what is
  left of \<open>n\<close>. \<open>None\<close>: it does not end, or leaves the queue downwards.
\<close>

partial_function (option) merge_loop :: "nat \<Rightarrow> bytes \<Rightarrow> int \<Rightarrow> int \<Rightarrow> (bytes \<times> int) option" where
  "merge_loop qi q index n =
     (if index < int qi \<and> n \<noteq> 0 then
        if index < 0 then None
        else
        let om = nat index in
        if word_at q om = WM_REDRAW \<and> word_at q (qi + 6) = word_at q (om + 6)
        then Some (put_rect (om + 8) (rc_union (rect_at q (qi + 8)) (rect_at q (om + 8))) q, 0)
        else if word_at q om = WM_ARROWED then Some (copy_bytes q om q qi 16, 0)
        else merge_loop qi q
          (s16 (index + (if word_at q (om + 4) \<noteq> 0xffff then s16 (sint (word_at q (om + 4)) + 16) else 16))) n
      else Some (q, n))"

definition merges :: "16 word \<Rightarrow> bool" where
  "merges t \<longleftrightarrow> t = WM_REDRAW \<or> t = WM_ARROWED \<or> t = WM_HSLID \<or> t = WM_VSLID"

text \<open>\<open>None\<close> also stands for a count or an index that is negative, as \<open>memcpy\<close> then runs over all memory.\<close>

definition doq :: "bool \<Rightarrow> nat \<Rightarrow> qpb \<Rightarrow> aes \<Rightarrow> aes option" where
  "doq donq p m s =
     (let n = qpb_cnt m; d = pds s p in
      if n < 0 then None
      else if donq then
        if p_qindex d < 0 then None
        else
        let qi = nat (p_qindex d); q = copy_bytes (p_queue d) qi (amem s) (qpb_buf m) (nat n)
        in case (if merges (word_at q qi) then merge_loop qi q 0 n else Some (q, n)) of
             None \<Rightarrow> None
           | Some (q, n) \<Rightarrow> Some (set_pd p (\<lambda>d. d\<lparr>p_queue := q, p_qindex := s16 (p_qindex d + n)\<rparr>) s)
      else
        let s = s\<lparr>amem := copy_bytes (amem s) (qpb_buf m) (p_queue d) 0 (nat n)\<rparr>;
            i = s16 (p_qindex d - n);
            q = copy_bytes (p_queue d) 0 (p_queue d) (nat n) (nat i)
        in if i < 0 then None
           else Some (set_pd p (\<lambda>d. d\<lparr>p_queue := if i \<noteq> 0 then q else p_queue d, p_qindex := i\<rparr>) s))"

definition aqueue :: "bool \<Rightarrow> nat \<Rightarrow> nat \<Rightarrow> aes \<Rightarrow> aes option" where
  "aqueue isqwrite e lm s =
     (let m = qpbs s lm; p = qpb_ppd m;
          qready = (if isqwrite then qpb_cnt m \<le> s16 (QUEUE_SIZE - p_qindex (pds s p)) else p_qindex (pds s p) > 0);
          ppe = (if isqwrite \<noteq> qready then Qnq p else Qdq p)
      in if qready then
           Option.bind (doq isqwrite p m s) (\<lambda>s.
           Option.bind (azombie e 1 s) (\<lambda>s.
           let e = roots s ppe in
           if e \<noteq> 0 then
             let s = set_evb e (\<lambda>b. b\<lparr>e_flag := e_flag b OR NOCANCEL\<rparr>) s;
                 s = set_root ppe (e_link (evbs s e)) s;
                 s = put_pred (e_link (evbs s e)) (e_pred (evbs s e)) s
             in Option.bind (doq (\<not> isqwrite) p (qpbs s (nat (e_parm (evbs s e)))) s) (azombie e 1)
           else Some s))
         else Some (evinsert e ppe (set_evb e (\<lambda>b. b\<lparr>e_parm := int lm\<rparr>) s)))"

section \<open>Messages\<close>

type_synonym msg = "(16 word) list"

definition msg_at :: "bytes \<Rightarrow> nat \<Rightarrow> msg" where
  "msg_at q i = map (\<lambda>k. word_at q (i + 2 * k)) [0..<8]"

lemma msg_at_list:
  "msg_at q i = [word_at q i, word_at q (i + 2), word_at q (i + 4), word_at q (i + 6), word_at q (i + 8),
     word_at q (i + 10), word_at q (i + 12), word_at q (i + 14)]"
  by (simp add: msg_at_def upt_rec)

lemma msg_at_cong: "(\<And>k. k < 16 \<Longrightarrow> q (i + k) = r (j + k)) \<Longrightarrow> msg_at q i = msg_at r j"
proof -
  assume e: "\<And>k. k < 16 \<Longrightarrow> q (i + k) = r (j + k)"
  have "word_at q (i + 2 * k) = word_at r (j + 2 * k)" if "k < 8" for k
    using e [of "2 * k"] e [of "2 * k + 1"] that by (simp add: word_at_def add.assoc)
  then show ?thesis by (simp add: msg_at_def)
qed

lemma msg_at_copy_in: "d \<le> i \<Longrightarrow> i + 16 \<le> d + n \<Longrightarrow> msg_at (copy_bytes dst d src k n) i = msg_at src (k + (i - d))"
  by (rule msg_at_cong) (auto simp: copy_bytes_def add.assoc intro!: arg_cong [of _ _ src])

lemma msg_at_copy_out: "i + 16 \<le> d \<or> d + n \<le> i \<Longrightarrow> msg_at (copy_bytes dst d src k n) i = msg_at dst i"
  by (rule msg_at_cong) (auto simp: copy_bytes_def)

lemma put_word_out: "a \<noteq> i \<Longrightarrow> a \<noteq> i + 1 \<Longrightarrow> put_word i w q a = q a"
  by (simp add: put_word_def)

lemma word_at_put: "word_at (put_word i w q) i = w"
proof -
  have "0 \<le> uint w div 256" "uint w div 256 < 256" using uint_lt2p [of w] by (simp_all add: pos_imp_zdiv_nonneg_iff)
  then have "uint (word_of_int (uint w div 256) :: 8 word) = uint w div 256"
    by (simp add: take_bit_eq_mod unsigned_of_int mod_pos_pos_trivial)
  moreover have "uint (word_of_int (uint w) :: 8 word) = uint w mod 256" by (simp add: take_bit_eq_mod uint_word_of_int del: of_int_uint)
  ultimately show ?thesis by (simp add: word_at_def put_word_def)
qed

lemma word_at_put_other: "j + 2 \<le> i \<or> i + 2 \<le> j \<Longrightarrow> word_at (put_word i w q) j = word_at q j"
  by (auto simp: word_at_def put_word_def)

definition rect_of :: "msg \<Rightarrow> grect" where
  "rect_of m = \<lparr>g_x = sint (m ! 4), g_y = sint (m ! 5), g_w = sint (m ! 6), g_h = sint (m ! 7)\<rparr>"

text \<open>Joining a message with an earlier one: only the rectangle of the earlier one changes.\<close>

definition join :: "msg \<Rightarrow> msg \<Rightarrow> msg" where
  "join nm om = (let g = rc_union (rect_of nm) (rect_of om)
     in take 4 om @ [word_of_int (g_x g), word_of_int (g_y g), word_of_int (g_w g), word_of_int (g_h g)])"

lemma rect_at_msg: "rect_at q (i + 8) = rect_of (msg_at q i)"
  by (simp add: rect_at_def rect_of_def msg_at_list add.commute [of i])

lemma put_rect_words:
  "put_rect (i + 8) g q = put_word (i + 14) (word_of_int (g_h g)) (put_word (i + 12) (word_of_int (g_w g))
     (put_word (i + 10) (word_of_int (g_y g)) (put_word (i + 8) (word_of_int (g_x g)) q)))"
  by (simp add: put_rect_def add.commute [of i])

lemma msg_at_put_rect:
  "msg_at (put_rect (i + 8) (rc_union (rect_of m) (rect_of (msg_at q i))) q) i = join m (msg_at q i)"
proof -
  define g where "g = rc_union (rect_of m) (rect_of (msg_at q i))"
  have "msg_at (put_rect (i + 8) g q) i = take 4 (msg_at q i) @ [word_of_int (g_x g), word_of_int (g_y g), word_of_int (g_w g), word_of_int (g_h g)]"
    by (simp add: msg_at_list put_rect_words word_at_put word_at_put_other)
  then show ?thesis by (simp add: join_def g_def [symmetric] Let_def)
qed

lemma msg_at_put_rect_other: "j + 16 \<le> i \<or> i + 16 \<le> j \<Longrightarrow> msg_at (put_rect (i + 8) g q) j = msg_at q j"
  unfolding msg_at_list put_rect_words by (elim disjE) (simp_all add: word_at_put_other)

text \<open>A queue that holds a list of messages, none of which is followed by more bytes.\<close>

definition plain :: "msg \<Rightarrow> bool" where
  "plain m \<longleftrightarrow> length m = 8 \<and> (m ! 2 = 0 \<or> m ! 2 = 0xffff)"

definition holds_msgs :: "bytes \<Rightarrow> msg list \<Rightarrow> bool" where
  "holds_msgs q ms \<longleftrightarrow> (\<forall>k < length ms. msg_at q (16 * k) = ms ! k)"

definition pipe :: "aes \<Rightarrow> nat \<Rightarrow> msg list \<Rightarrow> bool" where
  "pipe s p ms \<longleftrightarrow> p_qindex (pds s p) = 16 * int (length ms) \<and> length ms \<le> 8 \<and> holds_msgs (p_queue (pds s p)) ms
     \<and> (\<forall>m \<in> set ms. plain m)"

text \<open>What \<open>doq\<close> makes of a list of messages.\<close>

fun merge :: "msg \<Rightarrow> msg list \<Rightarrow> msg list" where
  "merge nm [] = [nm]"
| "merge nm (om # oms) =
     (if om ! 0 = WM_REDRAW \<and> nm ! 3 = om ! 3 then join nm om # oms
      else if om ! 0 = WM_ARROWED then nm # oms
      else om # merge nm oms)"

definition enq :: "msg \<Rightarrow> msg list \<Rightarrow> msg list" where
  "enq nm ms = (if merges (nm ! 0) then merge nm ms else ms @ [nm])"

lemma holds_append: "holds_msgs q (xs @ ys) \<longleftrightarrow> holds_msgs q xs \<and> (\<forall>k < length ys. msg_at q (16 * (length xs + k)) = ys ! k)"
  unfolding holds_msgs_def
proof (intro iffI conjI allI impI)
  fix k
  assume "(\<forall>k < length xs. msg_at q (16 * k) = xs ! k) \<and> (\<forall>k < length ys. msg_at q (16 * (length xs + k)) = ys ! k)" "k < length (xs @ ys)"
  then show "msg_at q (16 * k) = (xs @ ys) ! k"
  proof (cases "k < length xs")
    case False
    then obtain j where "k = length xs + j" by (metis le_Suc_ex not_less)
    with \<open>_ \<and> _\<close> \<open>k < length (xs @ ys)\<close> show ?thesis by simp
  qed (simp add: nth_append)
next
  fix k
  assume a: "\<forall>k < length (xs @ ys). msg_at q (16 * k) = (xs @ ys) ! k" 
  show "k < length xs \<Longrightarrow> msg_at q (16 * k) = xs ! k" using a [rule_format, of k] by (simp add: nth_append)
  show "k < length ys \<Longrightarrow> msg_at q (16 * (length xs + k)) = ys ! k" using a [rule_format, of "length xs + k"] by simp
qed

lemma holds_Cons: "holds_msgs q (xs @ [y]) \<longleftrightarrow> holds_msgs q xs \<and> msg_at q (16 * length xs) = y"
  by (auto simp: holds_append)

lemma holds_update:
  assumes "holds_msgs q (xs @ y # ys)" "msg_at q' (16 * length xs) = y'"
    "\<And>j. j \<noteq> length xs \<Longrightarrow> j < length (xs @ y # ys) \<Longrightarrow> msg_at q' (16 * j) = msg_at q (16 * j)"
  shows "holds_msgs q' (xs @ y' # ys)"
  using assms unfolding holds_msgs_def by (auto simp: nth_append nth_Cons' split: if_splits)

lemma msg_words: "word_at q i = msg_at q i ! 0" "word_at q (i + 4) = msg_at q i ! 2" "word_at q (i + 6) = msg_at q i ! 3"
  by (simp_all add: msg_at_list)

lemma merge_loop_ok:
  assumes "holds_msgs q (xs @ ys @ [nm])" "length (xs @ ys) < 8" "\<forall>m \<in> set (xs @ ys). plain m" "qi = 16 * length (xs @ ys)"
  shows "\<exists>q' n. merge_loop qi q (int (16 * length xs)) 16 = Some (q', n) \<and> holds_msgs q' (xs @ merge nm ys)
    \<and> int (16 * length (xs @ merge nm ys)) = int qi + n \<and> (n = 0 \<or> n = 16)"
  using assms
proof (induction ys arbitrary: xs)
  case Nil
  then show ?case by (intro exI [of _ q] exI [of _ 16]) (simp add: merge_loop.simps)
next
  case (Cons om ys)
  let ?i = "16 * length xs"
  have om: "msg_at q ?i = om" "plain om" using Cons.prems(1,3) by (auto simp: holds_append)
  have nm: "msg_at q qi = nm" using Cons.prems(1,4) holds_append [of q "xs @ om # ys" "[nm]"] by simp
  have lt: "?i < qi" "?i + 16 \<le> qi" using Cons.prems(4) by auto
  let ?red = "om ! 0 = WM_REDRAW \<and> nm ! 3 = om ! 3"
  have w: "word_at q ?i = om ! 0" "word_at q (?i + 4) = om ! 2" "word_at q (?i + 6) = om ! 3" "word_at q (qi + 6) = nm ! 3"
    using om nm msg_words(1) [of q ?i] msg_words(2) [of q ?i] msg_words(3) [of q ?i] msg_words(3) [of q qi] by simp_all
  have ni: "nat (16 * int (length xs)) = ?i" by linarith
  have far: "16 * j + 16 \<le> ?i \<or> ?i + 16 \<le> 16 * j" if "j \<noteq> length xs" for j using that by auto
  have fin: ?case if q': "merge_loop qi q (int ?i) 16 = Some (q', 0)" and m: "merge nm (om # ys) = m' # ys"
    "msg_at q' ?i = m'" "\<And>j. j \<noteq> length xs \<Longrightarrow> msg_at q' (16 * j) = msg_at q (16 * j)" for q' m'
  proof -
    have "holds_msgs q (xs @ om # ys)" using Cons.prems(1) holds_append [of q "xs @ om # ys" "[nm]"] by simp
    then have "holds_msgs q' (xs @ m' # ys)" by (rule holds_update) (use m in auto)
    then show ?thesis using q' m(1) Cons.prems(4) by (intro exI [of _ q'] exI [of _ 0]) simp
  qed
  consider "?red" | "\<not> ?red" "om ! 0 = WM_ARROWED" | "\<not> ?red" "om ! 0 \<noteq> WM_ARROWED" by blast
  then show ?case
  proof cases
    case 1
    show ?thesis
    proof (rule fin)
      show "merge_loop qi q (int ?i) 16 = Some (put_rect (?i + 8) (rc_union (rect_at q (qi + 8)) (rect_at q (?i + 8))) q, 0)"
        using 1 lt w ni by (subst merge_loop.simps) (simp add: Let_def)
      show "merge nm (om # ys) = join nm om # ys" using 1 by simp
      show "msg_at (put_rect (?i + 8) (rc_union (rect_at q (qi + 8)) (rect_at q (?i + 8))) q) ?i = join nm om"
        unfolding rect_at_msg nm using msg_at_put_rect [of ?i nm q] om by simp
    qed (use far in \<open>simp add: msg_at_put_rect_other\<close>)
  next
    case 2
    show ?thesis
    proof (rule fin)
      show "merge_loop qi q (int ?i) 16 = Some (copy_bytes q ?i q qi 16, 0)"
        using 2 lt w ni by (subst merge_loop.simps) (auto simp: Let_def)
      show "merge nm (om # ys) = nm # ys" using 2 by auto
      show "msg_at (copy_bytes q ?i q qi 16) ?i = nm" using nm by (simp add: msg_at_copy_in)
    qed (use far in \<open>simp add: msg_at_copy_out\<close>)
  next
    case 3
    have "s16 (int ?i + (if om ! 2 \<noteq> 0xffff then s16 (sint (om ! 2) + 16) else 16)) = int (16 * length (xs @ [om]))"
      using om(2) Cons.prems(2) by (auto simp: plain_def s16_id)
    then have "merge_loop qi q (int ?i) 16 = merge_loop qi q (int (16 * length (xs @ [om]))) 16"
      using 3 lt w ni by (subst merge_loop.simps) (auto simp: Let_def)
    moreover have "merge nm (om # ys) = om # merge nm ys" using 3 by auto
    ultimately show ?thesis using Cons.IH [of "xs @ [om]"] Cons.prems by simp
  qed
qed

section \<open>Moving one message\<close>

text \<open>Only the queue of a process and the memory of the processes change.\<close>

definition moved :: "nat \<Rightarrow> aes \<Rightarrow> aes \<Rightarrow> bool" where
  "moved p s s' \<longleftrightarrow> (\<exists>q i a. s' = s\<lparr>pds := (pds s)(p := (pds s p)\<lparr>p_queue := q, p_qindex := i\<rparr>), amem := a\<rparr>)"

lemma moved_sel:
  assumes "moved p s s'"
  shows "evbs s' = evbs s" "roots s' = roots s" "qpbs s' = qpbs s" "button s' = button s" "rlr s' = rlr s" "eul s' = eul s"
    "events_ok s' zs = events_ok s zs" "evlist s' r es = evlist s r es" "p_evflg (pds s' x) = p_evflg (pds s x)"
    "x \<noteq> p \<Longrightarrow> pds s' x = pds s x" "p_evlist (pds s' x) = p_evlist (pds s x)" "p_cda (pds s' x) = p_cda (pds s x)"
proof -
  obtain q i a where e: "s' = s\<lparr>pds := (pds s)(p := (pds s p)\<lparr>p_queue := q, p_qindex := i\<rparr>), amem := a\<rparr>"
    using assms by (auto simp: moved_def)
  have "(\<lambda>p. p_link (pds s' p)) = (\<lambda>p. p_link (pds s p))" by (auto simp: e)
  then have "nr_list s' ns = nr_list s ns" for ns by (simp add: nr_list_def) (simp add: e)
  then show "events_ok s' zs = events_ok s zs" by (simp add: events_ok_def evlist_def) (simp add: e)
qed (use assms in \<open>auto simp: moved_def evlist_def\<close>)

lemma plain_join [simp]: "plain om \<Longrightarrow> plain (join nm om)"
  by (simp add: plain_def join_def Let_def nth_append)

lemma plain_merge: "plain nm \<Longrightarrow> \<forall>m \<in> set ms. plain m \<Longrightarrow> \<forall>m \<in> set (merge nm ms). plain m"
  by (induction ms) auto

lemma plain_enq: "plain nm \<Longrightarrow> \<forall>m \<in> set ms. plain m \<Longrightarrow> \<forall>m \<in> set (enq nm ms). plain m"
  using plain_merge [of nm ms] by (simp add: enq_def)

lemma doq_put:
  assumes "pipe s p ms" "length ms < 8" "qpb_cnt m = 16" "nm = msg_at (amem s) (qpb_buf m)" "plain nm"
  obtains s' where "doq True p m s = Some s'" "pipe s' p (enq nm ms)" "moved p s s'" "amem s' = amem s"
proof -
  let ?d = "pds s p"
  define qi where "qi = 16 * length ms"
  define q where "q = copy_bytes (p_queue ?d) qi (amem s) (qpb_buf m) 16"
  from assms(1) have i: "p_qindex ?d = int qi" "holds_msgs (p_queue ?d) ms" "\<forall>m \<in> set ms. plain m"
    by (auto simp: pipe_def qi_def)
  have "holds_msgs q (ms @ [nm])"
    unfolding holds_Cons using i(2) assms(4) by (auto simp: holds_msgs_def q_def qi_def msg_at_copy_in msg_at_copy_out)
  then have q: "holds_msgs q ([] @ ms @ [nm])" by simp
  have nm: "word_at q qi = nm ! 0" using q holds_Cons [of q ms nm] msg_words(1) [of q qi] by (simp add: qi_def)
  obtain q' n where q': "(if merges (nm ! 0) then merge_loop qi q 0 16 else Some (q, 16)) = Some (q', n)"
    "holds_msgs q' (enq nm ms)" "int (16 * length (enq nm ms)) = int qi + n" "n = 0 \<or> n = 16"
  proof (cases "merges (nm ! 0)")
    case True
    obtain q' n where "merge_loop qi q (int (16 * length ([] :: msg list))) 16 = Some (q', n)" "holds_msgs q' ([] @ merge nm ms)"
      "int (16 * length ([] @ merge nm ms)) = int qi + n" "n = 0 \<or> n = 16"
      using merge_loop_ok [OF q, of qi] assms(2) i(3) qi_def by auto
    with True that show thesis by (simp add: enq_def)
  next
    case False
    with q that [of q 16] show thesis by (simp add: enq_def qi_def)
  qed
  let ?s = "set_pd p (\<lambda>d. d\<lparr>p_queue := q', p_qindex := s16 (p_qindex d + n)\<rparr>) s"
  have l: "length (enq nm ms) \<le> 8" using q'(3,4) assms(2) by (auto simp: qi_def)
  have "s16 (int qi + n) = int (16 * length (enq nm ms))" using q'(3) l by (simp add: s16_id)
  then have "pipe ?s p (enq nm ms)"
    using q'(2) l i plain_enq [OF assms(5) i(3)] by (simp add: pipe_def set_pd_def)
  moreover have "moved p s ?s"
    unfolding moved_def by (intro exI [of _ q'] exI [of _ "s16 (p_qindex ?d + n)"] exI [of _ "amem s"]) (cases s, simp add: set_pd_def)
  moreover have "doq True p m s = Some ?s"
    using q'(1) i(1) nm assms(3) by (cases "merges (nm ! 0)") (simp_all add: doq_def Let_def q_def [symmetric])
  ultimately show thesis using that by (simp add: set_pd_def)
qed

lemma doq_get:
  assumes "pipe s p (nm # ms)" "qpb_cnt m = 16"
  obtains s' where "doq False p m s = Some s'" "pipe s' p ms" "moved p s s'" "msg_at (amem s') (qpb_buf m) = nm"
    "\<And>a. a < qpb_buf m \<or> qpb_buf m + 16 \<le> a \<Longrightarrow> amem s' a = amem s a"
proof -
  let ?d = "pds s p"
  define i where "i = 16 * length ms"
  define q where "q = (if i \<noteq> 0 then copy_bytes (p_queue ?d) 0 (p_queue ?d) 16 i else p_queue ?d)"
  define a where "a = copy_bytes (amem s) (qpb_buf m) (p_queue ?d) 0 16"
  from assms(1) have h: "p_qindex ?d = int i + 16" "length ms < 8" "holds_msgs (p_queue ?d) (nm # ms)" "\<forall>m \<in> set ms. plain m"
    by (auto simp: pipe_def i_def)
  have s16: "s16 (p_qindex ?d - 16) = int i" using h(1,2) by (simp add: i_def s16_id)
  let ?s = "set_pd p (\<lambda>d. d\<lparr>p_queue := q, p_qindex := int i\<rparr>) (s\<lparr>amem := a\<rparr>)"
  have "msg_at q (16 * k) = ms ! k" if "k < length ms" for k
  proof -
    have "msg_at q (16 * k) = msg_at (p_queue ?d) (16 + 16 * k)"
      using that by (cases ms) (simp_all add: q_def i_def msg_at_copy_in)
    also have "\<dots> = (nm # ms) ! Suc k" using h(3) that unfolding holds_msgs_def by (metis Suc_less_eq length_Cons mult_Suc_right)
    finally show ?thesis by simp
  qed
  then have "pipe ?s p ms" using h by (simp add: pipe_def set_pd_def i_def holds_msgs_def)
  moreover have "moved p s ?s"
    unfolding moved_def by (intro exI [of _ q] exI [of _ "int i"] exI [of _ a]) (cases s, simp add: set_pd_def)
  moreover have "doq False p m s = Some ?s"
    using assms(2) s16 by (auto simp: doq_def Let_def a_def q_def set_pd_def)
  moreover have "msg_at (amem ?s) (qpb_buf m) = nm"
    using h(3) [unfolded holds_msgs_def, rule_format, of 0] by (simp add: set_pd_def a_def msg_at_copy_in)
  moreover have "amem ?s x = amem s x" if "x < qpb_buf m \<or> qpb_buf m + 16 \<le> x" for x
    using that by (auto simp: set_pd_def a_def copy_bytes_def)
  ultimately show thesis using that by blast
qed

section \<open>Events that wait for a queue\<close>

text \<open>
  The readers and writers of the queue of \<open>p\<close> that wait, as a function of the root, beside the
  events that are complete.
\<close>

definition wait_qpb :: "aes \<Rightarrow> nat \<Rightarrow> qpb" where
  "wait_qpb s x = qpbs s (nat (e_parm (evbs s x)))"

definition waiters :: "aes \<Rightarrow> nat \<Rightarrow> nat list \<Rightarrow> (root \<Rightarrow> nat list) \<Rightarrow> bool" where
  "waiters s p zs L \<longleftrightarrow> events_ok s zs \<and> set (L (Qdq p)) \<inter> set (L (Qnq p)) = {}
     \<and> (\<forall>r \<in> {Qdq p, Qnq p}. evlist s r (L r) \<and> set (L r) \<inter> set zs = {}
          \<and> (\<forall>x \<in> set (L r). qpb_ppd (wait_qpb s x) = p \<and> qpb_cnt (wait_qpb s x) = 16))"

lemma pipe_same_pds: "same_pds (pds s) (pds s') \<Longrightarrow> pipe s' p ms = pipe s p ms"
  by (simp add: pipe_def same_pds_def)

lemma waiters_moved: "moved p s s' \<Longrightarrow> waiters s' p zs L = waiters s p zs L"
  by (simp add: waiters_def wait_qpb_def moved_sel)

lemma waiters_azombie:
  assumes "waiters s p zs L" "e \<noteq> 0" "e \<notin> set zs" "e \<notin> set (L (Qdq p))" "e \<notin> set (L (Qnq p))"
  obtains s' where "azombie e rv s = Some s'" "waiters s' p (e # zs) L" "\<And>ms. pipe s' p ms = pipe s p ms"
    "amem s' = amem s" "qpbs s' = qpbs s" "e_flag (evbs s' e) = COMPLETE" "e_return (evbs s' e) = MAKE_LONG (button s) rv"
    "\<And>x. x \<noteq> e \<Longrightarrow> x \<notin> set zs \<Longrightarrow> evbs s' x = evbs s x" "\<And>x. x \<noteq> e \<Longrightarrow> e_flag (evbs s' x) = e_flag (evbs s x) \<and> e_return (evbs s' x) = e_return (evbs s x)"
proof -
  obtain ns where o: "nr_list s ns" "evlist s Zlr zs" using assms(1) by (auto simp: waiters_def events_ok_def)
  obtain s' ns' where s': "azombie e rv s = Some s'" "nr_list s' ns'" "evlist s' Zlr (e # zs)"
    "\<forall>x. x \<notin> set (e # zs) \<longrightarrow> evbs s' x = evbs s x" "same_data {e} (evbs s) (evbs s')" "e_flag (evbs s' e) = COMPLETE"
    "e_return (evbs s' e) = MAKE_LONG (button s) rv"
    "\<forall>r. r \<noteq> Zlr \<longrightarrow> roots s' r = roots s r" "still s' = still s" "same_pds (pds s) (pds s')"
    by (rule azombie_ok [OF o assms(3,2), of rv]) blast
  have q: "qpbs s' = qpbs s" "amem s' = amem s" using still_sel(7,8) [OF s'(9)] by auto
  have same: "evbs s' x = evbs s x" if "r \<in> {Qdq p, Qnq p}" "x \<in> set (L r)" for r x
    using assms s'(4) that by (auto simp: waiters_def)
  have "evlist s' r (L r)" if "r \<in> {Qdq p, Qnq p}" for r
    using evlist_cong [of "L r" s' s r] same [OF that] s'(8) assms(1) that by (auto simp: waiters_def)
  then have "waiters s' p (e # zs) L"
    using assms s'(2,3) same q by (auto simp: waiters_def events_ok_def wait_qpb_def)
  then show thesis using that [of s'] s' q pipe_same_pds by (auto simp: same_data_def)
qed

text \<open>Taking the first waiting event off its list, as \<open>aqueue\<close> does it.\<close>

definition unqueue :: "root \<Rightarrow> nat \<Rightarrow> aes \<Rightarrow> aes" where
  "unqueue r e s =
     (let s = set_evb e (\<lambda>b. b\<lparr>e_flag := e_flag b OR NOCANCEL\<rparr>) s;
          s = set_root r (e_link (evbs s e)) s
      in put_pred (e_link (evbs s e)) (e_pred (evbs s e)) s)"

lemma unqueue_ok:
  assumes "waiters s p zs L" "r \<in> {Qdq p, Qnq p}" "L r = e # es"
  shows "waiters (unqueue r e s) p zs (L(r := es))" "pipe (unqueue r e s) p ms = pipe s p ms" "roots s r = e" "e \<noteq> 0"
    "wait_qpb (unqueue r e s) x = wait_qpb s x" "amem (unqueue r e s) = amem s" "e \<notin> set zs" "\<And>r'. r' \<in> {Qdq p, Qnq p} \<Longrightarrow> e \<notin> set ((L(r := es)) r')"
    "y \<noteq> e \<Longrightarrow> e_flag (evbs (unqueue r e s) y) = e_flag (evbs s y)" "e_return (evbs (unqueue r e s) y) = e_return (evbs s y)"
proof -
  let ?s = "set_evb e (\<lambda>b. b\<lparr>e_flag := e_flag b OR NOCANCEL\<rparr>) s"
  have ev: "evlist s r ([] @ e # es)" using assms by (auto simp: waiters_def)
  have lk: "evlist ?s r' xs = evlist s r' xs" for r' xs
    using evlist_links [of xs ?s s r'] evlist_links [of xs s ?s r'] by (auto simp: set_evb_def)
  have pr: "e_pred (evbs ?s e) = FAKE_EVB r" "roots s r = e" "e \<noteq> 0" using ev by (auto simp: evlist_def set_evb_def)
  then show "roots s r = e" "e \<noteq> 0" by auto
  have u: "unqueue r e s = unlink_evb e ?s"
    using pr(1) by (simp add: unqueue_def unlink_evb_def Let_def put_link_def)
  have ev': "evlist ?s r ([] @ e # es)" using ev lk by blast
  note un = unlink_evlist [OF ev', folded u]
  have o: "others (unqueue r e s) = others s" using un(5) by simp
  have "set (L r) \<inter> set zs = {}" using assms(1,2) unfolding waiters_def by blast
  then have d1: "e \<notin> set zs" "set es \<inter> set zs = {}" using assms(3) by auto
  have d2: "e \<notin> set es" using ev by (simp add: evlist_def)
  have "set (L (Qdq p)) \<inter> set (L (Qnq p)) = {}" using assms(1) by (simp add: waiters_def)
  then have d3: "set (L r') \<inter> set (e # es) = {}" if "r' \<in> {Qdq p, Qnq p}" "r' \<noteq> r" for r'
    using assms(2,3) that by (cases "r = Qdq p"; simp only: insert_iff empty_iff; auto)
  note dis = d1(1) d2 d1(2) d3
  then show "e \<notin> set zs" "\<And>r'. r' \<in> {Qdq p, Qnq p} \<Longrightarrow> e \<notin> set ((L(r := es)) r')" by auto
  have pm: "e_parm (evbs (unqueue r e s) x) = e_parm (evbs s x)" for x using un(2) by (simp add: same_data_def set_evb_def)
  have q: "qpbs (unqueue r e s) = qpbs s" "amem (unqueue r e s) = amem s"
    using still_sel(7,8) [OF others_still [OF o]] by auto
  then show "amem (unqueue r e s) = amem s" by simp
  have w: "wait_qpb (unqueue r e s) x = wait_qpb s x" for x using pm q by (simp add: wait_qpb_def)
  then show "wait_qpb (unqueue r e s) x = wait_qpb s x" .
  have same: "evbs (unqueue r e s) x = evbs s x" if "x \<notin> set (e # es)" for x
    using un(3) that by (simp add: set_evb_def)
  have "events_ok (unqueue r e s) zs"
  proof (rule events_ok_frame [OF _ _ o])
    have "x \<notin> set (e # es)" if "x \<in> set zs" for x using that dis(1,3) by auto
    then show "\<forall>x \<in> set zs. evbs (unqueue r e s) x = evbs s x" using same by blast
  qed (use assms(1,2) un(4) in \<open>auto simp: waiters_def set_evb_def\<close>)
  moreover have "evlist (unqueue r e s) r' ((L(r := es)) r')" if "r' \<in> {Qdq p, Qnq p}" for r'
  proof (cases "r' = r")
    case False
    have "\<forall>x \<in> set (L r'). evbs (unqueue r e s) x = evbs s x" using same dis(4) [OF that False] by (metis disjoint_iff)
    moreover have "evlist s r' (L r')" using assms(1) that unfolding waiters_def by blast
    ultimately show ?thesis using evlist_cong [of "L r'" "unqueue r e s" s r'] un(4) False by (simp add: set_evb_def)
  qed (use un(1) in simp)
  ultimately show "waiters (unqueue r e s) p zs (L(r := es))"
    using assms dis w by (auto simp: waiters_def)
  show "pipe (unqueue r e s) p ms = pipe s p ms" using others_pds [OF o] by (simp add: pipe_def)
  show "y \<noteq> e \<Longrightarrow> e_flag (evbs (unqueue r e s) y) = e_flag (evbs s y)" "e_return (evbs (unqueue r e s) y) = e_return (evbs s y)"
    using un(2) by (simp_all add: same_data_def set_evb_def)
qed

lemma wait_on:
  assumes "waiters s p zs L" "r \<in> {Qdq p, Qnq p}" "e \<noteq> 0" "e \<notin> set zs" "e \<notin> set (L (Qdq p))" "e \<notin> set (L (Qnq p))"
    and "qpb_ppd (qpbs s lm) = p" "qpb_cnt (qpbs s lm) = 16"
    and s': "s' = evinsert e r (set_evb e (\<lambda>b. b\<lparr>e_parm := int lm\<rparr>) s)"
  shows "waiters s' p zs (L(r := e # L r))" "pipe s' p ms = pipe s p ms" "amem s' = amem s" "wait_qpb s' e = qpbs s lm"
    "x \<noteq> e \<Longrightarrow> wait_qpb s' x = wait_qpb s x"
proof -
  let ?s = "set_evb e (\<lambda>b. b\<lparr>e_parm := int lm\<rparr>) s"
  have lk: "evlist ?s r' xs = evlist s r' xs" for r' xs
    using evlist_links [of xs ?s s r'] evlist_links [of xs s ?s r'] by (auto simp: set_evb_def)
  have "e \<notin> set (L r)" "evlist ?s r (L r)" using assms(1,2,5,6) lk by (auto simp: waiters_def)
  note ev = evinsert_ok [OF this(2) assms(3) this(1), folded s']
  have o: "others s' = others s" using ev(5) by simp
  have q: "qpbs s' = qpbs s" "amem s' = amem s" using still_sel(7,8) [OF others_still [OF o]] by auto
  then show "amem s' = amem s" by simp
  have pm: "e_parm (evbs s' x) = (if x = e then int lm else e_parm (evbs s x))" for x
    using ev(2) by (simp add: same_data_def set_evb_def)
  then show w: "wait_qpb s' e = qpbs s lm" "x \<noteq> e \<Longrightarrow> wait_qpb s' x = wait_qpb s x" for x
    using q by (simp_all add: wait_qpb_def)
  show "pipe s' p ms = pipe s p ms" using others_pds [OF o] by (simp add: pipe_def)
  have same: "evbs s' x = evbs s x" if "x \<noteq> e" "x \<notin> set (L r)" for x using ev(3) that by (simp add: set_evb_def)
  have rt: "roots s' r' = roots s r'" if "r' \<noteq> r" for r' using ev(4) that by (simp add: set_evb_def)
  have "events_ok s' zs"
  proof (rule events_ok_frame [OF _ _ o])
    have "set (L r) \<inter> set zs = {}" using assms(1,2) unfolding waiters_def by blast
    then show "\<forall>x \<in> set zs. evbs s' x = evbs s x" using same assms(4) by (metis disjoint_iff)
    have "Zlr \<noteq> r" using assms(2) by auto
    then show "roots s' Zlr = roots s Zlr" by (rule rt)
  qed (use assms(1) in \<open>simp add: waiters_def\<close>)
  moreover have "evlist s' r' ((L(r := e # L r)) r')" if "r' \<in> {Qdq p, Qnq p}" for r'
  proof (cases "r' = r")
    case False
    have "set (L (Qdq p)) \<inter> set (L (Qnq p)) = {}" using assms(1) by (simp add: waiters_def)
    then have d: "set (L r) \<inter> set (L r') = {}" using assms(2) that False by (metis Int_commute empty_iff insert_iff)
    have "e \<notin> set (L r')" using assms(5,6) that by (metis empty_iff insert_iff)
    then have "\<forall>x \<in> set (L r'). evbs s' x = evbs s x" using same d by (metis disjoint_iff)
    moreover have "evlist s r' (L r')" using assms(1) that unfolding waiters_def by blast
    ultimately show ?thesis using evlist_cong [of "L r'" s' s r'] rt [OF False] False by simp
  qed (use ev(1) in simp)
  moreover have "set ((L(r := e # L r)) r') \<inter> set zs = {}" "\<And>x. x \<in> set ((L(r := e # L r)) r') \<Longrightarrow>
      qpb_ppd (wait_qpb s' x) = p \<and> qpb_cnt (wait_qpb s' x) = 16" if "r' \<in> {Qdq p, Qnq p}" for r'
  proof -
    have "set (L r') \<inter> set zs = {}" "\<And>x. x \<in> set (L r') \<Longrightarrow> qpb_ppd (wait_qpb s x) = p \<and> qpb_cnt (wait_qpb s x) = 16"
      using assms(1) that unfolding waiters_def by blast+
    then show "set ((L(r := e # L r)) r') \<inter> set zs = {}" "\<And>x. x \<in> set ((L(r := e # L r)) r') \<Longrightarrow>
      qpb_ppd (wait_qpb s' x) = p \<and> qpb_cnt (wait_qpb s' x) = 16"
      using assms(4,7,8) w by (cases "r' = r"; auto; metis)+
  qed
  moreover have "set ((L(r := e # L r)) (Qdq p)) \<inter> set ((L(r := e # L r)) (Qnq p)) = {}"
    using assms(1,5,6) by (auto simp: waiters_def)
  ultimately show "waiters s' p zs (L(r := e # L r))" unfolding waiters_def by blast
qed

text \<open>
  The queue and the events that wait for it: \<open>ms\<close> are the messages, \<open>rs\<close> the readers and \<open>ws\<close>
  the writers. A reader waits only while the queue is empty, a writer only while it is not.
\<close>

definition pipe_ok :: "aes \<Rightarrow> nat \<Rightarrow> nat list \<Rightarrow> nat list \<Rightarrow> nat list \<Rightarrow> msg list \<Rightarrow> bool" where
  "pipe_ok s p zs rs ws ms \<longleftrightarrow> pipe s p ms \<and> waiters s p zs ((\<lambda>_. [])(Qdq p := rs, Qnq p := ws))
     \<and> (rs \<noteq> [] \<longrightarrow> ms = []) \<and> (ws \<noteq> [] \<longrightarrow> ms \<noteq> []) \<and> (\<forall>x \<in> set ws. plain (msg_at (amem s) (qpb_buf (wait_qpb s x))))"

definition served :: "aes \<Rightarrow> nat list \<Rightarrow> bool" where
  "served s es \<longleftrightarrow> (\<forall>e \<in> set es. e_flag (evbs s e) = COMPLETE \<and> LOWORD (e_return (evbs s e)) = 1)"

lemma enq_nonempty: "enq nm ms \<noteq> []"
  by (cases ms) (auto simp: enq_def)

lemma enq_Nil [simp]: "enq nm [] = [nm]"
  by (simp add: enq_def)

lemma aqueue_ready:
  assumes "qpbs s lm = m" "qpb_ppd m = p"
    "if isqwrite then qpb_cnt m \<le> s16 (QUEUE_SIZE - p_qindex (pds s p)) else p_qindex (pds s p) > 0"
  shows "aqueue isqwrite e lm s = Option.bind (doq isqwrite p m s) (\<lambda>s. Option.bind (azombie e 1 s) (\<lambda>s.
     let r = (if isqwrite then Qdq p else Qnq p); x = roots s r; s1 = unqueue r x s
     in if x \<noteq> 0 then Option.bind (doq (\<not> isqwrite) p (wait_qpb s1 x) s1) (azombie x 1) else Some s))"
  using assms(3) unfolding aqueue_def Let_def unqueue_def wait_qpb_def assms(1) assms(2) by (cases isqwrite) simp_all

abbreviation "on_lists p rs ws \<equiv> (\<lambda>_. [])(Qdq p := rs, Qnq p := ws)"

lemma on_lists_upd: "(on_lists p rs ws)(Qdq p := x) = on_lists p x ws" "(on_lists p rs ws)(Qnq p := x) = on_lists p rs x"
  by (auto simp: fun_eq_iff)

text \<open>What happens after the first transfer, when nothing waits for the opposite, and when an event does.\<close>

lemma finish_alone:
  assumes "waiters s p zs L" "e \<noteq> 0" "e \<notin> set zs" "e \<notin> set (L (Qdq p))" "e \<notin> set (L (Qnq p))"
    and "r \<in> {Qdq p, Qnq p}" "L r = []"
  obtains s' where "azombie e 1 s = Some s'" "roots s' r = 0" "waiters s' p (e # zs) L" "\<And>ms. pipe s' p ms = pipe s p ms"
    "amem s' = amem s" "served s' [e]" "\<And>x. x \<noteq> e \<Longrightarrow> x \<notin> set zs \<Longrightarrow> wait_qpb s' x = wait_qpb s x"
proof -
  obtain s' where s': "azombie e 1 s = Some s'" "waiters s' p (e # zs) L" "\<And>ms. pipe s' p ms = pipe s p ms"
    "amem s' = amem s" "qpbs s' = qpbs s" "e_flag (evbs s' e) = COMPLETE" "e_return (evbs s' e) = MAKE_LONG (button s) 1"
    "\<And>x. x \<noteq> e \<Longrightarrow> x \<notin> set zs \<Longrightarrow> evbs s' x = evbs s x"
    by (rule waiters_azombie [OF assms(1-5), of 1]) blast
  have "roots s' r = 0" using s'(2) assms(6,7) by (auto simp: waiters_def evlist_def)
  then show thesis using that [of s'] s' by (simp add: served_def wait_qpb_def)
qed

lemma finish_serving:
  assumes "waiters s p zs L" "e \<noteq> 0" "e \<notin> set zs" "e \<notin> set (L (Qdq p))" "e \<notin> set (L (Qnq p))"
    and "r \<in> {Qdq p, Qnq p}" "L r = x # xs"
  obtains s1 where "azombie e 1 s = Some s1" "roots s1 r = x" "x \<noteq> 0"
    "\<And>y. y \<noteq> e \<Longrightarrow> y \<notin> set zs \<Longrightarrow> wait_qpb (unqueue r x s1) y = wait_qpb s y"
    "\<And>ms. pipe (unqueue r x s1) p ms = pipe s p ms" "amem (unqueue r x s1) = amem s"
    "\<And>s2. moved p (unqueue r x s1) s2 \<Longrightarrow> \<exists>s'. azombie x 1 s2 = Some s' \<and> waiters s' p (x # e # zs) (L(r := xs))
       \<and> (\<forall>ms. pipe s' p ms = pipe s2 p ms) \<and> amem s' = amem s2 \<and> served s' [x, e]
       \<and> (\<forall>y. y \<notin> set (x # e # zs) \<longrightarrow> wait_qpb s' y = wait_qpb s y)"
proof -
  obtain s1 where s1: "azombie e 1 s = Some s1" "waiters s1 p (e # zs) L" "\<And>ms. pipe s1 p ms = pipe s p ms"
    "amem s1 = amem s" "qpbs s1 = qpbs s" "e_flag (evbs s1 e) = COMPLETE" "e_return (evbs s1 e) = MAKE_LONG (button s) 1"
    "\<And>x. x \<noteq> e \<Longrightarrow> x \<notin> set zs \<Longrightarrow> evbs s1 x = evbs s x"
    by (rule waiters_azombie [OF assms(1-5), of 1]) blast
  note u = unqueue_ok [OF s1(2) assms(6,7)]
  have w1: "wait_qpb s1 y = wait_qpb s y" if "y \<noteq> e" "y \<notin> set zs" for y using s1(5,8) that by (simp add: wait_qpb_def)
  have "\<exists>s'. azombie x 1 s2 = Some s' \<and> waiters s' p (x # e # zs) (L(r := xs))
       \<and> (\<forall>ms. pipe s' p ms = pipe s2 p ms) \<and> amem s' = amem s2 \<and> served s' [x, e]
       \<and> (\<forall>y. y \<notin> set (x # e # zs) \<longrightarrow> wait_qpb s' y = wait_qpb s y)" if m: "moved p (unqueue r x s1) s2" for s2
  proof -
    have w2: "waiters s2 p (e # zs) (L(r := xs))" using u(1) waiters_moved [OF m] by simp
    have nx: "x \<notin> set ((L(r := xs)) (Qdq p))" "x \<notin> set ((L(r := xs)) (Qnq p))" using u(8) by blast+
    obtain s' where s': "azombie x 1 s2 = Some s'" "waiters s' p (x # e # zs) (L(r := xs))" "\<And>ms. pipe s' p ms = pipe s2 p ms"
      "amem s' = amem s2" "qpbs s' = qpbs s2" "e_flag (evbs s' x) = COMPLETE" "e_return (evbs s' x) = MAKE_LONG (button s2) 1"
      "\<And>y. y \<noteq> x \<Longrightarrow> y \<notin> set (e # zs) \<Longrightarrow> evbs s' y = evbs s2 y"
      "\<And>y. y \<noteq> x \<Longrightarrow> e_flag (evbs s' y) = e_flag (evbs s2 y) \<and> e_return (evbs s' y) = e_return (evbs s2 y)"
      by (rule waiters_azombie [OF w2 u(4,7) nx, of 1]) blast
    have ex: "e \<noteq> x" using u(7) by auto
    have "served s' [x, e]"
      using s'(6,7) s'(9) [OF ex] s1(6,7) u(9) [OF ex] u(10) moved_sel(1) [OF m] by (simp add: served_def)
    moreover have "wait_qpb s' y = wait_qpb s y" if "y \<notin> set (x # e # zs)" for y
      using that s'(5,8) moved_sel(1,3) [OF m] u(5) w1 by (simp add: wait_qpb_def)
    ultimately show ?thesis using s' by blast
  qed
  with that [of s1] s1 u w1 show thesis by auto
qed

section \<open>Reading and writing\<close>

text \<open>What both directions ask of the new event and its parameters.\<close>

definition fresh_ev :: "nat \<Rightarrow> nat list \<Rightarrow> nat list \<Rightarrow> nat list \<Rightarrow> bool" where
  "fresh_ev e zs rs ws \<longleftrightarrow> e \<noteq> 0 \<and> e \<notin> set zs \<and> e \<notin> set rs \<and> e \<notin> set ws"

definition msg_qpb :: "aes \<Rightarrow> nat \<Rightarrow> nat \<Rightarrow> bool" where
  "msg_qpb s lm p \<longleftrightarrow> qpb_ppd (qpbs s lm) = p \<and> qpb_cnt (qpbs s lm) = 16"

lemma pipe_okD:
  assumes "pipe_ok s p zs rs ws ms"
  shows "pipe s p ms" "waiters s p zs (on_lists p rs ws)" "\<And>x. x \<in> set rs \<union> set ws \<Longrightarrow> x \<notin> set zs \<and> qpb_cnt (wait_qpb s x) = 16"
  using assms by (auto simp: pipe_ok_def waiters_def)

lemma moved_qpb: "moved p s s1 \<Longrightarrow> wait_qpb s1 x = wait_qpb s x"
  by (simp add: wait_qpb_def moved_sel)

lemma write_alone:
  assumes ok: "pipe_ok s p zs [] ws ms" "fresh_ev e zs [] ws" "msg_qpb s lm p" "length ms < 8"
    and nm: "nm = msg_at (amem s) (qpb_buf (qpbs s lm))" "plain nm"
  shows "\<exists>s'. aqueue True e lm s = Some s' \<and> pipe_ok s' p (e # zs) [] ws (enq nm ms) \<and> served s' [e]"
proof -
  let ?m = "qpbs s lm"
  note d = pipe_okD [OF ok(1)]
  from ok(3) have m: "qpb_ppd ?m = p" "qpb_cnt ?m = 16" by (auto simp: msg_qpb_def)
  obtain s1 where s1: "doq True p ?m s = Some s1" "pipe s1 p (enq nm ms)" "moved p s s1" "amem s1 = amem s"
    by (rule doq_put [OF d(1) ok(4) m(2) nm])
  have w1: "waiters s1 p zs (on_lists p [] ws)" using d(2) waiters_moved [OF s1(3)] by simp
  have e: "e \<noteq> 0" "e \<notin> set zs" "e \<notin> set (on_lists p [] ws (Qdq p))" "e \<notin> set (on_lists p [] ws (Qnq p))"
    using ok(2) by (auto simp: fresh_ev_def)
  obtain s' where s': "azombie e 1 s1 = Some s'" "roots s' (Qdq p) = 0" "waiters s' p (e # zs) (on_lists p [] ws)"
    "\<And>ms. pipe s' p ms = pipe s1 p ms" "amem s' = amem s1" "served s' [e]"
    "\<And>x. x \<noteq> e \<Longrightarrow> x \<notin> set zs \<Longrightarrow> wait_qpb s' x = wait_qpb s1 x"
    by (rule finish_alone [OF w1 e, of "Qdq p"]) auto
  have "wait_qpb s' x = wait_qpb s x" if "x \<in> set ws" for x
  proof -
    have "x \<noteq> e" "x \<notin> set zs" using that ok(2) d(3) by (auto simp: fresh_ev_def)
    then show ?thesis using s'(7) moved_qpb [OF s1(3)] by simp
  qed
  then have "pipe_ok s' p (e # zs) [] ws (enq nm ms)"
    using s'(3,4,5) s1(2,4) ok(1) enq_nonempty by (simp add: pipe_ok_def)
  moreover have "qpb_cnt ?m \<le> s16 (QUEUE_SIZE - p_qindex (pds s p))"
    using m d(1) ok(4) by (simp add: pipe_def QUEUE_SIZE_def s16_id)
  then have "aqueue True e lm s = Some s'" using aqueue_ready [of s lm ?m p True e] m s1(1) s'(1,2) by simp
  ultimately show ?thesis using s'(6) by blast
qed

lemma write_serve:
  assumes ok: "pipe_ok s p zs (r # rs) ws ms" "fresh_ev e zs (r # rs) ws" "msg_qpb s lm p"
    and nm: "nm = msg_at (amem s) (qpb_buf (qpbs s lm))" "plain nm"
  shows "\<exists>s'. aqueue True e lm s = Some s' \<and> pipe_ok s' p (r # e # zs) rs ws [] \<and> served s' [r, e]
    \<and> msg_at (amem s') (qpb_buf (wait_qpb s r)) = nm"
proof -
  let ?m = "qpbs s lm"
  note d = pipe_okD [OF ok(1)]
  from ok(1) have ms: "ms = []" "ws = []" by (auto simp: pipe_ok_def)
  from ok(3) have m: "qpb_ppd ?m = p" "qpb_cnt ?m = 16" by (auto simp: msg_qpb_def)
  obtain s1 where s1: "doq True p ?m s = Some s1" "pipe s1 p (enq nm [])" "moved p s s1" "amem s1 = amem s"
    by (rule doq_put [OF d(1) [unfolded ms(1)] _ m(2) nm]) auto
  have w1: "waiters s1 p zs (on_lists p (r # rs) ws)" using d(2) waiters_moved [OF s1(3)] by simp
  have e: "e \<noteq> 0" "e \<notin> set zs" "e \<notin> set (on_lists p (r # rs) ws (Qdq p))" "e \<notin> set (on_lists p (r # rs) ws (Qnq p))"
    using ok(2) by (auto simp: fresh_ev_def)
  have L: "Qdq p \<in> {Qdq p, Qnq p}" "on_lists p (r # rs) ws (Qdq p) = r # rs" by auto
  obtain s2 where s2: "azombie e 1 s1 = Some s2" "roots s2 (Qdq p) = r" "r \<noteq> 0"
    "\<And>y. y \<noteq> e \<Longrightarrow> y \<notin> set zs \<Longrightarrow> wait_qpb (unqueue (Qdq p) r s2) y = wait_qpb s1 y"
    "\<And>ms. pipe (unqueue (Qdq p) r s2) p ms = pipe s1 p ms"
    "\<And>s3. moved p (unqueue (Qdq p) r s2) s3 \<Longrightarrow> \<exists>s'. azombie r 1 s3 = Some s'
       \<and> waiters s' p (r # e # zs) ((on_lists p (r # rs) ws)(Qdq p := rs))
       \<and> (\<forall>ms. pipe s' p ms = pipe s3 p ms) \<and> amem s' = amem s3 \<and> served s' [r, e]"
    by (rule finish_serving [OF w1 e L]) blast
  let ?u = "unqueue (Qdq p) r s2"
  have "r \<noteq> e" "r \<notin> set zs" "qpb_cnt (wait_qpb s r) = 16" using ok(2) d(3) [of r] by (auto simp: fresh_ev_def)
  moreover have "wait_qpb s1 r = wait_qpb s r" using moved_qpb [OF s1(3)] .
  ultimately have wq: "wait_qpb ?u r = wait_qpb s r" "qpb_cnt (wait_qpb ?u r) = 16" using s2(4) by auto
  have pu: "pipe ?u p [nm]" using s2(5) s1(2) by simp
  obtain s3 where s3: "doq False p (wait_qpb ?u r) ?u = Some s3" "pipe s3 p []" "moved p ?u s3"
    "msg_at (amem s3) (qpb_buf (wait_qpb ?u r)) = nm"
    by (rule doq_get [OF pu wq(2)]) blast
  obtain s' where s': "azombie r 1 s3 = Some s'" "waiters s' p (r # e # zs) (on_lists p rs ws)"
    "\<forall>ms. pipe s' p ms = pipe s3 p ms" "amem s' = amem s3" "served s' [r, e]"
    using s2(6) [OF s3(3)] unfolding on_lists_upd by blast
  have "pipe_ok s' p (r # e # zs) rs ws []" using s'(2,3) s3(2) ms by (simp add: pipe_ok_def)
  moreover have "qpb_cnt ?m \<le> s16 (QUEUE_SIZE - p_qindex (pds s p))"
    using m d(1) ms by (simp add: pipe_def QUEUE_SIZE_def s16_id)
  then have "aqueue True e lm s = Some s'"
    using aqueue_ready [of s lm ?m p True e] m s1(1) s2(1-3) s3(1) s'(1) by (simp add: Let_def)
  ultimately show ?thesis using s'(4,5) s3(4) wq(1) by auto
qed

lemma read_alone:
  assumes ok: "pipe_ok s p zs rs [] (nm # ms)" "fresh_ev e zs rs []" "msg_qpb s lm p"
  shows "\<exists>s'. aqueue False e lm s = Some s' \<and> pipe_ok s' p (e # zs) [] [] ms \<and> served s' [e]
    \<and> msg_at (amem s') (qpb_buf (qpbs s lm)) = nm"
proof -
  let ?m = "qpbs s lm"
  note d = pipe_okD [OF ok(1)]
  from ok(1) have rs: "rs = []" by (auto simp: pipe_ok_def)
  from ok(3) have m: "qpb_ppd ?m = p" "qpb_cnt ?m = 16" by (auto simp: msg_qpb_def)
  obtain s1 where s1: "doq False p ?m s = Some s1" "pipe s1 p ms" "moved p s s1" "msg_at (amem s1) (qpb_buf ?m) = nm"
    by (rule doq_get [OF d(1) m(2)]) blast
  have w1: "waiters s1 p zs (on_lists p rs [])" using d(2) waiters_moved [OF s1(3)] by simp
  have e: "e \<noteq> 0" "e \<notin> set zs" "e \<notin> set (on_lists p rs [] (Qdq p))" "e \<notin> set (on_lists p rs [] (Qnq p))"
    using ok(2) by (auto simp: fresh_ev_def)
  obtain s' where s': "azombie e 1 s1 = Some s'" "roots s' (Qnq p) = 0" "waiters s' p (e # zs) (on_lists p rs [])"
    "\<And>ms. pipe s' p ms = pipe s1 p ms" "amem s' = amem s1" "served s' [e]"
    by (rule finish_alone [OF w1 e, of "Qnq p"]) auto
  have "pipe_ok s' p (e # zs) [] [] ms" using s'(3,4) s1(2) rs by (simp add: pipe_ok_def)
  moreover have "p_qindex (pds s p) > 0" using d(1) by (simp add: pipe_def)
  then have "aqueue False e lm s = Some s'" using aqueue_ready [of s lm ?m p False e] m s1(1) s'(1,2) by simp
  ultimately show ?thesis using s'(5,6) s1(4) by auto
qed

lemma read_serve:
  assumes ok: "pipe_ok s p zs rs (w # ws) (nm # ms)" "fresh_ev e zs rs (w # ws)" "msg_qpb s lm p"
    and apart: "\<forall>x \<in> set (w # ws). qpb_buf (wait_qpb s x) + 16 \<le> qpb_buf (qpbs s lm) \<or> qpb_buf (qpbs s lm) + 16 \<le> qpb_buf (wait_qpb s x)"
  shows "\<exists>s'. aqueue False e lm s = Some s' \<and> served s' [w, e] \<and> msg_at (amem s') (qpb_buf (qpbs s lm)) = nm
    \<and> pipe_ok s' p (w # e # zs) [] ws (enq (msg_at (amem s) (qpb_buf (wait_qpb s w))) ms)"
proof -
  let ?m = "qpbs s lm" and ?nw = "msg_at (amem s) (qpb_buf (wait_qpb s w))"
  note d = pipe_okD [OF ok(1)]
  from ok(1) have rs: "rs = []" by (auto simp: pipe_ok_def)
  from ok(3) have m: "qpb_ppd ?m = p" "qpb_cnt ?m = 16" by (auto simp: msg_qpb_def)
  obtain s1 where s1: "doq False p ?m s = Some s1" "pipe s1 p ms" "moved p s s1" "msg_at (amem s1) (qpb_buf ?m) = nm"
    "\<And>a. a < qpb_buf ?m \<or> qpb_buf ?m + 16 \<le> a \<Longrightarrow> amem s1 a = amem s a"
    by (rule doq_get [OF d(1) m(2)]) blast
  have keep: "msg_at (amem s1) (qpb_buf (wait_qpb s x)) = msg_at (amem s) (qpb_buf (wait_qpb s x))" if "x \<in> set (w # ws)" for x
    by (rule msg_at_cong) (use s1(5) apart that in fastforce)
  have w1: "waiters s1 p zs (on_lists p rs (w # ws))" using d(2) waiters_moved [OF s1(3)] by simp
  have e: "e \<noteq> 0" "e \<notin> set zs" "e \<notin> set (on_lists p rs (w # ws) (Qdq p))" "e \<notin> set (on_lists p rs (w # ws) (Qnq p))"
    using ok(2) by (auto simp: fresh_ev_def)
  have L: "Qnq p \<in> {Qdq p, Qnq p}" "on_lists p rs (w # ws) (Qnq p) = w # ws" by auto
  obtain s2 where s2: "azombie e 1 s1 = Some s2" "roots s2 (Qnq p) = w" "w \<noteq> 0"
    "\<And>y. y \<noteq> e \<Longrightarrow> y \<notin> set zs \<Longrightarrow> wait_qpb (unqueue (Qnq p) w s2) y = wait_qpb s1 y"
    "\<And>ms. pipe (unqueue (Qnq p) w s2) p ms = pipe s1 p ms" "amem (unqueue (Qnq p) w s2) = amem s1"
    "\<And>s3. moved p (unqueue (Qnq p) w s2) s3 \<Longrightarrow> \<exists>s'. azombie w 1 s3 = Some s'
       \<and> waiters s' p (w # e # zs) ((on_lists p rs (w # ws))(Qnq p := ws))
       \<and> (\<forall>ms. pipe s' p ms = pipe s3 p ms) \<and> amem s' = amem s3 \<and> served s' [w, e]
       \<and> (\<forall>y. y \<notin> set (w # e # zs) \<longrightarrow> wait_qpb s' y = wait_qpb s1 y)"
    by (rule finish_serving [OF w1 e L]) blast
  let ?u = "unqueue (Qnq p) w s2"
  have "w \<noteq> e" "w \<notin> set zs" "qpb_cnt (wait_qpb s w) = 16" using ok(2) d(3) [of w] by (auto simp: fresh_ev_def)
  then have wq: "wait_qpb ?u w = wait_qpb s w" "qpb_cnt (wait_qpb ?u w) = 16" using s2(4) moved_qpb [OF s1(3)] by auto
  have nw: "?nw = msg_at (amem ?u) (qpb_buf (wait_qpb ?u w))" using keep [of w] s2(6) wq(1) by simp
  have pu: "pipe ?u p ms" using s2(5) s1(2) by simp
  have pn: "length ms < 8" "plain ?nw" using d(1) ok(1) by (auto simp: pipe_def pipe_ok_def)
  obtain s3 where s3: "doq True p (wait_qpb ?u w) ?u = Some s3" "pipe s3 p (enq ?nw ms)" "moved p ?u s3" "amem s3 = amem ?u"
    by (rule doq_put [OF pu pn(1) wq(2) nw pn(2)])
  obtain s' where s': "azombie w 1 s3 = Some s'" "waiters s' p (w # e # zs) (on_lists p rs ws)"
    "\<forall>ms. pipe s' p ms = pipe s3 p ms" "amem s' = amem s3" "served s' [w, e]"
    "\<forall>y. y \<notin> set (w # e # zs) \<longrightarrow> wait_qpb s' y = wait_qpb s1 y"
    using s2(7) [OF s3(3)] unfolding on_lists_upd by blast
  have "plain (msg_at (amem s') (qpb_buf (wait_qpb s' x)))" if "x \<in> set ws" for x
  proof -
    have "x \<notin> set (w # e # zs)"
      using that ok(2) d(3) [of x] w1 by (auto simp: fresh_ev_def waiters_def evlist_def)
    then have "wait_qpb s' x = wait_qpb s x" using s'(6) moved_qpb [OF s1(3)] by simp
    then have "msg_at (amem s') (qpb_buf (wait_qpb s' x)) = msg_at (amem s) (qpb_buf (wait_qpb s x))"
      using keep [of x] that s'(4) s3(4) s2(6) by simp
    then show ?thesis using ok(1) that by (simp add: pipe_ok_def)
  qed
  then have "pipe_ok s' p (w # e # zs) [] ws (enq ?nw ms)"
    using s'(2,3) s3(2) rs enq_nonempty by (simp add: pipe_ok_def)
  moreover have "p_qindex (pds s p) > 0" using d(1) by (simp add: pipe_def)
  then have "aqueue False e lm s = Some s'"
    using aqueue_ready [of s lm ?m p False e] m s1(1) s2(1-3) s3(1) s'(1) by (simp add: Let_def)
  moreover have "amem s' = amem s1" using s'(4) s3(4) s2(6) by simp
  ultimately show ?thesis using s'(5) s1(4) by auto
qed

lemma aqueue_wait:
  assumes ok: "pipe_ok s p zs rs ws ms" "fresh_ev e zs rs ws" "msg_qpb s lm p"
    and full: "if isqwrite then length ms = 8 \<and> plain (msg_at (amem s) (qpb_buf (qpbs s lm))) else ms = []"
  shows "\<exists>s'. aqueue isqwrite e lm s = Some s' \<and> wait_qpb s' e = qpbs s lm
    \<and> pipe_ok s' p zs (if isqwrite then rs else e # rs) (if isqwrite then e # ws else ws) ms"
proof -
  let ?m = "qpbs s lm" and ?r = "if isqwrite then Qnq p else Qdq p"
  let ?s = "evinsert e ?r (set_evb e (\<lambda>b. b\<lparr>e_parm := int lm\<rparr>) s)"
  note d = pipe_okD [OF ok(1)]
  from ok(3) have m: "qpb_ppd ?m = p" "qpb_cnt ?m = 16" by (auto simp: msg_qpb_def)
  have r: "?r \<in> {Qdq p, Qnq p}" by simp
  have e: "e \<noteq> 0" "e \<notin> set zs" "e \<notin> set (on_lists p rs ws (Qdq p))" "e \<notin> set (on_lists p rs ws (Qnq p))"
    using ok(2) by (auto simp: fresh_ev_def)
  note w = wait_on [OF d(2) r e m refl]
  have "aqueue isqwrite e lm s = Some ?s"
    using m d(1) full by (auto simp: aqueue_def Let_def pipe_def QUEUE_SIZE_def s16_id split: if_splits)
  moreover have "waiters ?s p zs (on_lists p (if isqwrite then rs else e # rs) (if isqwrite then e # ws else ws))"
    using w(1) by (cases isqwrite) (simp_all only: on_lists_upd if_True if_False fun_upd_same fun_upd_other root.distinct root.inject not_False_eq_True)
  moreover have "wait_qpb ?s x = wait_qpb s x" if "x \<in> set ws" for x
    by (rule w(5)) (use that ok(2) in \<open>auto simp: fresh_ev_def\<close>)
  ultimately show ?thesis
    using w(2-4) ok(1) full by (intro exI [of _ ?s]) (auto simp: pipe_ok_def)
qed

section \<open>Properties\<close>

text \<open>Process 1 reads with event 3 into address 100, through parameter block 2.\<close>

definition reader_waits :: aes where
  "reader_waits = idle_aes\<lparr>roots := (\<lambda>_. 0)(Qdq 1 := 3), qpbs := (\<lambda>_. \<lparr>qpb_ppd = 1, qpb_cnt = 16, qpb_buf = 0\<rparr>)(2 := \<lparr>qpb_ppd = 1, qpb_cnt = 16, qpb_buf = 100\<rparr>),
     evbs := (\<lambda>_. idle_evb)(3 := idle_evb\<lparr>e_pred := FAKE_EVB (Qdq 1), e_parm := 2\<rparr>), amem := (\<lambda>_. 0)(1 := 40)\<rparr>"

lemma reader_waits_ok:
  "pipe reader_waits 1 []" "pipe_ok reader_waits 1 [] [3] [] []" "msg_qpb reader_waits 0 1" "fresh_ev 4 [] [3] []"
  "msg_at (amem reader_waits) (qpb_buf (qpbs reader_waits 0)) = [40, 0, 0, 0, 0, 0, 0, 0]"
proof -
  show p: "pipe reader_waits 1 []" by (simp add: pipe_def holds_msgs_def reader_waits_def idle_aes_def idle_pd_def)
  have "nr_list reader_waits []" by (simp add: nr_list_def reader_waits_def idle_aes_def)
  then have "events_ok reader_waits []" by (auto simp: events_ok_def evlist_def reader_waits_def)
  then show "pipe_ok reader_waits 1 [] [3] [] []"
    using p by (simp add: pipe_ok_def waiters_def evlist_def wait_qpb_def) (simp add: reader_waits_def idle_evb_def)
  show "msg_qpb reader_waits 0 1" by (simp add: msg_qpb_def reader_waits_def)
  show "fresh_ev 4 [] [3] []" by (simp add: fresh_ev_def)
  show "msg_at (amem reader_waits) (qpb_buf (qpbs reader_waits 0)) = [40, 0, 0, 0, 0, 0, 0, 0]"
    by (simp add: reader_waits_def msg_at_list word_at_def)
qed





end
