(* ===== verification/AesWait.thy ===== *)
theory AesWait
  imports AesSync AesDisp AesPipe
begin

text \<open>
  Waiting for events: \<open>iasync\<close> of aes/gemasync.c, \<open>ap_rdwr\<close> of aes/gemaplib.c and the event
  library aes/gemevlib.c. An event block is taken from the free list, put on the list of its
  process and on the list of what it waits for; when one of the events a process waits for has
  come, the others are cancelled and all blocks go back. The lemmas show that no block is lost.
  \<open>dsptch\<close>, which runs other processes until the caller is ready, is a parameter.
\<close>

section \<open>Asynchronous events\<close>

definition MU_KEYBD :: "16 word" where "MU_KEYBD = 0x0001"
definition MU_BUTTON :: "16 word" where "MU_BUTTON = 0x0002"
definition MU_M1 :: "16 word" where "MU_M1 = 0x0004"
definition MU_M2 :: "16 word" where "MU_M2 = 0x0008"
definition MU_MESAG :: "16 word" where "MU_MESAG = 0x0010"
definition MU_TIMER :: "16 word" where "MU_TIMER = 0x0020"
definition MU_SDMSG :: "16 word" where "MU_SDMSG = 0x0040"
definition MU_MUTEX :: "16 word" where "MU_MUTEX = 0x0080"
definition MU_M3 :: "16 word" where "MU_M3 = 0x0100"

text \<open>\<open>bzero(e, sizeof(EVB))\<close>; block 0 is the null pointer.\<close>

definition zero_evb :: evb where
  "zero_evb = \<lparr>e_nextp = 0, e_link = 0, e_pred = Block 0, e_pd = 0, e_parm = 0, e_flag = 0, e_mask = 0, e_return = 0\<rparr>"

text \<open>The block that \<open>iasync\<close> takes, on the list of the running process.\<close>

definition new_event :: "nat \<Rightarrow> 16 word \<Rightarrow> aes \<Rightarrow> aes" where
  "new_event e afunc s =
     (let s = s\<lparr>eul := e_nextp (evbs s e)\<rparr>;
          s = set_evb e (\<lambda>_. zero_evb) s;
          s = set_evb e (\<lambda>b. b\<lparr>e_nextp := p_evlist (pds s (rlr s))\<rparr>) s;
          s = set_pd (rlr s) (\<lambda>d. d\<lparr>p_evlist := e\<rparr>) s;
          s = set_evb e (\<lambda>b. b\<lparr>e_pd := rlr s\<rparr>) s
      in set_evb e (\<lambda>b. b\<lparr>e_mask := afunc\<rparr>) s)"

definition start_event :: "16 word \<Rightarrow> nat \<Rightarrow> int \<Rightarrow> aes \<Rightarrow> aes option" where
  "start_event afunc e aparm s =
     (if afunc = MU_KEYBD then akbin e s
      else if afunc = MU_BUTTON then abutton e aparm s
      else if afunc = MU_M1 \<or> afunc = MU_M2 \<or> afunc = MU_M3 then amouse e (moblks s (nat aparm)) s
      else if afunc = MU_MESAG then aqueue False e (nat aparm) s
      else if afunc = MU_TIMER then adelay e aparm s
      else if afunc = MU_SDMSG then aqueue True e (nat aparm) s
      else if afunc = MU_MUTEX then amutex e (nat aparm) s
      else Some s)"

text \<open>\<open>None\<close>: there is no free block, and the system stops.\<close>

definition iasync :: "16 word \<Rightarrow> int \<Rightarrow> aes \<Rightarrow> (16 word \<times> aes) option" where
  "iasync afunc aparm s =
     (let e = eul s in
      if e = 0 then None
      else Option.bind (start_event afunc e aparm (new_event e afunc s)) (\<lambda>s. Some (e_mask (evbs s e), s)))"

section \<open>The event library\<close>

definition ev_block :: "(aes \<Rightarrow> aes option) \<Rightarrow> 16 word \<Rightarrow> int \<Rightarrow> aes \<Rightarrow> (16 word \<times> aes) option" where
  "ev_block dsptch code lvalue s =
     Option.bind (iasync code lvalue s) (\<lambda>(m, s).
     Option.bind (mwait dsptch m s) (\<lambda>(_, s). apret code s))"

text \<open>The four words \<open>ev_rets\<close> returns.\<close>

definition ev_rets :: "aes \<Rightarrow> (16 word) list \<times> aes" where
  "ev_rets s =
     (let r = (if mtrans s > 1 then [pr_xrat s, pr_yrat s, pr_button s] else [xrat s, yrat s, button s]) @ [kstate s]
      in (r, s\<lparr>mtrans := 0\<rparr>))"

text \<open>\<open>lm\<close> is the address of the parameter block, which is on the caller's stack.\<close>

definition ap_rdwr :: "(aes \<Rightarrow> aes option) \<Rightarrow> nat \<Rightarrow> 16 word \<Rightarrow> nat \<Rightarrow> int \<Rightarrow> nat \<Rightarrow> aes \<Rightarrow> (16 word \<times> aes) option" where
  "ap_rdwr dsptch lm code p len pbuff s =
     (let i = p_qindex (pds s p) in
      if code = MU_MESAG \<and> i = len \<and> len = 16 then
        let s = s\<lparr>amem := copy_bytes (amem s) pbuff (p_queue (pds s p)) 0 (nat i)\<rparr>
        in Some (1, set_pd p (\<lambda>d. d\<lparr>p_qindex := 0\<rparr>) s)
      else ev_block dsptch code (int lm)
        (s\<lparr>qpbs := (qpbs s)(lm := \<lparr>qpb_ppd = p, qpb_cnt = len, qpb_buf = pbuff\<rparr>)\<rparr>))"

definition combine_cms :: "16 word \<Rightarrow> 16 word \<Rightarrow> 16 word \<Rightarrow> int" where
  "combine_cms clicks bmask state =
     s32 (uint clicks * 2 ^ 16 + uint (bmask AND 0xff) * 2 ^ 8 + uint (state AND 0xff))"

definition ev_button :: "(aes \<Rightarrow> aes option) \<Rightarrow> 16 word \<Rightarrow> 16 word \<Rightarrow> 16 word \<Rightarrow> aes \<Rightarrow> (16 word \<times> (16 word) list \<times> aes) option" where
  "ev_button dsptch bflgclks bmask bstate s =
     Option.bind (ev_block dsptch MU_BUTTON (combine_cms bflgclks bmask bstate) s)
       (\<lambda>(ret, s). case ev_rets s of (rets, s) \<Rightarrow> Some (ret, rets, s))"

definition ev_mouse :: "(aes \<Rightarrow> aes option) \<Rightarrow> int \<Rightarrow> aes \<Rightarrow> ((16 word) list \<times> aes) option" where
  "ev_mouse dsptch pmo s =
     Option.bind (ev_block dsptch MU_M1 pmo s)
       (\<lambda>(_, s). case ev_rets s of (rets, s) \<Rightarrow> Some (rets[2 := button s], s))"

definition ev_timer :: "(aes \<Rightarrow> aes option) \<Rightarrow> int \<Rightarrow> int \<Rightarrow> aes \<Rightarrow> (16 word \<times> aes) option" where
  "ev_timer dsptch gl_ticktime count s = ev_block dsptch MU_TIMER (s32 (count mod 2 ^ 32 div gl_ticktime)) s"

text \<open>\<open>WM_ARROWED\<close> is made up while an arrow gadget is held; a message is eight words.\<close>

definition ev_mesag :: "(aes \<Rightarrow> aes option) \<Rightarrow> nat \<Rightarrow> nat \<Rightarrow> aes \<Rightarrow> aes option" where
  "ev_mesag dsptch lm mebuff s =
     (let d = pds s (rlr s) in
      if p_qindex d = 0 \<and> p_action d \<ge> 0 then
        let ws = [WM_ARROWED, p_pid d, 0, word_of_int (p_wh d), word_of_int (p_action d), 0, 0, 0];
            a = foldl (\<lambda>m k. put_word (mebuff + 2 * k) (ws ! k) m) (amem s) [0..<8]
        in Some (set_pd (rlr s) (\<lambda>d. d\<lparr>p_action := - 1\<rparr>) (s\<lparr>amem := a\<rparr>))
      else map_option snd (ap_rdwr dsptch lm MU_MESAG (rlr s) 16 mebuff s))"

section \<open>Waiting for several events\<close>

text \<open>The checks \<open>ev_multi\<close> makes before it waits: what has happened, and the values it returns.\<close>

definition ev_quick :: "(aes \<Rightarrow> aes option) \<Rightarrow> nat \<Rightarrow> 16 word \<Rightarrow> nat \<Rightarrow> nat \<Rightarrow> nat \<Rightarrow> int \<Rightarrow> int \<Rightarrow> nat
    \<Rightarrow> (nat \<Rightarrow> 16 word) \<Rightarrow> aes \<Rightarrow> (16 word \<times> (nat \<Rightarrow> 16 word) \<times> aes) option" where
  "ev_quick dsptch lm flags pmo1 pmo2 pmo3 tmcount buparm mebuff prets s =
     (let c = p_cda (pds s (rlr s));
          (what, prets, s) = (if flags AND MU_KEYBD \<noteq> 0 \<and> c_cnt (cqs s c) \<noteq> 0
            then (MU_KEYBD, prets(4 := fst (dq (cqs s c))), set_cq c (\<lambda>q. snd (dq q)) s) else (0, prets, s));
          (what, prets) = (if rlr s = gl_mowner s \<and> flags AND MU_BUTTON \<noteq> 0 then
            if mtrans s > 1 \<and> downorup (pr_button s) buparm then (what OR MU_BUTTON, prets(5 := pr_mclick s))
            else if downorup (button s) buparm then (what OR MU_BUTTON, prets(5 := mclick s)) else (what, prets)
            else (what, prets));
          rect = (\<lambda>m pmo. if rlr s = gl_mowner s \<and> flags AND m \<noteq> 0 \<and> in_mrect (moblks s pmo) s then m else 0);
          what = what OR rect MU_M1 pmo1 OR rect MU_M2 pmo2 OR rect MU_M3 pmo3;
          what = (if flags AND MU_TIMER \<noteq> 0 \<and> tmcount = 0 then what OR MU_TIMER else what)
      in if flags AND MU_MESAG \<noteq> 0 \<and> (p_qindex (pds s (rlr s)) > 0 \<or> p_action (pds s (rlr s)) \<ge> 0)
         then Option.bind (ev_mesag dsptch lm mebuff s) (\<lambda>s. Some (what OR MU_MESAG, prets, s))
         else Some (what, prets, s))"

text \<open>The calls of \<open>iasync\<close> for the events asked for, and of \<open>apret\<close> for those that have come.\<close>

fun asyncs :: "16 word \<Rightarrow> (16 word \<times> int) list \<Rightarrow> aes \<Rightarrow> aes option" where
  "asyncs flags [] s = Some s"
| "asyncs flags ((m, parm) # ms) s =
     Option.bind (if flags AND m \<noteq> 0 then map_option snd (iasync m parm s) else Some s) (asyncs flags ms)"

fun aprets :: "16 word \<Rightarrow> (16 word) list \<Rightarrow> aes \<Rightarrow> ((16 word \<times> 16 word) list \<times> aes) option" where
  "aprets which [] s = Some ([], s)"
| "aprets which (m # ms) s =
     (if which AND m \<noteq> 0
      then Option.bind (apret m s) (\<lambda>(r, s). Option.bind (aprets which ms s) (\<lambda>(rs, s). Some ((m, r) # rs, s)))
      else aprets which ms s)"

definition ev_masks :: "(16 word) list" where
  "ev_masks = [MU_KEYBD, MU_BUTTON, MU_M1, MU_M2, MU_M3, MU_MESAG, MU_TIMER]"

text \<open>Cancelling what is outstanding and collecting the rest, with the four words of \<open>ev_rets\<close> between.\<close>

definition ev_collect :: "16 word \<Rightarrow> 16 word \<Rightarrow> (nat \<Rightarrow> 16 word) \<Rightarrow> aes \<Rightarrow> (16 word \<times> (nat \<Rightarrow> 16 word) \<times> aes) option" where
  "ev_collect flags which prets s =
     Option.bind (acancel flags s) (\<lambda>(m1, s).
     case ev_rets s of (rets, s) \<Rightarrow>
     let which = which OR m1; prets = (\<lambda>i. if i < 4 then rets ! i else prets i)
     in Option.bind (aprets which ev_masks s) (\<lambda>(rs, s).
        Some (which, (\<lambda>i. if i = 4 \<and> map_of rs MU_KEYBD \<noteq> None then the (map_of rs MU_KEYBD)
          else if i = 5 \<and> map_of rs MU_BUTTON \<noteq> None then the (map_of rs MU_BUTTON) else prets i), s)))"

definition ev_multi :: "(aes \<Rightarrow> aes option) \<Rightarrow> (int \<Rightarrow> int \<Rightarrow> int) \<Rightarrow> 16 word \<times> 16 word \<Rightarrow> int \<Rightarrow> nat \<Rightarrow> 16 word \<Rightarrow> nat \<Rightarrow> nat \<Rightarrow> nat
    \<Rightarrow> int \<Rightarrow> int \<Rightarrow> nat \<Rightarrow> (nat \<Rightarrow> 16 word) \<Rightarrow> aes \<Rightarrow> (16 word \<times> (nat \<Rightarrow> 16 word) \<times> aes) option" where
  "ev_multi dsptch wm_find kbd gl_ticktime lm flags pmo1 pmo2 pmo3 tmcount buparm mebuff prets s =
     Option.bind (forker (run_fork wm_find) (chkkbd (fst kbd) (snd kbd) s)) (\<lambda>s.
     Option.bind (ev_quick dsptch lm flags pmo1 pmo2 pmo3 tmcount buparm mebuff prets s) (\<lambda>(what, prets, s).
     if what \<noteq> 0 then
       case ev_rets s of (rets, s) \<Rightarrow> Some (what, (\<lambda>i. if i < 4 then rets ! i else prets i), s)
     else
     let s = (if flags AND MU_MESAG \<noteq> 0
           then s\<lparr>qpbs := (qpbs s)(lm := \<lparr>qpb_ppd = rlr s, qpb_cnt = 16, qpb_buf = mebuff\<rparr>)\<rparr> else s)
     in Option.bind (asyncs flags [(MU_KEYBD, 0), (MU_BUTTON, buparm), (MU_M1, int pmo1), (MU_M2, int pmo2), (MU_M3, int pmo3),
            (MU_MESAG, int lm), (MU_TIMER, s32 (tmcount mod 2 ^ 32 div gl_ticktime))] s) (\<lambda>s.
        Option.bind (mwait dsptch flags s) (\<lambda>(which, s). ev_collect flags which prets s))))"

definition gl_dcrates :: "int list" where "gl_dcrates = [450, 330, 275, 220, 165]"

text \<open>The double click rate, with its index; \<open>None\<close>: the index is outside the table.\<close>

definition ev_dclick :: "int \<Rightarrow> nat \<Rightarrow> int \<Rightarrow> nat \<Rightarrow> aes \<Rightarrow> (nat \<times> aes) option" where
  "ev_dclick gl_ticktime rate setit gl_dcindex s =
     (if setit \<noteq> 0 then
        if rate < 5 then Some (rate, s\<lparr>gl_dclick := gl_dcrates ! rate div gl_ticktime\<rparr>) else None
      else Some (gl_dcindex, s))"

section \<open>Lists of event blocks\<close>

text \<open>The free blocks and the blocks of the running process, both linked by \<open>e_nextp\<close>.\<close>

definition blocks :: "aes \<Rightarrow> nat list \<Rightarrow> nat list \<Rightarrow> bool" where
  "blocks s fs es \<longleftrightarrow> chain (\<lambda>e. e_nextp (evbs s e)) (eul s) fs \<and> chain (\<lambda>e. e_nextp (evbs s e)) (p_evlist (pds s (rlr s))) es
     \<and> distinct (fs @ es)"

text \<open>The lists of what is waited for, by their roots.\<close>

definition lists :: "aes \<Rightarrow> (root \<Rightarrow> nat list) \<Rightarrow> bool" where
  "lists s L \<longleftrightarrow> (\<forall>r. evlist s r (L r)) \<and> (\<forall>r r'. r \<noteq> r' \<longrightarrow> set (L r) \<inter> set (L r') = {})"

definition without :: "nat \<Rightarrow> (root \<Rightarrow> nat list) \<Rightarrow> root \<Rightarrow> nat list" where
  "without e L r = filter (\<lambda>x. x \<noteq> e) (L r)"

lemma unlink_lists:
  assumes "lists s L" "e \<in> set (L r0)"
  shows "lists (unlink_evb e s) (without e L)" "same_data {} (evbs s) (evbs (unlink_evb e s))" "others (unlink_evb e s) = others s"
proof -
  obtain as bs where L: "L r0 = as @ e # bs" using assms(2) by (meson split_list)
  have ev: "evlist s r0 (as @ e # bs)" using assms(1) L unfolding lists_def by metis
  note u = unlink_evlist [OF ev]
  show "same_data {} (evbs s) (evbs (unlink_evb e s))" "others (unlink_evb e s) = others s" by (rule u(2), rule u(5))
  have d: "e \<notin> set as" "e \<notin> set bs" using ev by (auto simp: evlist_def)
  have "evlist (unlink_evb e s) r (without e L r)" for r
  proof (cases "r = r0")
    case True
    have "filter (\<lambda>x. x \<noteq> e) as = as" "filter (\<lambda>x. x \<noteq> e) bs = bs" by (rule filter_True, use d in auto)+
    then have "without e L r = as @ bs" using L True by (simp add: without_def)
    then show ?thesis using u(1) True by simp
  next
    case False
    then have dis: "set (L r) \<inter> set (as @ e # bs) = {}" using assms(1) L unfolding lists_def by metis
    then have "without e L r = L r" unfolding without_def by (intro filter_True) auto
    moreover have "\<forall>x \<in> set (L r). evbs (unlink_evb e s) x = evbs s x" using u(3) dis by auto
    ultimately show ?thesis using evlist_cong [of "L r" "unlink_evb e s" s r] u(4) False assms(1) by (simp add: lists_def)
  qed
  then show "lists (unlink_evb e s) (without e L)"
    using assms(1) unfolding lists_def without_def by (simp add: disjoint_iff)
qed

lemma snip_block:
  assumes b: "blocks s fs (ks @ p # ps)" and s': "rlr s' = rlr s" "eul s' = p"
    and nx: "\<And>x. e_nextp (evbs s' x) = (if x = p then eul s else if x = last0 ks \<and> ks \<noteq> [] then e_nextp (evbs s p) else e_nextp (evbs s x))"
    and hd: "p_evlist (pds s' (rlr s)) = (if ks = [] then e_nextp (evbs s p) else p_evlist (pds s (rlr s)))"
  shows "blocks s' (p # fs) (ks @ ps)"
proof -
  let ?n = "\<lambda>e. e_nextp (evbs s e)" and ?n' = "\<lambda>e. e_nextp (evbs s' e)"
  from b have c: "chain ?n (eul s) fs" "chain ?n (p_evlist (pds s (rlr s))) (ks @ p # ps)" "distinct (fs @ ks @ p # ps)"
    by (auto simp: blocks_def)
  have kz: "ks \<noteq> [] \<Longrightarrow> last0 ks \<noteq> 0 \<and> last0 ks \<in> set ks" using seg_nonzero [OF c(2)] last_in_set [of ks]
    by (cases "last ks = 0") (auto simp: last0_def)
  have "relink (last0 ks) (?n p) (p_evlist (pds s (rlr s)), ?n)
      = (p_evlist (pds s' (rlr s)), \<lambda>x. if x = last0 ks \<and> ks \<noteq> [] then ?n p else ?n x)"
    using kz hd by (cases "ks = []") (auto simp: relink_def fun_eq_iff)
  then have r: "chain (\<lambda>x. if x = last0 ks \<and> ks \<noteq> [] then ?n p else ?n x) (p_evlist (pds s' (rlr s))) (ks @ ps)"
    by (rule relink_snip [OF c(2)])
  have "seg ?n' (p_evlist (pds s' (rlr s))) (ks @ ps) 0 = seg (\<lambda>x. if x = last0 ks \<and> ks \<noteq> [] then ?n p else ?n x) (p_evlist (pds s' (rlr s))) (ks @ ps) 0"
    by (rule seg_cong) (use c(3) nx in auto)
  with r have es: "chain ?n' (p_evlist (pds s' (rlr s))) (ks @ ps)" by blast
  have "seg ?n' (eul s) fs 0 = seg ?n (eul s) fs 0"
    by (rule seg_cong) (use c(3) nx kz in auto)
  then have "chain ?n' p (p # fs)" using c(1) nx seg_nonzero [OF c(2)] by simp
  with es s' c(3) show ?thesis by (auto simp: blocks_def)
qed

lemma put_nextp_sel:
  assumes "ks \<noteq> [] \<longrightarrow> last0 ks \<noteq> 0"
  shows "rlr (put_nextp (last0 ks) v s) = rlr s" "eul (put_nextp (last0 ks) v s) = eul s" "roots (put_nextp (last0 ks) v s) = roots s"
    "e_nextp (evbs (put_nextp (last0 ks) v s) x) = (if x = last0 ks \<and> ks \<noteq> [] then v else e_nextp (evbs s x))"
    "p_evlist (pds (put_nextp (last0 ks) v s) (rlr s)) = (if ks = [] then v else p_evlist (pds s (rlr s)))"
    "e_link (evbs (put_nextp (last0 ks) v s) x) = e_link (evbs s x)" "e_pred (evbs (put_nextp (last0 ks) v s) x) = e_pred (evbs s x)"
    "e_flag (evbs (put_nextp (last0 ks) v s) x) = e_flag (evbs s x)" "e_mask (evbs (put_nextp (last0 ks) v s) x) = e_mask (evbs s x)"
    "e_return (evbs (put_nextp (last0 ks) v s) x) = e_return (evbs s x)" "cqs (put_nextp (last0 ks) v s) = cqs s"
  using assms by (cases "ks = []"; simp add: put_nextp_def set_pd_def set_evb_def)+

lemma lists_cong:
  assumes "lists s L" "\<And>x. e_link (evbs s' x) = e_link (evbs s x) \<and> e_pred (evbs s' x) = e_pred (evbs s x)" "roots s' = roots s"
  shows "lists s' L"
  using assms(1) evlist_links [of _ s' s] assms(2,3) by (simp add: lists_def)

definition open_ev :: "aes \<Rightarrow> 16 word \<Rightarrow> nat \<Rightarrow> bool" where
  "open_ev s m e \<longleftrightarrow> e_mask (evbs s e) AND m \<noteq> 0 \<and> e_flag (evbs s e) AND (NOCANCEL OR COMPLETE) = 0"

text \<open>The masks and flags of events, their returns, the running process and the keys stay.\<close>

definition same_events :: "aes \<Rightarrow> aes \<Rightarrow> bool" where
  "same_events s s' \<longleftrightarrow> rlr s' = rlr s \<and> cqs s' = cqs s \<and> (\<forall>x. e_mask (evbs s' x) = e_mask (evbs s x) \<and> e_flag (evbs s' x) = e_flag (evbs s x)
     \<and> e_return (evbs s' x) = e_return (evbs s x))"

lemma takeoff_frame:
  assumes "lists s L" "e \<in> set (L r0)"
  shows "lists (takeoff e s) (without e L)" "same_events s (takeoff e s)" "pds (takeoff e s) = pds s" "eul (takeoff e s) = e"
    "e_nextp (evbs (takeoff e s) x) = (if x = e then eul s else e_nextp (evbs s x))"
proof -
  note u = unlink_lists [OF assms]
  let ?s1 = "unlink_evb e s" and ?nx = "e_link (evbs (unlink_evb e s) e)"
  define s2 where "s2 = (if ?nx \<noteq> 0 \<and> e_flag (evbs ?s1 e) AND EVDELAY \<noteq> 0
    then set_evb ?nx (\<lambda>b. b\<lparr>e_parm := s32 (e_parm b + e_parm (evbs ?s1 e))\<rparr>) ?s1 else ?s1)"
  have t: "takeoff e s = (set_evb e (\<lambda>b. b\<lparr>e_nextp := eul s2\<rparr>) s2)\<lparr>eul := e\<rparr>"
    by (simp add: takeoff_def s2_def Let_def set_evb_def)
  have o: "others s2 = others s" using u(3) by (simp add: s2_def)
  have sel: "eul s2 = eul s" "rlr s2 = rlr s" "pds s2 = pds s" "cqs s2 = cqs s"
    using still_sel(1,3,6) [OF others_still [OF o]] others_pds [OF o] by auto
  have d: "same_data {} (evbs s) (evbs ?s1)" by (rule u(2))
  have m: "e_mask (evbs s2 x) = e_mask (evbs s x) \<and> e_flag (evbs s2 x) = e_flag (evbs s x) \<and> e_return (evbs s2 x) = e_return (evbs s x)
      \<and> e_nextp (evbs s2 x) = e_nextp (evbs s x)" for x
    using d by (auto simp: s2_def same_data_def set_evb_def)
  show "same_events s (takeoff e s)" using m sel by (simp add: same_events_def t set_evb_def)
  show "pds (takeoff e s) = pds s" "eul (takeoff e s) = e" using sel by (simp_all add: t set_evb_def)
  show "e_nextp (evbs (takeoff e s) x) = (if x = e then eul s else e_nextp (evbs s x))" using m sel by (simp add: t set_evb_def)
  show "lists (takeoff e s) (without e L)"
    by (rule lists_cong [OF u(1)]) (auto simp: t s2_def set_evb_def)
qed

section \<open>Cancelling and collecting\<close>

definition or_masks :: "aes \<Rightarrow> nat list \<Rightarrow> 16 word \<Rightarrow> 16 word" where
  "or_masks s es a = foldl (\<lambda>a e. a OR e_mask (evbs s e)) a es"

lemma or_masks_keep: "a AND k = k \<Longrightarrow> or_masks s es a AND k = k"
  unfolding or_masks_def by (induction es arbitrary: a) (auto simp: or_keeps(1))

lemma or_masks_mem: "e \<in> set es \<Longrightarrow> or_masks s es a AND e_mask (evbs s e) = e_mask (evbs s e)"
proof (induction es arbitrary: a)
  case (Cons x es)
  show ?case
  proof (cases "e = x")
    case True
    have "or_masks s (x # es) a = or_masks s es (a OR e_mask (evbs s x))" by (simp add: or_masks_def)
    then show ?thesis using or_masks_keep [OF or_keeps(2)] True by metis
  next
    case False
    with Cons show ?thesis by (simp add: or_masks_def)
  qed
qed simp

definition without_all :: "nat list \<Rightarrow> (root \<Rightarrow> nat list) \<Rightarrow> root \<Rightarrow> nat list" where
  "without_all es L r = filter (\<lambda>x. x \<notin> set es) (L r)"

definition kept_ev :: "aes \<Rightarrow> 16 word \<Rightarrow> nat \<Rightarrow> bool" where
  "kept_ev s m e \<longleftrightarrow> e_mask (evbs s e) AND m \<noteq> 0 \<and> \<not> open_ev s m e"

lemma same_eventsD:
  assumes "same_events s s'"
  shows "open_ev s' m e = open_ev s m e" "kept_ev s' m e = kept_ev s m e" "or_masks s' es a = or_masks s es a" "rlr s' = rlr s"
  using assms by (simp_all add: same_events_def open_ev_def kept_ev_def or_masks_def)

lemma take_block:
  assumes b: "blocks s fs (ks @ p # ps)" and l: "lists s L" and r: "p \<in> set (L r)"
    and s': "s' = set_pd (rlr s) (\<lambda>d. d\<lparr>p_evwait := w\<rparr>) (takeoff p (put_nextp (last0 ks) (e_nextp (evbs s p)) s))"
  shows "blocks s' (p # fs) (ks @ ps)" "lists s' (without p L)" "same_events s s'"
proof -
  let ?s1 = "put_nextp (last0 ks) (e_nextp (evbs s p)) s"
  have "ks \<noteq> [] \<longrightarrow> last0 ks \<noteq> 0"
    using b last_in_set [of ks] seg_nonzero [of "\<lambda>e. e_nextp (evbs s e)" "p_evlist (pds s (rlr s))" "ks @ p # ps" 0]
    by (cases "last ks = 0") (auto simp: blocks_def last0_def)
  note q = put_nextp_sel [OF this, of "e_nextp (evbs s p)" s]
  have "lists ?s1 L" by (rule lists_cong [OF l]) (simp_all add: q)
  note t = takeoff_frame [OF this r]
  have e: "evbs s' = evbs (takeoff p ?s1)" "eul s' = p" "rlr s' = rlr s" "p_evlist (pds s' (rlr s)) = p_evlist (pds ?s1 (rlr s))"
    using t(2,3,4) q(1) by (simp_all add: s' set_pd_def same_events_def)
  show "blocks s' (p # fs) (ks @ ps)"
    by (rule snip_block [OF b e(3,2)]) (simp_all add: e t(5) q)
  show "lists s' (without p L)" using t(1) by (simp add: s' lists_def evlist_def set_pd_def)
  show "same_events s s'" using t(2) q by (simp add: same_events_def e s' set_pd_def)
qed

lemma acancel_loop_ok:
  assumes "blocks s fs (ks @ ps)" "lists s L" "\<forall>e \<in> set ps. open_ev s m e \<longrightarrow> (\<exists>r. e \<in> set (L r))"
  shows "\<exists>s'. acancel_loop m (last0 ks) (hd0 ps) m1 s = Some (or_masks s (filter (kept_ev s m) ps) m1, s')
    \<and> blocks s' (rev (filter (open_ev s m) ps) @ fs) (ks @ filter (\<lambda>e. \<not> open_ev s m e) ps)
    \<and> lists s' (without_all (filter (open_ev s m) ps) L) \<and> same_events s s'"
  using assms
proof (induction ps arbitrary: s fs ks L m1)
  case Nil
  then show ?case by (simp add: acancel_loop.simps or_masks_def without_all_def same_events_def)
next
  case (Cons p ps)
  have c: "chain (\<lambda>e. e_nextp (evbs s e)) (p_evlist (pds s (rlr s))) (ks @ p # ps)" "distinct (ks @ p # ps)"
    using Cons.prems(1) by (auto simp: blocks_def)
  have p: "p \<noteq> 0" "e_nextp (evbs s p) = hd0 ps" "p \<notin> set ps"
    using chain_next [OF c(1)] seg_nonzero [OF c(1)] c(2) by auto
  show ?case
  proof (cases "open_ev s m p")
    case False
    have "acancel_loop m (last0 ks) p m1 s
        = acancel_loop m p (hd0 ps) (if kept_ev s m p then m1 OR e_mask (evbs s p) else m1) s"
      using False p by (subst acancel_loop.simps) (auto simp: open_ev_def kept_ev_def)
    with Cons.IH [of s fs "ks @ [p]" L] Cons.prems False show ?thesis by (auto simp: or_masks_def)
  next
    case True
    then obtain r where r: "p \<in> set (L r)" using Cons.prems(3) by auto
    define s3 where "s3 = (let s2 = takeoff p (put_nextp (last0 ks) (hd0 ps) s)
      in set_pd (rlr s2) (\<lambda>d. d\<lparr>p_evwait := p_evwait d AND NOT (e_mask (evbs s2 p))\<rparr>) s2)"
    let ?s2 = "takeoff p (put_nextp (last0 ks) (e_nextp (evbs s p)) s)"
    have go: "acancel_loop m (last0 ks) p m1 s = acancel_loop m (last0 ks) (hd0 ps) m1 s3"
      using True p by (subst acancel_loop.simps) (auto simp: open_ev_def s3_def Let_def)
    have rl: "rlr ?s2 = rlr s"
      using take_block(3) [OF Cons.prems(1,2) r refl, of 0] by (simp add: same_events_def set_pd_def)
    have s3: "s3 = set_pd (rlr s) (\<lambda>d. d\<lparr>p_evwait := p_evwait (pds ?s2 (rlr s)) AND NOT (e_mask (evbs ?s2 p))\<rparr>) ?s2"
      by (simp add: s3_def p(2) [symmetric] Let_def rl) (simp add: set_pd_def)
    note tb = take_block [OF Cons.prems(1,2) r s3]
    note se = same_eventsD [OF tb(3)]
    have "\<forall>e \<in> set ps. open_ev s3 m e \<longrightarrow> (\<exists>r. e \<in> set (without p L r))"
      using Cons.prems(3) p(3) se(1) by (auto simp: without_def)
    then obtain s' where s': "acancel_loop m (last0 ks) (hd0 ps) m1 s3 = Some (or_masks s (filter (kept_ev s m) ps) m1, s')"
      "blocks s' (rev (filter (open_ev s m) ps) @ p # fs) (ks @ filter (\<lambda>e. \<not> open_ev s m e) ps)"
      "lists s' (without_all (filter (open_ev s m) ps) (without p L))" "same_events s3 s'"
      using Cons.IH [OF tb(1,2), of m1] unfolding se by blast
    have "without_all (filter (open_ev s m) ps) (without p L) = without_all (filter (open_ev s m) (p # ps)) L"
      using True by (auto simp: without_all_def without_def fun_eq_iff intro!: filter_cong)
    moreover have "same_events s s'" using tb(3) s'(4) by (simp add: same_events_def)
    moreover have "\<not> kept_ev s m p" using True by (simp add: kept_ev_def)
    ultimately show ?thesis using go s' True by auto
  qed
qed

lemma apret_ok:
  assumes b: "blocks s fs (ks @ e # ps)" and l: "lists s L" and r: "e \<in> set (L r)"
    and m: "e_mask (evbs s e) = m" "\<forall>x \<in> set ks. e_mask (evbs s x) \<noteq> m"
  shows "\<exists>s'. apret m s = Some (word_of_int (e_return (evbs s e)), s') \<and> blocks s' (e # fs) (ks @ ps)
    \<and> lists s' (without e L) \<and> same_events s s'"
proof -
  have c: "chain (\<lambda>x. e_nextp (evbs s x)) (p_evlist (pds s (rlr s))) (ks @ e # ps)" using b by (simp add: blocks_def)
  have z: "e \<noteq> 0" "ks \<noteq> [] \<longrightarrow> last0 ks \<noteq> 0"
    using seg_nonzero [OF c] last_in_set [of ks] by (cases "last ks = 0"; auto simp: last0_def)+
  have f: "find_link (\<lambda>x. e_nextp (evbs s x)) (\<lambda>p. e_mask (evbs s p) = m) 0 (p_evlist (pds s (rlr s))) = Some (last0 ks, e)"
    by (rule find_link_hit [OF c m(2,1)])
  define s1 where "s1 = unlink_evb e s"
  define s2 where "s2 = put_nextp (last0 ks) (e_nextp (evbs s1 e)) s1"
  define s3 where "s3 = set_pd (rlr s2) (\<lambda>d. d\<lparr>p_evwait := p_evwait d AND NOT m, p_evflg := p_evflg d AND NOT m\<rparr>) s2"
  define s' where "s' = (set_evb e (\<lambda>b. b\<lparr>e_nextp := eul s3\<rparr>) s3)\<lparr>eul := e\<rparr>"
  note u = unlink_lists [OF l r, folded s1_def]
  have d: "e_nextp (evbs s1 x) = e_nextp (evbs s x)" "e_mask (evbs s1 x) = e_mask (evbs s x)"
    "e_flag (evbs s1 x) = e_flag (evbs s x)" "e_return (evbs s1 x) = e_return (evbs s x)" for x
    using u(2) by (simp_all add: same_data_def)
  have o: "rlr s1 = rlr s" "eul s1 = eul s" "pds s1 = pds s" "cqs s1 = cqs s"
    using still_sel(1,3,6) [OF others_still [OF u(3)]] others_pds [OF u(3)] by auto
  note q = put_nextp_sel [OF z(2), of "e_nextp (evbs s1 e)" s1, folded s2_def]
  have e: "evbs s3 = evbs s2" "eul s3 = eul s2" "rlr s3 = rlr s2" "p_evlist (pds s3 x) = p_evlist (pds s2 x)" "roots s3 = roots s2"
    "cqs s3 = cqs s2" for x
    by (simp_all add: s3_def set_pd_def)
  have ap: "apret m s = Some (word_of_int (e_return (evbs s e)), s')"
    by (simp add: apret_def f z(1) Let_def s1_def [symmetric] s2_def [symmetric] s3_def [symmetric] s'_def [symmetric])
      (simp add: e q d)
  have "blocks s' (e # fs) (ks @ ps)"
    by (rule snip_block [OF b]) (simp_all add: s'_def set_evb_def e q d o, use q(5) o d in simp)
  moreover have "lists s' (without e L)"
    by (rule lists_cong [OF u(1)]) (simp_all add: s'_def set_evb_def e q)
  moreover have "same_events s s'" by (simp add: same_events_def s'_def set_evb_def e q d o)
  ultimately show ?thesis using ap by blast
qed

lemma apret_miss:
  assumes "blocks s fs es" "\<forall>x \<in> set es. e_mask (evbs s x) \<noteq> m"
  shows "apret m s = Some (0, s)"
proof -
  have c: "chain (\<lambda>x. e_nextp (evbs s x)) (p_evlist (pds s (rlr s))) es" using assms(1) by (simp add: blocks_def)
  show ?thesis by (simp add: apret_def find_link_none [OF c assms(2)])
qed

definition has_mask :: "aes \<Rightarrow> (16 word) list \<Rightarrow> nat \<Rightarrow> bool" where
  "has_mask s ms e \<longleftrightarrow> e_mask (evbs s e) \<in> set ms"

lemma aprets_ok:
  assumes "blocks s fs es" "lists s L" "distinct (map (\<lambda>e. e_mask (evbs s e)) es)" "distinct ms"
    "\<forall>e \<in> set es. e_mask (evbs s e) \<noteq> 0 \<and> which AND e_mask (evbs s e) = e_mask (evbs s e) \<and> (\<exists>r. e \<in> set (L r))"
  shows "\<exists>rs s' fs'. aprets which ms s = Some (rs, s') \<and> blocks s' fs' (filter (\<lambda>e. \<not> has_mask s ms e) es)
    \<and> set fs' = set fs \<union> set (filter (has_mask s ms) es) \<and> lists s' (without_all (filter (has_mask s ms) es) L) \<and> same_events s s'
    \<and> (\<forall>e \<in> set es. has_mask s ms e \<longrightarrow> map_of rs (e_mask (evbs s e)) = Some (word_of_int (e_return (evbs s e))))"
  using assms
proof (induction ms arbitrary: s fs es L)
  case Nil
  then show ?case by (auto simp: has_mask_def without_all_def same_events_def)
next
  case (Cons m ms)
  show ?case
  proof (cases "\<exists>e \<in> set es. e_mask (evbs s e) = m")
    case False
    have hm: "has_mask s (m # ms) e = has_mask s ms e" if "e \<in> set es" for e using that False by (auto simp: has_mask_def)
    have fl: "filter (has_mask s (m # ms)) es = filter (has_mask s ms) es" "filter (\<lambda>e. \<not> has_mask s (m # ms) e) es = filter (\<lambda>e. \<not> has_mask s ms e) es"
      by (rule filter_cong; simp add: hm)+
    obtain rs s' fs' where r: "aprets which ms s = Some (rs, s')" "blocks s' fs' (filter (\<lambda>e. \<not> has_mask s ms e) es)"
      "set fs' = set fs \<union> set (filter (has_mask s ms) es)" "lists s' (without_all (filter (has_mask s ms) es) L)" "same_events s s'"
      "\<forall>e \<in> set es. has_mask s ms e \<longrightarrow> map_of rs (e_mask (evbs s e)) = Some (word_of_int (e_return (evbs s e)))"
      using Cons.IH [OF Cons.prems(1-3) _ Cons.prems(5)] Cons.prems(4) by auto
    have "apret m s = Some (0, s)" using apret_miss [OF Cons.prems(1)] False by blast
    then have "aprets which (m # ms) s = Some (if which AND m \<noteq> 0 then (m, 0) # rs else rs, s')" using r(1) by simp
    moreover have "\<forall>e \<in> set es. has_mask s (m # ms) e \<longrightarrow>
        map_of (if which AND m \<noteq> 0 then (m, 0) # rs else rs) (e_mask (evbs s e)) = Some (word_of_int (e_return (evbs s e)))"
      using r(6) False hm by auto
    ultimately show ?thesis using r(2-5) unfolding fl by blast
  next
    case True
    then obtain e where e: "e \<in> set es" "e_mask (evbs s e) = m" by blast
    then obtain ks ps where es: "es = ks @ e # ps" by (meson split_list)
    have wm: "which AND m \<noteq> 0" using bspec [OF Cons.prems(5) e(1)] e(2) by auto
    obtain r where r: "e \<in> set (L r)" using bspec [OF Cons.prems(5) e(1)] by blast
    have "distinct (map (\<lambda>x. e_mask (evbs s x)) ks @ m # map (\<lambda>x. e_mask (evbs s x)) ps)" using Cons.prems(3) e(2) unfolding es by simp
    then have om: "\<forall>x \<in> set (ks @ ps). e_mask (evbs s x) \<noteq> m" by auto
    then have ok: "\<forall>x \<in> set ks. e_mask (evbs s x) \<noteq> m" by auto
    obtain s1 where s1: "apret m s = Some (word_of_int (e_return (evbs s e)), s1)" "blocks s1 (e # fs) (ks @ ps)"
      "lists s1 (without e L)" "same_events s s1"
      using apret_ok [OF Cons.prems(1) [unfolded es] Cons.prems(2) r e(2) ok] by blast
    have hm: "has_mask s1 xs x = has_mask s xs x" for xs x using s1(4) by (simp add: has_mask_def same_events_def)
    have hc: "has_mask s (m # ms) x = has_mask s ms x" if "x \<in> set (ks @ ps)" for x using that om by (auto simp: has_mask_def)
    have d: "e \<notin> set (ks @ ps)" using Cons.prems(1) es by (auto simp: blocks_def)
    have pm: "distinct (map (\<lambda>x. e_mask (evbs s1 x)) (ks @ ps))"
      "\<forall>x \<in> set (ks @ ps). e_mask (evbs s1 x) \<noteq> 0 \<and> which AND e_mask (evbs s1 x) = e_mask (evbs s1 x) \<and> (\<exists>r. x \<in> set (without e L r))"
      using Cons.prems(3,5) es s1(4) d by (auto simp: same_events_def without_def)
    obtain rs s' fs' where q: "aprets which ms s1 = Some (rs, s')" "blocks s' fs' (filter (\<lambda>x. \<not> has_mask s ms x) (ks @ ps))"
      "set fs' = set (e # fs) \<union> set (filter (has_mask s ms) (ks @ ps))"
      "lists s' (without_all (filter (has_mask s ms) (ks @ ps)) (without e L))" "same_events s1 s'"
      "\<forall>x \<in> set (ks @ ps). has_mask s ms x \<longrightarrow> map_of rs (e_mask (evbs s1 x)) = Some (word_of_int (e_return (evbs s1 x)))"
      using Cons.IH [OF s1(2,3) pm(1) _ pm(2)] Cons.prems(4) unfolding hm by auto
    have he: "has_mask s (m # ms) e" using e(2) by (simp add: has_mask_def)
    have "filter (has_mask s (m # ms)) ks = filter (has_mask s ms) ks" "filter (has_mask s (m # ms)) ps = filter (has_mask s ms) ps"
      "filter (\<lambda>x. \<not> has_mask s (m # ms) x) ks = filter (\<lambda>x. \<not> has_mask s ms x) ks"
      "filter (\<lambda>x. \<not> has_mask s (m # ms) x) ps = filter (\<lambda>x. \<not> has_mask s ms x) ps"
      by (rule filter_cong; simp add: hc)+
    then have fl: "filter (has_mask s (m # ms)) es = filter (has_mask s ms) ks @ e # filter (has_mask s ms) ps"
      "filter (\<lambda>x. \<not> has_mask s (m # ms) x) es = filter (\<lambda>x. \<not> has_mask s ms x) (ks @ ps)"
      using es he by simp_all
    have "without_all (filter (has_mask s ms) (ks @ ps)) (without e L) = without_all (filter (has_mask s (m # ms)) es) L"
      unfolding fl by (auto simp: without_all_def without_def fun_eq_iff intro!: filter_cong)
    moreover have "aprets which (m # ms) s = Some ((m, word_of_int (e_return (evbs s e))) # rs, s')" using wm s1(1) q(1) by simp
    moreover have "\<forall>x \<in> set es. has_mask s (m # ms) x \<longrightarrow>
        map_of ((m, word_of_int (e_return (evbs s e))) # rs) (e_mask (evbs s x)) = Some (word_of_int (e_return (evbs s x)))"
      using q(6) om hc e(2) s1(4) es by (auto simp: same_events_def)
    moreover have "set fs' = set fs \<union> set (filter (has_mask s (m # ms)) es)" unfolding fl using q(3) by auto
    moreover have "same_events s s'" using s1(4) q(5) by (simp add: same_events_def)
    ultimately show ?thesis using q(2,4) unfolding fl(2) by metis
  qed
qed

section \<open>Properties\<close>

lemma ev_masks_ok: "distinct ev_masks" "0 \<notin> set ev_masks"
  by (simp_all add: ev_masks_def MU_KEYBD_def MU_BUTTON_def MU_M1_def MU_M2_def MU_M3_def MU_MESAG_def MU_TIMER_def)

text \<open>Process 1 waits with a keyboard event, which has come, and a timer.\<close>

definition key_came :: aes where
  "key_came = idle_aes\<lparr>roots := (\<lambda>_. 0)(Zlr := 1, Dlr := 2), pds := (\<lambda>_. idle_pd)(1 := idle_pd\<lparr>p_evlist := 1\<rparr>),
     evbs := (\<lambda>_. idle_evb)(1 := idle_evb\<lparr>e_nextp := 2, e_mask := MU_KEYBD, e_flag := COMPLETE, e_return := 0x41\<rparr>,
       2 := idle_evb\<lparr>e_pred := FAKE_EVB Dlr, e_mask := MU_TIMER, e_flag := EVDELAY, e_parm := 50\<rparr>)\<rparr>"

text \<open>
  C5. \<open>ev_multi\<close> leaks no event block: whatever events it has asked for, and whichever of
  them have come when it runs again, the clean-up returns with all of them free and none of them
  on any list; every event that has come is reported, the key and the number of clicks with it,
  and the events of other processes stay where they are.
\<close>

theorem collect_all:
  assumes "blocks s fs es" "lists s L" "distinct (map (\<lambda>e. e_mask (evbs s e)) es)"
    and "\<forall>e \<in> set es. has_mask s ev_masks e \<and> flags AND e_mask (evbs s e) = e_mask (evbs s e) \<and> (\<exists>r. e \<in> set (L r))"
  shows "\<exists>which' prets' s' fs'. ev_collect flags which prets s = Some (which', prets', s') \<and> blocks s' fs' []
    \<and> set fs' = set fs \<union> set es \<and> lists s' (without_all es L)
    \<and> (\<forall>e \<in> set es. e_flag (evbs s e) AND COMPLETE \<noteq> 0 \<longrightarrow> which' AND e_mask (evbs s e) = e_mask (evbs s e)
         \<and> (e_mask (evbs s e) = MU_KEYBD \<longrightarrow> prets' 4 = word_of_int (e_return (evbs s e)))
         \<and> (e_mask (evbs s e) = MU_BUTTON \<longrightarrow> prets' 5 = word_of_int (e_return (evbs s e))))"
proof -
  have nz: "e_mask (evbs s e) \<noteq> 0" "e_mask (evbs s e) AND flags \<noteq> 0" if "e \<in> set es" for e
    using bspec [OF assms(4) that] ev_masks_ok(2) by (auto simp: has_mask_def and.commute)
  have p0: "p_evlist (pds s (rlr s)) = hd0 es" using assms(1) chain_hd0 by (auto simp: blocks_def)
  define os where "os = filter (open_ev s flags) es"
  define cs where "cs = filter (\<lambda>e. \<not> open_ev s flags e) es"
  define m1 where "m1 = or_masks s (filter (kept_ev s flags) es) 0"
  obtain s1 where s1: "acancel flags s = Some (m1, s1)" "blocks s1 (rev os @ fs) cs" "lists s1 (without_all os L)" "same_events s s1"
    using acancel_loop_ok [of s fs "[]" es L flags 0] assms(1,2,4) by (auto simp: acancel_def p0 os_def cs_def m1_def)
  define s2 where "s2 = s1\<lparr>mtrans := 0\<rparr>"
  have s2: "blocks s2 (rev os @ fs) cs" "lists s2 (without_all os L)" "same_events s s2"
    using s1(2-4) by (simp_all add: s2_def blocks_def lists_def evlist_def same_events_def)
  have sel: "e_mask (evbs s2 x) = e_mask (evbs s x)" "e_return (evbs s2 x) = e_return (evbs s x)" "has_mask s2 xs x = has_mask s xs x" for x xs
    using s2(3) by (simp_all add: same_events_def has_mask_def)
  let ?w = "which OR m1"
  have w: "?w AND e_mask (evbs s e) = e_mask (evbs s e)" if "e \<in> set cs" for e
  proof -
    have "e \<in> set (filter (kept_ev s flags) es)" using that nz(2) by (auto simp: cs_def kept_ev_def)
    from or_masks_mem [OF this, of s 0] show ?thesis using or_keeps(1) [of m1 "e_mask (evbs s e)" which] by (simp add: m1_def or.commute)
  qed
  have dm: "distinct (map (\<lambda>e. e_mask (evbs s2 e)) cs)"
    using assms(3) unfolding sel cs_def by (rule distinct_map_filter)
  have ev: "\<forall>e \<in> set cs. e_mask (evbs s2 e) \<noteq> 0 \<and> ?w AND e_mask (evbs s2 e) = e_mask (evbs s2 e) \<and> (\<exists>r. e \<in> set (without_all os L r))"
  proof
    fix e
    assume e: "e \<in> set cs"
    then have "e \<in> set es" "e \<notin> set os" by (auto simp: cs_def os_def)
    moreover obtain r where "e \<in> set (L r)" using bspec [OF assms(4) \<open>e \<in> set es\<close>] by blast
    ultimately show "e_mask (evbs s2 e) \<noteq> 0 \<and> ?w AND e_mask (evbs s2 e) = e_mask (evbs s2 e) \<and> (\<exists>r. e \<in> set (without_all os L r))"
      using w [OF e] nz(1) sel(1) by (auto simp: without_all_def)
  qed
  have "\<forall>e \<in> set cs. has_mask s ev_masks e" using assms(4) by (auto simp: cs_def)
  then have all: "filter (has_mask s ev_masks) cs = cs" "filter (\<lambda>e. \<not> has_mask s ev_masks e) cs = []"
    by (auto simp: filter_empty_conv)
  obtain rs s' fs' where r: "aprets ?w ev_masks s2 = Some (rs, s')" "blocks s' fs' []" "set fs' = set (rev os @ fs) \<union> set cs"
    "lists s' (without_all cs (without_all os L))"
    "\<forall>e \<in> set cs. has_mask s ev_masks e \<longrightarrow> map_of rs (e_mask (evbs s e)) = Some (word_of_int (e_return (evbs s e)))"
    using aprets_ok [OF s2(1,2) dm ev_masks_ok(1) ev] unfolding sel all by blast
  have st: "set os \<union> set cs = set es" by (auto simp: os_def cs_def)
  have wa: "without_all cs (without_all os L) = without_all es L"
    using st by (auto simp: without_all_def fun_eq_iff intro!: filter_cong)
  have done_ev: "e \<in> set cs" "map_of rs (e_mask (evbs s e)) = Some (word_of_int (e_return (evbs s e)))"
    if "e \<in> set es" "e_flag (evbs s e) AND COMPLETE \<noteq> 0" for e
  proof -
    show c: "e \<in> set cs" using that by (auto simp: cs_def open_ev_def bit.conj_disj_distrib or_eq_0_iff)
    then show "map_of rs (e_mask (evbs s e)) = Some (word_of_int (e_return (evbs s e)))"
      using r(5) bspec [OF assms(4) that(1)] by blast
  qed
  define pr where "pr = (\<lambda>i. if i = 4 \<and> map_of rs MU_KEYBD \<noteq> None then the (map_of rs MU_KEYBD)
    else if i = 5 \<and> map_of rs MU_BUTTON \<noteq> None then the (map_of rs MU_BUTTON)
    else if i < 4 then fst (ev_rets s1) ! i else prets i)"
  have "ev_collect flags which prets s = Some (?w, pr, s')"
    using r(1) s1(1) by (auto simp: ev_collect_def ev_rets_def s2_def [symmetric] Let_def pr_def fun_eq_iff)
  moreover have "pr 4 = word_of_int (e_return (evbs s e))" if "e \<in> set es" "e_flag (evbs s e) AND COMPLETE \<noteq> 0" "e_mask (evbs s e) = MU_KEYBD" for e
    using done_ev(2) [OF that(1,2)] that(3) by (simp add: pr_def)
  moreover have "pr 5 = word_of_int (e_return (evbs s e))" if "e \<in> set es" "e_flag (evbs s e) AND COMPLETE \<noteq> 0" "e_mask (evbs s e) = MU_BUTTON" for e
    using done_ev(2) [OF that(1,2)] that(3) by (simp add: pr_def)
  moreover have "set fs' = set fs \<union> set es" using r(3) st by auto
  ultimately show ?thesis using r(2,4) done_ev(1) w unfolding wa by blast
qed

theorem collect_all_witness:
  "\<exists>which' prets' s' fs'. ev_collect (MU_KEYBD OR MU_TIMER) MU_KEYBD (\<lambda>_. 0) key_came = Some (which', prets', s')
    \<and> blocks s' fs' [] \<and> set fs' = {1, 2} \<and> prets' 4 = 0x41"
proof -
  have "blocks key_came [] [1, 2]" by (simp add: blocks_def key_came_def idle_evb_def idle_aes_def)
  moreover have "lists key_came ((\<lambda>_. [])(Zlr := [1], Dlr := [2]))"
    by (auto simp: lists_def evlist_def key_came_def idle_evb_def)
  moreover have "e_mask (evbs key_came 1) = MU_KEYBD" "e_mask (evbs key_came 2) = MU_TIMER" "e_flag (evbs key_came 1) = COMPLETE"
    "e_return (evbs key_came 1) = 0x41"
    by (simp_all add: key_came_def idle_evb_def)
  moreover have "distinct [MU_KEYBD, MU_TIMER]" "MU_KEYBD \<in> set ev_masks" "MU_TIMER \<in> set ev_masks"
    by (simp_all add: MU_KEYBD_def MU_TIMER_def ev_masks_def)
  moreover have "(MU_KEYBD OR MU_TIMER) AND MU_KEYBD = MU_KEYBD" "(MU_KEYBD OR MU_TIMER) AND MU_TIMER = MU_TIMER" "COMPLETE \<noteq> 0"
    by (simp_all add: MU_KEYBD_def MU_TIMER_def COMPLETE_def)
  ultimately show ?thesis
    using collect_all [of key_came "[]" "[1, 2]" "(\<lambda>_. [])(Zlr := [1], Dlr := [2])" "MU_KEYBD OR MU_TIMER" MU_KEYBD "\<lambda>_. 0"]
    by (fastforce simp: has_mask_def)
qed

text \<open>Taking a block from the free list.\<close>

lemma new_event_ok:
  assumes "blocks s (f # fs) es" "lists s L" "\<forall>r. f \<notin> set (L r)"
  shows "blocks (new_event f m s) fs (f # es)" "lists (new_event f m s) L" "rlr (new_event f m s) = rlr s"
    "e_mask (evbs (new_event f m s) f) = m" "e_pd (evbs (new_event f m s) f) = rlr s" "cqs (new_event f m s) = cqs s"
    "\<And>x. x \<noteq> f \<Longrightarrow> evbs (new_event f m s) x = evbs s x" "p_cda (pds (new_event f m s) x) = p_cda (pds s x)"
    "nr_list (new_event f m s) ns = nr_list s ns" "roots (new_event f m s) = roots s"
proof -
  let ?s = "new_event f m s"
  have sel: "rlr ?s = rlr s" "eul ?s = e_nextp (evbs s f)" "roots ?s = roots s" "cqs ?s = cqs s" "nrl ?s = nrl s"
    "p_evlist (pds ?s (rlr s)) = f" "\<And>x. p_cda (pds ?s x) = p_cda (pds s x)" "\<And>x. p_link (pds ?s x) = p_link (pds s x)"
    "\<And>x. x \<noteq> f \<Longrightarrow> evbs ?s x = evbs s x" "e_nextp (evbs ?s f) = p_evlist (pds s (rlr s))" "e_mask (evbs ?s f) = m" "e_pd (evbs ?s f) = rlr s"
    by (simp_all add: new_event_def set_evb_def set_pd_def Let_def)
  from assms(1) have c: "f \<noteq> 0" "chain (\<lambda>e. e_nextp (evbs s e)) (e_nextp (evbs s f)) fs"
    "chain (\<lambda>e. e_nextp (evbs s e)) (p_evlist (pds s (rlr s))) es" "distinct (f # fs @ es)"
    by (auto simp: blocks_def)
  have k: "seg (\<lambda>e. e_nextp (evbs ?s e)) h xs 0 = seg (\<lambda>e. e_nextp (evbs s e)) h xs 0" if "f \<notin> set xs" for h xs
    by (rule seg_cong) (use that sel(9) in metis)
  show "blocks ?s fs (f # es)" using c k [of fs] k [of es] sel by (simp add: blocks_def)
  have "evlist ?s r (L r)" for r
    using evlist_cong [of "L r" ?s s r] assms(2,3) sel(3,9) by (metis lists_def)
  then show "lists ?s L" using assms(2) by (simp add: lists_def)
  show "nr_list ?s ns = nr_list s ns" using sel(5,8) by (simp add: nr_list_def)
qed (simp_all add: new_event_def set_evb_def set_pd_def Let_def)

text \<open>
  C32. Waiting for an event that has already come is a round trip: \<open>ev_block\<close> for the
  keyboard, while keys are typed ahead, takes a free block, gets the oldest key, does not let
  another process run, and gives the block back; every list is as it was.
\<close>

theorem ev_block_key:
  assumes "keys (cqs s c) (x # xs)" "p_cda (pds s (rlr s)) = c" "nr_list s ns" "lists s L"
    and "blocks s (f # fs) es" "\<forall>r. f \<notin> set (L r)" "\<forall>e \<in> set es. e_mask (evbs s e) \<noteq> MU_KEYBD"
  shows "\<exists>s'. ev_block dsptch MU_KEYBD 0 s = Some (x, s') \<and> blocks s' (f # fs) es \<and> lists s' L \<and> keys (cqs s' c) xs"
proof -
  define s1 where "s1 = new_event f MU_KEYBD s"
  note n = new_event_ok [OF assms(5,4,6), where m = MU_KEYBD, folded s1_def]
  have f: "f \<noteq> 0" "eul s = f" using assms(5) by (auto simp: blocks_def)
  have kq: "keys (cqs s1 c) (x # xs)" using assms(1) n(6) by simp
  obtain q where q: "dq (cqs s1 c) = (x, q)" "keys q xs" using kbd.holds_get [OF kq] by (cases "dq (cqs s1 c)") auto
  have cnt: "c_cnt (cqs s1 c) \<noteq> 0" using kq by (simp add: keys_def)
  define s2 where "s2 = set_cq c (\<lambda>_. q) s1"
  have s2: "evbs s2 = evbs s1" "roots s2 = roots s1" "pds s2 = pds s1" "rlr s2 = rlr s1" "eul s2 = eul s1" "button s2 = button s1" "cqs s2 c = q"
    by (simp_all add: s2_def set_cq_def)
  have z: "nr_list s2 ns" "evlist s2 Zlr (L Zlr)"
    using n(2,9) assms(3) s2 by (simp_all add: s2_def lists_def nr_list_def set_cq_def evlist_def)
  have fz: "f \<notin> set (L Zlr)" using assms(6) by blast
  obtain s3 ns' where s3: "azombie f x s2 = Some s3" "evlist s3 Zlr (f # L Zlr)"
    "\<forall>y. y \<notin> set (f # L Zlr) \<longrightarrow> evbs s3 y = evbs s2 y" "same_data {f} (evbs s2) (evbs s3)"
    "e_mask (evbs s3 f) = e_mask (evbs s2 f)" "e_pd (evbs s3 f) = e_pd (evbs s2 f)" "e_nextp (evbs s3 f) = e_nextp (evbs s2 f)"
    "e_return (evbs s3 f) = MAKE_LONG (button s2) x" "\<forall>r. r \<noteq> Zlr \<longrightarrow> roots s3 r = roots s2 r" "still s3 = still s2"
    "same_pds (pds s2) (pds s3)"
    "\<And>p. p_evflg (pds s3 p) = (if p = e_pd (evbs s2 f) then p_evflg (pds s2 p) OR e_mask (evbs s2 f) else p_evflg (pds s2 p))"
    by (rule azombie_ok [OF z fz f(1), of x]) blast
  have rl: "rlr s3 = rlr s" "eul s3 = eul s2" "cqs s3 = cqs s2" using still_sel(1,3,6) [OF s3(10)] s2(4) n(3) by auto
  have e3: "e_mask (evbs s3 f) = MU_KEYBD" using s3(5) s2(1) n(4) by simp
  have fl: "MU_KEYBD AND p_evflg (pds s3 (rlr s)) = MU_KEYBD"
    using s3(12) [of "rlr s"] s2(1) n(4,5) or_keeps(2) by (simp add: and.commute)
  define s4 where "s4 = set_pd (rlr s3) (\<lambda>d. d\<lparr>p_evwait := MU_KEYBD\<rparr>) s3"
  have s4: "evbs s4 = evbs s3" "roots s4 = roots s3" "rlr s4 = rlr s" "eul s4 = eul s3" "cqs s4 = cqs s3"
    "p_evlist (pds s4 y) = p_evlist (pds s3 y)" "p_evflg (pds s4 y) = p_evflg (pds s3 y)" for y
    by (simp_all add: s4_def set_pd_def rl)
  have nx: "e_nextp (evbs s4 y) = e_nextp (evbs s1 y)" for y
    using s3(4,7) s2(1) s4(1) by (cases "y = f") (auto simp: same_data_def)
  have "blocks s4 fs ([] @ f # es)"
    using n(1) nx s4 rl s2 s3(11) n(3) by (auto simp: blocks_def same_pds_def)
  moreover have "lists s4 (L(Zlr := f # L Zlr))"
  proof -
    have "evlist s4 r (L r)" if "r \<noteq> Zlr" for r
    proof -
      have "\<forall>y \<in> set (L r). evbs s4 y = evbs s2 y" using s3(3) s4(1) n(2) that assms(6) by (auto simp: lists_def disjoint_iff)
      moreover have "evlist s2 r (L r)" using n(2) s2 by (simp add: lists_def evlist_def)
      ultimately show ?thesis using evlist_cong [of "L r" s4 s2 r] s3(9) s4(2) that by simp
    qed
    moreover have "evlist s4 Zlr (f # L Zlr)" using s3(2) s4 by (simp add: evlist_def)
    ultimately show ?thesis using n(2) assms(6) by (auto simp: lists_def)
  qed
  moreover have "f \<in> set ((L(Zlr := f # L Zlr)) Zlr)" by simp
  moreover have "e_mask (evbs s4 f) = MU_KEYBD" "\<forall>y \<in> set []. e_mask (evbs s4 y) \<noteq> MU_KEYBD" using e3 s4(1) by simp_all
  ultimately obtain s' where s': "apret MU_KEYBD s4 = Some (word_of_int (e_return (evbs s4 f)), s')" "blocks s' (f # fs) es"
    "lists s' (without f (L(Zlr := f # L Zlr)))" "same_events s4 s'"
    using apret_ok [of s4 fs "[]" f es "L(Zlr := f # L Zlr)" Zlr MU_KEYBD] by auto
  have "without f (L(Zlr := f # L Zlr)) r = L r" for r
    using assms(6) by (auto simp: without_def intro!: filter_True)
  then have L: "without f (L(Zlr := f # L Zlr)) = L" by (rule ext)
  have r: "word_of_int (e_return (evbs s4 f)) = x" using s3(8) s4(1) hiword_make(2) [of "button s2" x] by (simp add: LOWORD_def)
  have st: "start_event MU_KEYBD f 0 s1 = Some s3"
    using s3(1) q(1) cnt n(3,8) assms(2) by (simp add: start_event_def akbin_def s2_def)
  have "iasync MU_KEYBD 0 s = Some (MU_KEYBD, s3)" using st f e3 by (simp add: iasync_def s1_def [symmetric] Let_def)
  moreover have "MU_KEYBD \<noteq> 0" by (simp add: MU_KEYBD_def)
  then have "mwait dsptch MU_KEYBD s3 = Some (p_evflg (pds s4 (rlr s)), s4)"
    using s4(3,7) fl by (simp add: mwait_def s4_def [symmetric] Let_def)
  ultimately have "ev_block dsptch MU_KEYBD 0 s = Some (x, s')" using s'(1) r by (simp add: ev_block_def)
  moreover have "keys (cqs s' c) xs" using s'(4) s4(5) rl(3) s2(7) q(2) by (simp add: same_events_def)
  ultimately show ?thesis using s'(2,3) L by auto
qed

definition key_typed :: aes where
  "key_typed = set_cq 0 (nq 0x41) (idle_aes\<lparr>eul := 5\<rparr>)"

theorem ev_block_key_witness: "\<exists>s'. ev_block (\<lambda>_. None) MU_KEYBD 0 key_typed = Some (0x41, s') \<and> blocks s' [5] []"
proof -
  have "keys (nq 0x41 (cqs idle_aes 0)) [0x41]" using kbd.holds_put [OF idle_rings(1) [of 0], of "0x41"] by (simp add: KBD_SIZE_def)
  then have k: "keys (cqs key_typed 0) [0x41]" by (simp add: key_typed_def set_cq_def)
  have "nr_list key_typed []" "lists key_typed (\<lambda>_. [])" "blocks key_typed [5] []" "p_cda (pds key_typed (rlr key_typed)) = 0"
    by (simp_all add: nr_list_def lists_def evlist_def blocks_def key_typed_def set_cq_def idle_aes_def idle_pd_def idle_evb_def)
  then show ?thesis using ev_block_key [OF k, of "[]" "\<lambda>_. []" 5 "[]" "[]" "\<lambda>_. None"] by auto
qed

end
