(* ===== verification/Spec2Isabelle.thy ===== *)
theory Spec2Isabelle
  imports DosTime UMem FsIo FsNames FsDrive WinRect AesWait
begin

text \<open>
  A model of the core of pTOS, a TOS-compatible operating system for m68k and Arm machines
  that descends from EmuTOS.

  \<^bold>\<open>The program.\<close> The BIOS (src/bios) drives the hardware; on top of it the BDOS (src/bdos)
  implements GEMDOS: processes, memory, dates, and FAT file systems behind a cache of
  sectors. The VDI (src/vdi) draws, the AES (src/aes) keeps object trees, windows and
  processes, and the desktop (src/desk) and the command interpreter (src/cli) are programs
  that use them. A program's call goes through the BDOS dispatcher to one of the functions
  modelled here; the lower layers it uses are called in the model as they are in the code.

  \<^bold>\<open>Theories and what they model.\<close>
  \<^item> \<open>Prelude\<close>: the C integer types (include/portab.h), GEMDOS errors (include/gemerror.h),
    and linked lists in a store: \<open>find_link\<close> is the search loop with a pointer to the
    predecessor that the allocators, the cache and the window lists all use.
  \<^item> \<open>Clock\<close>: the register formats of the clock chips (bios/clock.c). The state is the bytes a
    chip is sent. Shared interface: locale \<open>rtc_chip\<close>, what is set is what is read back.
  \<^item> \<open>DosTime\<close>: GEMDOS date and time (bdos/time.c, util/date.c): the 20 ms tick against an
    abstract calendar, and the four system calls.
  \<^item> \<open>OsMem\<close>: the internal pool of the BDOS (bdos/osmem.c), blocks of 128 bytes and memory
    descriptors packed three to a block. Locale \<open>md_source\<close>: what the user memory manager
    relies on.
  \<^item> \<open>UMem\<close>: user memory (bdos/iumem.c, bdos/umem.c, parts of bios/biosmem.c and bdos/proc.c):
    free and allocated lists of descriptors taken from \<open>OsMem\<close>, first fit, joining, and
    Malloc, Mfree, Mshrink, Mxalloc, Maddalt.
  \<^item> \<open>FsTypes\<close>, \<open>BufCache\<close>, \<open>FsFat\<close>, \<open>FsHand\<close>, \<open>FsIo\<close>: the file system below the directories. The
    structures (bdos/fs.h), the sector cache (bdos/fsbuf.c), the allocation table
    (bdos/fsfat.c), file handles (bdos/fshand.c), and Fread, Fwrite, Fseek (bdos/fsio.c).
    Each layer calls the one below; the state \<open>fsst\<close> holds the descriptors and buffers by
    their addresses, the disk and the user's memory.
  \<^item> \<open>CStrings\<close>, \<open>FsNames\<close>: C strings in a byte memory (util/string.c); file names in 8.3 form
    and the table of current directories (bdos/fsdir.c, parts of fs/fatfs_pfs.c and
    bdos/fsopnclo.c).
  \<^item> \<open>FsDrive\<close>: logging a drive in (bdos/fsdrive.c): from the parameters the BIOS returns to the
    media descriptor, the allocation table and root directory files of a drive, and the
    check before each use of a drive.
  \<^item> \<open>ObTree\<close>, \<open>WinRect\<close>: AES object trees (aes/gemobjop.c, parts of aes/gemoblib.c and
    aes/gemwmlib.c), and with them the rectangles of util/rectfunc.c and the lists of
    visible rectangles of the windows (aes/gemwrect.c).
  \<^item> \<open>AesEvents\<close>: the state of the AES kernel, a record \<open>aes\<close> with the store of event blocks and
    process descriptors and the roots of their lists, and the operations on it (aes/gemasync.c):
    an event block lies in the list of its process and in one list of what it waits for, which
    is doubly linked. With them the delay list (\<open>adelay\<close>, \<open>tchange\<close>) as a set of timers.
  \<^item> \<open>AesSync\<close>: semaphores (aes/gemflag.c).
  \<^item> \<open>AesQueues\<close>: the keyboard ring and the ring of calls queued by interrupts (aes/geminput.c,
    aes/gemdisp.c). Locale \<open>bounded_queue\<close>, interpreted on both rings.
  \<^item> \<open>AesInput\<close>: mouse, buttons and keyboard (aes/geminput.c). Locale \<open>list_sweep\<close>: a walk along a
    waiting list that completes the events which hold, interpreted on the two walks of the code.
  \<^item> \<open>AesDisp\<close>: the dispatcher up to the switch (aes/gemdisp.c), on the lists of ready and
    waiting processes.
  \<^item> \<open>AesPipe\<close>: the message queue of a process, 128 bytes with their readers and writers
    (aes/gemqueue.c); redraw messages of a window are joined.
  \<^item> \<open>AesWait\<close>: the event library (aes/gemevlib.c), which takes blocks, waits, cancels and
    collects; it calls all of the theories before it.

  \<^bold>\<open>Conventions.\<close> A C structure is a record, an array of them or the memory they live in a
  function from addresses or indices; address 0 is the null pointer. Integers of 16 and 32
  bits are words where the code works on their bits, and mathematical integers reduced by
  \<open>s16\<close>, \<open>u16\<close>, \<open>s32\<close>, \<open>u32\<close> where it calculates; \<open>int\<close> has 16 bits, the m68k build (\<open>-mshort\<close>).
  Errors of the file system are the left summand of \<open>res\<close> (a \<open>longjmp\<close> to the dispatcher keeps
  the state reached). \<open>None\<close> as the result of an operation stands for a loop that does not
  return or a write through a null pointer; every theorem about success states that the
  result is \<open>Some\<close>. No definition has fuel: loops that may run forever are partial
  functions, those whose bound is evident are primitive or well-founded recursions.
  The device driver is a parameter, a record of functions that decide which transfers
  fail, with what is assumed of it in \<open>driver_ok\<close>. The event library has as parameters the
  dispatcher, which runs other programs until the caller is ready, the window under the mouse
  (\<open>wm_find\<close>), the characters the keyboard has when it is polled, the length of a tick, and the
  address of the parameter block that is on the caller's stack.

  \<^bold>\<open>What is shown.\<close> Round trips: clock formats, 8.3 names, FAT entries; waiting for a key
  that has been typed. Refinement: first fit and
  freeing against operations on an abstract free set; the tick against the calendar; the
  visible rectangles against sets of points; the cache against an abstract disk; the delay
  list against a set of timers; the bytes of a message queue against a list of messages. Invariants:
  the pools and lists stay well-formed under every operation; object trees stay forests; the
  AES learns the true state of the buttons; no event block is lost. Safety, liveness and
  termination: a semaphore excludes all but its owner and reaches every waiting process; the
  queued calls are run once each, in order; the dispatcher loses no process.
  Functional behaviour: Fread returns the bytes of the file along its cluster chain through
  the cache and direct transfers; seeking, duplicating and forcing handles; searching for
  free clusters finds one exactly when there is one. Errors: bad handles and addresses,
  disk errors, memory exhaustion. The pool of window rectangles suffices when it holds
  \<open>4 ^ (n + 1)\<close> records for \<open>n\<close> windows. Some theorems state deviations: requests that wrap,
  losses in clock formats, the only child of \<open>ob_order\<close>, the unterminated copy of \<open>strlencpy\<close>.

  \<^bold>\<open>Not modelled.\<close> Directories beyond names (creating, searching and deleting entries of a disk),
  opening and closing files, pluggable file systems, process creation and program loading,
  devices and machine support, drawing, the switch between stacks, the control loop of the
  AES with its windows, menus and forms beyond what is named, resources, desktop, command
  interpreter, USB and the build tools: they are hardware access, drawing, or clients of what is modelled, or
  left for an extension. Debug output, and the alternatives under configuration options
  other than those named in the theories, are left out.
\<close>

end
